(* ===== verification/Prelude.thy ===== *)
theory Prelude
  imports Main "HOL-Library.Word"
begin

text \<open>
  Shared vocabulary of the development: the fixed-width integer types the C code uses,
  the collections of simplification rules the component theories extend, and generic
  lemmas about function updates and sums over an index range that several components use.
\<close>

type_synonym u8 = "8 word"
type_synonym u16 = "16 word"
type_synonym u32 = "32 word"
type_synonym u64 = "64 word"

named_theorems lock_simps \<open>unfolding rules of lock programs\<close>

section \<open>Sums over an index range with one or two entries changed\<close>

lemma sum_fun_upd_lessThan:
  fixes f :: "nat \<Rightarrow> int"
  assumes "i < n"
  shows "(\<Sum>k<n. (f(i := v)) k) = (\<Sum>k<n. f k) - f i + v"
proof -
  have fin: "finite {..<n}" and mem: "i \<in> {..<n}"
    using assms by auto
  have "(\<Sum>k<n. (f(i := v)) k) = v + (\<Sum>k\<in>{..<n} - {i}. (f(i := v)) k)"
    using sum.remove [OF fin mem, of "f(i := v)"] by simp
  also have "(\<Sum>k\<in>{..<n} - {i}. (f(i := v)) k) = (\<Sum>k\<in>{..<n} - {i}. f k)"
    by (rule sum.cong) auto
  also have "\<dots> = (\<Sum>k<n. f k) - f i"
    using sum.remove [OF fin mem, of f] by simp
  finally show ?thesis by simp
qed

lemma sum_list_map_upt_lessThan:
  fixes f :: "nat \<Rightarrow> int"
  shows "sum_list (map f [0..<n]) = (\<Sum>k<n. f k)"
  by (simp add: interv_sum_list_conv_sum_set_nat atLeast0LessThan)

end
