(* ===== verification/Locks.thy ===== *)
theory Locks
  imports Prelude
begin

text \<open>
  The operational model of the multi-threaded parts of the repository. A function that
  takes and releases mutexes is a lock program: the sequence of its mutex calls and of
  its accesses to shared memory, each access one step, with the rest of the function a
  continuation of the values it read. Any number of threads run such programs and are
  interleaved step by step. Two contracts on the programs are stated as locales: a lock
  order, which excludes deadlock, and a resource invariant per lock, which gives the
  properties of the shared data in every interleaving.
\<close>

section \<open>Lock programs and their interleaving\<close>

text \<open>
  \<open>Acq l p\<close> is \<^verbatim>\<open>pthread_mutex_lock(&l)\<close> followed by \<open>p\<close>, \<open>Rel l p\<close> the unlock,
  \<open>Do f k\<close> one step on the shared state: it becomes \<open>f s\<close>, and the thread goes on with
  \<open>k s\<close>, which may use what it read in \<open>s\<close>. \<open>Ret r\<close> is the return from the function.
\<close>

datatype ('l, 's, 'r) prog =
    Ret 'r
  | Acq 'l "('l, 's, 'r) prog"
  | Rel 'l "('l, 's, 'r) prog"
  | Do "'s \<Rightarrow> 's" "'s \<Rightarrow> ('l, 's, 'r) prog"

abbreviation Read :: "('s \<Rightarrow> ('l, 's, 'r) prog) \<Rightarrow> ('l, 's, 'r) prog" where
  "Read k \<equiv> Do (\<lambda>s. s) k"

abbreviation Write :: "('s \<Rightarrow> 's) \<Rightarrow> ('l, 's, 'r) prog \<Rightarrow> ('l, 's, 'r) prog" where
  "Write f p \<equiv> Do f (\<lambda>_. p)"

record ('l, 's, 'r) sys =
  shared :: 's
  thr :: "nat \<Rightarrow> ('l, 's, 'r) prog"
  owner :: "'l \<Rightarrow> nat option"

text \<open>
  A mutex of the default kind: a second lock by its own owner waits for ever, and only
  the owner's unlock is defined. A thread that has returned starts another request.
\<close>

inductive tstep ::
    "('l, 's, 'r) prog set \<Rightarrow> nat \<Rightarrow> ('l, 's, 'r) sys \<Rightarrow> ('l, 's, 'r) sys \<Rightarrow> bool"
  for R :: "('l, 's, 'r) prog set" where
  step_acq: "thr c i = Acq l p \<Longrightarrow> owner c l = None \<Longrightarrow>
     tstep R i c (c\<lparr>thr := (thr c)(i := p), owner := (owner c)(l := Some i)\<rparr>)"
| step_rel: "thr c i = Rel l p \<Longrightarrow> owner c l = Some i \<Longrightarrow>
     tstep R i c (c\<lparr>thr := (thr c)(i := p), owner := (owner c)(l := None)\<rparr>)"
| step_do: "thr c i = Do f k \<Longrightarrow>
     tstep R i c (c\<lparr>thr := (thr c)(i := k (shared c)), shared := f (shared c)\<rparr>)"
| step_next: "thr c i = Ret r \<Longrightarrow> p \<in> R \<Longrightarrow>
     tstep R i c (c\<lparr>thr := (thr c)(i := p)\<rparr>)"

definition step :: "('l, 's, 'r) prog set \<Rightarrow> ('l, 's, 'r) sys \<Rightarrow> ('l, 's, 'r) sys \<Rightarrow> bool" where
  "step R c c' \<longleftrightarrow> (\<exists>i. tstep R i c c')"

lemma stepI: "tstep R i c c' \<Longrightarrow> step R c c'"
  by (auto simp: step_def)

lemma step_cases [consumes 1, case_names step_acq step_rel step_do step_next]:
  assumes "step R c c'"
  obtains i l p where "thr c i = Acq l p" "owner c l = None"
      "c' = c\<lparr>thr := (thr c)(i := p), owner := (owner c)(l := Some i)\<rparr>"
  | i l p where "thr c i = Rel l p" "owner c l = Some i"
      "c' = c\<lparr>thr := (thr c)(i := p), owner := (owner c)(l := None)\<rparr>"
  | i f k where "thr c i = Do f k"
      "c' = c\<lparr>thr := (thr c)(i := k (shared c)), shared := f (shared c)\<rparr>"
  | i r p where "thr c i = Ret r" "p \<in> R" "c' = c\<lparr>thr := (thr c)(i := p)\<rparr>"
  using assms by (auto simp: step_def elim!: tstep.cases)

definition sys_init :: "'s \<Rightarrow> 'r \<Rightarrow> ('l, 's, 'r) sys" where
  "sys_init s r = \<lparr>shared = s, thr = (\<lambda>_. Ret r), owner = (\<lambda>_. None)\<rparr>"

inductive reach :: "('l, 's, 'r) prog set \<Rightarrow> ('l, 's, 'r) sys \<Rightarrow> ('l, 's, 'r) sys \<Rightarrow> bool"
  for R :: "('l, 's, 'r) prog set" and c0 :: "('l, 's, 'r) sys" where
  reach_init: "reach R c0 c0"
| reach_step: "reach R c0 c \<Longrightarrow> step R c c' \<Longrightarrow> reach R c0 c'"

definition held :: "('l, 's, 'r) sys \<Rightarrow> nat \<Rightarrow> 'l set" where
  "held c i = {l. owner c l = Some i}"

lemma held_init [simp]: "held (sys_init s r) i = {}"
  by (simp add: held_def sys_init_def)

lemma sys_init_simps [simp]:
  "shared (sys_init s r) = s" "thr (sys_init s r) i = Ret r" "owner (sys_init s r) l = None"
  by (simp_all add: sys_init_def)

text \<open>The held sets after each kind of step.\<close>

lemma held_acq:
  "owner c l = None \<Longrightarrow>
   held (c\<lparr>thr := t, owner := (owner c)(l := Some i)\<rparr>) j =
     (if j = i then insert l (held c i) else held c j)"
  by (auto simp: held_def)

lemma held_rel:
  "owner c l = Some i \<Longrightarrow>
   held (c\<lparr>thr := t, owner := (owner c)(l := None)\<rparr>) j =
     (if j = i then held c i - {l} else held c j)"
  by (auto simp: held_def)

lemma held_do [simp]: "held (c\<lparr>thr := t, shared := s\<rparr>) j = held c j"
  by (simp add: held_def)

lemma held_next [simp]: "held (c\<lparr>thr := t\<rparr>) j = held c j"
  by (simp add: held_def)

lemma held_disjoint: "l \<in> held c i \<Longrightarrow> l \<in> held c j \<Longrightarrow> i = j"
  by (simp add: held_def)

section \<open>One program on its own\<close>

text \<open>The result of a program that no other thread disturbs: its sequential meaning.\<close>

primrec run :: "('l, 's, 'r) prog \<Rightarrow> 's \<Rightarrow> 's \<times> 'r" where
  "run (Ret r) = (\<lambda>s. (s, r))"
| "run (Acq l p) = run p"
| "run (Rel l p) = run p"
| "run (Do f k) = (\<lambda>s. run (k s) (f s))"

text \<open>
  A program whose mutex calls are paired: it takes only mutexes it does not hold, releases
  only those it holds, and returns holding none. Such a program, started while no mutex is
  taken, can always run to its end undisturbed.
\<close>

primrec paired :: "('l, 's, 'r) prog \<Rightarrow> 'l set \<Rightarrow> bool" where
  "paired (Ret r) = (\<lambda>H. H = {})"
| "paired (Acq l p) = (\<lambda>H. l \<notin> H \<and> paired p (insert l H))"
| "paired (Rel l p) = (\<lambda>H. l \<in> H \<and> paired p (H - {l}))"
| "paired (Do f k) = (\<lambda>H. \<forall>s. paired (k s) H)"

lemma reach_trans: "reach R c1 c2 \<Longrightarrow> reach R c0 c1 \<Longrightarrow> reach R c0 c2"
  by (induction rule: reach.induct) (auto intro: reach.reach_step)

lemma reach_first: "tstep R i c c1 \<Longrightarrow> reach R c1 c2 \<Longrightarrow> reach R c c2"
  by (rule reach_trans) (auto intro: reach.intros stepI)

lemma solo_steps:
  assumes "paired p H" and "thr c i = p" and "\<forall>l. owner c l = (if l \<in> H then Some i else None)"
  shows "\<exists>c'. reach R c c' \<and> thr c' i = Ret (snd (run p (shared c))) \<and>
    shared c' = fst (run p (shared c)) \<and> owner c' = (\<lambda>_. None)"
  using assms
proof (induction p arbitrary: H c)
  case (Ret r)
  then show ?case by (intro exI [of _ c]) (auto intro: reach_init)
next
  case (Acq l p)
  let ?c = "c\<lparr>thr := (thr c)(i := p), owner := (owner c)(l := Some i)\<rparr>"
  have "tstep R i c ?c" using Acq.prems by (intro tstep.step_acq) auto
  moreover have "\<exists>c'. reach R ?c c' \<and> thr c' i = Ret (snd (run p (shared ?c))) \<and>
      shared c' = fst (run p (shared ?c)) \<and> owner c' = (\<lambda>_. None)"
    by (rule Acq.IH [of "insert l H"]) (use Acq.prems in auto)
  ultimately show ?case by (auto intro: reach_first)
next
  case (Rel l p)
  let ?c = "c\<lparr>thr := (thr c)(i := p), owner := (owner c)(l := None)\<rparr>"
  have "tstep R i c ?c" using Rel.prems by (intro tstep.step_rel) auto
  moreover have "\<exists>c'. reach R ?c c' \<and> thr c' i = Ret (snd (run p (shared ?c))) \<and>
      shared c' = fst (run p (shared ?c)) \<and> owner c' = (\<lambda>_. None)"
    by (rule Rel.IH [of "H - {l}"]) (use Rel.prems in auto)
  ultimately show ?case by (auto intro: reach_first)
next
  case (Do f k)
  let ?c = "c\<lparr>thr := (thr c)(i := k (shared c)), shared := f (shared c)\<rparr>"
  have "tstep R i c ?c" using Do.prems by (intro tstep.step_do) auto
  moreover have "\<exists>c'. reach R ?c c' \<and> thr c' i = Ret (snd (run (k (shared c)) (shared ?c))) \<and>
      shared c' = fst (run (k (shared c)) (shared ?c)) \<and> owner c' = (\<lambda>_. None)"
    by (rule Do.IH [of "k (shared c)" H]) (use Do.prems in auto)
  ultimately show ?case by (auto intro: reach_first)
qed

lemma solo_run:
  assumes "paired p {}" and "p \<in> R"
  obtains c where "reach R (sys_init s r) c" and "thr c 0 = Ret (snd (run p s))"
    and "shared c = fst (run p s)" and "owner c = (\<lambda>_. None)"
proof -
  let ?c = "(sys_init s r)\<lparr>thr := (thr (sys_init s r))(0 := p)\<rparr>"
  have "tstep R 0 (sys_init s r) ?c" using assms(2) by (intro tstep.step_next) auto
  moreover have "\<exists>c'. reach R ?c c' \<and> thr c' 0 = Ret (snd (run p (shared ?c))) \<and>
      shared c' = fst (run p (shared ?c)) \<and> owner c' = (\<lambda>_. None)"
    by (rule solo_steps [OF assms(1)]) auto
  ultimately show ?thesis using that by (auto intro: reach_first)
qed

section \<open>Deadlock\<close>

text \<open>
  A set of threads is stuck when each of them waits for a mutex that a thread of the
  set owns: the circular wait. A stuck set never moves again.
\<close>

definition stuck :: "nat set \<Rightarrow> ('l, 's, 'r) sys \<Rightarrow> bool" where
  "stuck D c \<longleftrightarrow> D \<noteq> {} \<and>
     (\<forall>i\<in>D. \<exists>l p j. thr c i = Acq l p \<and> owner c l = Some j \<and> j \<in> D)"

lemma stuckD:
  "stuck D c \<Longrightarrow> i \<in> D \<Longrightarrow> \<exists>l p j. thr c i = Acq l p \<and> owner c l = Some j \<and> j \<in> D"
  by (auto simp: stuck_def)

lemma stuck_thread_still:
  assumes "stuck D c" and "step R c c'" and "i \<in> D"
  shows "thr c' i = thr c i"
  using assms(2) stuckD [OF assms(1) assms(3)] by (cases rule: step_cases) auto

lemma stuck_owner_still:
  assumes "stuck D c" and "step R c c'" and "owner c l = Some j" and "j \<in> D"
  shows "owner c' l = Some j"
  using assms(2,3) stuckD [OF assms(1) assms(4)] by (cases rule: step_cases) auto

lemma stuck_stable:
  assumes "stuck D c" and "step R c c'"
  shows "stuck D c'"
proof -
  have "\<exists>l p j. thr c' i = Acq l p \<and> owner c' l = Some j \<and> j \<in> D" if i: "i \<in> D" for i
  proof -
    from stuckD [OF assms(1) i] obtain l p j
      where w: "thr c i = Acq l p" "owner c l = Some j" "j \<in> D"
      by blast
    then show ?thesis
      using stuck_thread_still [OF assms i] stuck_owner_still [OF assms w(2) w(3)] by auto
  qed
  then show ?thesis using assms(1) by (auto simp: stuck_def)
qed

lemma stuck_for_ever: "reach R c c' \<Longrightarrow> stuck D c \<Longrightarrow> stuck D c'"
  by (induction rule: reach.induct) (auto intro: stuck_stable)

text \<open>
  The two-thread circular wait, for any two requests that nest two mutexes in opposite
  orders. \<open>dos p s q t\<close>: from \<open>p\<close> in state \<open>s\<close> the thread arrives at \<open>q\<close> in state \<open>t\<close>
  by memory accesses alone.
\<close>

inductive dos :: "('l, 's, 'r) prog \<Rightarrow> 's \<Rightarrow> ('l, 's, 'r) prog \<Rightarrow> 's \<Rightarrow> bool" where
  dos_none: "dos p s p s"
| dos_do: "dos (k s) (f s) q t \<Longrightarrow> dos (Do f k) s q t"

lemma reach_dos:
  "dos p s q t \<Longrightarrow> thr c i = p \<Longrightarrow> shared c = s \<Longrightarrow>
   reach R c (c\<lparr>thr := (thr c)(i := q), shared := t\<rparr>)"
proof (induction arbitrary: c rule: dos.induct)
  case (dos_none p s)
  then have same: "c\<lparr>thr := (thr c)(i := p), shared := s\<rparr> = c" by auto
  show ?case unfolding same by (rule reach_init)
next
  case (dos_do k s f q t)
  let ?c = "c\<lparr>thr := (thr c)(i := k s), shared := f s\<rparr>"
  have "step R c ?c" using tstep.step_do [of c i f k R] dos_do.prems by (auto intro: stepI)
  then have "reach R c ?c" by (auto intro: reach.intros)
  have "reach R ?c (?c\<lparr>thr := (thr ?c)(i := q), shared := t\<rparr>)"
    by (rule dos_do.IH) simp_all
  then have "reach R c (?c\<lparr>thr := (thr ?c)(i := q), shared := t\<rparr>)"
    using \<open>reach R c ?c\<close> by (rule reach_trans)
  moreover have eq: "?c\<lparr>thr := (thr ?c)(i := q), shared := t\<rparr> = c\<lparr>thr := (thr c)(i := q), shared := t\<rparr>"
    by (cases c) simp
  ultimately show ?case by (simp only: eq)
qed

lemma reach_acq:
  "thr c i = Acq l p \<Longrightarrow> owner c l = None \<Longrightarrow>
   reach R c (c\<lparr>thr := (thr c)(i := p), owner := (owner c)(l := Some i)\<rparr>)"
  by (rule reach.reach_step [OF reach.reach_init stepI [OF tstep.step_acq]])

lemma reach_next:
  "thr c i = Ret r \<Longrightarrow> p \<in> R \<Longrightarrow> reach R c (c\<lparr>thr := (thr c)(i := p)\<rparr>)"
  by (rule reach.reach_step [OF reach.reach_init stepI [OF tstep.step_next]])

text \<open>One thread enters a request, takes its first mutex and goes on to the second.\<close>

lemma reach_to_second_lock:
  assumes "thr c i = Ret r" and "Acq a p \<in> R" and "owner c a = None"
    and "dos p (shared c) q t"
  shows "reach R c (c\<lparr>shared := t, thr := (thr c)(i := q), owner := (owner c)(a := Some i)\<rparr>)"
proof -
  let ?c1 = "c\<lparr>thr := (thr c)(i := Acq a p)\<rparr>"
  let ?c2 = "?c1\<lparr>thr := (thr ?c1)(i := p), owner := (owner ?c1)(a := Some i)\<rparr>"
  have "reach R c ?c1" by (rule reach_next [OF assms(1) assms(2)])
  moreover have "reach R ?c1 ?c2" by (rule reach_acq) (simp_all add: assms(3))
  moreover have "reach R ?c2 (?c2\<lparr>thr := (thr ?c2)(i := q), shared := t\<rparr>)"
    by (rule reach_dos [OF assms(4)]) simp_all
  ultimately have r: "reach R c (?c2\<lparr>thr := (thr ?c2)(i := q), shared := t\<rparr>)"
    by (blast intro: reach_trans)
  have eq: "?c2\<lparr>thr := (thr ?c2)(i := q), shared := t\<rparr> =
      c\<lparr>shared := t, thr := (thr c)(i := q), owner := (owner c)(a := Some i)\<rparr>"
    by (cases c) simp
  from r show ?thesis unfolding eq .
qed

lemma circular_wait:
  assumes R: "Acq a p \<in> R" "Acq b q \<in> R" and ab: "a \<noteq> b"
    and p: "dos p s (Acq b p') s'" and q: "dos q s' (Acq a q') s''"
  shows "\<exists>c. reach R (sys_init s r) c \<and> stuck {0, 1} c"
proof -
  let ?c0 = "sys_init s r"
  let ?c1 = "?c0\<lparr>shared := s', thr := (thr ?c0)(0 := Acq b p'), owner := (owner ?c0)(a := Some 0)\<rparr>"
  let ?c2 = "?c1\<lparr>shared := s'', thr := (thr ?c1)(1 := Acq a q'), owner := (owner ?c1)(b := Some 1)\<rparr>"
  have "reach R ?c0 ?c1"
    using reach_to_second_lock [of ?c0 0 r a p R "Acq b p'" s'] R(1) p by simp
  moreover have "reach R ?c1 ?c2"
    using reach_to_second_lock [of ?c1 1 r b q R "Acq a q'" s''] R(2) q ab by simp
  ultimately have "reach R ?c0 ?c2" by (blast intro: reach_trans)
  moreover have "stuck {0, 1} ?c2" using ab by (auto simp: stuck_def)
  ultimately show ?thesis by blast
qed

text \<open>A request that takes a mutex it already holds waits for itself.\<close>

lemma self_wait:
  assumes "Acq a p \<in> R" and "dos p s (Acq a p') s'"
  shows "\<exists>c. reach R (sys_init s r) c \<and> stuck {0} c"
proof -
  let ?c0 = "sys_init s r"
  let ?c1 = "?c0\<lparr>shared := s', thr := (thr ?c0)(0 := Acq a p'), owner := (owner ?c0)(a := Some 0)\<rparr>"
  have "reach R ?c0 ?c1"
    using reach_to_second_lock [of ?c0 0 r a p R "Acq a p'" s'] assms by simp
  moreover have "stuck {0} ?c1" by (auto simp: stuck_def)
  ultimately show ?thesis by blast
qed

section \<open>A lock order excludes deadlock\<close>

text \<open>
  The discipline \<^verbatim>\<open>ordered\<close>: a mutex is taken only while every mutex held is
  smaller, only a held mutex is released, and none is held at the return.
\<close>

primrec ordered :: "('l::linorder, 's, 'r) prog \<Rightarrow> 'l set \<Rightarrow> bool" where
  "ordered (Ret r) = (\<lambda>H. H = {})"
| "ordered (Acq l p) = (\<lambda>H. (\<forall>h\<in>H. h < l) \<and> ordered p (insert l H))"
| "ordered (Rel l p) = (\<lambda>H. l \<in> H \<and> ordered p (H - {l}))"
| "ordered (Do f k) = (\<lambda>H. \<forall>s. ordered (k s) H)"

locale lock_order =
  fixes R :: "('l::linorder, 's, 'r) prog set"
  assumes requests_ordered: "p \<in> R \<Longrightarrow> ordered p {}"
begin

lemma step_keeps_ordered:
  assumes "step R c c'" and "\<forall>i. ordered (thr c i) (held c i)"
  shows "\<forall>i. ordered (thr c' i) (held c' i)"
  using assms(1)
proof (cases rule: step_cases)
  case (step_acq i l p)
  with assms(2) have "ordered (Acq l p) (held c i)" by metis
  with step_acq assms(2) show ?thesis by (simp add: held_acq)
next
  case (step_rel i l p)
  with assms(2) have "ordered (Rel l p) (held c i)" by metis
  with step_rel assms(2) show ?thesis by (simp add: held_rel)
next
  case (step_do i f k)
  with assms(2) have "ordered (Do f k) (held c i)" by metis
  with step_do assms(2) show ?thesis by simp
next
  case (step_next i r p)
  with assms(2) have "ordered (Ret r :: ('l, 's, 'r) prog) (held c i)" by metis
  with step_next assms(2) requests_ordered show ?thesis by simp
qed

lemma reach_ordered:
  "reach R (sys_init s r) c \<Longrightarrow> \<forall>i. ordered (thr c i) (held c i)"
proof (induction rule: reach.induct)
  case reach_init
  show ?case by simp
next
  case (reach_step c c')
  show ?case by (rule step_keeps_ordered [OF reach_step.hyps(2) reach_step.IH])
qed

lemma no_deadlock:
  assumes "reach R (sys_init s r) c" and "finite D"
  shows "\<not> stuck D c"
proof
  assume st: "stuck D c"
  define w where "w i = (case thr c i of Acq l p \<Rightarrow> l)" for i
  have wait: "\<exists>p j. thr c i = Acq (w i) p \<and> owner c (w i) = Some j \<and> j \<in> D" if "i \<in> D" for i
    using stuckD [OF st that] by (auto simp: w_def)
  have "w ` D \<noteq> {}" and fin: "finite (w ` D)"
    using st assms(2) by (auto simp: stuck_def)
  then have "Max (w ` D) \<in> w ` D" by (intro Max_in)
  then obtain i where i: "i \<in> D" "w i = Max (w ` D)" by auto
  then obtain j where j: "owner c (w i) = Some j" "j \<in> D" using wait by blast
  then obtain p where p: "thr c j = Acq (w j) p" using wait by blast
  have "ordered (thr c j) (held c j)" using reach_ordered [OF assms(1)] by blast
  then have "\<forall>h\<in>held c j. h < w j" by (simp add: p)
  moreover have "w i \<in> held c j" using j by (simp add: held_def)
  ultimately have "w i < w j" by blast
  moreover have "w j \<le> w i" using fin j(2) i(2) by simp
  ultimately show False by simp
qed

text \<open>
  Progress: while some thread is inside a request, some such thread can take a step.
\<close>

lemma progress:
  assumes reach: "reach R (sys_init s r) c"
    and A: "A = {i. \<forall>r. thr c i \<noteq> Ret r}" "finite A" "A \<noteq> {}"
  shows "\<exists>i\<in>A. \<exists>c'. tstep R i c c'"
proof (rule ccontr)
  assume none: "\<not> (\<exists>i\<in>A. \<exists>c'. tstep R i c c')"
  have ord: "ordered (thr c i) (held c i)" for i using reach_ordered [OF reach] by blast
  have "\<exists>l p j. thr c i = Acq l p \<and> owner c l = Some j \<and> j \<in> A" if "i \<in> A" for i
  proof (cases "thr c i")
    case (Ret r)
    with that A(1) show ?thesis by simp
  next
    case (Acq l p)
    have "owner c l \<noteq> None"
    proof
      assume "owner c l = None"
      from tstep.step_acq [OF Acq this] none that show False by blast
    qed
    then obtain j where j: "owner c l = Some j" by auto
    have "\<forall>r. thr c j \<noteq> Ret r" using ord [of j] j by (auto simp: held_def)
    with Acq j A(1) show ?thesis by auto
  next
    case (Rel l p)
    then have "owner c l = Some i" using ord [of i] by (simp add: held_def)
    from tstep.step_rel [OF Rel this] none that show ?thesis by blast
  next
    case (Do f k)
    from tstep.step_do [OF Do] none that show ?thesis by blast
  qed
  then have "stuck A c" using A(3) by (auto simp: stuck_def)
  with no_deadlock [OF reach A(2)] show False by simp
qed

end

section \<open>Resource invariants\<close>

text \<open>
  \<open>view l s\<close> is the part of the shared state that mutex \<open>l\<close> protects, \<open>I l\<close> what holds of
  that part whenever the mutex is free, \<open>J\<close> what holds of the whole state after every single
  step, and \<open>Q r\<close> what holds of every result. \<open>safe\<close> runs a program against all the states
  other threads may leave behind: between two of its steps everything but the views of
  the mutexes it holds may have changed. A second lock of a mutex it holds never returns,
  so nothing is asked of what follows it.
\<close>

definition agree :: "('l \<Rightarrow> 's \<Rightarrow> 'v) \<Rightarrow> 'l set \<Rightarrow> 's \<Rightarrow> 's \<Rightarrow> bool" where
  "agree view H s t \<longleftrightarrow> (\<forall>l\<in>H. view l s = view l t)"

lemma agree_refl [simp]: "agree view H s s"
  by (simp add: agree_def)

lemma agree_trans: "agree view H s t \<Longrightarrow> agree view H t u \<Longrightarrow> agree view H s u"
  by (simp add: agree_def)

primrec safe ::
  "('l \<Rightarrow> 's \<Rightarrow> 'v) \<Rightarrow> ('l \<Rightarrow> 's \<Rightarrow> bool) \<Rightarrow> ('s \<Rightarrow> bool) \<Rightarrow> ('r \<Rightarrow> bool) \<Rightarrow>
   ('l, 's, 'r) prog \<Rightarrow> 'l set \<Rightarrow> 's \<Rightarrow> bool" where
  "safe view I J Q (Ret r) = (\<lambda>H s. Q r \<and> H = {})"
| "safe view I J Q (Acq l p) = (\<lambda>H s. l \<notin> H \<longrightarrow> (\<forall>t. agree view H s t \<longrightarrow> J t \<longrightarrow> I l t \<longrightarrow>
     safe view I J Q p (insert l H) t))"
| "safe view I J Q (Rel l p) = (\<lambda>H s. l \<in> H \<and> (\<forall>t. agree view H s t \<longrightarrow> J t \<longrightarrow>
     I l t \<and> safe view I J Q p (H - {l}) t))"
| "safe view I J Q (Do f k) = (\<lambda>H s. \<forall>t. agree view H s t \<longrightarrow> J t \<longrightarrow>
     J (f t) \<and> (\<forall>l. l \<notin> H \<longrightarrow> view l (f t) = view l t) \<and> safe view I J Q (k t) H (f t))"

lemma safe_agree:
  "safe view I J Q p H s \<Longrightarrow> agree view H s t \<Longrightarrow> safe view I J Q p H t"
  by (cases p) (auto intro: agree_trans)

text \<open>The same, as rules that go through a program from its first step.\<close>

lemma safe_acq:
  "(\<And>t. l \<notin> H \<Longrightarrow> agree view H s t \<Longrightarrow> J t \<Longrightarrow> I l t \<Longrightarrow> safe view I J Q p (insert l H) t) \<Longrightarrow>
   safe view I J Q (Acq l p) H s"
  by simp

lemma safe_rel:
  assumes "l \<in> H" and "H - {l} = H'" and "\<And>t. agree view H s t \<Longrightarrow> J t \<Longrightarrow> I l t"
    and "\<And>t. agree view H s t \<Longrightarrow> J t \<Longrightarrow> safe view I J Q p H' t"
  shows "safe view I J Q (Rel l p) H s"
  using assms by simp

lemma safe_read:
  "(\<And>t. agree view H s t \<Longrightarrow> J t \<Longrightarrow> safe view I J Q (k t) H t) \<Longrightarrow> safe view I J Q (Read k) H s"
  by simp

lemma safe_write:
  assumes "\<And>t. agree view H s t \<Longrightarrow> J t \<Longrightarrow> J (f t)"
    and "\<And>t l. l \<notin> H \<Longrightarrow> view l (f t) = view l t"
    and "\<And>t. agree view H s t \<Longrightarrow> J t \<Longrightarrow> safe view I J Q p H (f t)"
  shows "safe view I J Q (Write f p) H s"
  using assms by simp

lemma safe_ret: "Q r \<Longrightarrow> safe view I J Q (Ret r) {} s"
  by simp

locale monitor =
  fixes R :: "('l, 's, 'r) prog set"
    and view :: "'l \<Rightarrow> 's \<Rightarrow> 'v"
    and I :: "'l \<Rightarrow> 's \<Rightarrow> bool"
    and J :: "'s \<Rightarrow> bool"
    and Q :: "'r \<Rightarrow> bool"
    and s0 :: 's
    and r0 :: 'r
  assumes requests_safe: "p \<in> R \<Longrightarrow> safe view I J Q p {} s"
    and I_view: "view l s = view l t \<Longrightarrow> I l s = I l t"
    and start_I: "I l s0"
    and start_J: "J s0"
    and start_Q: "Q r0"
begin

definition sys_inv :: "('l, 's, 'r) sys \<Rightarrow> bool" where
  "sys_inv c \<longleftrightarrow> J (shared c) \<and> (\<forall>l. owner c l = None \<longrightarrow> I l (shared c)) \<and>
     (\<forall>i. safe view I J Q (thr c i) (held c i) (shared c))"

lemma sys_inv_init: "sys_inv (sys_init s0 r0)"
  by (simp add: sys_inv_def start_I start_J start_Q)

lemma do_keeps_others:
  assumes "sys_inv c" and "i \<noteq> j" and "\<forall>l. l \<notin> held c i \<longrightarrow> view l s = view l (shared c)"
  shows "safe view I J Q (thr c j) (held c j) s"
proof -
  have "agree view (held c j) (shared c) s"
    using assms(2,3) by (auto simp: agree_def held_def)
  with assms(1) show ?thesis by (auto simp: sys_inv_def intro: safe_agree)
qed

lemma step_keeps_inv:
  assumes "step R c c'" and inv: "sys_inv c"
  shows "sys_inv c'"
  using assms(1)
proof (cases rule: step_cases)
  case (step_acq i l p)
  have "safe view I J Q (Acq l p) (held c i) (shared c)"
    using inv step_acq(1) by (metis sys_inv_def)
  then have "safe view I J Q p (insert l (held c i)) (shared c)"
    using inv step_acq(2) by (simp add: sys_inv_def held_def)
  with inv step_acq show ?thesis by (simp add: sys_inv_def held_acq)
next
  case (step_rel i l p)
  have "safe view I J Q (Rel l p) (held c i) (shared c)"
    using inv step_rel(1) by (metis sys_inv_def)
  then have "I l (shared c) \<and> safe view I J Q p (held c i - {l}) (shared c)"
    using inv by (simp add: sys_inv_def)
  with inv step_rel show ?thesis by (simp add: sys_inv_def held_rel)
next
  case (step_do i f k)
  have "safe view I J Q (Do f k) (held c i) (shared c)"
    using inv step_do(1) by (metis sys_inv_def)
  then have J': "J (f (shared c))"
    and fr: "\<forall>l. l \<notin> held c i \<longrightarrow> view l (f (shared c)) = view l (shared c)"
    and safe': "safe view I J Q (k (shared c)) (held c i) (f (shared c))"
    using inv by (auto simp: sys_inv_def)
  have "I l (f (shared c))" if "owner c l = None" for l
  proof -
    have "view l (f (shared c)) = view l (shared c)"
      using fr that by (simp add: held_def)
    with that inv show ?thesis using I_view by (metis sys_inv_def)
  qed
  moreover have "safe view I J Q (thr c j) (held c j) (f (shared c))" if "j \<noteq> i" for j
    using do_keeps_others [OF inv _ fr] that by metis
  ultimately show ?thesis using J' safe' step_do(2) by (simp add: sys_inv_def)
next
  case (step_next i r p)
  have "safe view I J Q (Ret r) (held c i) (shared c)"
    using inv step_next(1) by (metis sys_inv_def)
  then have "held c i = {}" by simp
  with inv step_next requests_safe show ?thesis by (simp add: sys_inv_def)
qed

lemma reach_inv: "reach R (sys_init s0 r0) c \<Longrightarrow> sys_inv c"
proof (induction rule: reach.induct)
  case reach_init
  show ?case by (rule sys_inv_init)
next
  case (reach_step c c')
  show ?case by (rule step_keeps_inv [OF reach_step.hyps(2) reach_step.IH])
qed

text \<open>What the contract gives: in every interleaving, at every instant.\<close>

lemma always_J: "reach R (sys_init s0 r0) c \<Longrightarrow> J (shared c)"
  using reach_inv by (auto simp: sys_inv_def)

lemma free_I: "reach R (sys_init s0 r0) c \<Longrightarrow> owner c l = None \<Longrightarrow> I l (shared c)"
  using reach_inv by (auto simp: sys_inv_def)

lemma result_Q:
  assumes "reach R (sys_init s0 r0) c" and "thr c i = Ret r"
  shows "Q r"
proof -
  have "safe view I J Q (thr c i) (held c i) (shared c)"
    using reach_inv [OF assms(1)] by (simp add: sys_inv_def)
  with assms(2) show ?thesis by simp
qed

lemma no_lock_kept:
  assumes "reach R (sys_init s0 r0) c" and "thr c i = Ret r"
  shows "owner c l \<noteq> Some i"
proof -
  have "safe view I J Q (thr c i) (held c i) (shared c)"
    using reach_inv [OF assms(1)] by (simp add: sys_inv_def)
  with assms(2) show ?thesis by (auto simp: held_def)
qed

text \<open>No thread ever releases a mutex it does not hold.\<close>

lemma release_held:
  assumes "reach R (sys_init s0 r0) c" and "thr c i = Rel l p"
  shows "owner c l = Some i"
proof -
  have "safe view I J Q (thr c i) (held c i) (shared c)"
    using reach_inv [OF assms(1)] by (simp add: sys_inv_def)
  with assms(2) show ?thesis by (simp add: held_def)
qed

end

section \<open>A loop that adds up what it reads\<close>

text \<open>
  \<^verbatim>\<open>for (i ...) acc += g(i);\<close> with one shared access per iteration, then \<open>k acc\<close>.
\<close>

fun sum_loop ::
  "'i list \<Rightarrow> ('i \<Rightarrow> 's \<Rightarrow> int) \<Rightarrow> int \<Rightarrow> (int \<Rightarrow> ('l, 's, 'r) prog) \<Rightarrow> ('l, 's, 'r) prog" where
  "sum_loop [] g acc k = k acc"
| "sum_loop (i # is) g acc k = Read (\<lambda>s. sum_loop is g (acc + g i s) k)"

lemma run_sum_loop [lock_simps]:
  "run (sum_loop is g acc k) s = run (k (acc + (\<Sum>i\<leftarrow>is. g i s))) s"
  by (induction "is" g acc k rule: sum_loop.induct) (auto simp: add.assoc)

lemma paired_sum_loop: "(\<And>t. paired (k t) H) \<Longrightarrow> paired (sum_loop is g acc k) H"
  by (induction "is" g acc k rule: sum_loop.induct) auto

lemma ordered_sum_loop: "(\<And>t. ordered (k t) H) \<Longrightarrow> ordered (sum_loop is g acc k) H"
  by (induction "is" g acc k rule: sum_loop.induct) auto

lemma sum_loop_safe:
  assumes "\<And>t i. agree view H s t \<Longrightarrow> i \<in> set is \<Longrightarrow> g i t = g i s"
    and "\<And>t. agree view H s t \<Longrightarrow> safe view I J Q (k (acc + (\<Sum>i\<leftarrow>is. g i s))) H t"
  shows "safe view I J Q (sum_loop is g acc k) H s"
  using assms
proof (induction "is" arbitrary: acc s)
  case Nil
  then show ?case by simp
next
  case (Cons i "is")
  have "safe view I J Q (sum_loop is g (acc + g i t) k) H t" if t: "agree view H s t" for t
  proof (rule Cons.IH)
    have same: "g j t = g j s" if "j \<in> set (i # is)" for j
      using Cons.prems(1) [OF t] that by simp
    fix u assume u: "agree view H t u"
    then have su: "agree view H s u" using t by (rule agree_trans [rotated])
    { fix j assume "j \<in> set is"
      then show "g j u = g j t" using Cons.prems(1) [OF su] same by simp }
    have "(\<Sum>j\<leftarrow>is. g j t) = (\<Sum>j\<leftarrow>is. g j s)"
      using same by (intro arg_cong [of _ _ sum_list] map_cong) auto
    then show "safe view I J Q (k (acc + g i t + (\<Sum>j\<leftarrow>is. g j t))) H u"
      using Cons.prems(2) [OF su] same by (simp add: add.assoc)
  qed
  then show ?case by simp
qed

end
