(* ===== verification/Sink.thy ===== *)
theory Sink
  imports Locks
begin

text \<open>
  Case 1 of the device service, \<^verbatim>\<open>Week6/Assignment6/concurrency/src/sink.c\<close>: sixteen audio
  sinks, each with its own mutex, between which sessions move. \<^verbatim>\<open>sink_move\<close> nests two of
  the mutexes in the order of its arguments, \<^verbatim>\<open>sink_total\<close> takes all of them.
\<close>

definition NSINKS :: nat where "NSINKS = 16"
definition SESSIONS_PER_SINK :: int where "SESSIONS_PER_SINK = 100"

record sink =
  sink_id :: int
  sessions :: int
  moved_in :: int

text \<open>
  The global array \<^verbatim>\<open>sinks[]\<close>. \<open>transit\<close> is an auxiliary variable that the code does not
  have and no step reads: \<open>transit a\<close> is 1 between \<^verbatim>\<open>a->sessions--\<close> and the matching
  \<^verbatim>\<open>b->sessions++\<close>, so that the sessions can be counted at every single instant.
\<close>

record sink_state =
  sinks :: "nat \<Rightarrow> sink"
  transit :: "nat \<Rightarrow> int"

datatype sink_result = Moved int | Total int | Started

type_synonym sink_prog = "(nat, sink_state, sink_result) prog"

definition set_sink :: "nat \<Rightarrow> (sink \<Rightarrow> sink) \<Rightarrow> sink_state \<Rightarrow> sink_state" where
  "set_sink i f s = s\<lparr>sinks := (sinks s)(i := f (sinks s i))\<rparr>"

fun sink_init_from :: "nat \<Rightarrow> nat \<Rightarrow> sink_state \<Rightarrow> sink_state" where
  "sink_init_from 0 i s = s"
| "sink_init_from (Suc n) i s =
     sink_init_from n (Suc i)
       (set_sink i (\<lambda>k. k\<lparr>sink_id := int i, sessions := SESSIONS_PER_SINK\<rparr>) s)"

definition sink_zero :: sink_state where
  "sink_zero = \<lparr>sinks = (\<lambda>_. \<lparr>sink_id = 0, sessions = 0, moved_in = 0\<rparr>), transit = (\<lambda>_. 0)\<rparr>"

definition sink_init :: "sink_state \<Rightarrow> sink_state" where
  "sink_init s = sink_init_from NSINKS 0 s"

text \<open>The three loops of \<^verbatim>\<open>sink_total\<close>: take the mutexes upwards, add, release downwards.\<close>

fun lock_sinks :: "nat list \<Rightarrow> sink_prog \<Rightarrow> sink_prog" where
  "lock_sinks [] p = p"
| "lock_sinks (i # is) p = Acq i (lock_sinks is p)"

fun unlock_sinks :: "nat list \<Rightarrow> sink_prog \<Rightarrow> sink_prog" where
  "unlock_sinks [] p = p"
| "unlock_sinks (i # is) p = Rel i (unlock_sinks is p)"

definition sink_total :: sink_prog where
  "sink_total =
     lock_sinks [0..<NSINKS]
       (sum_loop [0..<NSINKS] (\<lambda>i s. sessions (sinks s i)) 0
         (\<lambda>t. unlock_sinks (rev [0..<NSINKS]) (Ret (Total t))))"

text \<open>The end of \<^verbatim>\<open>sink_move\<close>: \<^verbatim>\<open>svc_work\<close> touches no sink, then both mutexes are released.\<close>

definition sink_move_end :: "nat \<Rightarrow> nat \<Rightarrow> int \<Rightarrow> sink_prog" where
  "sink_move_end from to moved =
     Write (\<lambda>s. s) (Rel to (Rel from (Ret (Moved moved))))"

definition sink_move :: "nat \<Rightarrow> nat \<Rightarrow> sink_prog" where
  "sink_move from to =
     Acq from (Acq to (Read (\<lambda>s.
       if sessions (sinks s from) > 0 then
         Write (\<lambda>s. (set_sink from (\<lambda>k. k\<lparr>sessions := sessions k - 1\<rparr>) s)
                      \<lparr>transit := (transit s)(from := 1)\<rparr>)
        (Write (\<lambda>s. (set_sink to (\<lambda>k. k\<lparr>sessions := sessions k + 1\<rparr>) s)
                      \<lparr>transit := (transit s)(from := 0)\<rparr>)
        (Write (set_sink to (\<lambda>k. k\<lparr>moved_in := moved_in k + 1\<rparr>))
        (sink_move_end from to 1)))
       else sink_move_end from to 0)))"

text \<open>The requests of the driver: moves between two different sinks, and the total.\<close>

definition sink_requests :: "sink_prog set" where
  "sink_requests =
     {sink_move a b | a b. a < NSINKS \<and> b < NSINKS \<and> a \<noteq> b} \<union> {sink_total}"

lemma sink_requestsI:
  "a < NSINKS \<Longrightarrow> b < NSINKS \<Longrightarrow> a \<noteq> b \<Longrightarrow> sink_move a b \<in> sink_requests"
  "sink_total \<in> sink_requests"
  by (auto simp: sink_requests_def)

abbreviation sink_start :: "(nat, sink_state, sink_result) sys" where
  "sink_start \<equiv> sys_init (sink_init sink_zero) Started"

section \<open>The sessions are never lost\<close>

definition sink_view :: "nat \<Rightarrow> sink_state \<Rightarrow> sink \<times> int" where
  "sink_view i s = (sinks s i, transit s i)"

definition sink_lock_inv :: "nat \<Rightarrow> sink_state \<Rightarrow> bool" where
  "sink_lock_inv i s \<longleftrightarrow> transit s i = 0"

definition sink_inv :: "sink_state \<Rightarrow> bool" where
  "sink_inv s \<longleftrightarrow>
     (\<Sum>k<NSINKS. sessions (sinks s k)) + (\<Sum>k<NSINKS. transit s k) = int NSINKS * SESSIONS_PER_SINK \<and>
     (\<forall>k. 0 \<le> sessions (sinks s k)) \<and> (\<forall>k. transit s k \<in> {0, 1})"

fun sink_result_ok :: "sink_result \<Rightarrow> bool" where
  "sink_result_ok (Total t) = (t = int NSINKS * SESSIONS_PER_SINK)"
| "sink_result_ok (Moved m) = (m = 0 \<or> m = 1)"
| "sink_result_ok Started = True"

abbreviation sink_safe :: "sink_prog \<Rightarrow> nat set \<Rightarrow> sink_state \<Rightarrow> bool" where
  "sink_safe \<equiv> safe sink_view sink_lock_inv sink_inv sink_result_ok"

lemma sinks_init_from:
  "sinks (sink_init_from n i s) k =
     (if i \<le> k \<and> k < i + n then (sinks s k)\<lparr>sink_id := int k, sessions := SESSIONS_PER_SINK\<rparr>
      else sinks s k)"
  by (induction n i s rule: sink_init_from.induct) (auto simp: set_sink_def)

lemma transit_init_from [simp]: "transit (sink_init_from n i s) = transit s"
  by (induction n i s rule: sink_init_from.induct) (auto simp: set_sink_def)

lemma sink_inv_init: "sink_inv (sink_init sink_zero)"
  by (simp add: sink_inv_def sink_init_def sinks_init_from sink_zero_def SESSIONS_PER_SINK_def)

text \<open>The effect of \<^verbatim>\<open>sink_move\<close>'s two counter updates on the invariant.\<close>

lemma sum_sessions_set:
  assumes "i < NSINKS"
  shows "(\<Sum>k<NSINKS. sessions (((sinks s)(i := f (sinks s i))) k)) =
    (\<Sum>k<NSINKS. sessions (sinks s k)) - sessions (sinks s i) + sessions (f (sinks s i))"
proof -
  have "(\<lambda>k. sessions (((sinks s)(i := f (sinks s i))) k)) =
      (\<lambda>k. sessions (sinks s k))(i := sessions (f (sinks s i)))" by auto
  then show ?thesis using sum_fun_upd_lessThan [OF assms] by metis
qed

lemma sum_sessions_upd:
  assumes "i < NSINKS"
  shows "(\<Sum>k<NSINKS. sessions (sinks (set_sink i f s) k)) =
    (\<Sum>k<NSINKS. sessions (sinks s k)) - sessions (sinks s i) + sessions (f (sinks s i))"
  using sum_sessions_set [OF assms] by (simp only: set_sink_def sink_state.select_convs sink_state.update_convs)
    (simp add: set_sink_def)

lemma transit_set_sink [simp]: "transit (set_sink i f s) = transit s"
  by (simp add: set_sink_def)

lemma sessions_set_sink:
  "sinks (set_sink i f s) k = (if k = i then f (sinks s i) else sinks s k)"
  by (simp add: set_sink_def)

lemma sink_inv_upd:
  assumes "sink_inv s" and "i < NSINKS" and "j < NSINKS" and "v \<in> {0, 1}"
    and "0 \<le> sessions (f (sinks s i))"
    and "sessions (f (sinks s i)) + v = sessions (sinks s i) + transit s j"
  shows "sink_inv ((set_sink i f s)\<lparr>transit := (transit s)(j := v)\<rparr>)"
proof -
  have "(\<Sum>k<NSINKS. ((transit s)(j := v)) k) = (\<Sum>k<NSINKS. transit s k) - transit s j + v"
    by (rule sum_fun_upd_lessThan [OF assms(3)])
  then show ?thesis
    using assms sum_sessions_upd [OF assms(2), of f s]
    by (simp add: sink_inv_def sessions_set_sink del: fun_upd_apply) auto
qed

lemma sink_inv_take:
  assumes "sink_inv s" and "a < NSINKS" and "0 < sessions (sinks s a)" and "transit s a = 0"
  shows "sink_inv ((set_sink a (\<lambda>k. k\<lparr>sessions := sessions k - 1\<rparr>) s)\<lparr>transit := (transit s)(a := 1)\<rparr>)"
  using assms by (intro sink_inv_upd) auto

lemma sink_inv_give:
  assumes "sink_inv s" and "a < NSINKS" and "b < NSINKS" and "transit s a = 1"
  shows "sink_inv ((set_sink b (\<lambda>k. k\<lparr>sessions := sessions k + 1\<rparr>) s)\<lparr>transit := (transit s)(a := 0)\<rparr>)"
  using assms by (intro sink_inv_upd) (auto simp: sink_inv_def add_increasing2)

lemma sink_inv_moved_in:
  assumes "sink_inv s" and "b < NSINKS"
  shows "sink_inv (set_sink b (\<lambda>k. k\<lparr>moved_in := moved_in k + 1\<rparr>) s)"
  using assms sink_inv_upd [OF assms(1) assms(2) assms(2), of "transit s b" "\<lambda>k. k\<lparr>moved_in := moved_in k + 1\<rparr>"]
  by (auto simp: sink_inv_def sessions_set_sink sum_sessions_upd)

section \<open>The requests keep the invariant\<close>

lemma sink_move_end_safe:
  assumes "from \<noteq> to" and "m = 0 \<or> m = 1" and "transit s from = 0" and "transit s to = 0"
  shows "sink_safe (sink_move_end from to m) {from, to} s"
  using assms by (auto simp: sink_move_end_def agree_def sink_view_def sink_lock_inv_def)

lemma sink_move_safe:
  assumes "a < NSINKS" and "b < NSINKS" and "a \<noteq> b"
  shows "sink_safe (sink_move a b) {} s"
  using assms
  by (auto simp: sink_move_def agree_def sink_view_def sink_lock_inv_def sessions_set_sink
      insert_commute
      intro!: sink_move_end_safe sink_inv_take sink_inv_give sink_inv_moved_in)

lemma lock_sinks_safe:
  assumes "is \<noteq> []" and "\<forall>i\<in>H. transit s i = 0"
    and "\<And>t. sink_inv t \<Longrightarrow> \<forall>i\<in>H \<union> set is. transit t i = 0 \<Longrightarrow> sink_safe p (H \<union> set is) t"
  shows "sink_safe (lock_sinks is p) H s"
  using assms
proof (induction "is" arbitrary: H s)
  case Nil
  then show ?case by simp
next
  case (Cons i "is")
  have "sink_safe (lock_sinks is p) (insert i H) t"
    if t: "agree sink_view H s t" "sink_inv t" "sink_lock_inv i t" for t
  proof -
    have tr: "\<forall>j\<in>insert i H. transit t j = 0"
      using t Cons.prems(2) by (auto simp: agree_def sink_view_def sink_lock_inv_def)
    show ?thesis
    proof (cases "is = []")
      case True
      then show ?thesis using Cons.prems(3) [OF t(2)] tr by simp
    next
      case False
      show ?thesis
        by (rule Cons.IH [OF False tr]) (use Cons.prems(3) in simp)
    qed
  qed
  then show ?case by simp
qed

lemma unlock_sinks_safe:
  assumes "distinct is" and "set is = H" and "\<forall>i\<in>H. transit s i = 0" and "sink_result_ok r"
  shows "sink_safe (unlock_sinks is (Ret r)) H s"
  using assms
proof (induction "is" arbitrary: H s)
  case Nil
  then show ?case by simp
next
  case (Cons i "is")
  have "sink_lock_inv i t \<and> sink_safe (unlock_sinks is (Ret r)) (H - {i}) t"
    if t: "agree sink_view H s t" for t
  proof
    have tr: "\<forall>j\<in>H. transit t j = 0" using t Cons.prems(3) by (auto simp: agree_def sink_view_def)
    then show "sink_lock_inv i t" using Cons.prems(2) by (auto simp: sink_lock_inv_def)
    show "sink_safe (unlock_sinks is (Ret r)) (H - {i}) t"
      by (rule Cons.IH) (use Cons.prems tr in auto)
  qed
  then show ?case using Cons.prems(2) by auto
qed

lemma sink_total_safe: "sink_safe sink_total {} s"
  unfolding sink_total_def
proof (rule lock_sinks_safe)
  show "[0..<NSINKS] \<noteq> []" by (simp add: NSINKS_def)
  fix t assume inv: "sink_inv t" and tr: "\<forall>i\<in>{} \<union> set [0..<NSINKS]. transit t i = 0"
  have sum: "(\<Sum>i\<leftarrow>[0..<NSINKS]. sessions (sinks t i)) = int NSINKS * SESSIONS_PER_SINK"
    using inv tr by (simp add: sum_list_map_upt_lessThan sink_inv_def)
  show "sink_safe (sum_loop [0..<NSINKS] (\<lambda>i s. sessions (sinks s i)) 0 (\<lambda>t. unlock_sinks (rev [0..<NSINKS]) (Ret (Total t))))
      ({} \<union> set [0..<NSINKS]) t"
  proof (rule sum_loop_safe)
    show "sessions (sinks u i) = sessions (sinks t i)"
      if "agree sink_view ({} \<union> set [0..<NSINKS]) t u" and "i \<in> set [0..<NSINKS]" for u i
      using that by (auto simp: agree_def sink_view_def)
    fix u assume "agree sink_view ({} \<union> set [0..<NSINKS]) t u"
    then show "sink_safe (unlock_sinks (rev [0..<NSINKS])
        (Ret (Total (0 + (\<Sum>i\<leftarrow>[0..<NSINKS]. sessions (sinks t i)))))) ({} \<union> set [0..<NSINKS]) u"
      using tr sum by (intro unlock_sinks_safe) (auto simp: agree_def sink_view_def)
  qed
qed simp

interpretation sink_mon: monitor sink_requests sink_view sink_lock_inv sink_inv sink_result_ok
    "sink_init sink_zero" Started
proof
  show "sink_safe p {} s" if "p \<in> sink_requests" for p s
    using that by (auto simp: sink_requests_def sink_move_safe sink_total_safe)
  show "sink_lock_inv l (sink_init sink_zero)" for l
    by (simp add: sink_lock_inv_def sink_init_def sink_zero_def)
qed (auto simp: sink_view_def sink_lock_inv_def sink_inv_init)


section \<open>Sequential behaviour\<close>

lemma run_lock_sinks [simp]: "run (lock_sinks is p) = run p"
  by (induction "is" p rule: lock_sinks.induct) auto

lemma run_unlock_sinks [simp]: "run (unlock_sinks is p) = run p"
  by (induction "is" p rule: unlock_sinks.induct) auto

lemma run_sink_total: "run sink_total s = (s, Total (\<Sum>k<NSINKS. sessions (sinks s k)))"
  by (simp add: sink_total_def run_sum_loop sum_list_map_upt_lessThan)

lemma paired_lock_sinks:
  "distinct is \<Longrightarrow> set is \<inter> H = {} \<Longrightarrow> paired p (H \<union> set is) \<Longrightarrow> paired (lock_sinks is p) H"
  by (induction "is" p arbitrary: H rule: lock_sinks.induct) auto

lemma paired_unlock_sinks:
  "distinct is \<Longrightarrow> set is = H \<Longrightarrow> paired (unlock_sinks is (Ret r)) H"
  by (induction "is" arbitrary: H) auto

lemma paired_sink_total: "paired sink_total {}"
  by (auto simp: sink_total_def intro!: paired_lock_sinks paired_sum_loop paired_unlock_sinks)

lemma paired_sink_move: "a \<noteq> b \<Longrightarrow> paired (sink_move a b) {}"
  by (auto simp: sink_move_def sink_move_end_def)

lemma ordered_lock_sinks:
  "sorted_wrt (<) is \<Longrightarrow> (\<forall>h\<in>H. \<forall>i\<in>set is. h < i) \<Longrightarrow> ordered p (H \<union> set is) \<Longrightarrow>
   ordered (lock_sinks is p) H"
  by (induction "is" p arbitrary: H rule: lock_sinks.induct) auto

lemma ordered_unlock_sinks:
  "distinct is \<Longrightarrow> set is = H \<Longrightarrow> ordered (unlock_sinks is (Ret r)) H"
  by (induction "is" arbitrary: H) auto

lemma ordered_sink_total: "ordered sink_total {}"
  by (auto simp: sink_total_def intro!: ordered_lock_sinks ordered_sum_loop ordered_unlock_sinks)

lemma ordered_sink_move: "a < b \<Longrightarrow> ordered (sink_move a b) {}"
  by (auto simp: sink_move_def sink_move_end_def)

definition ascending_requests :: "sink_prog set" where
  "ascending_requests = {sink_move a b | a b. a < b \<and> b < NSINKS} \<union> {sink_total}"

interpretation sink_ord: lock_order ascending_requests
  by unfold_locales (auto simp: ascending_requests_def ordered_sink_total ordered_sink_move)

section \<open>Properties\<close>

text \<open>C31: In every interleaving of any number of threads that move sessions between the
  sixteen sinks and take totals, every finished \<^verbatim>\<open>sink_total\<close> returns exactly 1600.\<close>

theorem sink_total_exact:
  assumes "reach sink_requests sink_start c" and "thr c i = Ret (Total t)"
  shows "t = int NSINKS * SESSIONS_PER_SINK"
  using sink_mon.result_Q [OF assms] by simp

theorem sink_total_exact_witness:
  "\<exists>c t. reach sink_requests sink_start c \<and> thr c 0 = Ret (Total t) \<and> t = 1600"
proof -
  have "sink_total \<in> sink_requests" by (simp add: sink_requests_def)
  then obtain c where c: "reach sink_requests sink_start c"
      "thr c 0 = Ret (snd (run sink_total (sink_init sink_zero)))"
    by (rule solo_run [OF paired_sink_total])
  then have "thr c 0 = Ret (Total (\<Sum>k<NSINKS. sessions (sinks (sink_init sink_zero) k)))"
    by (simp add: run_sink_total)
  with sink_total_exact [OF c(1) this] c(1) show ?thesis
    by (auto simp: NSINKS_def SESSIONS_PER_SINK_def)
qed

text \<open>Whenever no thread holds a sink's mutex, all 1600 sessions are on the sinks; and at
  every instant no session count is negative.\<close>

theorem sink_sessions_conserved:
  assumes "reach sink_requests sink_start c"
  shows "(\<forall>k. 0 \<le> sessions (sinks (shared c) k)) \<and>
    ((\<forall>i. owner c i = None) \<longrightarrow>
      (\<Sum>k<NSINKS. sessions (sinks (shared c) k)) = int NSINKS * SESSIONS_PER_SINK)"
proof -
  have inv: "sink_inv (shared c)" by (rule sink_mon.always_J [OF assms])
  moreover have "transit (shared c) i = 0" if "\<forall>i. owner c i = None" for i
    using sink_mon.free_I [OF assms] that by (simp add: sink_lock_inv_def)
  ultimately show ?thesis by (auto simp: sink_inv_def)
qed

theorem sink_sessions_conserved_witness:
  "\<exists>c. reach sink_requests sink_start c \<and> thr c 0 = Ret (Moved 1) \<and>
    (\<Sum>k<NSINKS. sessions (sinks (shared c) k)) = 1600"
proof -
  have "sink_move 3 1 \<in> sink_requests" by (force simp: sink_requests_def NSINKS_def)
  then obtain c where c: "reach sink_requests sink_start c" "owner c = (\<lambda>_. None)"
      "thr c 0 = Ret (snd (run (sink_move 3 1) (sink_init sink_zero)))"
    by (rule solo_run [OF paired_sink_move, rotated 1]) auto
  have "snd (run (sink_move 3 1) (sink_init sink_zero)) = Moved 1"
    by (simp add: sink_move_def sink_move_end_def sink_init_def sinks_init_from NSINKS_def
        SESSIONS_PER_SINK_def)
  with c sink_sessions_conserved [OF c(1)] show ?thesis
    by (intro exI [of _ c]) (simp add: NSINKS_def SESSIONS_PER_SINK_def)
qed

text \<open>\<^verbatim>\<open>sink_move\<close> can deadlock: two opposite moves between the same two sinks reach a
  state in which each waits for the mutex the other holds, and no later step ends the wait.\<close>

theorem sink_move_deadlock:
  assumes "a \<noteq> b"
  shows "\<exists>c. reach {sink_move a b, sink_move b a} sink_start c \<and> stuck {0, 1} c"
proof -
  let ?p = "\<lambda>a b. Acq b (case sink_move a b of Acq _ q \<Rightarrow> (case q of Acq _ p \<Rightarrow> p))"
  have eq: "sink_move a b = Acq a (?p a b)" for a b by (simp add: sink_move_def)
  show ?thesis
    by (rule circular_wait [of a "?p a b" _ b "?p b a", OF _ _ assms dos.dos_none dos.dos_none])
      (simp_all add: eq [symmetric])
qed

theorem sink_move_deadlock_witness:
  "\<exists>c. reach {sink_move 3 7, sink_move 7 3} sink_start c \<and> stuck {0, 1} c"
  by (rule sink_move_deadlock) simp

text \<open>C32: If every move takes the mutex of the smaller index first, no set of threads can ever
  deadlock, sink totals included: the order that \<^verbatim>\<open>TODO(L3-1)\<close> asks for.\<close>

theorem sink_ascending_no_deadlock:
  assumes "reach ascending_requests sink_start c" and "finite D"
  shows "\<not> stuck D c"
  by (rule sink_ord.no_deadlock [OF assms])

theorem sink_ascending_no_deadlock_witness:
  "\<exists>c. reach ascending_requests sink_start c \<and> thr c 0 = Ret (Moved 1) \<and> \<not> stuck {0, 1, 2} c"
proof -
  have "sink_move 1 3 \<in> ascending_requests" by (force simp: ascending_requests_def NSINKS_def)
  then obtain c where c: "reach ascending_requests sink_start c" "owner c = (\<lambda>_. None)"
      "thr c 0 = Ret (snd (run (sink_move 1 3) (sink_init sink_zero)))"
    by (rule solo_run [OF paired_sink_move, rotated 1]) auto
  moreover have "snd (run (sink_move 1 3) (sink_init sink_zero)) = Moved 1"
    by (simp add: sink_move_def sink_move_end_def sink_init_def sinks_init_from NSINKS_def
        SESSIONS_PER_SINK_def)
  ultimately show ?thesis using sink_ascending_no_deadlock [OF c(1), of "{0, 1, 2}"] by auto
qed

end
