(* ===== verification/Catalog.thy ===== *)
theory Catalog
  imports Locks
begin

text \<open>
  Case 3 of the device service, \<^verbatim>\<open>Week6/Assignment6/concurrency/src/catalog.c\<close>: which
  permissions every app holds, and which permissions are enabled, under one mutex each. Two
  of the requests nest the mutexes apps first, two of them permissions first.
\<close>

unbundle bit_operations_syntax

definition NAPPS :: nat where "NAPPS = 8"
definition NPERMS :: nat where "NPERMS = 8"

datatype catalog_lock = Apps | Perms

instantiation catalog_lock :: linorder
begin

definition less_catalog_lock :: "catalog_lock \<Rightarrow> catalog_lock \<Rightarrow> bool" where
  "a < b \<longleftrightarrow> a = Apps \<and> b = Perms"

definition less_eq_catalog_lock :: "catalog_lock \<Rightarrow> catalog_lock \<Rightarrow> bool" where
  "a \<le> b \<longleftrightarrow> a = Apps \<or> b = Perms"

instance
proof
  fix x y z :: catalog_lock
  show "(x < y) = (x \<le> y \<and> \<not> y \<le> x)"
    by (cases x; cases y) (simp_all add: less_catalog_lock_def less_eq_catalog_lock_def)
  show "x \<le> x" by (cases x) (simp_all add: less_eq_catalog_lock_def)
  show "x \<le> y \<Longrightarrow> y \<le> z \<Longrightarrow> x \<le> z"
    by (cases x; cases y; cases z) (simp_all add: less_eq_catalog_lock_def)
  show "x \<le> y \<Longrightarrow> y \<le> x \<Longrightarrow> x = y"
    by (cases x; cases y) (simp_all add: less_eq_catalog_lock_def)
  show "x \<le> y \<or> y \<le> x"
    by (cases x; cases y) (simp_all add: less_eq_catalog_lock_def)
qed

end

text \<open>\<^verbatim>\<open>apps[a].perms\<close>, a bit set, and \<^verbatim>\<open>perms[p].enabled\<close>.\<close>

record catalog =
  apps :: "nat \<Rightarrow> u32"
  enabled :: "nat \<Rightarrow> int"

datatype catalog_result =
    CanLaunch int | PermUsers int int | Grant int | Revoke | SetPerm int | CatalogInit

type_synonym catalog_prog = "(catalog_lock, catalog, catalog_result) prog"

definition has :: "catalog \<Rightarrow> nat \<Rightarrow> nat \<Rightarrow> int" where
  "has s app perm = uint (drop_bit perm (apps s app) AND 1)"

definition catalog_zero :: catalog where
  "catalog_zero = \<lparr>apps = (\<lambda>_. 0), enabled = (\<lambda>_. 0)\<rparr>"

definition catalog_init :: "catalog \<Rightarrow> catalog" where
  "catalog_init s = s\<lparr>enabled := fold (\<lambda>p e. e(p := 1)) [0..<NPERMS] (enabled s)\<rparr>"

definition catalog_can_launch :: "nat \<Rightarrow> nat \<Rightarrow> catalog_prog" where
  "catalog_can_launch app perm =
     Acq Apps (Acq Perms (Read (\<lambda>s. Read (\<lambda>s'.
       let ok = of_bool (has s app perm \<noteq> 0 \<and> enabled s' perm \<noteq> 0)
       in Rel Perms (Rel Apps (Ret (CanLaunch ok)))))))"

definition catalog_perm_users :: "nat \<Rightarrow> catalog_prog" where
  "catalog_perm_users perm =
     Acq Perms (Acq Apps (Read (\<lambda>s.
       let e = enabled s perm
       in sum_loop [0..<NAPPS] (\<lambda>a s. has s a perm) 0 (\<lambda>n.
            Rel Apps (Rel Perms (Ret (PermUsers n e)))))))"

definition catalog_grant :: "nat \<Rightarrow> nat \<Rightarrow> catalog_prog" where
  "catalog_grant app perm =
     Acq Apps (Acq Perms (Read (\<lambda>s.
       let ok = enabled s perm; fin = Rel Perms (Rel Apps (Ret (Grant ok)))
       in if ok \<noteq> 0
          then Write (\<lambda>s. s\<lparr>apps := (apps s)(app := apps s app OR push_bit perm 1)\<rparr>) fin
          else fin)))"

definition catalog_revoke :: "nat \<Rightarrow> nat \<Rightarrow> catalog_prog" where
  "catalog_revoke app perm =
     Acq Apps
       (Write (\<lambda>s. s\<lparr>apps := (apps s)(app := apps s app AND NOT (push_bit perm 1))\<rparr>)
         (Rel Apps (Ret Revoke)))"

definition catalog_set_perm :: "nat \<Rightarrow> int \<Rightarrow> catalog_prog" where
  "catalog_set_perm perm on =
     Acq Perms (Acq Apps (
       let fin = (\<lambda>ok. Rel Apps (Rel Perms (Ret (SetPerm ok)))) in
       if on \<noteq> 0
       then Write (\<lambda>s. s\<lparr>enabled := (enabled s)(perm := 1)\<rparr>) (fin 1)
       else sum_loop [0..<NAPPS] (\<lambda>a s. has s a perm) 0 (\<lambda>users.
              if users = 0
              then Write (\<lambda>s. s\<lparr>enabled := (enabled s)(perm := 0)\<rparr>) (fin 1)
              else fin 0)))"

definition catalog_requests :: "catalog_prog set" where
  "catalog_requests =
     {catalog_can_launch a p | a p. a < NAPPS \<and> p < NPERMS} \<union>
     {catalog_perm_users p | p. p < NPERMS} \<union>
     {catalog_grant a p | a p. a < NAPPS \<and> p < NPERMS} \<union>
     {catalog_revoke a p | a p. a < NAPPS \<and> p < NPERMS} \<union>
     {catalog_set_perm p on | p on. p < NPERMS}"

abbreviation catalog_start :: "(catalog_lock, catalog, catalog_result) sys" where
  "catalog_start \<equiv> sys_init (catalog_init catalog_zero) CatalogInit"

lemma catalog_requestsI:
  "a < NAPPS \<Longrightarrow> p < NPERMS \<Longrightarrow> catalog_grant a p \<in> catalog_requests"
  "p < NPERMS \<Longrightarrow> catalog_perm_users p \<in> catalog_requests"
  "a < NAPPS \<Longrightarrow> p < NPERMS \<Longrightarrow> catalog_can_launch a p \<in> catalog_requests"
  "a < NAPPS \<Longrightarrow> p < NPERMS \<Longrightarrow> catalog_revoke a p \<in> catalog_requests"
  "p < NPERMS \<Longrightarrow> catalog_set_perm p on \<in> catalog_requests"
  by (auto simp: catalog_requests_def)

section \<open>Permission bits\<close>

lemma has_bit: "has s app perm = of_bool (bit (apps s app) perm)"
  by (simp add: has_def and_one_eq mod_2_eq_odd bit_iff_odd_drop_bit)

lemma users_zero:
  "(\<Sum>a\<leftarrow>[0..<n]. has s a perm) = 0 \<longleftrightarrow> (\<forall>a<n. \<not> bit (apps s a) perm)"
proof -
  have "(\<Sum>a\<leftarrow>[0..<n]. has s a perm) = (\<Sum>a<n. has s a perm)"
    by (rule sum_list_map_upt_lessThan)
  also have "\<dots> = 0 \<longleftrightarrow> (\<forall>a\<in>{..<n}. has s a perm = 0)"
    by (rule sum_nonneg_eq_0_iff) (auto simp: has_bit)
  finally show ?thesis by (auto simp: has_bit)
qed

lemma catalog_init_enabled: "enabled (catalog_init s) p = (if p < NPERMS then 1 else enabled s p)"
proof -
  have "fold (\<lambda>p e. e(p := 1)) [0..<n] f q = (if q < n then 1 else f q)" for n and f :: "nat \<Rightarrow> int" and q
    by (induction n) auto
  then show ?thesis by (simp add: catalog_init_def)
qed

section \<open>The rule of the catalog\<close>

text \<open>An app never holds a disabled permission.\<close>

definition catalog_rule :: "catalog \<Rightarrow> bool" where
  "catalog_rule s \<longleftrightarrow>
     (\<forall>a<NAPPS. \<forall>p<NPERMS. bit (apps s a) p \<longrightarrow> enabled s p \<noteq> 0)"

fun catalog_view :: "catalog_lock \<Rightarrow> catalog \<Rightarrow> (nat \<Rightarrow> u32) + (nat \<Rightarrow> int)" where
  "catalog_view Apps s = Inl (apps s)"
| "catalog_view Perms s = Inr (enabled s)"

text \<open>What a result may say: no user is ever reported for a disabled permission.\<close>

fun catalog_result_ok :: "catalog_result \<Rightarrow> bool" where
  "catalog_result_ok (PermUsers n e) = (0 \<le> n \<and> n \<le> int NAPPS \<and> (e = 0 \<longrightarrow> n = 0))"
| "catalog_result_ok _ = True"

abbreviation catalog_safe :: "catalog_prog \<Rightarrow> catalog_lock set \<Rightarrow> catalog \<Rightarrow> bool" where
  "catalog_safe \<equiv> safe catalog_view (\<lambda>_ _. True) catalog_rule catalog_result_ok"

lemma agree_both:
  "agree catalog_view {Apps, Perms} s t \<longleftrightarrow> apps s = apps t \<and> enabled s = enabled t"
  "agree catalog_view {Perms, Apps} s t \<longleftrightarrow> apps s = apps t \<and> enabled s = enabled t"
  by (auto simp: agree_def)

lemma agree_Apps: "agree catalog_view {Apps} s t \<longleftrightarrow> apps s = apps t"
  by (simp add: agree_def)

lemma catalog_rule_grant:
  assumes "catalog_rule s" and "enabled s p \<noteq> 0"
  shows "catalog_rule (s\<lparr>apps := (apps s)(a := apps s a OR push_bit p 1)\<rparr>)"
  using assms by (auto simp: catalog_rule_def bit_simps)

lemma catalog_rule_revoke:
  "catalog_rule s \<Longrightarrow> catalog_rule (s\<lparr>apps := (apps s)(a := apps s a AND NOT (push_bit p 1))\<rparr>)"
  by (auto simp: catalog_rule_def bit_simps)

lemma catalog_rule_enable:
  "catalog_rule s \<Longrightarrow> catalog_rule (s\<lparr>enabled := (enabled s)(p := 1)\<rparr>)"
  by (simp add: catalog_rule_def)

lemma catalog_rule_disable:
  "catalog_rule s \<Longrightarrow> \<forall>a<NAPPS. \<not> bit (apps s a) p \<Longrightarrow>
   catalog_rule (s\<lparr>enabled := (enabled s)(p := 0)\<rparr>)"
  by (auto simp: catalog_rule_def)

lemma view_other_lock:
  "l \<noteq> Apps \<Longrightarrow> catalog_view l (s\<lparr>apps := a\<rparr>) = catalog_view l s"
  "l \<noteq> Perms \<Longrightarrow> catalog_view l (s\<lparr>enabled := e\<rparr>) = catalog_view l s"
  by (cases l; simp)+

lemma catalog_can_launch_safe: "catalog_safe (catalog_can_launch a p) {} s"
  by (auto simp: catalog_can_launch_def Let_def)

lemma catalog_grant_safe: "catalog_safe (catalog_grant a p) {} s"
  by (auto simp: catalog_grant_def Let_def agree_both view_other_lock insert_commute
      simp del: push_bit_of_1 intro: catalog_rule_grant)

lemma catalog_revoke_safe: "catalog_safe (catalog_revoke a p) {} s"
  by (auto simp: catalog_revoke_def view_other_lock simp del: push_bit_of_1
      intro: catalog_rule_revoke)

lemma users_bounds:
  assumes "catalog_rule s" and "p < NPERMS"
  shows "0 \<le> (\<Sum>a\<leftarrow>[0..<NAPPS]. has s a p) \<and> (\<Sum>a\<leftarrow>[0..<NAPPS]. has s a p) \<le> int NAPPS \<and>
    (enabled s p = 0 \<longrightarrow> (\<Sum>a\<leftarrow>[0..<NAPPS]. has s a p) = 0)"
proof (intro conjI impI)
  have sum: "(\<Sum>a\<leftarrow>[0..<NAPPS]. has s a p) = (\<Sum>a<NAPPS. has s a p)"
    by (rule sum_list_map_upt_lessThan)
  show "0 \<le> (\<Sum>a\<leftarrow>[0..<NAPPS]. has s a p)"
    unfolding sum by (rule sum_nonneg) (simp add: has_bit)
  have "(\<Sum>a<NAPPS. has s a p) \<le> (\<Sum>a<NAPPS. 1)"
    by (rule sum_mono) (simp add: has_bit)
  then show "(\<Sum>a\<leftarrow>[0..<NAPPS]. has s a p) \<le> int NAPPS" by (simp add: sum)
  assume "enabled s p = 0"
  then show "(\<Sum>a\<leftarrow>[0..<NAPPS]. has s a p) = 0"
    using assms by (auto simp: users_zero catalog_rule_def)
qed

lemma catalog_perm_users_safe:
  assumes "p < NPERMS"
  shows "catalog_safe (catalog_perm_users p) {} s"
proof -
  have "catalog_safe (sum_loop [0..<NAPPS] (\<lambda>a s. has s a p) 0 (\<lambda>n.
      Rel Apps (Rel Perms (Ret (PermUsers n (enabled t p)))))) {Apps, Perms} t"
    if "catalog_rule t" for t
    using users_bounds [OF that assms]
    by (intro sum_loop_safe) (auto simp: agree_both has_def insert_commute)
  then show ?thesis by (auto simp: catalog_perm_users_def Let_def)
qed

lemma catalog_set_perm_safe: "catalog_safe (catalog_set_perm p on) {} s"
proof -
  let ?fin = "\<lambda>ok. Rel Apps (Rel Perms (Ret (SetPerm ok)))"
  have "catalog_safe (sum_loop [0..<NAPPS] (\<lambda>a s. has s a p) 0 (\<lambda>users.
      if users = 0 then Write (\<lambda>s. s\<lparr>enabled := (enabled s)(p := 0)\<rparr>) (?fin 1) else ?fin 0))
      {Apps, Perms} t" for t
  proof (rule sum_loop_safe)
    fix u assume u: "agree catalog_view {Apps, Perms} t u"
    have "catalog_safe (Write (\<lambda>s. s\<lparr>enabled := (enabled s)(p := 0)\<rparr>) (?fin 1)) {Apps, Perms} u"
      if z: "(\<Sum>a\<leftarrow>[0..<NAPPS]. has t a p) = 0"
      using z u by (auto simp: users_zero agree_both view_other_lock insert_commute
          intro!: catalog_rule_disable)
    then show "catalog_safe (if 0 + (\<Sum>a\<leftarrow>[0..<NAPPS]. has t a p) = 0
        then Write (\<lambda>s. s\<lparr>enabled := (enabled s)(p := 0)\<rparr>) (?fin 1) else ?fin 0) {Apps, Perms} u"
      by auto
  qed (auto simp: agree_both has_def)
  then show ?thesis
    by (auto simp: catalog_set_perm_def Let_def view_other_lock insert_commute
        intro: catalog_rule_enable)
qed

interpretation catalog_mon: monitor catalog_requests catalog_view "\<lambda>_ _. True" catalog_rule
    catalog_result_ok "catalog_init catalog_zero" CatalogInit
proof
  show "catalog_safe p {} s" if "p \<in> catalog_requests" for p s
    using that catalog_can_launch_safe catalog_perm_users_safe catalog_grant_safe
      catalog_revoke_safe catalog_set_perm_safe
    by (auto simp: catalog_requests_def)
qed (auto simp: catalog_rule_def catalog_zero_def catalog_init_def)

text \<open>The requests that take the apps' mutex first keep a lock order among themselves.\<close>

definition apps_first_requests :: "catalog_prog set" where
  "apps_first_requests =
     {catalog_can_launch a p | a p. True} \<union> {catalog_grant a p | a p. True} \<union>
     {catalog_revoke a p | a p. True}"

interpretation catalog_ord: lock_order apps_first_requests
  by unfold_locales
    (auto simp: apps_first_requests_def catalog_can_launch_def catalog_grant_def
      catalog_revoke_def Let_def less_catalog_lock_def)

section \<open>Properties\<close>

text \<open>C33: At every instant of every interleaving of catalog requests, no app holds a disabled
  permission: the rule stated in \<^verbatim>\<open>devsvc.h\<close>.\<close>

theorem catalog_rule_always:
  assumes "reach catalog_requests catalog_start c"
  shows "catalog_rule (shared c)"
  by (rule catalog_mon.always_J [OF assms])

theorem catalog_rule_always_witness:
  "\<exists>c. reach catalog_requests catalog_start c \<and> thr c 0 = Ret (Grant 1) \<and> catalog_rule (shared c)"
proof -
  have "catalog_grant 2 5 \<in> catalog_requests" by (rule catalog_requestsI) (simp_all add: NAPPS_def NPERMS_def)
  then obtain c where c: "reach catalog_requests catalog_start c"
      "thr c 0 = Ret (snd (run (catalog_grant 2 5) (catalog_init catalog_zero)))"
    by (rule solo_run [rotated 1]) (auto simp: catalog_grant_def Let_def)
  have "snd (run (catalog_grant 2 5) (catalog_init catalog_zero)) = Grant 1"
    by (simp add: catalog_grant_def Let_def catalog_init_enabled NPERMS_def)
  with c catalog_rule_always [OF c(1)] show ?thesis by auto
qed

text \<open>\<^verbatim>\<open>catalog_perm_users\<close> never reports users of a permission it reports as disabled.\<close>

theorem catalog_perm_users_consistent:
  assumes "reach catalog_requests catalog_start c" and "thr c i = Ret (PermUsers n e)"
  shows "0 \<le> n \<and> n \<le> int NAPPS \<and> (e = 0 \<longrightarrow> n = 0)"
  using catalog_mon.result_Q [OF assms] by simp

theorem catalog_perm_users_consistent_witness:
  "\<exists>c n e. reach catalog_requests catalog_start c \<and> thr c 0 = Ret (PermUsers n e) \<and>
     n \<le> int NAPPS"
proof -
  have "catalog_perm_users 5 \<in> catalog_requests" by (rule catalog_requestsI) (simp add: NPERMS_def)
  then obtain c where c: "reach catalog_requests catalog_start c"
      "thr c 0 = Ret (snd (run (catalog_perm_users 5) (catalog_init catalog_zero)))"
    by (rule solo_run [rotated 1])
      (auto simp: catalog_perm_users_def Let_def intro!: paired_sum_loop)
  obtain n e where "snd (run (catalog_perm_users 5) (catalog_init catalog_zero)) = PermUsers n e"
    by (simp add: catalog_perm_users_def Let_def run_sum_loop)
  with c catalog_perm_users_consistent [OF c(1)] show ?thesis by auto
qed

text \<open>An app lookup and a permission lookup can deadlock.\<close>

theorem catalog_lookup_deadlock:
  "\<exists>c. reach {catalog_can_launch a p, catalog_perm_users q} catalog_start c \<and> stuck {0, 1} c"
proof -
  let ?a = "case catalog_can_launch a p of Acq _ r \<Rightarrow> r"
  let ?a' = "case ?a of Acq _ r \<Rightarrow> r"
  let ?b = "case catalog_perm_users q of Acq _ r \<Rightarrow> r"
  let ?b' = "case ?b of Acq _ r \<Rightarrow> r"
  have eq: "catalog_can_launch a p = Acq Apps ?a" "catalog_perm_users q = Acq Perms ?b"
      "?a = Acq Perms ?a'" "?b = Acq Apps ?b'"
    by (simp_all add: catalog_can_launch_def catalog_perm_users_def)
  have "dos ?a s (Acq Perms ?a') s" "dos ?b s (Acq Apps ?b') s" for s
    using eq(3,4) dos.dos_none by metis+
  moreover have "Acq Apps ?a \<in> {catalog_can_launch a p, catalog_perm_users q}"
      "Acq Perms ?b \<in> {catalog_can_launch a p, catalog_perm_users q}"
    using eq(1,2) by auto
  ultimately show ?thesis
    by (intro circular_wait [of Apps ?a _ Perms ?b]) auto
qed

text \<open>\<^verbatim>\<open>catalog_set_perm\<close> on its own: enabling always succeeds, disabling is refused with the
  catalog unchanged exactly while some app holds the permission.\<close>

theorem catalog_set_perm_spec:
  "run (catalog_set_perm p on) s =
     (if on \<noteq> 0 then (s\<lparr>enabled := (enabled s)(p := 1)\<rparr>, SetPerm 1)
      else if \<exists>a<NAPPS. bit (apps s a) p then (s, SetPerm 0)
      else (s\<lparr>enabled := (enabled s)(p := 0)\<rparr>, SetPerm 1))"
  by (auto simp: catalog_set_perm_def Let_def run_sum_loop users_zero)

end
