(* ===== verification/Config.thy ===== *)
theory Config
  imports Locks
begin

text \<open>
  Case 4 of the device service, \<^verbatim>\<open>Week6/Assignment6/concurrency/src/config.c\<close>: the picture
  configuration that every frame reads while updates replace and free it. The heap is a map
  from addresses to blocks with the list of the blocks in use; a freed block keeps its address and is overwritten with 0xff, as
  \<^verbatim>\<open>config_free\<close> does. Which address \<^verbatim>\<open>malloc\<close> returns is a parameter of the model.
\<close>

definition NOUTPUTS :: nat where "NOUTPUTS = 16"
definition CFG_FIELDS :: nat where "CFG_FIELDS = 8"

record config =
  version :: u32
  vals :: "nat \<Rightarrow> int"

record output_t =
  out_id :: int
  frames :: int
  shown :: u32
  applied :: u32

record config_state =
  heap :: "nat \<Rightarrow> config"
  live :: "nat list"
  cfg :: nat
  outputs :: "nat \<Rightarrow> output_t"

definition cfg_value :: "u32 \<Rightarrow> int" where
  "cfg_value ver = int (unat (ver mod 1000)) + 1"

datatype config_lock = OutLock nat | CfgLock

datatype config_result = Rendered int | Updated | Version u32 | ConfigInit

type_synonym config_prog = "(config_lock, config_state, config_result) prog"

definition set_config :: "nat \<Rightarrow> config \<Rightarrow> config_state \<Rightarrow> config_state" where
  "set_config p c s = s\<lparr>heap := (heap s)(p := c)\<rparr>"

definition set_output :: "nat \<Rightarrow> (output_t \<Rightarrow> output_t) \<Rightarrow> config_state \<Rightarrow> config_state" where
  "set_output i f s = s\<lparr>outputs := (outputs s)(i := f (outputs s i))\<rparr>"

text \<open>\<^verbatim>\<open>config_alloc\<close>: the new block is private until \<^verbatim>\<open>cfg\<close> points to it, so it is one step.\<close>

definition config_alloc :: "nat \<Rightarrow> u32 \<Rightarrow> config_state \<Rightarrow> config_state" where
  "config_alloc p ver s =
     set_config p (fold (\<lambda>i c. c\<lparr>vals := (vals c)(i := cfg_value ver)\<rparr>) [0..<CFG_FIELDS]
                    ((heap s p)\<lparr>version := ver\<rparr>))
       (s\<lparr>live := p # live s\<rparr>)"

text \<open>\<^verbatim>\<open>memset(c, 0xff, sizeof *c)\<close> makes the unsigned field all ones and every int -1.\<close>

definition config_free :: "nat \<Rightarrow> config_state \<Rightarrow> config_state" where
  "config_free p s = set_config p \<lparr>version = - 1, vals = (\<lambda>_. - 1)\<rparr> (s\<lparr>live := removeAll p (live s)\<rparr>)"

text \<open>\<^verbatim>\<open>config_ok(c)\<close>: one step per field that it compares.\<close>

fun config_ok :: "nat list \<Rightarrow> nat \<Rightarrow> (int \<Rightarrow> config_prog) \<Rightarrow> config_prog" where
  "config_ok [] c k = k 1"
| "config_ok (i # is) c k = Read (\<lambda>s.
     if vals (heap s c) i \<noteq> cfg_value (version (heap s c)) then k 0 else config_ok is c k)"

definition output_render :: "nat \<Rightarrow> config_prog" where
  "output_render out =
     Acq (OutLock out) (Acq CfgLock (Read (\<lambda>s.
       let c = cfg s in
       config_ok [0..<CFG_FIELDS] c (\<lambda>ok.
         Write (set_output out (\<lambda>x. x\<lparr>frames := frames x + 1\<rparr>))
        (Write (\<lambda>s. set_output out (\<lambda>x. x\<lparr>shown := version (heap s c)\<rparr>) s)
        (Rel (OutLock out)
        (Write (\<lambda>s. s)
          (if ok \<noteq> 0
           then config_ok [0..<CFG_FIELDS] c (\<lambda>ok. Rel CfgLock (Ret (Rendered ok)))
           else Rel CfgLock (Ret (Rendered 0))))))))))"

fun apply_outputs :: "nat list \<Rightarrow> nat \<Rightarrow> config_prog \<Rightarrow> config_prog" where
  "apply_outputs [] c p = p"
| "apply_outputs (i # is) c p =
     Acq (OutLock i)
       (Write (\<lambda>s. set_output i (\<lambda>x. x\<lparr>applied := version (heap s c)\<rparr>) s)
         (Rel (OutLock i) (apply_outputs is c p)))"

definition config_update :: "(nat list \<Rightarrow> nat) \<Rightarrow> config_prog" where
  "config_update malloc =
     Acq CfgLock (Read (\<lambda>s.
       let old = cfg s in
       Read (\<lambda>s. let c = malloc (live s) in
         Write (\<lambda>s. config_alloc c (version (heap s old) + 1) s)
        (Write (\<lambda>s. s\<lparr>cfg := c\<rparr>)
        (Write (config_free old)
        (apply_outputs [0..<NOUTPUTS] c (Rel CfgLock (Ret Updated))))))))"

definition config_version :: config_prog where
  "config_version = Acq CfgLock (Read (\<lambda>s.
     let v = version (heap s (cfg s)) in Rel CfgLock (Ret (Version v))))"

definition config_zero :: config_state where
  "config_zero = \<lparr>heap = (\<lambda>_. \<lparr>version = 0, vals = (\<lambda>_. 0)\<rparr>), live = [], cfg = 0,
     outputs = (\<lambda>_. \<lparr>out_id = 0, frames = 0, shown = 0, applied = 0\<rparr>)\<rparr>"

definition config_init :: "(nat list \<Rightarrow> nat) \<Rightarrow> config_state \<Rightarrow> config_state" where
  "config_init malloc s =
     (let p = malloc (live s); s' = (config_alloc p 1 s)\<lparr>cfg := p\<rparr>
      in fold (\<lambda>i. set_output i (\<lambda>x. x\<lparr>out_id := int i, applied := 1\<rparr>)) [0..<NOUTPUTS] s')"

definition config_requests :: "(nat list \<Rightarrow> nat) \<Rightarrow> config_prog set" where
  "config_requests malloc =
     {output_render i | i. i < NOUTPUTS} \<union> {config_update malloc, config_version}"

lemma config_requestsI:
  "i < NOUTPUTS \<Longrightarrow> output_render i \<in> config_requests malloc"
  "config_update malloc \<in> config_requests malloc"
  by (auto simp: config_requests_def)

abbreviation config_start ::
    "(nat list \<Rightarrow> nat) \<Rightarrow> (config_lock, config_state, config_result) sys" where
  "config_start malloc \<equiv> sys_init (config_init malloc config_zero) ConfigInit"

section \<open>The current configuration\<close>

definition consistent :: "config \<Rightarrow> bool" where
  "consistent c \<longleftrightarrow> (\<forall>i<CFG_FIELDS. vals c i = cfg_value (version c))"

lemma version_fold [simp]:
  "version (fold (\<lambda>i c. c\<lparr>vals := (vals c)(i := x)\<rparr>) is c) = version c"
  by (induction "is" arbitrary: c) auto

lemma vals_fold:
  "vals (fold (\<lambda>i c. c\<lparr>vals := (vals c)(i := x)\<rparr>) is c) k =
    (if k \<in> set is then x else vals c k)"
  by (induction "is" arbitrary: c) auto

lemma config_alloc_simps [simp]:
  "cfg (config_alloc p ver s) = cfg s" "outputs (config_alloc p ver s) = outputs s"
  "live (config_alloc p ver s) = p # live s"
  "q \<noteq> p \<Longrightarrow> heap (config_alloc p ver s) q = heap s q"
  "version (heap (config_alloc p ver s) p) = ver"
  by (simp_all add: config_alloc_def set_config_def)

lemma consistent_alloc: "consistent (heap (config_alloc p ver s) p)"
  by (simp add: consistent_def config_alloc_def set_config_def vals_fold)

lemma config_free_simps [simp]:
  "cfg (config_free p s) = cfg s" "outputs (config_free p s) = outputs s"
  "live (config_free p s) = removeAll p (live s)"
  "q \<noteq> p \<Longrightarrow> heap (config_free p s) q = heap s q"
  by (simp_all add: config_free_def set_config_def)

lemma freed_not_consistent: "\<not> consistent (heap (config_free p s) p)"
  by (auto simp: consistent_def config_free_def set_config_def cfg_value_def CFG_FIELDS_def
      intro!: exI [of _ 0])

lemma set_output_simps [simp]:
  "heap (set_output i f s) = heap s" "live (set_output i f s) = live s"
  "cfg (set_output i f s) = cfg s"
  "outputs (set_output i f s) k = (if k = i then f (outputs s i) else outputs s k)"
  by (simp_all add: set_output_def)

text \<open>
  The invariant of every instant: \<^verbatim>\<open>cfg\<close> points to an allocated, consistent configuration.
  Whenever \<^verbatim>\<open>cfg_lock\<close> is free, every output has the current version applied.
\<close>

definition config_inv :: "config_state \<Rightarrow> bool" where
  "config_inv s \<longleftrightarrow> cfg s \<in> set (live s) \<and> consistent (heap s (cfg s))"

fun config_lock_inv :: "config_lock \<Rightarrow> config_state \<Rightarrow> bool" where
  "config_lock_inv CfgLock s =
     (\<forall>i<NOUTPUTS. applied (outputs s i) = version (heap s (cfg s)))"
| "config_lock_inv (OutLock i) s = True"

fun config_view :: "config_lock \<Rightarrow> config_state \<Rightarrow>
    (nat \<Rightarrow> config) \<times> nat list \<times> nat \<times> (nat \<Rightarrow> u32) + int \<times> u32" where
  "config_view CfgLock s = Inl (heap s, live s, cfg s, \<lambda>i. applied (outputs s i))"
| "config_view (OutLock i) s = Inr (frames (outputs s i), shown (outputs s i))"

fun config_result_ok :: "config_result \<Rightarrow> bool" where
  "config_result_ok (Rendered ok) = (ok = 1)"
| "config_result_ok _ = True"

abbreviation config_safe :: "config_prog \<Rightarrow> config_lock set \<Rightarrow> config_state \<Rightarrow> bool" where
  "config_safe \<equiv> safe config_view config_lock_inv config_inv config_result_ok"

lemma agree_cfg:
  "CfgLock \<in> H \<Longrightarrow> agree config_view H s t \<Longrightarrow>
   heap s = heap t \<and> live s = live t \<and> cfg s = cfg t \<and>
   (\<forall>i. applied (outputs s i) = applied (outputs t i))"
  by (auto simp: agree_def dest!: bspec fun_cong)

lemma agree_cfg_inv:
  assumes "CfgLock \<in> H" and "agree config_view H s t"
  shows "config_inv t = config_inv s" and "heap t = heap s" and "cfg t = cfg s"
    and "live t = live s" and "config_lock_inv CfgLock t = config_lock_inv CfgLock s"
  using agree_cfg [OF assms] by (auto simp: config_inv_def)

text \<open>While \<^verbatim>\<open>cfg_lock\<close> is held, \<^verbatim>\<open>config_ok\<close> on a consistent block says yes.\<close>

lemma config_ok_safe:
  assumes "CfgLock \<in> H" and "consistent (heap s c)" and "set is \<subseteq> {..<CFG_FIELDS}"
    and "\<And>t. agree config_view H s t \<Longrightarrow> config_safe (k 1) H t"
  shows "config_safe (config_ok is c k) H s"
  using assms
proof (induction "is" arbitrary: s)
  case Nil
  then show ?case by simp
next
  case (Cons i "is")
  have "vals (heap t c) i = cfg_value (version (heap t c)) \<and> config_safe (config_ok is c k) H t"
    if t: "agree config_view H s t" for t
  proof
    have h: "heap t = heap s" using agree_cfg_inv [OF Cons.prems(1) t] by simp
    then show "vals (heap t c) i = cfg_value (version (heap t c))"
      using Cons.prems(2,3) by (simp add: consistent_def)
    show "config_safe (config_ok is c k) H t"
      by (rule Cons.IH) (use Cons.prems h t in \<open>auto intro: agree_trans\<close>)
  qed
  then show ?case by simp
qed

lemma view_set_output:
  assumes "\<And>x. applied (f x) = applied x" and "l \<noteq> OutLock i"
  shows "config_view l (set_output i f s) = config_view l s"
  using assms by (cases l) (auto simp: fun_eq_iff)

lemma view_set_applied:
  "l \<noteq> CfgLock \<Longrightarrow>
   config_view l (set_output i (\<lambda>x. x\<lparr>applied := v\<rparr>) s) = config_view l s"
  by (cases l) auto

lemma config_inv_output [simp]: "config_inv (set_output i f s) = config_inv s"
  by (simp add: config_inv_def)

lemma lock_inv_set_output:
  assumes "\<And>x. applied (f x) = applied x"
  shows "config_lock_inv l (set_output i f s) = config_lock_inv l s"
  using assms by (cases l) auto

text \<open>\<open>good c s\<close>: what a thread that holds \<^verbatim>\<open>cfg_lock\<close> knows of the block it reads.\<close>

definition good :: "nat \<Rightarrow> config_state \<Rightarrow> bool" where
  "good c s \<longleftrightarrow> consistent (heap s c) \<and> config_lock_inv CfgLock s"

lemma good_agree:
  assumes "good c s" and "agree config_view H s t" and "CfgLock \<in> H"
  shows "good c t"
  using assms agree_cfg_inv [OF assms(3,2)] by (simp add: good_def)

lemma good_set_output:
  "good c s \<Longrightarrow> (\<And>x. applied (f x) = applied x) \<Longrightarrow> good c (set_output i f s)"
  using lock_inv_set_output [of f CfgLock i s] by (simp add: good_def)

lemma unlock_cfg_safe:
  assumes "good c s" and "config_result_ok r"
  shows "config_safe (Rel CfgLock (Ret r)) {CfgLock} s"
  using assms by (auto simp: good_def dest: agree_cfg_inv(5) [of "{CfgLock}", OF singletonI])

lemma render_tail_safe:
  assumes "good c s"
  shows "config_safe (config_ok [0..<CFG_FIELDS] c (\<lambda>ok. Rel CfgLock (Ret (Rendered ok)))) {CfgLock} s"
proof (rule config_ok_safe)
  fix t assume "agree config_view {CfgLock} s t"
  with assms have "good c t" by (auto intro: good_agree)
  then show "config_safe (Rel CfgLock (Ret (Rendered 1))) {CfgLock} t"
    by (rule unlock_cfg_safe) simp
qed (use assms in \<open>auto simp: good_def\<close>)

lemma render_body_safe:
  assumes "good c s"
  shows "config_safe
    (Write (set_output out (\<lambda>x. x\<lparr>frames := frames x + 1\<rparr>))
    (Write (\<lambda>s. set_output out (\<lambda>x. x\<lparr>shown := version (heap s c)\<rparr>) s)
    (Rel (OutLock out)
    (Write (\<lambda>s. s)
      (config_ok [0..<CFG_FIELDS] c (\<lambda>ok. Rel CfgLock (Ret (Rendered ok))))))))
    {CfgLock, OutLock out} s"
proof (intro safe_write)
  let ?H = "{CfgLock, OutLock out}"
  fix t assume t: "agree config_view ?H s t"
  fix u assume u: "agree config_view ?H (set_output out (\<lambda>x. x\<lparr>frames := frames x + 1\<rparr>) t) u"
  have "good c (set_output out (\<lambda>x. x\<lparr>frames := frames x + 1\<rparr>) t)"
    using good_agree [OF assms t] by (intro good_set_output) auto
  then have "good c u" by (rule good_agree [OF _ u]) simp
  then have g: "good c (set_output out (\<lambda>x. x\<lparr>shown := version (heap u c)\<rparr>) u)"
    by (rule good_set_output) simp
  show "config_safe (Rel (OutLock out) (Write (\<lambda>s. s) (config_ok [0..<CFG_FIELDS] c
      (\<lambda>ok. Rel CfgLock (Ret (Rendered ok)))))) ?H (set_output out (\<lambda>x. x\<lparr>shown := version (heap u c)\<rparr>) u)"
  proof (rule safe_rel)
    fix v assume "agree config_view ?H (set_output out (\<lambda>x. x\<lparr>shown := version (heap u c)\<rparr>) u) v"
    with g have "good c v" by (rule good_agree) simp
    then show "config_safe (Write (\<lambda>s. s) (config_ok [0..<CFG_FIELDS] c
        (\<lambda>ok. Rel CfgLock (Ret (Rendered ok))))) {CfgLock} v"
      by (intro safe_write render_tail_safe) (auto intro: good_agree)
  qed auto
qed (auto simp: view_set_output)

lemma output_render_safe: "config_safe (output_render out) {} s"
  unfolding output_render_def Let_def
proof (intro safe_acq safe_read)
  let ?H = "insert CfgLock (insert (OutLock out) {})"
  fix t u assume "config_lock_inv CfgLock t" "agree config_view ?H t u" "config_inv u"
  then have g: "good (cfg u) u"
    using agree_cfg_inv(5) [of ?H t u] by (simp add: good_def config_inv_def)
  show "config_safe (config_ok [0..<CFG_FIELDS] (cfg u) (\<lambda>ok.
      Write (set_output out (\<lambda>x. x\<lparr>frames := frames x + 1\<rparr>))
        (Write (\<lambda>s. set_output out (\<lambda>x. x\<lparr>shown := version (heap s (cfg u))\<rparr>) s)
        (Rel (OutLock out)
        (Write (\<lambda>s. s)
          (if ok \<noteq> 0
           then config_ok [0..<CFG_FIELDS] (cfg u) (\<lambda>ok. Rel CfgLock (Ret (Rendered ok)))
           else Rel CfgLock (Ret (Rendered 0)))))))) ?H u"
  proof (rule config_ok_safe)
    fix v assume "agree config_view ?H u v"
    with g have "good (cfg u) v" by (rule good_agree) simp
    then show "config_safe
       (Write (set_output out (\<lambda>x. x\<lparr>frames := frames x + 1\<rparr>))
        (Write (\<lambda>s. set_output out (\<lambda>x. x\<lparr>shown := version (heap s (cfg u))\<rparr>) s)
        (Rel (OutLock out)
        (Write (\<lambda>s. s)
          (if (1::int) \<noteq> 0
           then config_ok [0..<CFG_FIELDS] (cfg u) (\<lambda>ok. Rel CfgLock (Ret (Rendered ok)))
           else Rel CfgLock (Ret (Rendered 0))))))) ?H v"
      using render_body_safe by (simp del: safe.simps)
  qed (use g in \<open>auto simp: good_def\<close>)
qed

text \<open>The updater: which outputs still have to be told of the configuration at \<open>c\<close>.\<close>

definition pending :: "nat list \<Rightarrow> nat \<Rightarrow> config_state \<Rightarrow> bool" where
  "pending is c s \<longleftrightarrow> cfg s = c \<and>
     (\<forall>i<NOUTPUTS. i \<notin> set is \<longrightarrow> applied (outputs s i) = version (heap s c))"

lemma pending_agree:
  assumes "pending is c s" and "agree config_view H s t" and "CfgLock \<in> H"
  shows "pending is c t"
  using assms(1) agree_cfg [OF assms(3,2)] by (auto simp: pending_def)

lemma pending_apply:
  "pending (i # is) c s \<Longrightarrow>
   pending is c (set_output i (\<lambda>x. x\<lparr>applied := version (heap s c)\<rparr>) s)"
  by (auto simp: pending_def)

lemma apply_outputs_safe:
  "pending is c s \<Longrightarrow> config_safe (apply_outputs is c (Rel CfgLock (Ret Updated))) {CfgLock} s"
proof (induction "is" arbitrary: s)
  case Nil
  then show ?case
    by (auto intro!: safe_rel safe_ret simp: pending_def
        dest: agree_cfg [of "{CfgLock}", OF singletonI] simp del: safe.simps)
next
  case (Cons i "is")
  let ?H = "insert (OutLock i) {CfgLock}"
  show ?case unfolding apply_outputs.simps
  proof (intro safe_acq safe_write)
    fix t u assume t: "agree config_view {CfgLock} s t" and u: "agree config_view ?H t u"
    have "pending (i # is) c u"
      using Cons.prems t u by (auto intro: pending_agree)
    then have p: "pending is c (set_output i (\<lambda>x. x\<lparr>applied := version (heap u c)\<rparr>) u)"
      by (rule pending_apply)
    show "config_safe (Rel (OutLock i) (apply_outputs is c (Rel CfgLock (Ret Updated)))) ?H
        (set_output i (\<lambda>x. x\<lparr>applied := version (heap u c)\<rparr>) u)"
    proof (rule safe_rel)
      fix v assume "agree config_view ?H (set_output i (\<lambda>x. x\<lparr>applied := version (heap u c)\<rparr>) u) v"
      with p have "pending is c v" by (rule pending_agree) simp
      then show "config_safe (apply_outputs is c (Rel CfgLock (Ret Updated))) {CfgLock} v"
        by (rule Cons.IH)
    qed auto
  qed (simp_all add: view_set_applied)
qed

text \<open>The new block between its allocation and its publication.\<close>

definition fresh :: "nat \<Rightarrow> nat \<Rightarrow> config_state \<Rightarrow> bool" where
  "fresh c old s \<longleftrightarrow> c \<noteq> old \<and> cfg s = old \<and> c \<in> set (live s) \<and> consistent (heap s c)"

lemma fresh_agree:
  assumes "fresh c old s" and "agree config_view H s t" and "CfgLock \<in> H"
  shows "fresh c old t"
  using assms(1) agree_cfg [OF assms(3,2)] by (auto simp: fresh_def)

lemma fresh_alloc:
  "cfg s \<in> set (live s) \<Longrightarrow> c \<notin> set (live s) \<Longrightarrow> fresh c (cfg s) (config_alloc c ver s)"
  by (auto simp: fresh_def consistent_alloc)

lemma view_alloc:
  "l \<noteq> CfgLock \<Longrightarrow> config_view l (config_alloc p ver s) = config_view l s"
  "l \<noteq> CfgLock \<Longrightarrow> config_view l (s\<lparr>cfg := p\<rparr>) = config_view l s"
  "l \<noteq> CfgLock \<Longrightarrow> config_view l (config_free p s) = config_view l s"
  by (cases l; simp)+

lemma config_inv_alloc:
  "config_inv s \<Longrightarrow> cfg s \<noteq> c \<Longrightarrow> config_inv (config_alloc c ver s)"
  by (simp add: config_inv_def)

lemma config_inv_free:
  "config_inv s \<Longrightarrow> cfg s \<noteq> old \<Longrightarrow> config_inv (config_free old s)"
  by (simp add: config_inv_def)

lemma cfg_agree: "agree config_view {CfgLock} s t \<Longrightarrow> cfg t = cfg s \<and> live t = live s"
  using agree_cfg [of "{CfgLock}" s t] by simp

lemma publish_safe:
  assumes "fresh c old s"
  shows "config_safe
    (Write (\<lambda>s. s\<lparr>cfg := c\<rparr>) (Write (config_free old)
      (apply_outputs [0..<NOUTPUTS] c (Rel CfgLock (Ret Updated))))) {CfgLock} s"
proof (intro safe_write)
  show "config_inv (t\<lparr>cfg := c\<rparr>)" if "agree config_view {CfgLock} s t" for t
    using fresh_agree [OF assms that] by (simp add: fresh_def config_inv_def)
  show "config_inv (config_free old u)"
    if "agree config_view {CfgLock} (t\<lparr>cfg := c\<rparr>) u" "config_inv u" for t u
    using cfg_agree [OF that(1)] that(2) assms by (intro config_inv_free) (auto simp: fresh_def)
  show "config_safe (apply_outputs [0..<NOUTPUTS] c (Rel CfgLock (Ret Updated))) {CfgLock} (config_free old u)"
    if "agree config_view {CfgLock} (t\<lparr>cfg := c\<rparr>) u" for t u
    using cfg_agree [OF that] by (intro apply_outputs_safe) (simp add: pending_def)
qed (auto simp: view_alloc)

lemma config_update_safe:
  assumes "\<And>l. malloc l \<notin> set l"
  shows "config_safe (config_update malloc) {} s"
  unfolding config_update_def Let_def
proof (intro safe_acq safe_read)
  let ?H = "insert CfgLock {}"
  fix t u v
  assume u: "agree config_view ?H t u" "config_inv u" and v: "agree config_view ?H u v"
  let ?c = "malloc (live v)"
  let ?alloc = "\<lambda>w. config_alloc ?c (version (heap w (cfg u)) + 1) w"
  have facts: "?c \<notin> set (live w)" "cfg w \<in> set (live w)" "cfg w = cfg u"
    if w: "agree config_view ?H v w" "config_inv w" for w
    using cfg_agree [OF v] cfg_agree [OF w(1)] w(2) assms by (simp_all add: config_inv_def)
  show "config_safe (Write ?alloc (Write (\<lambda>s. s\<lparr>cfg := ?c\<rparr>) (Write (config_free (cfg u))
      (apply_outputs [0..<NOUTPUTS] ?c (Rel CfgLock (Ret Updated)))))) ?H v"
  proof (rule safe_write)
    fix w assume w: "agree config_view ?H v w" "config_inv w"
    show "config_inv (?alloc w)" using facts [OF w] w(2) by (intro config_inv_alloc) auto
    have "fresh ?c (cfg u) (?alloc w)" using fresh_alloc [of w ?c] facts [OF w] by simp
    then show "config_safe (Write (\<lambda>s. s\<lparr>cfg := ?c\<rparr>) (Write (config_free (cfg u))
      (apply_outputs [0..<NOUTPUTS] ?c (Rel CfgLock (Ret Updated))))) ?H (?alloc w)"
      by (rule publish_safe)
  qed (simp add: view_alloc)
qed

lemma config_version_safe: "config_safe config_version {} s"
  unfolding config_version_def Let_def
proof (intro safe_acq safe_read)
  let ?H = "insert CfgLock {}"
  fix t u assume "config_lock_inv CfgLock t" "agree config_view ?H t u"
  then have u: "config_lock_inv CfgLock u" using agree_cfg_inv(5) [of ?H t u] by simp
  show "config_safe (Rel CfgLock (Ret (Version (version (heap u (cfg u)))))) ?H u"
    by (rule safe_rel [OF _ refl]) (use u agree_cfg_inv(5) [of ?H u] in auto)
qed

lemma outputs_fold:
  "outputs (fold (\<lambda>i. set_output i (\<lambda>x. x\<lparr>out_id := int i, applied := v\<rparr>)) is s) k =
    (if k \<in> set is then (outputs s k)\<lparr>out_id := int k, applied := v\<rparr> else outputs s k)"
  by (induction "is" arbitrary: s) auto

lemma rest_fold [simp]:
  "heap (fold (\<lambda>i. set_output i (f i)) is s) = heap s"
  "cfg (fold (\<lambda>i. set_output i (f i)) is s) = cfg s"
  "live (fold (\<lambda>i. set_output i (f i)) is s) = live s"
  by (induction "is" arbitrary: s) auto

lemma config_start_inv:
  "config_inv (config_init malloc s)" "config_lock_inv l (config_init malloc s)"
proof -
  show "config_inv (config_init malloc s)"
    by (simp add: config_init_def Let_def config_inv_def consistent_alloc)
  show "config_lock_inv l (config_init malloc s)"
    by (cases l) (auto simp: config_init_def Let_def outputs_fold)
qed

text \<open>Any allocator that returns a block not in use now makes the requests safe.\<close>

lemma config_monitor:
  assumes "\<And>l. malloc l \<notin> set l"
  shows "monitor (config_requests malloc) config_view config_lock_inv config_inv config_result_ok
    (config_init malloc s) ConfigInit"
proof
  show "config_safe p {} t" if "p \<in> config_requests malloc" for p t
    using that assms
    by (auto simp: config_requests_def output_render_safe config_update_safe config_version_safe
        simp del: safe.simps)
  show "config_lock_inv l t = config_lock_inv l u" if "config_view l t = config_view l u" for l t u
    using that by (cases l) (auto simp: fun_eq_iff)
qed (auto simp: config_start_inv)

lemma paired_config_ok: "(\<And>v. paired (k v) H) \<Longrightarrow> paired (config_ok is c k) H"
  by (induction "is" c k rule: config_ok.induct) auto

lemma paired_output_render: "paired (output_render out) {}"
proof -
  have h: "insert CfgLock {OutLock out} - {OutLock out} = {CfgLock}" by auto
  have tail: "paired (config_ok is c (\<lambda>ok. Rel CfgLock (Ret (Rendered ok)))) {CfgLock}" for "is" c
    by (rule paired_config_ok) simp
  show ?thesis
    unfolding output_render_def Let_def paired.simps
    by (intro conjI allI paired_config_ok) (simp_all add: h tail)
qed

lemma paired_apply_outputs:
  "paired p {CfgLock} \<Longrightarrow> paired (apply_outputs is c p) {CfgLock}"
  by (induction "is" c p rule: apply_outputs.induct) (auto simp: insert_Diff_if)

lemma paired_config_update: "paired (config_update malloc) {}"
  by (auto simp: config_update_def Let_def intro!: paired_apply_outputs)

lemma run_apply_outputs:
  "run (apply_outputs is c p) s =
   run p (fold (\<lambda>i s. set_output i (\<lambda>x. x\<lparr>applied := version (heap s c)\<rparr>) s) is s)"
  by (induction "is" arbitrary: s) simp_all

section \<open>Properties\<close>

text \<open>C40: Whatever block \<^verbatim>\<open>malloc\<close> reuses, every \<^verbatim>\<open>output_render\<close> that finishes, in every
  interleaving with renders and updates, returns 1: no frame reads a freed or half-made
  configuration.\<close>

theorem output_render_consistent:
  assumes "\<And>l. malloc l \<notin> set l"
    and "reach (config_requests malloc) (config_start malloc) c"
    and "thr c i = Ret (Rendered ok)"
  shows "ok = 1"
  using monitor.result_Q [OF config_monitor [OF assms(1)] assms(2,3)] by simp

text \<open>An allocator: the first address above all those in use.\<close>

definition bump_malloc :: "nat list \<Rightarrow> nat" where
  "bump_malloc l = Suc (foldr max l 0)"

lemma bump_malloc_new: "bump_malloc l \<notin> set l"
proof -
  have "\<forall>x\<in>set l. x \<le> foldr max l 0" by (induction l) (auto simp: le_max_iff_disj)
  then show ?thesis by (force simp: bump_malloc_def)
qed

theorem output_render_consistent_witness:
  "\<exists>c ok. reach (config_requests bump_malloc) (config_start bump_malloc) c \<and>
     thr c 0 = Ret (Rendered ok) \<and> ok = 1"
proof -
  have run: "\<exists>ok. snd (run (output_render 3) s) = Rendered ok" for s
  proof -
    have "\<exists>ok. snd (run (config_ok is c k) s) = Rendered ok"
      if "\<And>v s. \<exists>ok. snd (run (k v) s) = Rendered ok" for "is" c k s
      using that by (induction "is" arbitrary: s) auto
    then show ?thesis by (simp add: output_render_def Let_def)
  qed
  have "output_render 3 \<in> config_requests bump_malloc"
    by (auto simp: config_requests_def NOUTPUTS_def)
  then obtain c where c: "reach (config_requests bump_malloc) (config_start bump_malloc) c"
      "thr c 0 = Ret (snd (run (output_render 3) (config_init bump_malloc config_zero)))"
    by (rule solo_run [OF paired_output_render])
  with run obtain ok where "thr c 0 = Ret (Rendered ok)" by metis
  with output_render_consistent [OF bump_malloc_new c(1) this] c(1) show ?thesis by blast
qed

text \<open>Whenever \<^verbatim>\<open>cfg_lock\<close> is free, every output has the version of the current
  configuration applied.\<close>

theorem config_applied_everywhere:
  assumes "\<And>l. malloc l \<notin> set l"
    and "reach (config_requests malloc) (config_start malloc) c"
    and "owner c CfgLock = None" and "i < NOUTPUTS"
  shows "applied (outputs (shared c) i) = version (heap (shared c) (cfg (shared c)))"
  using monitor.free_I [OF config_monitor [OF assms(1)] assms(2,3)] assms(4) by simp

theorem config_applied_everywhere_witness:
  "\<exists>c. reach (config_requests bump_malloc) (config_start bump_malloc) c \<and> thr c 0 = Ret Updated \<and>
     applied (outputs (shared c) 5) = version (heap (shared c) (cfg (shared c)))"
proof -
  have "config_update bump_malloc \<in> config_requests bump_malloc"
    by (auto simp: config_requests_def)
  then obtain c where c: "reach (config_requests bump_malloc) (config_start bump_malloc) c"
      "thr c 0 = Ret (snd (run (config_update bump_malloc) (config_init bump_malloc config_zero)))"
      "owner c = (\<lambda>_. None)"
    by (rule solo_run [OF paired_config_update])
  have "snd (run (config_update bump_malloc) s) = Updated" for s
    by (simp add: config_update_def Let_def run_apply_outputs)
  with c config_applied_everywhere [OF bump_malloc_new c(1), of 5] show ?thesis
    by (intro exI [of _ c]) (simp add: NOUTPUTS_def)
qed

text \<open>A render of output 0 and an update can deadlock: the render holds the output's
  mutex and waits for \<^verbatim>\<open>cfg_lock\<close>, the update holds \<^verbatim>\<open>cfg_lock\<close> and waits for the output.\<close>

theorem render_update_deadlock:
  "\<exists>c. reach {output_render 0, config_update malloc} (config_start malloc) c \<and> stuck {0, 1} c"
proof -
  let ?s = "config_init malloc config_zero"
  let ?a = "case output_render 0 of Acq _ p \<Rightarrow> p"
  let ?a' = "case ?a of Acq _ p \<Rightarrow> p"
  let ?b = "case config_update malloc of Acq _ p \<Rightarrow> p"
  have eq: "output_render 0 = Acq (OutLock 0) ?a" "config_update malloc = Acq CfgLock ?b"
      "?a = Acq CfgLock ?a'"
    by (simp_all add: output_render_def config_update_def)
  have "[0..<NOUTPUTS] = 0 # [1..<NOUTPUTS]" by (simp add: NOUTPUTS_def upt_conv_Cons)
  then have b: "\<exists>q' t. dos ?b ?s (Acq (OutLock 0) q') t"
    by (auto simp: config_update_def Let_def intro!: exI dos.intros)
  then obtain q' t where b: "dos ?b ?s (Acq (OutLock 0) q') t" by blast
  have "dos ?a ?s (Acq CfgLock ?a') ?s" using eq(3) dos.dos_none by metis
  moreover have "Acq (OutLock 0) ?a \<in> {output_render 0, config_update malloc}"
      "Acq CfgLock ?b \<in> {output_render 0, config_update malloc}"
    using eq(1,2) by auto
  ultimately show ?thesis using b
    by (intro circular_wait [of "OutLock 0" ?a _ CfgLock ?b]) auto
qed

end
