(* ===== verification/Bus.thy ===== *)
theory Bus
  imports Locks
begin

text \<open>
  Case 2 of the device service, \<^verbatim>\<open>Week6/Assignment6/concurrency/src/bus.c\<close>, with the two
  kinds of subscriber that the driver \<^verbatim>\<open>devsvc.c\<close> gives it. \<^verbatim>\<open>bus_publish\<close> calls every
  callback while it holds \<^verbatim>\<open>bus_lock\<close>; a one-shot subscriber's callback calls back into
  the bus. Callbacks are written in continuation-passing style.
\<close>

definition MAX_SUBS :: nat where "MAX_SUBS = 64"

text \<open>A subscriber: which of the driver's static structures, which also fixes its callback.\<close>

datatype sub = Persist nat | Oneshot nat

text \<open>\<open>subs\<close> is the array, of which the first \<open>nsubs\<close> entries count; \<open>calls\<close> are the
  subscribers' atomic counters, which no mutex protects.\<close>

record bus =
  subs :: "nat \<Rightarrow> sub"
  nsubs :: nat
  calls :: "sub \<Rightarrow> int"

datatype bus_lock = BusLock

text \<open>\<open>Overrun\<close> stands for an access past the end of \<^verbatim>\<open>subs[MAX_SUBS]\<close>.\<close>

datatype bus_result = Subscribed int | Unsubscribed int | Published | Overrun | BusInit

type_synonym bus_prog = "(bus_lock, bus, bus_result) prog"

text \<open>\<^verbatim>\<open>find\<close>, called under \<^verbatim>\<open>bus_lock\<close>: the loop from index \<open>i\<close> with \<open>n\<close> entries left.\<close>

fun find_from :: "nat \<Rightarrow> nat \<Rightarrow> bus \<Rightarrow> sub \<Rightarrow> int" where
  "find_from 0 i b s = - 1"
| "find_from (Suc n) i b s = (if subs b i = s then int i else find_from n (Suc i) b s)"

definition find_sub :: "bus \<Rightarrow> sub \<Rightarrow> int" where
  "find_sub b s = find_from (nsubs b) 0 b s"

definition bus_init :: "bus \<Rightarrow> bus" where
  "bus_init b = b\<lparr>nsubs := 0\<rparr>"

text \<open>\<^verbatim>\<open>subs[nsubs++] = s\<close>, and \<^verbatim>\<open>subs[i] = subs[--nsubs]\<close>: the last one takes its place.\<close>

definition bus_add :: "sub \<Rightarrow> bus \<Rightarrow> bus" where
  "bus_add s b = b\<lparr>subs := (subs b)(nsubs b := s), nsubs := nsubs b + 1\<rparr>"

definition bus_drop :: "nat \<Rightarrow> bus \<Rightarrow> bus" where
  "bus_drop i b = b\<lparr>nsubs := nsubs b - 1, subs := (subs b)(i := subs b (nsubs b - 1))\<rparr>"

definition bus_subscribe :: "sub \<Rightarrow> bus_prog" where
  "bus_subscribe s =
     Acq BusLock (Read (\<lambda>b.
       if find_sub b s < 0 \<and> nsubs b < MAX_SUBS
       then Write (bus_add s) (Rel BusLock (Ret (Subscribed 1)))
       else Rel BusLock (Ret (Subscribed 0))))"

text \<open>\<^verbatim>\<open>bus_unsubscribe\<close> followed by \<open>k\<close> with its result.\<close>

definition bus_unsubscribe_k :: "sub \<Rightarrow> (int \<Rightarrow> bus_prog) \<Rightarrow> bus_prog" where
  "bus_unsubscribe_k s k =
     Acq BusLock (Read (\<lambda>b.
       let i = find_sub b s in
       if i \<ge> 0
       then Write (bus_drop (nat i)) (Rel BusLock (k 1))
       else Rel BusLock (k 0)))"

definition bus_unsubscribe :: "sub \<Rightarrow> bus_prog" where
  "bus_unsubscribe s = bus_unsubscribe_k s (\<lambda>r. Ret (Unsubscribed r))"

text \<open>The callbacks of the driver; \<^verbatim>\<open>svc_work\<close> touches nothing of the bus.\<close>

fun callback :: "sub \<Rightarrow> int \<Rightarrow> bus_prog \<Rightarrow> bus_prog" where
  "callback (Persist j) ev p =
     Write (\<lambda>b. b\<lparr>calls := (calls b)(Persist j := calls b (Persist j) + 1)\<rparr>) (Write (\<lambda>b. b) p)"
| "callback (Oneshot j) ev p =
     Write (\<lambda>b. b\<lparr>calls := (calls b)(Oneshot j := calls b (Oneshot j) + 1)\<rparr>)
    (Write (\<lambda>b. b) (bus_unsubscribe_k (Oneshot j) (\<lambda>_. p)))"

text \<open>
  The loop of \<^verbatim>\<open>bus_publish\<close> at index \<open>i\<close>, with \<open>n\<close> entries of the array left. It reads
  \<^verbatim>\<open>nsubs\<close> again in every iteration.
\<close>

fun publish_from :: "nat \<Rightarrow> nat \<Rightarrow> int \<Rightarrow> bus_prog" where
  "publish_from 0 i ev = Read (\<lambda>b. if i < nsubs b then Ret Overrun else Rel BusLock (Ret Published))"
| "publish_from (Suc n) i ev = Read (\<lambda>b.
     if i < nsubs b then callback (subs b i) ev (publish_from n (Suc i) ev)
     else Rel BusLock (Ret Published))"

definition bus_publish :: "int \<Rightarrow> bus_prog" where
  "bus_publish ev = Acq BusLock (publish_from MAX_SUBS 0 ev)"

definition bus_requests :: "bus_prog set" where
  "bus_requests = range bus_subscribe \<union> range bus_unsubscribe \<union> range bus_publish"

text \<open>\<^verbatim>\<open>setup_bus\<close> of the driver: persistent and one-shot subscribers alternate.\<close>

definition NPERSIST :: nat where "NPERSIST = 8"
definition NONESHOT :: nat where "NONESHOT = 8"

definition setup_bus :: "bus \<Rightarrow> bus" where
  "setup_bus b =
     fold (\<lambda>i b. fst (run (bus_subscribe (Oneshot i)) (fst (run (bus_subscribe (Persist i)) b))))
       [0..<NPERSIST] (bus_init b)"

definition bus_zero :: bus where
  "bus_zero = \<lparr>subs = (\<lambda>_. Persist 0), nsubs = 0, calls = (\<lambda>_. 0)\<rparr>"

abbreviation bus_start :: "(bus_lock, bus, bus_result) sys" where
  "bus_start \<equiv> sys_init (setup_bus bus_zero) BusInit"

section \<open>The subscriber list\<close>

definition sub_list :: "bus \<Rightarrow> sub list" where
  "sub_list b = map (subs b) [0..<nsubs b]"

definition bus_inv :: "bus \<Rightarrow> bool" where
  "bus_inv b \<longleftrightarrow> distinct (sub_list b) \<and> nsubs b \<le> MAX_SUBS"

lemma length_sub_list [simp]: "length (sub_list b) = nsubs b"
  by (simp add: sub_list_def)

lemma sub_list_nth: "i < nsubs b \<Longrightarrow> sub_list b ! i = subs b i"
  by (simp add: sub_list_def)

lemma find_from_spec:
  "(find_from n i b s < 0 \<and> (\<forall>j. i \<le> j \<and> j < i + n \<longrightarrow> subs b j \<noteq> s)) \<or>
   (\<exists>j. find_from n i b s = int j \<and> i \<le> j \<and> j < i + n \<and> subs b j = s)"
proof (induction n arbitrary: i)
  case 0
  then show ?case by auto
next
  case (Suc n)
  show ?case
  proof (cases "subs b i = s")
    case True
    then show ?thesis by auto
  next
    case False
    then have "subs b j \<noteq> s" if "i \<le> j" "j < i + Suc n" "\<forall>j. Suc i \<le> j \<and> j < Suc i + n \<longrightarrow> subs b j \<noteq> s" for j
      using that by (cases "i = j") auto
    then show ?thesis using False Suc.IH [of "Suc i"] by auto
  qed
qed

lemma find_sub_neg: "find_sub b s < 0 \<longleftrightarrow> s \<notin> set (sub_list b)"
  using find_from_spec [of "nsubs b" 0 b s] by (auto simp: find_sub_def sub_list_def)

lemma find_sub_nonneg:
  assumes "0 \<le> find_sub b s"
  shows "nat (find_sub b s) < nsubs b" and "subs b (nat (find_sub b s)) = s"
  using assms find_from_spec [of "nsubs b" 0 b s] by (auto simp: find_sub_def)

lemma sub_list_add: "sub_list (bus_add s b) = sub_list b @ [s]"
  by (simp add: bus_add_def sub_list_def)

lemma sub_list_drop:
  "i < nsubs b \<Longrightarrow> sub_list (bus_drop i b) = butlast ((sub_list b)[i := last (sub_list b)])"
  by (rule nth_equalityI)
    (auto simp: bus_drop_def sub_list_def nth_butlast last_conv_nth nth_list_update)

lemma set_swap_remove:
  assumes "distinct xs" and "i < length xs"
  shows "set (butlast (xs[i := last xs])) = set xs - {xs ! i}"
    and "distinct (butlast (xs[i := last xs]))"
proof -
  obtain ys y where xs: "xs = ys @ [y]" using assms(2) by (cases xs rule: rev_cases) auto
  have d: "distinct ys" "y \<notin> set ys" using assms(1) by (simp_all add: xs)
  have s: "set (butlast (xs[i := last xs])) = set xs - {xs ! i} \<and>
      distinct (butlast (xs[i := last xs]))"
  proof (cases "i < length ys")
    case True
    then have "butlast (xs[i := last xs]) = ys[i := y]" and "xs ! i = ys ! i"
      by (simp_all add: xs list_update_append nth_append butlast_append)
    moreover have "ys ! i \<noteq> y" using True d(2) nth_mem by metis
    ultimately show ?thesis
      using d True by (auto simp: set_update_distinct xs intro: distinct_list_update)
  next
    case False
    then have "i = length ys" using assms(2) by (simp add: xs)
    then show ?thesis using d by (auto simp: xs)
  qed
  then show "set (butlast (xs[i := last xs])) = set xs - {xs ! i}" ..
  show "distinct (butlast (xs[i := last xs]))" using s ..
qed

lemma bus_inv_add:
  "bus_inv b \<Longrightarrow> find_sub b s < 0 \<Longrightarrow> nsubs b < MAX_SUBS \<Longrightarrow> bus_inv (bus_add s b)"
  by (simp add: bus_inv_def sub_list_add find_sub_neg) (simp add: bus_add_def)

lemma bus_inv_drop:
  assumes "bus_inv b" and "i < nsubs b"
  shows "bus_inv (bus_drop i b)"
  using assms set_swap_remove(2) [of "sub_list b" i]
  by (auto simp: bus_inv_def sub_list_drop) (simp add: bus_drop_def)

lemma bus_inv_calls [simp]: "bus_inv (b\<lparr>calls := f\<rparr>) = bus_inv b"
  by (simp add: bus_inv_def sub_list_def)

section \<open>In every interleaving\<close>

definition bus_view :: "bus_lock \<Rightarrow> bus \<Rightarrow> (nat \<Rightarrow> sub) \<times> nat" where
  "bus_view l b = (subs b, nsubs b)"

definition bus_result_ok :: "bus_result \<Rightarrow> bool" where
  "bus_result_ok r \<longleftrightarrow> r \<noteq> Overrun"

abbreviation bus_safe :: "bus_prog \<Rightarrow> bus_lock set \<Rightarrow> bus \<Rightarrow> bool" where
  "bus_safe \<equiv> safe bus_view (\<lambda>_ _. True) bus_inv bus_result_ok"

lemma bus_lock_all [simp]: "l \<in> {BusLock} \<longleftrightarrow> True"
  by (cases l) simp

lemma bus_lock_eq [simp]: "(l = BusLock) = True"
  by (cases l) simp

lemma find_sub_agree:
  "agree bus_view {BusLock} b b' \<Longrightarrow> find_sub b' s = find_sub b s \<and> nsubs b' = nsubs b \<and> subs b' = subs b"
proof -
  assume a: "agree bus_view {BusLock} b b'"
  then have eq: "subs b' = subs b" "nsubs b' = nsubs b" by (simp_all add: agree_def bus_view_def)
  have "find_from n i b' s = find_from n i b s" for n i
    by (induction n arbitrary: i) (simp_all add: eq)
  then show ?thesis by (simp add: find_sub_def eq)
qed

lemma bus_subscribe_safe: "bus_safe (bus_subscribe s) {} b"
  unfolding bus_subscribe_def
proof (intro safe_acq safe_read)
  let ?H = "insert BusLock {}"
  fix t u
  have "bus_safe (Write (bus_add s) (Rel BusLock (Ret (Subscribed 1)))) ?H u"
    if "find_sub u s < 0" "nsubs u < MAX_SUBS"
  proof (rule safe_write)
    fix v assume "agree bus_view ?H u v" "bus_inv v"
    with that find_sub_agree [of u v s] show "bus_inv (bus_add s v)"
      by (intro bus_inv_add) simp_all
  qed (auto simp: bus_result_ok_def)
  then show "bus_safe (if find_sub u s < 0 \<and> nsubs u < MAX_SUBS
      then Write (bus_add s) (Rel BusLock (Ret (Subscribed 1)))
      else Rel BusLock (Ret (Subscribed 0))) ?H u"
    by (auto simp: bus_result_ok_def)
qed

text \<open>\<^verbatim>\<open>bus_unsubscribe\<close>, for whatever follows it; called with the mutex held it never returns.\<close>

lemma bus_unsubscribe_k_safe:
  assumes "\<And>r b. bus_safe (k r) {} b"
  shows "bus_safe (bus_unsubscribe_k s k) {} b"
  unfolding bus_unsubscribe_k_def Let_def
proof (intro safe_acq safe_read)
  let ?H = "insert BusLock {}"
  have rel: "bus_safe (Rel BusLock (k r)) ?H b" for r b
    using assms by auto
  fix t u
  have "bus_safe (Write (bus_drop (nat (find_sub u s))) (Rel BusLock (k 1))) ?H u"
    if "0 \<le> find_sub u s"
  proof (rule safe_write)
    fix v assume "agree bus_view ?H u v" "bus_inv v"
    with that find_sub_agree [of u v s] find_sub_nonneg(1) [of u s]
    show "bus_inv (bus_drop (nat (find_sub u s)) v)"
      by (intro bus_inv_drop) simp_all
  qed (use rel in auto)
  then show "bus_safe (if 0 \<le> find_sub u s
      then Write (bus_drop (nat (find_sub u s))) (Rel BusLock (k 1)) else Rel BusLock (k 0)) ?H u"
    using rel by (simp del: safe.simps)
qed

lemma bus_unsubscribe_k_held: "bus_safe (bus_unsubscribe_k s k) {BusLock} b"
  by (simp add: bus_unsubscribe_k_def)

lemma callback_safe:
  assumes "\<And>b'. agree bus_view {BusLock} b b' \<Longrightarrow> bus_inv b' \<Longrightarrow> bus_safe p {BusLock} b'"
  shows "bus_safe (callback s ev p) {BusLock} b"
proof (cases s)
  case (Persist j)
  show ?thesis unfolding Persist callback.simps
  proof (intro safe_write)
    fix t u v
    assume "agree bus_view {BusLock} b t"
      and "agree bus_view {BusLock} (t\<lparr>calls := (calls t)(Persist j := calls t (Persist j) + 1)\<rparr>) u"
      and "bus_inv u"
    then show "bus_safe p {BusLock} u" by (intro assms) (auto simp: agree_def bus_view_def)
  qed (auto simp: bus_view_def)
next
  case (Oneshot j)
  show ?thesis unfolding Oneshot callback.simps
    by (intro safe_write bus_unsubscribe_k_held) (auto simp: bus_view_def)
qed

lemma publish_from_safe:
  "n + i = MAX_SUBS \<Longrightarrow> bus_safe (publish_from n i ev) {BusLock} b"
proof (induction n arbitrary: i b)
  case 0
  then show ?case by (auto simp: bus_result_ok_def bus_inv_def)
next
  case (Suc n)
  show ?case unfolding publish_from.simps
  proof (rule safe_read)
    fix t
    have "bus_safe (callback (subs t i) ev (publish_from n (Suc i) ev)) {BusLock} t"
      using Suc by (intro callback_safe) simp
    then show "bus_safe (if i < nsubs t then callback (subs t i) ev (publish_from n (Suc i) ev)
        else Rel BusLock (Ret Published)) {BusLock} t"
      by (auto simp: bus_result_ok_def simp del: callback.simps)
  qed
qed

lemma bus_publish_safe: "bus_safe (bus_publish ev) {} b"
  unfolding bus_publish_def by (intro safe_acq publish_from_safe) simp

section \<open>One request on its own\<close>

lemma run_bus_subscribe:
  "run (bus_subscribe s) b =
     (if s \<notin> set (sub_list b) \<and> nsubs b < MAX_SUBS then (bus_add s b, Subscribed 1)
      else (b, Subscribed 0))"
  by (simp add: bus_subscribe_def find_sub_neg)

lemma run_bus_unsubscribe:
  "run (bus_unsubscribe s) b =
     (if s \<in> set (sub_list b) then (bus_drop (nat (find_sub b s)) b, Unsubscribed 1)
      else (b, Unsubscribed 0))"
  using find_sub_neg [of b s]
  by (auto simp: bus_unsubscribe_def bus_unsubscribe_k_def Let_def not_less [symmetric])

lemma bus_inv_subscribe: "bus_inv b \<Longrightarrow> bus_inv (fst (run (bus_subscribe s) b))"
  by (simp add: run_bus_subscribe bus_inv_add find_sub_neg)

lemma bus_inv_init: "bus_inv (bus_init b)"
  by (simp add: bus_inv_def bus_init_def sub_list_def)

lemma bus_inv_setup: "bus_inv (setup_bus b)"
proof -
  have "bus_inv (fold (\<lambda>i b. fst (run (bus_subscribe (Oneshot i)) (fst (run (bus_subscribe (Persist i)) b)))) is b)"
    if "bus_inv b" for "is" :: "nat list" and b
    using that by (induction "is" arbitrary: b) (simp_all add: bus_inv_subscribe)
  then show ?thesis by (simp add: setup_bus_def bus_inv_init)
qed

interpretation bus_mon: monitor bus_requests bus_view "\<lambda>_ _. True" bus_inv bus_result_ok
    "setup_bus bus_zero" BusInit
proof
  show "bus_safe p {} s" if "p \<in> bus_requests" for p s
    using that
    by (auto simp: bus_requests_def bus_unsubscribe_def bus_result_ok_def bus_subscribe_safe
        bus_publish_safe simp del: safe.simps intro!: bus_unsubscribe_k_safe safe_ret)
qed (simp_all add: bus_inv_setup bus_result_ok_def)

text \<open>The subscribers after \<^verbatim>\<open>setup_bus\<close>.\<close>

lemma sub_list_subscribe:
  "sub_list (fst (run (bus_subscribe s) b)) =
     (if s \<in> set (sub_list b) \<or> MAX_SUBS \<le> nsubs b then sub_list b else sub_list b @ [s])"
  by (auto simp: run_bus_subscribe sub_list_add)

lemma nsubs_subscribe:
  "nsubs (fst (run (bus_subscribe s) b)) =
     (if s \<in> set (sub_list b) \<or> MAX_SUBS \<le> nsubs b then nsubs b else nsubs b + 1)"
  by (auto simp: run_bus_subscribe bus_add_def)

lemma sub_list_setup_upto:
  assumes "n \<le> 16"
  shows "sub_list (fold (\<lambda>i b. fst (run (bus_subscribe (Oneshot i)) (fst (run (bus_subscribe (Persist i)) b))))
      [0..<n] (bus_init b)) = concat (map (\<lambda>i. [Persist i, Oneshot i]) [0..<n])"
  using assms
proof (induction n)
  case 0
  then show ?case by (simp add: bus_init_def sub_list_def)
next
  case (Suc n)
  let ?b = "fold (\<lambda>i b. fst (run (bus_subscribe (Oneshot i)) (fst (run (bus_subscribe (Persist i)) b))))
      [0..<n] (bus_init b)"
  have l: "sub_list ?b = concat (map (\<lambda>i. [Persist i, Oneshot i]) [0..<n])"
    using Suc by simp
  have "nsubs ?b = 2 * n"
    using arg_cong [OF l, of length] by (simp add: length_concat o_def sum_list_triv)
  then show ?case
    using l Suc.prems by (auto simp: sub_list_subscribe nsubs_subscribe MAX_SUBS_def)
qed

lemma sub_list_setup:
  "sub_list (setup_bus b) = concat (map (\<lambda>i. [Persist i, Oneshot i]) [0..<NPERSIST])"
  using sub_list_setup_upto [of NPERSIST b] by (simp add: setup_bus_def NPERSIST_def)

text \<open>A publication that meets only persistent subscribers.\<close>

lemma run_publish_from:
  assumes "n + i = MAX_SUBS" and "nsubs b \<le> MAX_SUBS" and "i \<le> nsubs b"
    and "\<forall>j. i \<le> j \<and> j < nsubs b \<longrightarrow> (\<exists>k. subs b j = Persist k)"
  shows "run (publish_from n i ev) b =
    (b\<lparr>calls := \<lambda>s. calls b s + int (count_list (map (subs b) [i..<nsubs b]) s)\<rparr>, Published)"
  using assms
proof (induction n arbitrary: i b)
  case 0
  then show ?case by simp
next
  case (Suc n)
  show ?case
  proof (cases "i < nsubs b")
    case True
    then obtain k where k: "subs b i = Persist k" using Suc.prems(4) by auto
    let ?b = "b\<lparr>calls := (calls b)(Persist k := calls b (Persist k) + 1)\<rparr>"
    have "run (publish_from n (Suc i) ev) ?b =
        (?b\<lparr>calls := \<lambda>s. calls ?b s + int (count_list (map (subs ?b) [Suc i..<nsubs ?b]) s)\<rparr>, Published)"
      by (rule Suc.IH) (use Suc.prems True in auto)
    then show ?thesis
      using True k by (simp add: upt_conv_Cons) (auto simp: fun_eq_iff)
  next
    case False
    then show ?thesis using Suc.prems by simp
  qed
qed

lemma count_list_distinct: "distinct xs \<Longrightarrow> count_list xs x = of_bool (x \<in> set xs)"
  by (induction xs) auto

section \<open>Properties\<close>

text \<open>In every interleaving of subscriptions, unsubscriptions and publications, with
  callbacks of both kinds, no subscriber is ever listed twice, the array never overflows,
  and no publication reads past its end.\<close>

theorem bus_never_overruns:
  assumes "reach bus_requests bus_start c"
  shows "distinct (sub_list (shared c)) \<and> nsubs (shared c) \<le> MAX_SUBS \<and> thr c i \<noteq> Ret Overrun"
proof -
  have "thr c i \<noteq> Ret Overrun"
    using bus_mon.result_Q [OF assms, of i Overrun] by (auto simp: bus_result_ok_def)
  then show ?thesis using bus_mon.always_J [OF assms] by (simp add: bus_inv_def)
qed

theorem bus_never_overruns_witness:
  "\<exists>c. reach bus_requests bus_start c \<and> thr c 0 = Ret (Subscribed 1) \<and>
     distinct (sub_list (shared c))"
proof -
  have "bus_subscribe (Persist 9) \<in> bus_requests" by (simp add: bus_requests_def)
  then obtain c where c: "reach bus_requests bus_start c"
      "thr c 0 = Ret (snd (run (bus_subscribe (Persist 9)) (setup_bus bus_zero)))"
    by (rule solo_run [rotated 1]) (auto simp: bus_subscribe_def)
  moreover have "nsubs (setup_bus bus_zero) = 16"
    unfolding length_sub_list [symmetric]
    by (simp add: sub_list_setup NPERSIST_def length_concat o_def sum_list_triv del: length_sub_list)
  then have "snd (run (bus_subscribe (Persist 9)) (setup_bus bus_zero)) = Subscribed 1"
    by (simp add: run_bus_subscribe sub_list_setup NPERSIST_def MAX_SUBS_def)
  ultimately show ?thesis using bus_never_overruns [OF c(1)] by auto
qed

text \<open>With the driver's subscribers a single \<^verbatim>\<open>bus_publish\<close> deadlocks with itself: the first
  one-shot callback asks for the \<^verbatim>\<open>bus_lock\<close> that its own thread holds.\<close>

theorem bus_publish_self_deadlock:
  "\<exists>c. reach {bus_publish ev} bus_start c \<and> stuck {0} c"
proof -
  let ?b = "setup_bus bus_zero"
  have l: "sub_list ?b = Persist 0 # Oneshot 0 # concat (map (\<lambda>i. [Persist i, Oneshot i]) [1..<8])"
    by (simp add: sub_list_setup NPERSIST_def upt_conv_Cons)
  have n: "1 < nsubs ?b" using arg_cong [OF l, of length] by simp
  have s: "subs ?b 0 = Persist 0" "subs ?b (Suc 0) = Oneshot 0"
    using sub_list_nth [of 0 ?b] sub_list_nth [of 1 ?b] n by (simp_all add: l)
  obtain n where m: "MAX_SUBS = Suc (Suc n)"
    by (rule that [of 62]) (simp add: MAX_SUBS_def)
  obtain q where q: "bus_unsubscribe_k (Oneshot 0) (\<lambda>_. publish_from n (Suc (Suc 0)) ev) = Acq BusLock q"
    by (simp add: bus_unsubscribe_k_def)
  have "\<exists>t. dos (publish_from MAX_SUBS 0 ev) ?b (Acq BusLock q) t"
    using n s q by (auto simp: m intro!: exI dos.intros)
  then show ?thesis
    using self_wait [of BusLock "publish_from MAX_SUBS 0 ev" "{bus_publish ev}" ?b q]
    by (auto simp: bus_publish_def)
qed

text \<open>A publication that meets only persistent subscribers and is not disturbed calls every
  one of them exactly once and nobody else, and leaves the list as it is.\<close>

theorem bus_publish_calls_once:
  assumes "bus_inv b" and "\<forall>s\<in>set (sub_list b). \<exists>k. s = Persist k"
  shows "run (bus_publish ev) b =
    (b\<lparr>calls := \<lambda>s. calls b s + of_bool (s \<in> set (sub_list b))\<rparr>, Published)"
proof -
  have "run (publish_from MAX_SUBS 0 ev) b =
    (b\<lparr>calls := \<lambda>s. calls b s + int (count_list (map (subs b) [0..<nsubs b]) s)\<rparr>, Published)"
    using assms by (intro run_publish_from) (auto simp: bus_inv_def sub_list_def)
  moreover have "count_list (map (subs b) [0..<nsubs b]) s = of_bool (s \<in> set (sub_list b))" for s
    using assms(1) by (simp add: bus_inv_def sub_list_def [symmetric] count_list_distinct)
  ultimately show ?thesis by (simp add: bus_publish_def)
qed

theorem bus_publish_calls_once_witness:
  "calls (fst (run (bus_publish 7) (bus_add (Persist 3) (bus_init bus_zero)))) (Persist 3) = 1"
  using bus_publish_calls_once [of "bus_add (Persist 3) (bus_init bus_zero)" 7]
  by (simp add: bus_inv_def sub_list_add) (simp add: bus_init_def bus_add_def sub_list_def bus_zero_def MAX_SUBS_def)

text \<open>\<^verbatim>\<open>bus_subscribe\<close> and \<^verbatim>\<open>bus_unsubscribe\<close> implement insertion into and removal from the
  set of subscribers, and report whether they changed it.\<close>

theorem bus_refines_set:
  assumes "bus_inv b"
  shows "set (sub_list (fst (run (bus_subscribe s) b))) =
      (if nsubs b < MAX_SUBS then insert s (set (sub_list b)) else set (sub_list b)) \<and>
    snd (run (bus_subscribe s) b) = Subscribed (of_bool (s \<notin> set (sub_list b) \<and> nsubs b < MAX_SUBS)) \<and>
    set (sub_list (fst (run (bus_unsubscribe s) b))) = set (sub_list b) - {s} \<and>
    snd (run (bus_unsubscribe s) b) = Unsubscribed (of_bool (s \<in> set (sub_list b)))"
proof -
  have "set (sub_list (bus_drop (nat (find_sub b s)) b)) = set (sub_list b) - {s}"
    if "s \<in> set (sub_list b)"
  proof -
    have i: "nat (find_sub b s) < nsubs b" "subs b (nat (find_sub b s)) = s"
      using that find_sub_neg [of b s] find_sub_nonneg [of b s] by auto
    then show ?thesis
      using set_swap_remove(1) [of "sub_list b" "nat (find_sub b s)"] assms
      by (simp add: sub_list_drop bus_inv_def sub_list_nth)
  qed
  then show ?thesis by (auto simp: run_bus_subscribe run_bus_unsubscribe sub_list_add)
qed

theorem bus_refines_set_witness:
  "set (sub_list (fst (run (bus_subscribe (Persist 3)) (bus_init bus_zero)))) = {Persist 3}"
  using bus_refines_set [OF bus_inv_init, of "Persist 3" bus_zero]
  by (simp add: bus_init_def sub_list_def MAX_SUBS_def)

end
