(* ===== verification/Rcu.thy ===== *)
theory Rcu
  imports Prelude
begin

text \<open>
  User-space RCU based on quiescent states, \<^verbatim>\<open>Week6/Assignment6/concurrency/src/rcu.c\<close> and the
  contract of \<^verbatim>\<open>rcu.h\<close>. Every thread that has a slot is a small state machine whose steps
  are the single atomic accesses of the code; any interleaving of any threads is possible.
  The accesses are sequentially consistent here, as \<^verbatim>\<open>go_online\<close> and \<^verbatim>\<open>synchronize_rcu\<close>
  ask for where it matters. Sequence numbers are 64-bit words and wrap around.
\<close>

definition MAX_RCU_THREADS :: nat where "MAX_RCU_THREADS = 64"
definition OFFLINE :: u64 where "OFFLINE = 0"

text \<open>
  Where a slot's thread is. \<open>Claimed\<close>, \<open>Loaded\<close> and \<open>Exchanged\<close> are inside \<^verbatim>\<open>go_online\<close>
  (its first load, its exchange, its second load); they carry the object that the thread
  frees afterwards when \<^verbatim>\<open>synchronize_rcu\<close> called it. \<open>Removed\<close> to \<open>Poll\<close> are the writer's
  way through \<^verbatim>\<open>synchronize_rcu\<close>, \<open>Return\<close> is its return, before the object is freed.
\<close>

datatype rcu_pc =
    Unused
  | Claimed "nat option"
  | Loaded "nat option" u64
  | Exchanged "nat option" u64
  | Reloaded "nat option" u64 u64
  | Online
  | Quiet u64
  | Leaving
  | Removed nat
  | Started nat u64
  | Scan nat u64 nat
  | Poll nat u64 nat
  | Return nat

text \<open>
  The code's state is \<^verbatim>\<open>gp_seq\<close> and the slots. \<open>cur\<close> is the object that the shared pointer
  of a client points to, \<open>held i\<close> the objects thread \<open>i\<close> loaded since its last quiescent state,
  \<open>next_obj\<close> the next new object and \<open>syncs\<close> the number of \<^verbatim>\<open>synchronize_rcu\<close> calls so far.
\<close>

record rcu =
  gp_seq :: u64
  seen :: "nat \<Rightarrow> u64"
  used :: "nat \<Rightarrow> bool"
  pc :: "nat \<Rightarrow> rcu_pc"
  held_objs :: "nat \<Rightarrow> nat set"
  cur :: nat
  next_obj :: nat
  syncs :: nat

definition rcu_init :: rcu where
  "rcu_init = \<lparr>gp_seq = 1, seen = (\<lambda>_. 0), used = (\<lambda>_. False), pc = (\<lambda>_. Unused),
     held_objs = (\<lambda>_. {}), cur = 0, next_obj = 1, syncs = 0\<rparr>"

text \<open>The test that ends the polling of a slot.\<close>

definition passed :: "u64 \<Rightarrow> u64 \<Rightarrow> bool" where
  "passed s target \<longleftrightarrow> s = OFFLINE \<or> 0 \<le> sint (s - target)"

definition set_pc :: "nat \<Rightarrow> rcu_pc \<Rightarrow> rcu \<Rightarrow> rcu" where
  "set_pc i p s = s\<lparr>pc := (pc s)(i := p)\<rparr>"

definition set_seen :: "nat \<Rightarrow> u64 \<Rightarrow> rcu \<Rightarrow> rcu" where
  "set_seen i v s = s\<lparr>seen := (seen s)(i := v)\<rparr>"

text \<open>\<^verbatim>\<open>go_online(i)\<close>, one atomic access at a time.\<close>

inductive go_online :: "nat \<Rightarrow> rcu \<Rightarrow> rcu \<Rightarrow> bool" for i :: nat where
  load: "pc s i = Claimed k \<Longrightarrow> go_online i s (set_pc i (Loaded k (gp_seq s)) s)"
| exchange: "pc s i = Loaded k q \<Longrightarrow>
     go_online i s (set_pc i (Exchanged k q) (set_seen i q s))"
| reload: "pc s i = Exchanged k q \<Longrightarrow>
     go_online i s (set_pc i (Reloaded k q (gp_seq s)) s)"
| store: "pc s i = Reloaded k q now \<Longrightarrow>
     go_online i s (set_pc i (case k of None \<Rightarrow> Online | Some old \<Rightarrow> Return old)
       (if now \<noteq> q then set_seen i now s else s))"

text \<open>\<^verbatim>\<open>rcu_register_thread\<close> claims an unused slot; \<^verbatim>\<open>rcu_unregister_thread\<close>.\<close>

inductive register :: "nat \<Rightarrow> rcu \<Rightarrow> rcu \<Rightarrow> bool" for i :: nat where
  claim: "i < MAX_RCU_THREADS \<Longrightarrow> \<not> used s i \<Longrightarrow> pc s i = Unused \<Longrightarrow>
     register i s (set_pc i (Claimed None) (s\<lparr>used := (used s)(i := True)\<rparr>))"
| leave: "pc s i = Online \<Longrightarrow>
     register i s (set_pc i Leaving (set_seen i OFFLINE (s\<lparr>held_objs := (held_objs s)(i := {})\<rparr>)))"
| left: "pc s i = Leaving \<Longrightarrow>
     register i s (set_pc i Unused (s\<lparr>used := (used s)(i := False)\<rparr>))"

text \<open>A reader loads the pointer, and reports a quiescent state (\<^verbatim>\<open>report_qs\<close>).\<close>

inductive reader :: "nat \<Rightarrow> rcu \<Rightarrow> rcu \<Rightarrow> bool" for i :: nat where
  deref: "pc s i = Online \<Longrightarrow>
     reader i s (s\<lparr>held_objs := (held_objs s)(i := insert (cur s) (held_objs s i))\<rparr>)"
| qs_load: "pc s i = Online \<Longrightarrow>
     reader i s (set_pc i (Quiet (gp_seq s)) (s\<lparr>held_objs := (held_objs s)(i := {})\<rparr>))"
| qs_store: "pc s i = Quiet q \<Longrightarrow> reader i s (set_pc i Online (set_seen i q s))"

text \<open>
  A writer, outside any read-side section, replaces the object and calls \<^verbatim>\<open>synchronize_rcu\<close>.
\<close>

inductive writer :: "nat \<Rightarrow> rcu \<Rightarrow> rcu \<Rightarrow> bool" for i :: nat where
  replace: "pc s i = Online \<Longrightarrow>
     writer i s (set_pc i (Removed (cur s))
       (s\<lparr>cur := next_obj s, next_obj := Suc (next_obj s), held_objs := (held_objs s)(i := {})\<rparr>))"
| fetch_add: "pc s i = Removed old \<Longrightarrow>
     writer i s (set_pc i (Started old (gp_seq s + 1)) (s\<lparr>gp_seq := gp_seq s + 1, syncs := Suc (syncs s)\<rparr>))"
| offline: "pc s i = Started old target \<Longrightarrow>
     writer i s (set_pc i (Scan old target 0) (set_seen i OFFLINE s))"
| skip: "pc s i = Scan old target j \<Longrightarrow> j < MAX_RCU_THREADS \<Longrightarrow> j = i \<or> \<not> used s j \<Longrightarrow>
     writer i s (set_pc i (Scan old target (Suc j)) s)"
| look: "pc s i = Scan old target j \<Longrightarrow> j < MAX_RCU_THREADS \<Longrightarrow> j \<noteq> i \<Longrightarrow> used s j \<Longrightarrow>
     writer i s (set_pc i (Poll old target j) s)"
| poll: "pc s i = Poll old target j \<Longrightarrow> passed (seen s j) target \<Longrightarrow>
     writer i s (set_pc i (Scan old target (Suc j)) s)"
| done_waiting: "pc s i = Scan old target j \<Longrightarrow> j = MAX_RCU_THREADS \<Longrightarrow>
     writer i s (set_pc i (Claimed (Some old)) s)"
| free: "pc s i = Return old \<Longrightarrow> writer i s (set_pc i Online s)"

definition rcu_step :: "rcu \<Rightarrow> rcu \<Rightarrow> bool" where
  "rcu_step s t \<longleftrightarrow> (\<exists>i. go_online i s t \<or> register i s t \<or> reader i s t \<or> writer i s t)"

inductive rcu_reach :: "rcu \<Rightarrow> bool" where
  rcu_start: "rcu_reach rcu_init"
| rcu_next: "rcu_reach s \<Longrightarrow> rcu_step s t \<Longrightarrow> rcu_reach t"

section \<open>The invariant\<close>

text \<open>What is known of every thread, by where it is.\<close>

fun pc_inv :: "rcu \<Rightarrow> nat \<Rightarrow> rcu_pc \<Rightarrow> bool" where
  "pc_inv s i Online = (used s i \<and> seen s i \<noteq> 0)"
| "pc_inv s i (Quiet q) = (used s i \<and> seen s i \<noteq> 0 \<and> q \<noteq> 0 \<and> q \<le> gp_seq s)"
| "pc_inv s i (Claimed k) = used s i"
| "pc_inv s i (Loaded k q) = (used s i \<and> q \<noteq> 0 \<and> q \<le> gp_seq s)"
| "pc_inv s i (Exchanged k q) = (used s i \<and> q \<noteq> 0 \<and> seen s i = q)"
| "pc_inv s i (Reloaded k q now) = (used s i \<and> q \<noteq> 0 \<and> seen s i = q \<and> now \<noteq> 0 \<and> now \<le> gp_seq s)"
| "pc_inv s i (Removed old) = (used s i \<and> seen s i \<noteq> 0)"
| "pc_inv s i (Started old target) = (used s i \<and> seen s i \<noteq> 0)"
| "pc_inv s i (Return old) = (used s i \<and> seen s i \<noteq> 0)"
| "pc_inv s i (Scan old target j) = used s i"
| "pc_inv s i (Poll old target j) = used s i"
| "pc_inv s i _ = True"

text \<open>
  Who may still hold the object that a writer has removed: with the sequence number it
  waits for, and from the slot on that it has not passed yet.
\<close>

fun holders_inv :: "rcu \<Rightarrow> rcu_pc \<Rightarrow> bool" where
  "holders_inv s (Removed old) = (old < next_obj s \<and> old \<noteq> cur s)"
| "holders_inv s (Started old target) = (old < next_obj s \<and> old \<noteq> cur s \<and> target \<le> gp_seq s \<and>
     (\<forall>j. old \<in> held_objs s j \<longrightarrow> seen s j < target))"
| "holders_inv s (Scan old target n) = (old < next_obj s \<and> old \<noteq> cur s \<and> target \<le> gp_seq s \<and>
     (\<forall>j. old \<in> held_objs s j \<longrightarrow> seen s j < target \<and> n \<le> j))"
| "holders_inv s (Poll old target n) = (old < next_obj s \<and> old \<noteq> cur s \<and> target \<le> gp_seq s \<and>
     (\<forall>j. old \<in> held_objs s j \<longrightarrow> seen s j < target \<and> n \<le> j))"
| "holders_inv s (Claimed (Some old)) = (old < next_obj s \<and> old \<noteq> cur s \<and> (\<forall>j. old \<notin> held_objs s j))"
| "holders_inv s (Loaded (Some old) q) = (old < next_obj s \<and> old \<noteq> cur s \<and> (\<forall>j. old \<notin> held_objs s j))"
| "holders_inv s (Exchanged (Some old) q) = (old < next_obj s \<and> old \<noteq> cur s \<and> (\<forall>j. old \<notin> held_objs s j))"
| "holders_inv s (Reloaded (Some old) q now) = (old < next_obj s \<and> old \<noteq> cur s \<and> (\<forall>j. old \<notin> held_objs s j))"
| "holders_inv s (Return old) = (old < next_obj s \<and> old \<noteq> cur s \<and> (\<forall>j. old \<notin> held_objs s j))"
| "holders_inv s _ = True"

definition few_syncs :: "rcu \<Rightarrow> bool" where
  "few_syncs s \<longleftrightarrow> syncs s < 2 ^ 63 - 1"

definition rcu_inv :: "rcu \<Rightarrow> bool" where
  "rcu_inv s \<longleftrightarrow>
     unat (gp_seq s) = Suc (syncs s) \<and> cur s < next_obj s \<and>
     (\<forall>j. seen s j \<le> gp_seq s) \<and>
     (\<forall>j. held_objs s j \<noteq> {} \<longrightarrow> pc s j = Online \<and> j < MAX_RCU_THREADS) \<and>
     (\<forall>j. pc s j \<noteq> Unused \<longrightarrow> j < MAX_RCU_THREADS) \<and>
     (\<forall>j. pc_inv s j (pc s j)) \<and> (\<forall>j. holders_inv s (pc s j))"

text \<open>A step changes what is known of the other threads as follows at most.\<close>

definition keeps :: "rcu \<Rightarrow> rcu \<Rightarrow> bool" where
  "keeps s t \<longleftrightarrow> next_obj s \<le> next_obj t \<and> gp_seq s \<le> gp_seq t \<and>
     (cur t = cur s \<or> cur t = next_obj s) \<and>
     (\<forall>j x. x \<in> held_objs t j \<longrightarrow> x \<in> held_objs s j \<or> x = cur s) \<and>
     (\<forall>j. held_objs t j \<noteq> {} \<longrightarrow> seen t j = seen s j)"

lemma keepsD:
  assumes "keeps s t"
  shows "next_obj s \<le> next_obj t" "gp_seq s \<le> gp_seq t" "cur t = cur s \<or> cur t = next_obj s"
    "x \<in> held_objs t j \<Longrightarrow> x \<in> held_objs s j \<or> x = cur s"
    "x \<in> held_objs t j \<Longrightarrow> seen t j = seen s j"
  using assms by (auto simp: keeps_def)

lemma holders_keeps:
  assumes h: "holders_inv s p" and k: "keeps s t"
  shows "holders_inv t p"
proof -
  note d = keepsD [OF k]
  have obj: "old < next_obj t \<and> old \<noteq> cur t" if "old < next_obj s" "old \<noteq> cur s" for old
    using that d(1,3) by auto
  have hold: "old \<in> held_objs s j" if "old \<in> held_objs t j" "old \<noteq> cur s" for old j
    using that d(4) by blast
  have same: "seen t j = seen s j" if "old \<in> held_objs t j" for old j
    using that d(5) by blast
  have tgt: "q \<le> gp_seq t" if "q \<le> gp_seq s" for q using that d(2) by simp
  show ?thesis using h
  proof (cases "(s, p)" rule: holders_inv.cases)
  qed (use h obj tgt in \<open>auto simp: same dest: hold\<close>)
qed

lemma pc_keeps:
  assumes "pc_inv s j p" and "used t j = used s j" and "seen t j = seen s j" and "gp_seq s \<le> gp_seq t"
  shows "pc_inv t j p"
  using assms by (cases p) auto

lemma rcu_inv_stepI:
  assumes inv: "rcu_inv s" and k: "keeps s t"
    and "unat (gp_seq t) = Suc (syncs t)" and "cur t < next_obj t"
    and pcs: "pc t = (pc s)(i := p)"
    and same: "\<And>j. j \<noteq> i \<Longrightarrow> used t j = used s j \<and> seen t j = seen s j \<and> held_objs t j = held_objs s j"
    and "seen t i \<le> gp_seq t"
    and "held_objs t i \<noteq> {} \<Longrightarrow> p = Online"
    and "i < MAX_RCU_THREADS \<or> p = Unused"
    and "pc_inv t i p" and "holders_inv t p"
  shows "rcu_inv t"
proof -
  have le: "gp_seq s \<le> gp_seq t" using keepsD(2) [OF k] .
  have "seen t j \<le> gp_seq t" for j
    using assms(7) same [of j] inv le by (cases "j = i") (auto simp: rcu_inv_def intro: order_trans)
  moreover have "held_objs t j \<noteq> {} \<longrightarrow> pc t j = Online \<and> j < MAX_RCU_THREADS" for j
    using assms(8,9) same [of j] inv by (cases "j = i") (auto simp: rcu_inv_def pcs)
  moreover have "pc t j \<noteq> Unused \<longrightarrow> j < MAX_RCU_THREADS" for j
    using assms(9) inv by (cases "j = i") (auto simp: rcu_inv_def pcs)
  moreover have "pc_inv t j (pc t j)" for j
    using assms(10) same [of j] inv le
    by (cases "j = i") (auto simp: rcu_inv_def pcs intro: pc_keeps)
  moreover have "holders_inv t (pc t j)" for j
    using assms(11) inv k by (cases "j = i") (auto simp: rcu_inv_def pcs intro: holders_keeps)
  ultimately show ?thesis using assms(3,4) by (simp add: rcu_inv_def)
qed

lemma rcu_invD:
  assumes "rcu_inv s"
  shows "unat (gp_seq s) = Suc (syncs s)" "cur s < next_obj s" "seen s j \<le> gp_seq s"
    "held_objs s j \<noteq> {} \<Longrightarrow> pc s j = Online" "pc s j \<noteq> Unused \<Longrightarrow> j < MAX_RCU_THREADS"
    "pc s j = p \<Longrightarrow> pc_inv s j p" "pc s j = p \<Longrightarrow> holders_inv s p"
  using assms by (auto simp: rcu_inv_def)

lemma not_online_holds_nothing: "rcu_inv s \<Longrightarrow> pc s j \<noteq> Online \<Longrightarrow> held_objs s j = {}"
  using rcu_invD(4) by blast

lemma upd_simps [simp]:
  "pc (set_pc i p s) = (pc s)(i := p)" "pc (set_seen i q s) = pc s"
  "seen (set_pc i p s) = seen s" "seen (set_seen i q s) = (seen s)(i := q)"
  "gp_seq (set_pc i p s) = gp_seq s" "gp_seq (set_seen i q s) = gp_seq s"
  "used (set_pc i p s) = used s" "used (set_seen i q s) = used s"
  "held_objs (set_pc i p s) = held_objs s" "held_objs (set_seen i q s) = held_objs s"
  "cur (set_pc i p s) = cur s" "cur (set_seen i q s) = cur s"
  "next_obj (set_pc i p s) = next_obj s" "next_obj (set_seen i q s) = next_obj s"
  "syncs (set_pc i p s) = syncs s" "syncs (set_seen i q s) = syncs s"
  by (simp_all add: set_pc_def set_seen_def)

text \<open>A thread that is polled and passes does not hold the object any more.\<close>

lemma passed_not_holding:
  assumes "passed q target" and "q < target" and "unat target < 2 ^ 63"
  shows "q = 0"
proof (rule ccontr)
  assume "q \<noteq> 0"
  with assms(1) have ge: "0 \<le> sint (q - target)" by (simp add: passed_def OFFLINE_def)
  have q: "uint q < uint target" using assms(2) by (simp add: word_less_def)
  have "int (unat target) < int (2 ^ 63)" using assms(3) by (simp only: of_nat_less_iff)
  then have b: "uint target < 2 ^ 63" by simp
  have z: "0 \<le> uint q" by simp
  have "q - target = word_of_int (uint q - uint target)" by simp
  then have "sint (q - target) = sint (word_of_int (uint q - uint target) :: u64)" by (rule arg_cong)
  also have "\<dots> = signed_take_bit 63 (uint q - uint target)"
    by (rule trans [OF sint_sbintrunc' arg_cong2 [where f = signed_take_bit, OF _ refl]]) simp
  also have "\<dots> = uint q - uint target"
  proof (rule signed_take_bit_int_eq_self)
    show "- (2 ^ 63) \<le> uint q - uint target" using q b z by linarith
    show "uint q - uint target < 2 ^ 63" using q by simp
  qed
  finally show False using ge q by linarith
qed

section \<open>Every step keeps it\<close>

lemma gp_add:
  assumes "rcu_inv s" and "few_syncs s"
  shows "unat (gp_seq s + 1) = Suc (unat (gp_seq s))" "gp_seq s < gp_seq s + 1"
    "unat (gp_seq s) < 2 ^ 63" "gp_seq s \<noteq> 0" "gp_seq s + 1 \<noteq> 0"
proof -
  have b: "unat (gp_seq s) < 2 ^ 63"
    using rcu_invD(1) [OF assms(1)] assms(2) by (simp add: few_syncs_def)
  then show "unat (gp_seq s) < 2 ^ 63" .
  show u: "unat (gp_seq s + 1) = Suc (unat (gp_seq s))"
    using b by (subst unat_add_lem [THEN iffD1]) simp_all
  then show "gp_seq s < gp_seq s + 1" by (simp add: word_less_nat_alt)
  show "gp_seq s \<noteq> 0" using rcu_invD(1) [OF assms(1)] by auto
  show "gp_seq s + 1 \<noteq> 0" using u by auto
qed

lemma gp_pos: "rcu_inv s \<Longrightarrow> gp_seq s \<noteq> 0"
  using rcu_invD(1) [of s] by auto

lemma go_online_inv:
  assumes "go_online i s t" and inv: "rcu_inv s"
  shows "rcu_inv t"
  using assms(1)
proof cases
  case (load k)
  note d = rcu_invD [OF inv]
  show ?thesis unfolding load(1)
    by (rule rcu_inv_stepI [OF inv, where i = i and p = "Loaded k (gp_seq s)"])
      (use d(1,2,3) d(5) [of i] d(6,7) [OF load(2)] gp_pos [OF inv]
        not_online_holds_nothing [OF inv, of i] load(2) in \<open>cases k; auto simp: keeps_def\<close>)+
next
  case (exchange k q)
  note d = rcu_invD [OF inv]
  show ?thesis unfolding exchange(1)
    by (rule rcu_inv_stepI [OF inv, where i = i and p = "Exchanged k q"])
      (use d(1,2,3) d(5) [of i] d(6,7) [OF exchange(2)]
        not_online_holds_nothing [OF inv, of i] exchange(2) in \<open>cases k; auto simp: keeps_def\<close>)+
next
  case (reload k q)
  note d = rcu_invD [OF inv]
  show ?thesis unfolding reload(1)
    by (rule rcu_inv_stepI [OF inv, where i = i and p = "Reloaded k q (gp_seq s)"])
      (use d(1,2,3) d(5) [of i] d(6,7) [OF reload(2)] gp_pos [OF inv]
        not_online_holds_nothing [OF inv, of i] reload(2) in \<open>cases k; auto simp: keeps_def\<close>)+
next
  case (store k q now)
  note d = rcu_invD [OF inv]
  have free: "held_objs s i = {}" using not_online_holds_nothing [OF inv, of i] store(2) by simp
  have k: "keeps s t" using free by (simp add: store(1) keeps_def)
  have pc: "used s i \<and> q \<noteq> 0 \<and> seen s i = q \<and> now \<noteq> 0 \<and> now \<le> gp_seq s \<and> i < MAX_RCU_THREADS"
    using d(6) [OF store(2)] d(5) [of i] store(2) by simp
  show ?thesis
  proof (cases k)
    case None
    show ?thesis
      by (rule rcu_inv_stepI [OF inv k, where i = i and p = Online])
        (use d(1,2) pc free in \<open>auto simp: store(1) None\<close>)
  next
    case (Some old)
    have "holders_inv s (Return old)" using d(7) [OF store(2)] Some by simp
    then have "holders_inv t (Return old)" by (rule holders_keeps [OF _ k])
    then show ?thesis
      by (intro rcu_inv_stepI [OF inv k, where i = i and p = "Return old"])
        (use d(1,2) pc free in \<open>auto simp: store(1) Some split: if_splits\<close>)
  qed
qed

lemma register_inv:
  assumes "register i s t" and inv: "rcu_inv s"
  shows "rcu_inv t"
  using assms(1)
proof cases
  case claim
  note d = rcu_invD [OF inv]
  show ?thesis unfolding claim(1)
    by (rule rcu_inv_stepI [OF inv, where i = i and p = "Claimed None"])
      (use d(1,2,3) claim not_online_holds_nothing [OF inv, of i] in \<open>auto simp: keeps_def\<close>)
next
  case leave
  note d = rcu_invD [OF inv]
  show ?thesis unfolding leave(1)
    by (rule rcu_inv_stepI [OF inv, where i = i and p = Leaving])
      (use d(1,2,3) d(5) [of i] leave in \<open>auto simp: keeps_def OFFLINE_def\<close>)
next
  case left
  note d = rcu_invD [OF inv]
  show ?thesis unfolding left(1)
    by (rule rcu_inv_stepI [OF inv, where i = i and p = Unused])
      (use d(1,2,3) left not_online_holds_nothing [OF inv, of i] in \<open>auto simp: keeps_def\<close>)
qed

lemma reader_inv:
  assumes "reader i s t" and inv: "rcu_inv s"
  shows "rcu_inv t"
  using assms(1)
proof cases
  case deref
  note d = rcu_invD [OF inv]
  show ?thesis unfolding deref(1)
    by (rule rcu_inv_stepI [OF inv, where i = i and p = Online])
      (use d(1,2,3) d(5) [of i] d(6) [OF deref(2)] deref(2) in \<open>auto simp: keeps_def\<close>)
next
  case qs_load
  note d = rcu_invD [OF inv]
  show ?thesis unfolding qs_load(1)
    by (rule rcu_inv_stepI [OF inv, where i = i and p = "Quiet (gp_seq s)"])
      (use d(1,2,3) d(5) [of i] d(6) [OF qs_load(2)] gp_pos [OF inv] qs_load(2) in \<open>auto simp: keeps_def\<close>)
next
  case (qs_store q)
  note d = rcu_invD [OF inv]
  show ?thesis unfolding qs_store(1)
    by (rule rcu_inv_stepI [OF inv, where i = i and p = Online])
      (use d(1,2,3) d(5) [of i] d(6) [OF qs_store(2)] not_online_holds_nothing [OF inv, of i] qs_store(2)
        in \<open>auto simp: keeps_def\<close>)
qed

lemma holder_online:
  assumes "rcu_inv s" and "x \<in> held_objs s j"
  shows "pc s j = Online" "used s j" "seen s j \<noteq> 0" "j < MAX_RCU_THREADS"
proof -
  show on: "pc s j = Online" using rcu_invD(4) [OF assms(1)] assms(2) by blast
  show "used s j" "seen s j \<noteq> 0" using rcu_invD(6) [OF assms(1) on] by auto
  show "j < MAX_RCU_THREADS" using rcu_invD(5) [OF assms(1)] on by auto
qed

text \<open>A step of a writer that changes nothing but its own place.\<close>

lemma writer_moves:
  assumes inv: "rcu_inv s" and "i < MAX_RCU_THREADS" and "pc s i \<noteq> Online"
    and "pc_inv s i p" and "holders_inv s p" and "p \<noteq> Online"
  shows "rcu_inv (set_pc i p s)"
proof -
  have k: "keeps s (set_pc i p s)" by (auto simp: keeps_def)
  have "holders_inv (set_pc i p s) p" by (rule holders_keeps [OF assms(5) k])
  moreover have "pc_inv (set_pc i p s) i p" by (rule pc_keeps [OF assms(4)]) simp_all
  ultimately show ?thesis
    using rcu_invD [OF inv] assms(2,3) not_online_holds_nothing [OF inv, of i]
    by (intro rcu_inv_stepI [OF inv k, where i = i and p = p]) auto
qed

lemma target_small:
  assumes "rcu_inv s" and "few_syncs s" and "target \<le> gp_seq s"
  shows "unat target < 2 ^ 63"
  using gp_add(3) [OF assms(1,2)] assms(3) by (simp add: word_le_nat_alt)

lemma writer_inv:
  assumes "writer i s t" and inv: "rcu_inv s" and few: "few_syncs s"
  shows "rcu_inv t"
  using assms(1)
proof cases
  case replace
  note d = rcu_invD [OF inv]
  show ?thesis unfolding replace(1)
    by (rule rcu_inv_stepI [OF inv, where i = i and p = "Removed (cur s)"])
      (use d(1,2,3) d(5) [of i] d(6) [OF replace(2)] replace(2) in \<open>auto simp: keeps_def\<close>)
next
  case (fetch_add old)
  note d = rcu_invD [OF inv]
  have g: "gp_seq s \<le> gp_seq s + 1" using gp_add(2) [OF inv few] by simp
  have lt: "seen s j < gp_seq s + 1" for j using d(3) gp_add(2) [OF inv few] by (rule le_less_trans)
  show ?thesis unfolding fetch_add(1)
    by (rule rcu_inv_stepI [OF inv, where i = i and p = "Started old (gp_seq s + 1)"])
      (use d(1,2) d(5) [of i] d(6,7) [OF fetch_add(2)] not_online_holds_nothing [OF inv, of i]
        fetch_add(2) lt g gp_add(1) [OF inv few] order_trans [OF d(3) g] in \<open>auto simp: keeps_def\<close>)
next
  case (offline old target)
  note d = rcu_invD [OF inv]
  show ?thesis unfolding offline(1)
    by (rule rcu_inv_stepI [OF inv, where i = i and p = "Scan old target 0"])
      (use d(1,2,3) d(5) [of i] d(6,7) [OF offline(2)] not_online_holds_nothing [OF inv, of i]
        offline(2) in \<open>auto simp: keeps_def OFFLINE_def\<close>)
next
  case (skip old target j)
  note d = rcu_invD [OF inv]
  have h: "holders_inv s (Scan old target (Suc j))"
    using d(7) [OF skip(2)] holder_online [OF inv, of old] skip(2,4) by (auto simp: Suc_le_eq order_le_less)
  show ?thesis unfolding skip(1)
    by (rule writer_moves [OF inv]) (use d(5) [of i] d(6) [OF skip(2)] h skip(2) in auto)
next
  case (look old target j)
  note d = rcu_invD [OF inv]
  show ?thesis unfolding look(1)
    by (rule writer_moves [OF inv]) (use d(5) [of i] d(6,7) [OF look(2)] look(2) in auto)
next
  case (poll old target j)
  note d = rcu_invD [OF inv]
  have small: "unat target < 2 ^ 63" using target_small [OF inv few] d(7) [OF poll(2)] by simp
  have "old \<notin> held_objs s j"
    using passed_not_holding [OF poll(3) _ small] d(7) [OF poll(2)] holder_online(3) [OF inv, of old j]
    by auto
  then have h: "holders_inv s (Scan old target (Suc j))"
    using d(7) [OF poll(2)] by (auto simp: Suc_le_eq order_le_less)
  show ?thesis unfolding poll(1)
    by (rule writer_moves [OF inv]) (use d(5) [of i] d(6) [OF poll(2)] h poll(2) in auto)
next
  case (done_waiting old target j)
  note d = rcu_invD [OF inv]
  have h: "holders_inv s (Claimed (Some old))"
    using d(7) [OF done_waiting(2)] holder_online(4) [OF inv, of old] done_waiting(3) by force
  show ?thesis unfolding done_waiting(1)
    by (rule writer_moves [OF inv]) (use d(5) [of i] d(6) [OF done_waiting(2)] h done_waiting(2) in auto)
next
  case (free old)
  note d = rcu_invD [OF inv]
  show ?thesis unfolding free(1)
    by (rule rcu_inv_stepI [OF inv, where i = i and p = Online])
      (use d(1,2,3) d(5) [of i] d(6) [OF free(2)] not_online_holds_nothing [OF inv, of i] free(2)
        in \<open>auto simp: keeps_def\<close>)
qed

lemma rcu_inv_init: "rcu_inv rcu_init"
  by (simp add: rcu_inv_def rcu_init_def)

lemma syncs_mono: "rcu_step s t \<Longrightarrow> syncs s \<le> syncs t"
  by (auto simp: rcu_step_def elim!: go_online.cases register.cases reader.cases writer.cases)

lemma rcu_reach_inv: "rcu_reach s \<Longrightarrow> few_syncs s \<Longrightarrow> rcu_inv s"
proof (induction rule: rcu_reach.induct)
  case rcu_start
  show ?case by (rule rcu_inv_init)
next
  case (rcu_next s t)
  have few: "few_syncs s" using syncs_mono [OF rcu_next.hyps(2)] rcu_next.prems by (simp add: few_syncs_def)
  with rcu_next.IH rcu_next.hyps(2) show ?case
    by (auto simp: rcu_step_def intro: go_online_inv register_inv reader_inv writer_inv)
qed

section \<open>A run of one writer\<close>

text \<open>\<open>solo p n s\<close>: thread 0 alone has a slot and is at \<open>p\<close>, after \<open>n\<close> grace periods began.\<close>

definition solo :: "rcu_pc \<Rightarrow> nat \<Rightarrow> rcu \<Rightarrow> bool" where
  "solo p n s \<longleftrightarrow> rcu_reach s \<and> pc s 0 = p \<and> used s = (\<lambda>j. j = 0) \<and> syncs s = n"

lemma solo_step:
  assumes "solo p n s" and "go_online 0 s t \<or> reader 0 s t \<or> writer 0 s t"
    and "pc t 0 = q" and "used t = used s"
  shows "solo q (syncs t) t"
  using assms rcu_reach.rcu_next [of s t] by (auto simp: solo_def rcu_step_def)

lemma solo_store:
  assumes "solo (Reloaded k q now) n s"
  shows "\<exists>s. solo (case k of None \<Rightarrow> Online | Some old \<Rightarrow> Return old) n s"
proof -
  let ?t = "set_pc 0 (case k of None \<Rightarrow> Online | Some old \<Rightarrow> Return old)
      (if now \<noteq> q then set_seen 0 now s else s)"
  have "go_online 0 s ?t" using assms by (intro go_online.store) (simp add: solo_def)
  then have "solo (case k of None \<Rightarrow> Online | Some old \<Rightarrow> Return old) (syncs ?t) ?t"
    by (intro solo_step [OF assms disjI1]) auto
  moreover have "syncs ?t = n" using assms by (simp add: solo_def)
  ultimately show ?thesis by blast
qed

lemma solo_go_online:
  assumes "solo (Claimed k) n s"
  shows "\<exists>s. solo (case k of None \<Rightarrow> Online | Some old \<Rightarrow> Return old) n s"
proof -
  have "\<exists>t. solo (Loaded k (gp_seq s)) n t"
    using solo_step [OF assms disjI1 [OF go_online.load]] assms by (fastforce simp: solo_def)
  then obtain q s2 where s2: "solo (Loaded k q) n s2" by blast
  have "\<exists>s. solo (Exchanged k q) n s"
    using solo_step [OF s2 disjI1 [OF go_online.exchange]] s2 by (fastforce simp: solo_def)
  then obtain s3 where s3: "solo (Exchanged k q) n s3" by blast
  have "\<exists>s. solo (Reloaded k q (gp_seq s3)) n s"
    using solo_step [OF s3 disjI1 [OF go_online.reload]] s3 by (fastforce simp: solo_def)
  then show ?thesis using solo_store by blast
qed

lemma solo_online: "\<exists>s. solo Online 0 s"
proof -
  let ?s1 = "set_pc 0 (Claimed None) (rcu_init\<lparr>used := (used rcu_init)(0 := True)\<rparr>)"
  have "register 0 rcu_init ?s1"
    by (rule register.claim) (simp_all add: MAX_RCU_THREADS_def rcu_init_def)
  then have "rcu_step rcu_init ?s1" unfolding rcu_step_def by blast
  then have "rcu_reach ?s1" by (rule rcu_next [OF rcu_start])
  then have "solo (Claimed None) 0 ?s1" by (simp add: solo_def rcu_init_def fun_eq_iff)
  then show ?thesis using solo_go_online [of None] by auto
qed

lemma solo_scan:
  assumes "solo (Scan old target 0) 1 s" and "n \<le> MAX_RCU_THREADS"
  shows "\<exists>s. solo (Scan old target n) 1 s"
  using assms(2)
proof (induction n)
  case 0
  then show ?case using assms(1) by blast
next
  case (Suc n)
  then obtain s where s: "solo (Scan old target n) 1 s" by auto
  have "writer 0 s (set_pc 0 (Scan old target (Suc n)) s)"
    using s Suc.prems by (intro writer.skip) (auto simp: solo_def)
  from solo_step [OF s disjI2 [OF disjI2 [OF this]]] s show ?case by (fastforce simp: solo_def)
qed

lemma solo_return: "\<exists>s old. solo (Return old) 1 s"
proof -
  obtain s0 where s0: "solo Online 0 s0" using solo_online by blast
  have "\<exists>s. solo (Removed (cur s0)) 0 s"
    using solo_step [OF s0 disjI2 [OF disjI2 [OF writer.replace]]] s0 by (fastforce simp: solo_def)
  then obtain old s1 where s1: "solo (Removed old) 0 s1" by blast
  have "\<exists>s. solo (Started old (gp_seq s1 + 1)) 1 s"
    using solo_step [OF s1 disjI2 [OF disjI2 [OF writer.fetch_add]]] s1 by (fastforce simp: solo_def)
  then obtain tgt s2 where s2: "solo (Started old tgt) 1 s2" by blast
  have "\<exists>s. solo (Scan old tgt 0) 1 s"
    using solo_step [OF s2 disjI2 [OF disjI2 [OF writer.offline]]] s2 by (fastforce simp: solo_def)
  then obtain s3 where "solo (Scan old tgt 0) 1 s3" by blast
  then obtain s4 where s4: "solo (Scan old tgt MAX_RCU_THREADS) 1 s4" using solo_scan by blast
  have "\<exists>s. solo (Claimed (Some old)) 1 s"
    using solo_step [OF s4 disjI2 [OF disjI2 [OF writer.done_waiting]]] s4 by (fastforce simp: solo_def)
  then obtain s5 where s5: "solo (Claimed (Some old)) 1 s5" by blast
  show ?thesis using solo_go_online [OF s5] by auto
qed

section \<open>Properties\<close>

text \<open>C4: When \<^verbatim>\<open>synchronize_rcu\<close> returns, no thread still holds the object that the caller
  had replaced, and none can load it any more, in every interleaving of readers, writers and
  threads that register and unregister, for fewer than \<open>2^63 - 1\<close> grace periods.\<close>

theorem rcu_grace_period:
  assumes "rcu_reach s" and "syncs s < 2 ^ 63 - 1" and "pc s i = Return old"
  shows "old \<notin> held_objs s j \<and> old \<noteq> cur s"
  using rcu_invD(7) [OF rcu_reach_inv [OF assms(1)] assms(3)] assms(2) by (simp add: few_syncs_def)

theorem rcu_grace_period_witness:
  "\<exists>s old. rcu_reach s \<and> pc s 0 = Return old \<and> old \<notin> held_objs s 5 \<and> old \<noteq> cur s"
proof -
  obtain s old where "solo (Return old) 1 s" using solo_return by blast
  then show ?thesis using rcu_grace_period [of s 0 old 5] by (auto simp: solo_def)
qed

end
