(* ===== verification/Devsvc.thy ===== *)
theory Devsvc
  imports Sink Bus Catalog Config Complex_Main
begin

text \<open>
  The driver of the device service, \<^verbatim>\<open>Week6/Assignment6/concurrency/src/devsvc.c\<close>: the random
  numbers of a worker, the requests it makes of each case, the checks at the end, and the
  watchdog loop of \<^verbatim>\<open>main\<close>. A request is the list of the lock programs it runs, in order.
  Times are real numbers; the clock's readings are part of the watchdog's input.
\<close>

definition MAX_WORKERS :: nat where "MAX_WORKERS = 32"
definition HANG_SECONDS :: real where "HANG_SECONDS = 3"

record worker =
  w_id :: nat
  rng :: u64
  published :: int

definition rnd :: "worker \<Rightarrow> worker \<times> u32" where
  "rnd w =
     (let a = rng w XOR push_bit 13 (rng w);
          b = a XOR drop_bit 7 a;
          c = b XOR push_bit 17 b
      in (w\<lparr>rng := c\<rparr>, ucast (drop_bit 11 c)))"

definition worker_init :: "nat \<Rightarrow> worker" where
  "worker_init i = \<lparr>w_id = i, rng = 0x9e3779b97f4a7c15 * of_nat (i + 1), published = 0\<rparr>"

text \<open>The conversion \<^verbatim>\<open>(int)n\<close> of a long.\<close>

definition to_int :: "int \<Rightarrow> int" where
  "to_int n = sint (word_of_int n :: u32)"

section \<open>The requests\<close>

definition req_sink :: "worker \<Rightarrow> nat \<Rightarrow> worker \<times> sink_prog list" where
  "req_sink w n =
     (let (w, r) = rnd w; from = unat r mod NSINKS;
          (w, r) = rnd w; to = unat r mod (NSINKS - 1);
          to = (if to \<ge> from then to + 1 else to)
      in (w, sink_move from to # (if n mod 256 = 0 then [sink_total] else [])))"

definition req_bus :: "worker \<Rightarrow> nat \<Rightarrow> worker \<times> bus_prog list" where
  "req_bus w n =
     (w\<lparr>published := published w + 1\<rparr>,
      [bus_publish (to_int (int n)), bus_subscribe (Oneshot ((n + w_id w) mod NONESHOT))])"

definition req_catalog :: "worker \<Rightarrow> nat \<Rightarrow> worker \<times> catalog_prog list" where
  "req_catalog w n =
     (let (w, r) = rnd w; r = unat r mod 100;
          (w, a) = rnd w; app = unat a mod NAPPS;
          (w, p) = rnd w; perm = unat p mod NPERMS
      in if r < 45 then (w, [catalog_can_launch app perm])
         else if r < 90 then (w, [catalog_perm_users perm])
         else if r < 93 then (w, [catalog_grant app perm])
         else if r < 98 then (w, [catalog_revoke app perm])
         else let (w, e) = rnd w in (w, [catalog_set_perm perm (uint (e AND 1))]))"

definition req_config :: "(nat list \<Rightarrow> nat) \<Rightarrow> worker \<Rightarrow> nat \<Rightarrow> worker \<times> config_prog list" where
  "req_config malloc w n =
     (let (w, r) = rnd w
      in if unat r mod 2000 = 0 then (w, [config_update malloc])
         else let (w, o') = rnd w in (w, [output_render (unat o' mod NOUTPUTS)]))"

text \<open>What a request reports as failed, from the results of its calls.\<close>

fun sink_fails :: "sink_result \<Rightarrow> bool" where
  "sink_fails (Total t) = (t \<noteq> int NSINKS * SESSIONS_PER_SINK)"
| "sink_fails _ = False"

fun catalog_fails :: "catalog_result \<Rightarrow> bool" where
  "catalog_fails (PermUsers n e) = (e = 0 \<and> n > 0)"
| "catalog_fails _ = False"

fun config_fails :: "config_result \<Rightarrow> bool" where
  "config_fails (Rendered ok) = (ok = 0)"
| "config_fails _ = False"

section \<open>The checks at the end: how many failures each reports\<close>

definition check_sink :: "sink_state \<Rightarrow> nat" where
  "check_sink s =
     of_bool (fold (\<lambda>i t. t + sessions (sinks s i)) [0..<NSINKS] 0 \<noteq> int NSINKS * SESSIONS_PER_SINK)"

definition check_bus :: "worker list \<Rightarrow> bus \<Rightarrow> nat" where
  "check_bus ws b =
     (let total = sum_list (map published ws)
      in length (filter (\<lambda>i. calls b (Persist i) \<noteq> total) [0..<NPERSIST]))"

definition check_catalog :: "catalog \<Rightarrow> nat" where
  "check_catalog s =
     of_bool (length (filter (\<lambda>p. catalog_fails (snd (run (catalog_perm_users p) s))) [0..<NPERMS]) \<noteq> 0)"

definition check_config :: "config_state \<Rightarrow> nat" where
  "check_config s =
     (case snd (run config_version s) of
        Version v \<Rightarrow> length (filter (\<lambda>i. applied (outputs s i) \<noteq> v) [0..<NOUTPUTS])
      | _ \<Rightarrow> 0)"

section \<open>The watchdog\<close>

text \<open>
  One look at the workers: the time, and each worker's \<^verbatim>\<open>ops\<close> and \<^verbatim>\<open>done\<close>. The watchdog
  remembers the last count it saw of each worker, and when it saw it change.
\<close>

record look =
  look_t :: real
  look_ops :: "nat \<Rightarrow> int"
  look_done :: "nat \<Rightarrow> bool"

record watch =
  last_ops :: "nat \<Rightarrow> int"
  last_t :: "nat \<Rightarrow> real"

datatype watch_result = Hang nat real | Seen watch nat

text \<open>The inner loop, over the workers that \<open>is\<close> lists, counting those that still run.\<close>

fun watch_workers :: "look \<Rightarrow> nat list \<Rightarrow> watch \<Rightarrow> nat \<Rightarrow> watch_result" where
  "watch_workers k [] w running = Seen w running"
| "watch_workers k (i # is) w running =
     (if look_done k i then watch_workers k is w running
      else if look_ops k i \<noteq> last_ops w i
      then watch_workers k is
             (w\<lparr>last_ops := (last_ops w)(i := look_ops k i), last_t := (last_t w)(i := look_t k)\<rparr>) (running + 1)
      else if look_t k - last_t w i \<ge> HANG_SECONDS then Hang i (look_t k - last_t w i)
      else watch_workers k is w (running + 1))"

datatype driver_result =
    Hung nat real
  | Finished int real
  | Watching watch "(int \<times> real) option"

text \<open>
  The outer loop, one look per iteration. \<open>stop\<close> is \<^verbatim>\<open>ops_at_stop\<close> and \<^verbatim>\<open>t_stop\<close> once the time
  is over; the loop ends when then no worker runs any more.
\<close>

fun watch_loop ::
  "nat \<Rightarrow> real \<Rightarrow> real \<Rightarrow> look list \<Rightarrow> watch \<Rightarrow> (int \<times> real) option \<Rightarrow> driver_result" where
  "watch_loop n t0 secs [] w stop = Watching w stop"
| "watch_loop n t0 secs (k # ks) w stop =
     (case watch_workers k [0..<n] w 0 of
        Hang i idle \<Rightarrow> Hung i idle
      | Seen w running \<Rightarrow>
          let stop = (if stop = None \<and> look_t k - t0 \<ge> secs
                      then Some (sum_list (map (look_ops k) [0..<n]), look_t k) else stop)
          in case stop of
               None \<Rightarrow> watch_loop n t0 secs ks w None
             | Some (ops, t) \<Rightarrow>
                 if running = 0 then Finished ops t else watch_loop n t0 secs ks w (Some (ops, t)))"

definition watch_start :: "real \<Rightarrow> watch" where
  "watch_start t0 = \<lparr>last_ops = (\<lambda>_. - 1), last_t = (\<lambda>_. t0)\<rparr>"

text \<open>The arguments \<^verbatim>\<open>main\<close> accepts, and its exit status.\<close>

definition args_ok :: "int \<Rightarrow> int \<Rightarrow> real \<Rightarrow> bool" where
  "args_ok ncase nthreads seconds \<longleftrightarrow>
     \<not> (ncase < 1 \<or> ncase > 4 \<or> nthreads < 1 \<or> nthreads > int MAX_WORKERS \<or> \<not> seconds > 0)"

fun exit_status :: "driver_result \<Rightarrow> nat \<Rightarrow> nat option" where
  "exit_status (Hung i idle) nf = Some 3"
| "exit_status (Finished ops t) nf = Some (if nf \<noteq> 0 then 1 else 0)"
| "exit_status (Watching w stop) nf = None"

section \<open>The random numbers never die out\<close>

lemma xor_self_zero: "(x::'a::len word) XOR y = 0 \<longleftrightarrow> x = y"
  by (metis xor.assoc xor.left_neutral xor_self_eq)

lemma shift_left_fixed:
  assumes "push_bit k x = (x::u64)" and "0 < k"
  shows "x = 0"
proof (rule bit_eqI)
  fix n
  have "\<not> bit x n"
  proof (induction n rule: less_induct)
    case (less n)
    show ?case
    proof
      assume b: "bit x n"
      with assms(1) have "bit (push_bit k x) n" by simp
      then have "k \<le> n" "bit x (n - k)" by (auto simp: bit_push_bit_iff)
      then show False using less [of "n - k"] assms(2) by simp
    qed
  qed
  then show "bit x n = bit 0 n" by simp
qed

lemma shift_right_fixed:
  assumes "drop_bit k x = (x::u64)" and "0 < k"
  shows "x = 0"
proof (rule bit_eqI)
  fix n
  have "\<not> bit x n" if "m + n = 64" for m n
    using that
  proof (induction m arbitrary: n rule: less_induct)
    case (less m)
    show ?case
    proof
      assume b: "bit x n"
      with assms(1) have b': "bit x (n + k)" by (metis add.commute bit_drop_bit_eq o_apply)
      then have "n + k < 64" using bit_imp_le_length [of x "n + k"] by simp
      with less.IH [of "m - k" "n + k"] less.prems assms(2) b' show False by simp
    qed
  qed
  from this [of "64 - n" n] show "bit x n = bit 0 n"
    using bit_imp_le_length [of x n] by (cases "n \<le> 64") auto
qed

lemma rnd_nonzero: "rng w \<noteq> 0 \<Longrightarrow> rng (fst (rnd w)) \<noteq> 0"
proof -
  assume z: "rng w \<noteq> 0"
  define a where "a = rng w XOR push_bit 13 (rng w)"
  define b where "b = a XOR drop_bit 7 a"
  have "a \<noteq> 0" using z shift_left_fixed [of 13 "rng w"] by (auto simp: a_def xor_self_zero)
  then have "b \<noteq> 0" using shift_right_fixed [of 7 a] by (auto simp: b_def xor_self_zero)
  then have "b XOR push_bit 17 b \<noteq> 0" using shift_left_fixed [of 17 b] by (auto simp: xor_self_zero)
  then show ?thesis by (simp add: rnd_def Let_def a_def b_def)
qed

section \<open>The checks\<close>

lemma fold_add: "fold (\<lambda>i t. t + f i) is (a::int) = a + sum_list (map f is)"
  by (induction "is" arbitrary: a) auto

lemma check_sink_sum:
  "check_sink s = of_bool ((\<Sum>k<NSINKS. sessions (sinks s k)) \<noteq> int NSINKS * SESSIONS_PER_SINK)"
  by (simp add: check_sink_def fold_add sum_list_map_upt_lessThan)

section \<open>What the watchdog remembers\<close>

lemma watch_workers_seen:
  "watch_workers k is w r = Seen w' r' \<Longrightarrow> distinct is \<Longrightarrow>
   last_ops w' j = (if j \<in> set is \<and> \<not> look_done k j then look_ops k j else last_ops w j) \<and>
   last_t w' j = (if j \<in> set is \<and> \<not> look_done k j \<and> look_ops k j \<noteq> last_ops w j then look_t k
     else last_t w j)"
proof (induction "is" arbitrary: w r)
  case Nil
  then show ?case by simp
next
  case (Cons i "is")
  show ?case
  proof (cases "look_done k i")
    case True
    then show ?thesis using Cons by auto
  next
    case nd: False
    show ?thesis
    proof (cases "look_ops k i = last_ops w i")
      case True
      with nd Cons.prems(1) have "watch_workers k is w (r + 1) = Seen w' r'"
        by (simp split: if_splits)
      from Cons.IH [OF this] Cons.prems(2) nd True show ?thesis by auto
    next
      case False
      with nd Cons.prems(1) have "watch_workers k is
          (w\<lparr>last_ops := (last_ops w)(i := look_ops k i), last_t := (last_t w)(i := look_t k)\<rparr>) (r + 1)
          = Seen w' r'" by simp
      from Cons.IH [OF this] Cons.prems(2) nd False show ?thesis by auto
    qed
  qed
qed

lemma watch_workers_hang:
  "watch_workers k is w r = Hang i idle \<Longrightarrow> distinct is \<Longrightarrow>
   i \<in> set is \<and> \<not> look_done k i \<and> look_ops k i = last_ops w i \<and>
   idle = look_t k - last_t w i \<and> HANG_SECONDS \<le> idle"
proof (induction "is" arbitrary: w r)
  case Nil
  then show ?case by simp
next
  case (Cons j "is")
  show ?case
  proof (cases "\<not> look_done k j \<and> look_ops k j = last_ops w j \<and> HANG_SECONDS \<le> look_t k - last_t w j")
    case True
    then show ?thesis using Cons.prems by auto
  next
    case False
    then obtain v q where v: "watch_workers k is v q = Hang i idle"
        "v = w \<or> v = w\<lparr>last_ops := (last_ops w)(j := look_ops k j), last_t := (last_t w)(j := look_t k)\<rparr>"
      using Cons.prems(1) by (auto split: if_splits)
    from Cons.IH [OF v(1)] Cons.prems(2) v(2) show ?thesis by (auto split: if_splits)
  qed
qed

text \<open>\<open>remembers pre w\<close>: after the looks \<open>pre\<close>, no worker's count differed from the one
  remembered since the time remembered.\<close>

definition remembers :: "look list \<Rightarrow> watch \<Rightarrow> nat \<Rightarrow> bool" where
  "remembers pre w i \<longleftrightarrow>
     (\<forall>k\<in>set pre. last_t w i \<le> look_t k \<longrightarrow> \<not> look_done k i \<longrightarrow> look_ops k i = last_ops w i)"

lemma remembers_step:
  assumes "remembers pre w i" and "watch_workers k [0..<n] w 0 = Seen w' r" and "i < n"
    and "\<forall>k'\<in>set pre. look_t k' < look_t k"
  shows "remembers (pre @ [k]) w' i"
proof (cases "look_done k i")
  case True
  with watch_workers_seen [OF assms(2), of i] assms(1) show ?thesis by (auto simp: remembers_def)
next
  case False
  have w': "last_ops w' i = look_ops k i"
      "last_t w' i = (if look_ops k i \<noteq> last_ops w i then look_t k else last_t w i)"
    using watch_workers_seen [OF assms(2), of i] assms(3) False by auto
  with assms(1,4) show ?thesis by (auto simp: remembers_def)
qed

lemma watch_loop_hung:
  assumes "watch_loop n t0 secs ks w stop = Hung i idle"
    and "\<forall>i<n. remembers pre w i" and "sorted_wrt (\<lambda>j k. look_t j < look_t k) (pre @ ks)"
  shows "\<exists>as k bs. pre @ ks = as @ k # bs \<and> i < n \<and> \<not> look_done k i \<and> HANG_SECONDS \<le> idle \<and>
    (\<forall>j\<in>set as. look_t k - idle \<le> look_t j \<longrightarrow> \<not> look_done j i \<longrightarrow> look_ops j i = look_ops k i)"
  using assms
proof (induction ks arbitrary: pre w stop)
  case Nil
  then show ?case by simp
next
  case (Cons k ks)
  show ?case
  proof (cases "watch_workers k [0..<n] w 0")
    case (Hang i' idle')
    then have i: "i' = i" "idle' = idle" using Cons.prems(1) by simp_all
    have h: "i < n" "\<not> look_done k i" "look_ops k i = last_ops w i" "idle = look_t k - last_t w i"
        "HANG_SECONDS \<le> idle"
      using watch_workers_hang [OF Hang] i by auto
    then have "\<forall>j\<in>set pre. look_t k - idle \<le> look_t j \<longrightarrow> \<not> look_done j i \<longrightarrow> look_ops j i = look_ops k i"
      using Cons.prems(2) by (auto simp: remembers_def)
    with h show ?thesis by blast
  next
    case (Seen w' r)
    have "\<forall>i<n. remembers (pre @ [k]) w' i"
      using Cons.prems(2,3) by (auto intro!: remembers_step [OF _ Seen] simp: sorted_wrt_append)
    moreover obtain stop' where "watch_loop n t0 secs ks w' stop' = Hung i idle"
      using Cons.prems(1) Seen by (auto simp: Let_def split: if_splits option.splits)
    ultimately show ?thesis using Cons.IH [of w' stop' "pre @ [k]"] Cons.prems(3) by simp
  qed
qed

lemma sink_target_valid:
  "sink_move (x mod NSINKS)
     (if x mod NSINKS \<le> y mod (NSINKS - 1) then y mod (NSINKS - 1) + 1 else y mod (NSINKS - 1))
   \<in> sink_requests"
proof (rule sink_requestsI)
  have "y mod (NSINKS - 1) < NSINKS - 1" by (simp add: NSINKS_def)
  then show "(if x mod NSINKS \<le> y mod (NSINKS - 1) then y mod (NSINKS - 1) + 1
      else y mod (NSINKS - 1)) < NSINKS" by auto
qed (auto simp: NSINKS_def)

section \<open>Properties\<close>

text \<open>Every request that the driver makes, whatever the worker's random state, is one of
  those whose interleavings the other theories cover: moves are between two different sinks
  of the array, and every app, permission and output is in range.\<close>

theorem driver_requests_valid:
  "set (snd (req_sink w n)) \<subseteq> sink_requests \<and> set (snd (req_bus w n)) \<subseteq> bus_requests \<and>
   set (snd (req_catalog w n)) \<subseteq> catalog_requests \<and>
   set (snd (req_config malloc w n)) \<subseteq> config_requests malloc"
proof (intro conjI)
  show "set (snd (req_sink w n)) \<subseteq> sink_requests"
    using sink_target_valid [of "unat (snd (rnd w))" "unat (snd (rnd (fst (rnd w))))"]
    by (auto simp: req_sink_def split_def Let_def sink_requestsI(2))
  show "set (snd (req_bus w n)) \<subseteq> bus_requests"
    by (simp add: req_bus_def bus_requests_def)
  show "set (snd (req_catalog w n)) \<subseteq> catalog_requests"
    by (simp add: req_catalog_def split_def Let_def catalog_requestsI NAPPS_def NPERMS_def)
  show "set (snd (req_config malloc w n)) \<subseteq> config_requests malloc"
    by (simp add: req_config_def split_def Let_def config_requestsI NOUTPUTS_def)
qed

text \<open>When every worker has stopped, the driver's final check of the sinks passes, in every
  interleaving that led there.\<close>

theorem check_sink_passes:
  assumes "reach sink_requests sink_start c" and "\<forall>i. \<exists>r. thr c i = Ret r"
  shows "check_sink (shared c) = 0"
proof -
  have "owner c l = None" for l
    using sink_mon.no_lock_kept [OF assms(1)] assms(2) by (cases "owner c l") blast+
  then have "transit (shared c) l = 0" for l
    using sink_mon.free_I [OF assms(1)] by (simp add: sink_lock_inv_def)
  then show ?thesis
    using sink_mon.always_J [OF assms(1)] by (simp add: check_sink_sum sink_inv_def)
qed

theorem check_sink_passes_witness:
  "\<exists>c. reach sink_requests sink_start c \<and> check_sink (shared c) = 0"
  using check_sink_passes [OF reach_init] by (intro exI [of _ sink_start]) (auto intro: reach_init)

text \<open>The watchdog raises no false alarm: it reports a worker only after looks over at least
  three seconds in which the worker, not done, was never seen with another request count.\<close>

theorem watchdog_no_false_alarm:
  assumes "watch_loop n t0 secs ks (watch_start t0) None = Hung i idle"
    and "sorted_wrt (\<lambda>j k. look_t j < look_t k) ks"
  shows "\<exists>as k bs. ks = as @ k # bs \<and> i < n \<and> \<not> look_done k i \<and> 3 \<le> idle \<and>
    (\<forall>j\<in>set as. look_t k - idle \<le> look_t j \<longrightarrow> \<not> look_done j i \<longrightarrow> look_ops j i = look_ops k i)"
  using watch_loop_hung [OF assms(1), of "[]"] assms(2) by (simp add: remembers_def HANG_SECONDS_def)

theorem watchdog_no_false_alarm_witness:
  "\<exists>k. k \<in> set [\<lparr>look_t = 1, look_ops = (\<lambda>_. 5), look_done = (\<lambda>_. False)\<rparr>,
        \<lparr>look_t = 4, look_ops = (\<lambda>_. 5), look_done = (\<lambda>_. False)\<rparr>] \<and> \<not> look_done k 0"
proof -
  let ?ks = "[\<lparr>look_t = 1, look_ops = (\<lambda>_. 5), look_done = (\<lambda>_. False)\<rparr>,
        \<lparr>look_t = 4, look_ops = (\<lambda>_. 5), look_done = (\<lambda>_. False)\<rparr>]"
  have "watch_loop 1 0 10 ?ks (watch_start 0) None = Hung 0 3"
    by (simp add: watch_start_def HANG_SECONDS_def)
  from watchdog_no_false_alarm [OF this] obtain as k bs where "?ks = as @ k # bs" "\<not> look_done k 0"
    by (auto simp del: set_append)
  then show ?thesis by (metis in_set_conv_decomp)
qed

end
