(* ===== verification/LockTable.thy ===== *)
theory LockTable
  imports Prelude
begin

text \<open>
  The lock table of \<^verbatim>\<open>Week6/Assignment6/concurrency/tools/lockcheck.c\<close> (its parts 2 and 3): an
  open-addressing hash table of 256 entries from lock addresses to indices, with tombstones
  for destroyed locks, the matrix of order edges, and the list of places already reported.
  Every function here runs under the tool's spin lock, so it is one atomic operation.
\<close>

unbundle bit_operations_syntax

definition MAX_LOCKS :: nat where "MAX_LOCKS = 256"
definition MAX_SEEN :: nat where "MAX_SEEN = 128"
definition NULL :: u64 where "NULL = 0"
definition TOMBSTONE :: u64 where "TOMBSTONE = 1"

record lockinfo =
  addr :: u64
  is_rw :: bool
  recursive :: bool
  read_shares :: bool
  lk_owner :: int
  owner_site :: u64
  readers :: int
  reader_site :: u64

definition fresh_lockinfo :: "u64 \<Rightarrow> lockinfo" where
  "fresh_lockinfo p = \<lparr>addr = p, is_rw = False, recursive = False, read_shares = False, lk_owner = 0,
     owner_site = 0, readers = 0, reader_site = 0\<rparr>"

record edge_rec =
  held_site :: u64
  new_site :: u64
  edge_tid :: int

record edge =
  mask :: u8
  rec :: "nat \<Rightarrow> edge_rec"

text \<open>A key of the places already reported: a string literal of the tool or a code address.\<close>

datatype seen_key = Str string | At u64

text \<open>
  The global state: the table, the edges, the warning counters \<^verbatim>\<open>n_warn[1..4]\<close>, the places
  reported (\<^verbatim>\<open>n_seen\<close> is the length of the list), and per thread the locks it holds.
\<close>

record held_lock =
  h_idx :: nat
  h_mode :: nat
  h_count :: int
  h_site :: u64

record lc =
  locks :: "nat \<Rightarrow> lockinfo"
  edges :: "nat \<Rightarrow> nat \<Rightarrow> edge"
  n_warn :: "nat \<Rightarrow> int"
  seen_places :: "(seen_key \<times> seen_key) list"
  held_locks :: "int \<Rightarrow> held_lock list"

definition lc_init :: lc where
  "lc_init = \<lparr>locks = (\<lambda>_. fresh_lockinfo NULL),
     edges = (\<lambda>_ _. \<lparr>mask = 0, rec = (\<lambda>_. \<lparr>held_site = 0, new_site = 0, edge_tid = 0\<rparr>)\<rparr>),
     n_warn = (\<lambda>_. 0), seen_places = [], held_locks = (\<lambda>_. [])\<rparr>"

text \<open>\<^verbatim>\<open>first_time\<close>: 1 the first time the pair is seen, 0 afterwards and when the list is full.\<close>

definition first_time :: "seen_key \<Rightarrow> seen_key \<Rightarrow> lc \<Rightarrow> int \<times> lc" where
  "first_time k1 k2 s =
     (let first = \<not> list_ex (\<lambda>(a, b). a = k1 \<and> b = k2) (seen_places s) in
      if first \<and> length (seen_places s) < MAX_SEEN
      then (1, s\<lparr>seen_places := seen_places s @ [(k1, k2)]\<rparr>)
      else (0, s))"

definition hash_addr :: "u64 \<Rightarrow> nat" where
  "hash_addr p =
     (let x = drop_bit 3 p;
          x = x XOR drop_bit 17 x;
          x = x * 0x9e3779b1
      in unat (ucast (x XOR drop_bit 15 x) :: u32) mod MAX_LOCKS)"

text \<open>
  The probing loop of \<^verbatim>\<open>lock_index\<close>, with \<open>k\<close> iterations left: the index found and the first
  slot that is free, each -1 if there is none.
\<close>

fun probe :: "(nat \<Rightarrow> lockinfo) \<Rightarrow> u64 \<Rightarrow> nat \<Rightarrow> nat \<Rightarrow> int \<Rightarrow> nat \<Rightarrow> int \<times> int" where
  "probe ls p h n free_slot 0 = (- 1, free_slot)"
| "probe ls p h n free_slot (Suc k) =
     (let i = (h + n) mod MAX_LOCKS in
      if addr (ls i) = p then (int i, free_slot)
      else let free_slot' = (if addr (ls i) = TOMBSTONE \<and> free_slot < 0 then int i else free_slot) in
        if addr (ls i) = NULL then (- 1, if free_slot' < 0 then int i else free_slot')
        else probe ls p h (Suc n) free_slot' k)"

text \<open>
  \<open>rwkind\<close> and \<open>mkind\<close> are the bytes of glibc's structures at an address: the flags of an
  rwlock and the kind of a mutex.
\<close>

definition PREFER_WRITER :: int where "PREFER_WRITER = 2"
definition MUTEX_RECURSIVE :: int where "MUTEX_RECURSIVE = 1"

definition set_kind :: "(u64 \<Rightarrow> int) \<Rightarrow> (u64 \<Rightarrow> int) \<Rightarrow> u64 \<Rightarrow> bool \<Rightarrow> lockinfo \<Rightarrow> lockinfo" where
  "set_kind rwkind mkind p rw l =
     (if rw then l\<lparr>is_rw := True, recursive := False, read_shares := rwkind p \<noteq> PREFER_WRITER\<rparr>
      else l\<lparr>is_rw := False, recursive := mkind p AND 3 = MUTEX_RECURSIVE, read_shares := False\<rparr>)"

definition lock_index ::
  "(u64 \<Rightarrow> int) \<Rightarrow> (u64 \<Rightarrow> int) \<Rightarrow> u64 \<Rightarrow> bool \<Rightarrow> lc \<Rightarrow> int \<times> lc" where
  "lock_index rwkind mkind p rw s =
     (let (found, free_slot) = probe (locks s) p (hash_addr p) 0 (- 1) MAX_LOCKS;
          (found, s) =
            (if found < 0 \<and> free_slot \<ge> 0
             then (free_slot, s\<lparr>locks := (locks s)(nat free_slot := fresh_lockinfo p)\<rparr>)
             else (found, s))
      in if found \<ge> 0
         then (found, s\<lparr>locks := (locks s)(nat found := set_kind rwkind mkind p rw (locks s (nat found)))\<rparr>)
         else (found, snd (first_time (Str ''table full'') (At 0) s)))"

definition clear_edges :: "nat \<Rightarrow> (nat \<Rightarrow> nat \<Rightarrow> edge) \<Rightarrow> nat \<Rightarrow> nat \<Rightarrow> edge" where
  "clear_edges i es a b =
     (if (a = i \<and> b < MAX_LOCKS) \<or> (b = i \<and> a < MAX_LOCKS) then (es a b)\<lparr>mask := 0\<rparr> else es a b)"

fun forget_from :: "u64 \<Rightarrow> nat \<Rightarrow> nat \<Rightarrow> nat \<Rightarrow> lc \<Rightarrow> lc" where
  "forget_from p h n 0 s = s"
| "forget_from p h n (Suc k) s =
     (let i = (h + n) mod MAX_LOCKS in
      if addr (locks s i) = NULL then s
      else if addr (locks s i) \<noteq> p then forget_from p h (Suc n) k s
      else s\<lparr>locks := (locks s)(i := fresh_lockinfo TOMBSTONE), edges := clear_edges i (edges s)\<rparr>)"

definition lock_forget :: "u64 \<Rightarrow> lc \<Rightarrow> lc" where
  "lock_forget p s = forget_from p (hash_addr p) 0 MAX_LOCKS s"

section \<open>The probe sequence\<close>

text \<open>\<open>slot p n\<close>: the \<open>n\<close>-th slot tried for \<open>p\<close>.\<close>

definition slot :: "u64 \<Rightarrow> nat \<Rightarrow> nat" where
  "slot p n = (hash_addr p + n) mod MAX_LOCKS"

definition valid_addr :: "u64 \<Rightarrow> bool" where
  "valid_addr p \<longleftrightarrow> p \<noteq> NULL \<and> p \<noteq> TOMBSTONE"

lemma slot_less [simp]: "slot p n < MAX_LOCKS"
  by (simp add: slot_def MAX_LOCKS_def)

lemma slot_onto: "i < MAX_LOCKS \<Longrightarrow> \<exists>n<MAX_LOCKS. slot p n = i"
proof -
  assume i: "i < MAX_LOCKS"
  have h: "hash_addr p < MAX_LOCKS" by (simp add: hash_addr_def Let_def MAX_LOCKS_def)
  let ?n = "(i + (MAX_LOCKS - hash_addr p)) mod MAX_LOCKS"
  have "slot p ?n = (hash_addr p + (i + (MAX_LOCKS - hash_addr p))) mod MAX_LOCKS"
    by (simp add: slot_def mod_simps)
  also have "hash_addr p + (i + (MAX_LOCKS - hash_addr p)) = i + MAX_LOCKS" using h by simp
  finally have "slot p ?n = i" using i by simp
  then show ?thesis by (intro exI [of _ ?n]) (simp add: MAX_LOCKS_def)
qed

text \<open>
  The table invariant: every lock sits on its own probe sequence, no slot before it was never
  used, and no address is in the table twice.
\<close>

definition table_inv :: "(nat \<Rightarrow> lockinfo) \<Rightarrow> bool" where
  "table_inv ls \<longleftrightarrow>
     (\<forall>i<MAX_LOCKS. valid_addr (addr (ls i)) \<longrightarrow>
        (\<exists>n<MAX_LOCKS. slot (addr (ls i)) n = i \<and> (\<forall>m<n. addr (ls (slot (addr (ls i)) m)) \<noteq> NULL))) \<and>
     (\<forall>i<MAX_LOCKS. \<forall>j<MAX_LOCKS. addr (ls i) = addr (ls j) \<longrightarrow> valid_addr (addr (ls i)) \<longrightarrow> i = j)"

text \<open>What the table stands for: a partial map from addresses to indices.\<close>

definition index_of :: "(nat \<Rightarrow> lockinfo) \<Rightarrow> u64 \<Rightarrow> nat \<Rightarrow> bool" where
  "index_of ls p i \<longleftrightarrow> i < MAX_LOCKS \<and> addr (ls i) = p"

lemma probe_Suc:
  "probe ls p (hash_addr p) n fr (Suc k) =
     (if addr (ls (slot p n)) = p then (int (slot p n), fr)
      else if addr (ls (slot p n)) = NULL then (- 1, if fr < 0 then int (slot p n) else fr)
      else probe ls p (hash_addr p) (Suc n)
        (if addr (ls (slot p n)) = TOMBSTONE \<and> fr < 0 then int (slot p n) else fr) k)"
  by (simp add: slot_def Let_def NULL_def TOMBSTONE_def)

lemma all_from_Suc: "(\<forall>j. n \<le> j \<and> j < n + Suc k \<longrightarrow> P j) \<longleftrightarrow> P n \<and> (\<forall>j. Suc n \<le> j \<and> j < Suc n + k \<longrightarrow> P j)"
  by (metis Suc_leD Suc_le_eq add_Suc add_Suc_right le_add1 le_eq_less_or_eq less_add_Suc1)

lemma probe_found:
  "probe ls p (hash_addr p) n fr k = (found, fr') \<Longrightarrow> 0 \<le> found \<Longrightarrow> index_of ls p (nat found)"
  by (induction k arbitrary: n fr)
    (auto simp: probe_Suc index_of_def simp del: probe.simps(2) split: if_splits)

lemma probe_not_found:
  "probe ls p (hash_addr p) n fr k = (found, fr') \<Longrightarrow> found < 0 \<Longrightarrow>
   \<exists>m. n \<le> m \<and> m \<le> n + k \<and> (\<forall>j. n \<le> j \<and> j < m \<longrightarrow> addr (ls (slot p j)) \<noteq> p) \<and>
     (m < n + k \<longrightarrow> addr (ls (slot p m)) = NULL \<and> addr (ls (slot p m)) \<noteq> p)"
proof (induction k arbitrary: n fr)
  case 0
  then show ?case by auto
next
  case (Suc k)
  show ?case
  proof (cases "addr (ls (slot p n)) = NULL")
    case True
    then show ?thesis
      using Suc.prems by (intro exI [of _ n]) (auto simp: probe_Suc simp del: probe.simps(2) split: if_splits)
  next
    case False
    then obtain fr2 where "probe ls p (hash_addr p) (Suc n) fr2 k = (found, fr')" and np: "addr (ls (slot p n)) \<noteq> p"
      using Suc.prems by (auto simp: probe_Suc simp del: probe.simps(2) split: if_splits)
    from Suc.IH [OF this(1) Suc.prems(2)] obtain m where
      m: "Suc n \<le> m" "m \<le> Suc n + k" "\<forall>j. Suc n \<le> j \<and> j < m \<longrightarrow> addr (ls (slot p j)) \<noteq> p"
        "m < Suc n + k \<longrightarrow> addr (ls (slot p m)) = NULL \<and> addr (ls (slot p m)) \<noteq> p" by blast
    have "addr (ls (slot p j)) \<noteq> p" if "n \<le> j" "j < m" for j
      using m(3) np that by (cases "j = n") auto
    with m show ?thesis by (intro exI [of _ m]) auto
  qed
qed

lemma probe_free_kept:
  "probe ls p (hash_addr p) n fr k = (found, fr') \<Longrightarrow> 0 \<le> fr \<Longrightarrow> fr' = fr"
  by (induction k arbitrary: n) (auto simp: probe_Suc simp del: probe.simps(2) split: if_splits)

lemma probe_free:
  "probe ls p (hash_addr p) n fr k = (found, fr') \<Longrightarrow> found < 0 \<Longrightarrow> fr < 0 \<Longrightarrow> 0 \<le> fr' \<Longrightarrow>
   \<exists>j. n \<le> j \<and> j < n + k \<and> fr' = int (slot p j) \<and>
     (addr (ls (slot p j)) = TOMBSTONE \<or> addr (ls (slot p j)) = NULL) \<and>
     (\<forall>m. n \<le> m \<and> m < j \<longrightarrow> addr (ls (slot p m)) \<noteq> NULL)"
proof (induction k arbitrary: n)
  case 0
  then show ?case by simp
next
  case (Suc k)
  show ?case
  proof (cases "addr (ls (slot p n)) = NULL \<or> addr (ls (slot p n)) = TOMBSTONE")
    case True
    then have "fr' = int (slot p n)"
      using Suc.prems
      by (auto simp: probe_Suc simp del: probe.simps(2) split: if_splits dest: probe_free_kept)
    with True show ?thesis by (intro exI [of _ n]) auto
  next
    case False
    then have "probe ls p (hash_addr p) (Suc n) fr k = (found, fr')"
      using Suc.prems by (auto simp: probe_Suc simp del: probe.simps(2) split: if_splits)
    from Suc.IH [OF this Suc.prems(2-4)] obtain j where
      j: "Suc n \<le> j" "j < Suc n + k" "fr' = int (slot p j)"
        "addr (ls (slot p j)) = TOMBSTONE \<or> addr (ls (slot p j)) = NULL"
        "\<forall>m. Suc n \<le> m \<and> m < j \<longrightarrow> addr (ls (slot p m)) \<noteq> NULL" by blast
    have "addr (ls (slot p m)) \<noteq> NULL" if "n \<le> m" "m < j" for m
      using j(5) False that by (cases "m = n") auto
    with j show ?thesis by (intro exI [of _ j]) auto
  qed
qed

lemma probe_full:
  "probe ls p (hash_addr p) n fr k = (found, fr') \<Longrightarrow> found < 0 \<Longrightarrow> fr' < 0 \<Longrightarrow>
   fr < 0 \<and> (\<forall>j. n \<le> j \<and> j < n + k \<longrightarrow> addr (ls (slot p j)) \<notin> {NULL, TOMBSTONE, p})"
proof (induction k arbitrary: n fr)
  case 0
  then show ?case by auto
next
  case (Suc k)
  then have np: "addr (ls (slot p n)) \<noteq> p" "addr (ls (slot p n)) \<noteq> NULL"
    by (auto simp: probe_Suc simp del: probe.simps(2) split: if_splits)
  then have "probe ls p (hash_addr p) (Suc n)
      (if addr (ls (slot p n)) = TOMBSTONE \<and> fr < 0 then int (slot p n) else fr) k = (found, fr')"
    using Suc.prems(1) by (simp add: probe_Suc del: probe.simps(2))
  from Suc.IH [OF this Suc.prems(2,3)] np show ?case
    unfolding all_from_Suc by (auto split: if_splits)
qed

lemma index_of_unique:
  "table_inv ls \<Longrightarrow> valid_addr p \<Longrightarrow> index_of ls p i \<Longrightarrow> index_of ls p j \<Longrightarrow> i = j"
  by (auto simp: table_inv_def index_of_def)

text \<open>With the invariant, a lock that is in the table is found.\<close>

lemma probe_complete:
  assumes "table_inv ls" and "valid_addr p" and "index_of ls p i"
    and "probe ls p (hash_addr p) 0 (- 1) MAX_LOCKS = (found, fr)"
  shows "0 \<le> found"
proof (rule ccontr)
  assume "\<not> 0 \<le> found"
  then obtain m where m: "m \<le> MAX_LOCKS" "\<forall>j<m. addr (ls (slot p j)) \<noteq> p"
      "m < MAX_LOCKS \<longrightarrow> addr (ls (slot p m)) = NULL"
    using probe_not_found [OF assms(4)] by auto
  obtain n where n: "n < MAX_LOCKS" "slot p n = i" "\<forall>m<n. addr (ls (slot p m)) \<noteq> NULL"
    using assms(1,2,3) by (force simp: table_inv_def index_of_def)
  have "addr (ls (slot p n)) = p" using n(2) assms(3) by (simp add: index_of_def)
  then have "m \<le> n" using m(2) not_less by blast
  moreover have "m \<noteq> n" using m(3) n \<open>addr (ls (slot p n)) = p\<close> assms(2) by (auto simp: valid_addr_def)
  ultimately show False using m(3) n by auto
qed

section \<open>Insertion and deletion\<close>

lemma set_kind_addr [simp]: "addr (set_kind rwkind mkind p rw l) = addr l"
  by (simp add: set_kind_def)

lemma table_inv_cong: "(\<And>i. addr (ls' i) = addr (ls i)) \<Longrightarrow> table_inv ls' = table_inv ls"
  by (simp add: table_inv_def)

lemma index_of_cong: "(\<And>i. addr (ls' i) = addr (ls i)) \<Longrightarrow> index_of ls' = index_of ls"
  by (auto simp: index_of_def fun_eq_iff)

lemma table_inv_path:
  assumes "table_inv ls" and "i < MAX_LOCKS" and "valid_addr (addr (ls i))"
  obtains n where "n < MAX_LOCKS" and "slot (addr (ls i)) n = i"
    and "\<And>m. m < n \<Longrightarrow> addr (ls (slot (addr (ls i)) m)) \<noteq> NULL"
  using assms by (auto simp: table_inv_def)

lemma table_inv_insert:
  assumes inv: "table_inv ls" and p: "valid_addr p" and new: "\<And>i. \<not> index_of ls p i"
    and j: "j < MAX_LOCKS" "\<And>m. m < j \<Longrightarrow> addr (ls (slot p m)) \<noteq> NULL"
    and l: "addr l = p"
  shows "table_inv (ls(slot p j := l))" (is "table_inv ?ls")
  unfolding table_inv_def
proof (intro conjI allI impI)
  have pn: "p \<noteq> NULL" using p by (simp add: valid_addr_def)
  have keep: "addr (?ls k) \<noteq> NULL" if "addr (ls k) \<noteq> NULL" for k
    using that pn l by simp
  fix i assume i: "i < MAX_LOCKS" and v: "valid_addr (addr (?ls i))"
  show "\<exists>n<MAX_LOCKS. slot (addr (?ls i)) n = i \<and> (\<forall>m<n. addr (?ls (slot (addr (?ls i)) m)) \<noteq> NULL)"
  proof (cases "i = slot p j")
    case True
    then show ?thesis using j keep l by (intro exI [of _ j]) auto
  next
    case False
    then have a: "addr (?ls i) = addr (ls i)" by simp
    obtain n where "n < MAX_LOCKS" "slot (addr (ls i)) n = i" "\<And>m. m < n \<Longrightarrow> addr (ls (slot (addr (ls i)) m)) \<noteq> NULL"
      using table_inv_path [OF inv i] v a by metis
    with a keep show ?thesis by (intro exI [of _ n]) metis
  qed
next
  fix i k assume "i < MAX_LOCKS" "k < MAX_LOCKS" "addr (?ls i) = addr (?ls k)" "valid_addr (addr (?ls i))"
  then show "i = k"
    using inv new l by (auto simp: table_inv_def index_of_def split: if_splits)
qed

lemma table_inv_delete:
  assumes inv: "table_inv ls" and l: "addr l = TOMBSTONE"
  shows "table_inv (ls(i := l))" (is "table_inv ?ls")
  unfolding table_inv_def
proof (intro conjI allI impI)
  have keep: "addr (?ls k) \<noteq> NULL" if "addr (ls k) \<noteq> NULL" for k
    using that l by (simp add: NULL_def TOMBSTONE_def)
  fix k assume k: "k < MAX_LOCKS" and v: "valid_addr (addr (?ls k))"
  then have a: "addr (?ls k) = addr (ls k)" using l by (auto simp: valid_addr_def)
  obtain n where "n < MAX_LOCKS" "slot (addr (ls k)) n = k" "\<And>m. m < n \<Longrightarrow> addr (ls (slot (addr (ls k)) m)) \<noteq> NULL"
    using table_inv_path [OF inv k] v a by metis
  with a keep show "\<exists>n<MAX_LOCKS. slot (addr (?ls k)) n = k \<and> (\<forall>m<n. addr (?ls (slot (addr (?ls k)) m)) \<noteq> NULL)"
    by (intro exI [of _ n]) metis
next
  fix k m assume "k < MAX_LOCKS" "m < MAX_LOCKS" "addr (?ls k) = addr (?ls m)" "valid_addr (addr (?ls k))"
  then show "k = m"
    using inv l by (auto simp: table_inv_def valid_addr_def split: if_splits)
qed

lemma first_time_locks [simp]:
  "locks (snd (first_time a b s)) = locks s" "edges (snd (first_time a b s)) = edges s"
  "n_warn (snd (first_time a b s)) = n_warn s" "held_locks (snd (first_time a b s)) = held_locks s"
  by (simp_all add: first_time_def Let_def)

text \<open>The slot \<^verbatim>\<open>lock_index\<close> takes for a new lock.\<close>

lemma probe_new:
  assumes inv: "table_inv ls" and p: "valid_addr p"
    and pr: "probe ls p (hash_addr p) 0 (- 1) MAX_LOCKS = (found, fr)" and "found < 0" and "0 \<le> fr"
  shows "table_inv (ls(nat fr := fresh_lockinfo p))" and "\<not> valid_addr (addr (ls (nat fr)))"
    and "nat fr < MAX_LOCKS" and "\<not> index_of ls p i"
proof -
  show new: "\<not> index_of ls p i" for i
    using probe_complete [OF inv p _ pr] assms(4) by auto
  obtain j where j: "j < MAX_LOCKS" "fr = int (slot p j)" "\<And>m. m < j \<Longrightarrow> addr (ls (slot p m)) \<noteq> NULL"
      "addr (ls (slot p j)) = TOMBSTONE \<or> addr (ls (slot p j)) = NULL"
    using probe_free [OF pr assms(4) _ assms(5)] by auto
  show "table_inv (ls(nat fr := fresh_lockinfo p))"
    using table_inv_insert [OF inv p new j(1,3)] j(2) by (simp add: fresh_lockinfo_def)
  show "\<not> valid_addr (addr (ls (nat fr)))" using j(2,4) by (auto simp: valid_addr_def)
  show "nat fr < MAX_LOCKS" using j(2) by simp
qed

lemma lock_index_cases:
  assumes inv: "table_inv (locks s)" and p: "valid_addr p"
    and li: "lock_index rwkind mkind p rw s = (i, s')"
  obtains (found) k where "i = int k" "index_of (locks s) p k"
      "s' = s\<lparr>locks := (locks s)(k := set_kind rwkind mkind p rw (locks s k))\<rparr>"
  | (new) k where "i = int k" "k < MAX_LOCKS" "\<And>j. \<not> index_of (locks s) p j" "\<not> valid_addr (addr (locks s k))"
      "table_inv ((locks s)(k := fresh_lockinfo p))"
      "s' = s\<lparr>locks := (locks s)(k := set_kind rwkind mkind p rw (fresh_lockinfo p))\<rparr>"
  | (full) "i < 0" "\<And>j. j < MAX_LOCKS \<Longrightarrow> valid_addr (addr (locks s j)) \<and> addr (locks s j) \<noteq> p"
      "s' = snd (first_time (Str ''table full'') (At 0) s)"
proof -
  obtain f fr where pr: "probe (locks s) p (hash_addr p) 0 (- 1) MAX_LOCKS = (f, fr)" by force
  show thesis
  proof (cases "0 \<le> f")
    case True
    then show thesis
      by (intro that(1) [of "nat f"]) (use probe_found [OF pr] li pr in \<open>auto simp: lock_index_def\<close>)
  next
    case f: False
    show thesis
    proof (cases "0 \<le> fr")
      case True
      note nw = probe_new [OF inv p pr _ True]
      show thesis
        by (rule that(2) [of "nat fr"]) (use nw f True li pr in \<open>auto simp: lock_index_def\<close>)
    next
      case False
      have all: "\<forall>j. j < MAX_LOCKS \<longrightarrow> addr (locks s (slot p j)) \<notin> {NULL, TOMBSTONE, p}"
        using probe_full [OF pr] f False by auto
      have "valid_addr (addr (locks s j)) \<and> addr (locks s j) \<noteq> p" if "j < MAX_LOCKS" for j
        using slot_onto [OF that, of p] all by (auto simp: valid_addr_def)
      then show thesis using that(3) f False li pr by (simp add: lock_index_def)
    qed
  qed
qed

lemma lock_index_inv:
  assumes inv: "table_inv (locks s)" and p: "valid_addr p"
    and li: "lock_index rwkind mkind p rw s = (i, s')"
  shows "table_inv (locks s')" and "0 \<le> i \<Longrightarrow> index_of (locks s') p (nat i)"
    and "valid_addr q \<Longrightarrow> q \<noteq> p \<Longrightarrow> index_of (locks s') q j = index_of (locks s) q j"
    and "index_of (locks s) p j \<Longrightarrow> i = int j"
    and "i < 0 \<longleftrightarrow> (\<forall>j<MAX_LOCKS. valid_addr (addr (locks s j)) \<and> addr (locks s j) \<noteq> p)"
proof -
  have "table_inv (locks s') \<and> (0 \<le> i \<longrightarrow> index_of (locks s') p (nat i)) \<and>
    (\<forall>q j. valid_addr q \<and> q \<noteq> p \<longrightarrow> index_of (locks s') q j = index_of (locks s) q j) \<and>
    (\<forall>j. index_of (locks s) p j \<longrightarrow> i = int j) \<and>
    (i < 0 \<longleftrightarrow> (\<forall>j<MAX_LOCKS. valid_addr (addr (locks s j)) \<and> addr (locks s j) \<noteq> p))"
    using inv p li
  proof (cases rule: lock_index_cases)
    case (found k)
    have a: "addr (locks s' j) = addr (locks s j)" for j using found by simp
    have "table_inv (locks s')" using inv table_inv_cong [OF a] by simp
    moreover have "index_of (locks s') = index_of (locks s)" by (rule index_of_cong [OF a])
    ultimately show ?thesis
      using found index_of_unique [OF inv p] by (auto simp: index_of_def)
  next
    case (new k)
    have a: "addr (locks s' j) = addr (((locks s)(k := fresh_lockinfo p)) j)" for j using new(6) by simp
    have "table_inv (locks s')" using new(5) table_inv_cong [of "locks s'" "(locks s)(k := fresh_lockinfo p)", OF a] by blast
    moreover have "index_of (locks s') q j = index_of (locks s) q j" if "valid_addr q" "q \<noteq> p" for q j
      using new(4) that by (auto simp: index_of_def a fresh_lockinfo_def)
    moreover have "index_of (locks s') p k" using new(2) by (auto simp: index_of_def a fresh_lockinfo_def)
    ultimately show ?thesis using new(1,2,3,4) by auto
  next
    case full
    then show ?thesis using inv by (auto simp: index_of_def)
  qed
  then show "table_inv (locks s')" and "0 \<le> i \<Longrightarrow> index_of (locks s') p (nat i)"
    and "valid_addr q \<Longrightarrow> q \<noteq> p \<Longrightarrow> index_of (locks s') q j = index_of (locks s) q j"
    and "index_of (locks s) p j \<Longrightarrow> i = int j"
    and "i < 0 \<longleftrightarrow> (\<forall>j<MAX_LOCKS. valid_addr (addr (locks s j)) \<and> addr (locks s j) \<noteq> p)"
    by blast+
qed

lemma forget_from_spec:
  assumes "table_inv (locks s)" and "valid_addr p"
    and "n + k = MAX_LOCKS" and "\<forall>m<n. addr (locks s (slot p m)) \<noteq> p"
  shows "(\<exists>i. index_of (locks s) p i \<and> forget_from p (hash_addr p) n k s =
      s\<lparr>locks := (locks s)(i := fresh_lockinfo TOMBSTONE), edges := clear_edges i (edges s)\<rparr>) \<or>
    ((\<forall>i. \<not> index_of (locks s) p i) \<and> forget_from p (hash_addr p) n k s = s)"
  using assms(3,4)
proof (induction k arbitrary: n)
  case 0
  have "\<not> index_of (locks s) p i" for i
  proof
    assume i: "index_of (locks s) p i"
    then obtain m where m: "m < MAX_LOCKS" "slot p m = i" using slot_onto by (auto simp: index_of_def)
    then have "addr (locks s (slot p m)) \<noteq> p" using 0 by auto
    with i m show False by (simp add: index_of_def)
  qed
  then show ?case by simp
next
  case (Suc k)
  let ?i = "slot p n"
  consider (null) "addr (locks s ?i) = NULL" | (other) "addr (locks s ?i) \<noteq> NULL" "addr (locks s ?i) \<noteq> p"
    | (here) "addr (locks s ?i) = p" "p \<noteq> NULL" by blast
  then show ?case
  proof cases
    case null
    have "\<not> index_of (locks s) p i" for i
    proof
      assume i: "index_of (locks s) p i"
      then obtain j where j: "slot p j = i" "\<And>m. m < j \<Longrightarrow> addr (locks s (slot p m)) \<noteq> NULL"
        using table_inv_path [OF assms(1), of i] assms(2) by (auto simp: index_of_def)
      then have "\<not> j < n" using Suc.prems(2) i by (auto simp: index_of_def)
      then show False using j null i assms(2)
        by (cases "j = n") (auto simp: index_of_def valid_addr_def)
    qed
    then show ?thesis using null by (simp add: slot_def Let_def)
  next
    case other
    have "\<forall>m<Suc n. addr (locks s (slot p m)) \<noteq> p"
      using other(2) Suc.prems(2) by (auto simp: less_Suc_eq)
    with Suc.IH [of "Suc n"] Suc.prems(1) show ?thesis
      using other by (simp add: slot_def Let_def)
  next
    case here
    then have "index_of (locks s) p ?i" by (simp add: index_of_def)
    with here show ?thesis by (intro disjI1 exI [of _ ?i]) (simp add: slot_def Let_def fun_upd_def)
  qed
qed

lemma lock_forget_cases:
  assumes "table_inv (locks s)" and "valid_addr p"
  obtains (gone) i where "index_of (locks s) p i"
      "lock_forget p s = s\<lparr>locks := (locks s)(i := fresh_lockinfo TOMBSTONE), edges := clear_edges i (edges s)\<rparr>"
  | (absent) "\<And>i. \<not> index_of (locks s) p i" "lock_forget p s = s"
  using forget_from_spec [OF assms, of 0 MAX_LOCKS] by (auto simp: lock_forget_def)

lemma lock_forget_inv:
  assumes inv: "table_inv (locks s)" and p: "valid_addr p"
  shows "table_inv (locks (lock_forget p s))" and "\<not> index_of (locks (lock_forget p s)) p i"
    and "valid_addr q \<Longrightarrow> q \<noteq> p \<Longrightarrow> index_of (locks (lock_forget p s)) q j = index_of (locks s) q j"
proof -
  have "table_inv (locks (lock_forget p s)) \<and> (\<forall>i. \<not> index_of (locks (lock_forget p s)) p i) \<and>
    (\<forall>q j. valid_addr q \<and> q \<noteq> p \<longrightarrow> index_of (locks (lock_forget p s)) q j = index_of (locks s) q j)"
    using inv p
  proof (cases rule: lock_forget_cases)
    case (gone i)
    have t: "addr (fresh_lockinfo TOMBSTONE) = TOMBSTONE" by (simp add: fresh_lockinfo_def)
    have "\<not> index_of (locks (lock_forget p s)) p j" for j
      using index_of_unique [OF inv p gone(1), of j] p unfolding gone(2)
      by (cases "j = i") (auto simp: index_of_def t valid_addr_def)
    moreover have "index_of (locks (lock_forget p s)) q j = index_of (locks s) q j"
      if "valid_addr q" "q \<noteq> p" for q j
      using gone(1) that unfolding gone(2)
      by (cases "j = i") (auto simp: index_of_def t valid_addr_def)
    ultimately show ?thesis using table_inv_delete [OF inv t] unfolding gone(2) by simp
  next
    case absent
    then show ?thesis using inv by simp
  qed
  then show "table_inv (locks (lock_forget p s))" and "\<not> index_of (locks (lock_forget p s)) p i"
    and "valid_addr q \<Longrightarrow> q \<noteq> p \<Longrightarrow> index_of (locks (lock_forget p s)) q j = index_of (locks s) q j"
    by blast+
qed

end
