(* ===== verification/LockGraph.thy ===== *)
theory LockGraph
  imports LockTable
begin

text \<open>
  The search for a cycle of waits in lockcheck's lock order graph, \<^verbatim>\<open>waits\<close> and \<^verbatim>\<open>find_path\<close> of
  \<^verbatim>\<open>Week6/Assignment6/concurrency/tools/lockcheck.c\<close>: a breadth-first search over states (lock,
  mode in which the previous thread wants it), with a queue of fixed size and parent links.
\<close>

definition RD :: nat where [simp]: "RD = 0"
definition WR :: nat where [simp]: "WR = 1"

definition waits :: "(nat \<Rightarrow> lockinfo) \<Rightarrow> nat \<Rightarrow> nat \<Rightarrow> nat \<Rightarrow> bool" where
  "waits ls idx want hold \<longleftrightarrow> want = WR \<or> hold = WR \<or> \<not> read_shares (ls idx)"

text \<open>The static arrays of \<^verbatim>\<open>find_path\<close>, indexed by the state number \<^verbatim>\<open>lock * 2 + want\<close>.\<close>

record search =
  visited :: "nat \<Rightarrow> bool"
  parent :: "nat \<Rightarrow> int"
  via :: "nat \<Rightarrow> nat"
  queue :: "nat list"

text \<open>The body of the two inner loops, for lock \<open>y\<close> and combination \<open>c\<close>.\<close>

definition try_edge ::
  "(nat \<Rightarrow> lockinfo) \<Rightarrow> (nat \<Rightarrow> nat \<Rightarrow> edge) \<Rightarrow> nat \<Rightarrow> nat \<times> nat \<Rightarrow> search \<Rightarrow> search" where
  "try_edge ls es st yc s =
     (let (y, c) = yc; x = st div 2; want = st mod 2; h = c div 2; t = c mod 2 in
      if \<not> bit (mask (es x y)) c \<or> \<not> waits ls x want h \<or> visited s (y * 2 + t) then s
      else s\<lparr>visited := (visited s)(y * 2 + t := True), parent := (parent s)(y * 2 + t := int st),
             via := (via s)(y * 2 + t := c), queue := queue s @ [y * 2 + t]\<rparr>)"

definition expand :: "(nat \<Rightarrow> lockinfo) \<Rightarrow> (nat \<Rightarrow> nat \<Rightarrow> edge) \<Rightarrow> nat \<Rightarrow> search \<Rightarrow> search" where
  "expand ls es st s = fold (try_edge ls es st) (List.product [0..<MAX_LOCKS] [0..<4]) s"

text \<open>The outer loop: \<open>None\<close> when the fuel runs out, otherwise the state found, if any.\<close>

fun bfs ::
  "(nat \<Rightarrow> lockinfo) \<Rightarrow> (nat \<Rightarrow> nat \<Rightarrow> edge) \<Rightarrow> nat \<Rightarrow> nat \<Rightarrow> nat \<Rightarrow> nat \<Rightarrow> search \<Rightarrow>
   (search \<times> nat option) option" where
  "bfs ls es target hold 0 head s = None"
| "bfs ls es target hold (Suc n) head s =
     (if head < length (queue s) then
        let st = queue s ! head in
        if st div 2 = target then
          (if waits ls (st div 2) (st mod 2) hold then Some (s, Some st)
           else bfs ls es target hold n (Suc head) s)
        else bfs ls es target hold n (Suc head) (expand ls es st s)
      else Some (s, None))"

text \<open>The walk back along the parents, from the target.\<close>

fun walk_back :: "search \<Rightarrow> nat \<Rightarrow> int \<Rightarrow> (nat \<times> nat) list option" where
  "walk_back s 0 st = (if st < 0 then Some [] else None)"
| "walk_back s (Suc n) st =
     (if st < 0 then Some []
      else map_option ((#) (nat st div 2, via s (nat st))) (walk_back s n (parent s (nat st))))"

definition search_start :: "nat \<Rightarrow> search" where
  "search_start st = \<lparr>visited = (\<lambda>_. False)(st := True), parent = (\<lambda>_. 0)(st := - 1), via = (\<lambda>_. 0),
     queue = [st]\<rparr>"

text \<open>
  \<^verbatim>\<open>find_path\<close>: \<open>Some None\<close> when there is no path, \<open>Some (Some (path, combo))\<close> when there is one;
  \<open>None\<close> would be a loop that does not end or an array that overflows.
\<close>

definition find_path ::
  "(nat \<Rightarrow> lockinfo) \<Rightarrow> (nat \<Rightarrow> nat \<Rightarrow> edge) \<Rightarrow> nat \<Rightarrow> nat \<Rightarrow> nat \<Rightarrow> nat \<Rightarrow>
   (nat list \<times> nat list) option option" where
  "find_path ls es from from_want target target_hold =
     (case bfs ls es target target_hold (2 * MAX_LOCKS + 1) 0 (search_start (from * 2 + from_want)) of
        None \<Rightarrow> None
      | Some (s, None) \<Rightarrow> Some None
      | Some (s, Some st) \<Rightarrow>
          (case walk_back s (2 * MAX_LOCKS) (int st) of
             None \<Rightarrow> None
           | Some r \<Rightarrow> Some (Some (rev (map fst r), tl (rev (map snd r))))))"

section \<open>What the search looks for\<close>

text \<open>
  \<open>wedge\<close>: the thread that wants the lock of state \<open>st\<close> waits there for a thread that holds it
  and wants the lock of \<open>st'\<close>, by the combination \<open>c\<close> of modes, and \<open>st\<close> is not the target.
\<close>

definition wedge ::
  "(nat \<Rightarrow> lockinfo) \<Rightarrow> (nat \<Rightarrow> nat \<Rightarrow> edge) \<Rightarrow> nat \<Rightarrow> nat \<Rightarrow> nat \<Rightarrow> nat \<Rightarrow> bool" where
  "wedge ls es target st c st' \<longleftrightarrow> st div 2 \<noteq> target \<and> c < 4 \<and> st' div 2 < MAX_LOCKS \<and>
     st' mod 2 = c mod 2 \<and> bit (mask (es (st div 2) (st' div 2))) c \<and>
     waits ls (st div 2) (st mod 2) (c div 2)"

inductive wpath ::
  "(nat \<Rightarrow> lockinfo) \<Rightarrow> (nat \<Rightarrow> nat \<Rightarrow> edge) \<Rightarrow> nat \<Rightarrow> nat \<Rightarrow> (nat \<times> nat) list \<Rightarrow> nat \<Rightarrow> bool"
  for ls :: "nat \<Rightarrow> lockinfo" and es :: "nat \<Rightarrow> nat \<Rightarrow> edge" and target :: nat and st0 :: nat where
  wpath_start: "wpath ls es target st0 [] st0"
| wpath_step: "wpath ls es target st0 steps st \<Longrightarrow> wedge ls es target st c st' \<Longrightarrow>
     wpath ls es target st0 (steps @ [(c, st')]) st'"

section \<open>The invariant of the search\<close>

definition search_inv ::
  "(nat \<Rightarrow> lockinfo) \<Rightarrow> (nat \<Rightarrow> nat \<Rightarrow> edge) \<Rightarrow> nat \<Rightarrow> nat \<Rightarrow> nat \<Rightarrow> search \<Rightarrow> bool" where
  "search_inv ls es target st0 head s \<longleftrightarrow>
     queue s \<noteq> [] \<and> queue s ! 0 = st0 \<and> distinct (queue s) \<and> set (queue s) = {st. visited s st} \<and>
     (\<forall>st\<in>set (queue s). st < 2 * MAX_LOCKS) \<and> parent s st0 = - 1 \<and>
     (\<forall>k<length (queue s). 0 < k \<longrightarrow> (\<exists>j<k. j < head \<and> parent s (queue s ! k) = int (queue s ! j) \<and>
        wedge ls es target (queue s ! j) (via s (queue s ! k)) (queue s ! k)))"

lemma search_inv_start:
  "st < 2 * MAX_LOCKS \<Longrightarrow> search_inv ls es target st 0 (search_start st)"
  by (auto simp: search_inv_def search_start_def)

lemma search_inv_mono:
  "search_inv ls es target st0 head s \<Longrightarrow> head \<le> head' \<Longrightarrow> search_inv ls es target st0 head' s"
  unfolding search_inv_def by (metis order_less_le_trans)

lemma try_edge_inv:
  assumes inv: "search_inv ls es target st0 head s"
    and j: "j < length (queue s)" "j < head" "queue s ! j div 2 \<noteq> target"
    and yc: "y < MAX_LOCKS" "c < 4"
  defines "s' \<equiv> try_edge ls es (queue s ! j) (y, c) s"
  shows "search_inv ls es target st0 head s'" and "\<exists>zs. queue s' = queue s @ zs"
    and "wedge ls es target (queue s ! j) c (y * 2 + c mod 2) \<Longrightarrow> visited s' (y * 2 + c mod 2)"
    and "visited s st \<Longrightarrow> visited s' st"
proof -
  let ?st = "queue s ! j" and ?n = "y * 2 + c mod 2"
  have "search_inv ls es target st0 head s' \<and> (\<exists>zs. queue s' = queue s @ zs) \<and>
    (wedge ls es target ?st c ?n \<longrightarrow> visited s' ?n) \<and> (\<forall>st. visited s st \<longrightarrow> visited s' st)"
  proof (cases "\<not> bit (mask (es (?st div 2) y)) c \<or> \<not> waits ls (?st div 2) (?st mod 2) (c div 2) \<or> visited s ?n")
    case True
    then have "s' = s" by (simp add: s'_def try_edge_def Let_def)
    then show ?thesis using True inv by (auto simp: wedge_def)
  next
    case False
    then have s': "s' = s\<lparr>visited := (visited s)(?n := True), parent := (parent s)(?n := int ?st),
             via := (via s)(?n := c), queue := queue s @ [?n]\<rparr>"
      by (simp add: s'_def try_edge_def Let_def)
    have q: "set (queue s) = {st. visited s st}" and st0: "queue s ! 0 = st0" "queue s \<noteq> []"
      using inv by (auto simp: search_inv_def)
    have new: "?n \<notin> set (queue s)" using False q by auto
    have w: "wedge ls es target ?st c ?n"
      using False j(3) yc by (auto simp: wedge_def)
    have ne: "?n \<noteq> st0" using new st0 by (metis length_greater_0_conv nth_mem)
    have par: "\<exists>i<k. i < head \<and> parent s' (queue s' ! k) = int (queue s' ! i) \<and>
        wedge ls es target (queue s' ! i) (via s' (queue s' ! k)) (queue s' ! k)"
      if k: "k < length (queue s')" "0 < k" for k
    proof (cases "k = length (queue s)")
      case True
      then show ?thesis using j w by (intro exI [of _ j]) (auto simp: s' nth_append)
    next
      case False
      then have k': "k < length (queue s)" using k by (simp add: s')
      then have nk: "queue s ! k \<noteq> ?n" using new nth_mem by metis
      obtain i where "i < k" "i < head" "parent s (queue s ! k) = int (queue s ! i)"
          "wedge ls es target (queue s ! i) (via s (queue s ! k)) (queue s ! k)"
        using inv k' k(2) unfolding search_inv_def by blast
      then show ?thesis using k' nk by (intro exI [of _ i]) (auto simp: s' nth_append)
    qed
    have "?n < 2 * MAX_LOCKS" using yc by (simp add: MAX_LOCKS_def)
    then have "search_inv ls es target st0 head s'"
      unfolding search_inv_def
    proof (intro conjI)
      show "\<forall>k<length (queue s'). 0 < k \<longrightarrow> (\<exists>i<k. i < head \<and> parent s' (queue s' ! k) = int (queue s' ! i) \<and>
        wedge ls es target (queue s' ! i) (via s' (queue s' ! k)) (queue s' ! k))" using par by blast
    qed (use inv new ne st0 in \<open>auto simp: search_inv_def s' nth_append\<close>)
    then show ?thesis by (auto simp: s')
  qed
  then show "search_inv ls es target st0 head s'" and "\<exists>zs. queue s' = queue s @ zs"
    and "wedge ls es target ?st c ?n \<Longrightarrow> visited s' ?n" and "visited s st \<Longrightarrow> visited s' st"
    by blast+
qed

lemma fold_try_inv:
  assumes "search_inv ls es target st0 head s" and "j < length (queue s)" "j < head"
    and "queue s ! j div 2 \<noteq> target" and "\<forall>(y, c)\<in>set ycs. y < MAX_LOCKS \<and> c < 4"
  defines "s' \<equiv> fold (try_edge ls es (queue s ! j)) ycs s"
  shows "search_inv ls es target st0 head s' \<and> (\<exists>zs. queue s' = queue s @ zs) \<and>
    (\<forall>(y, c)\<in>set ycs. wedge ls es target (queue s ! j) c (y * 2 + c mod 2) \<longrightarrow> visited s' (y * 2 + c mod 2)) \<and>
    (\<forall>st. visited s st \<longrightarrow> visited s' st)"
  using assms(1-5) unfolding s'_def
proof (induction ycs arbitrary: s)
  case Nil
  then show ?case by simp
next
  case (Cons yc ycs)
  obtain y c where yc: "yc = (y, c)" by force
  let ?s = "try_edge ls es (queue s ! j) (y, c) s"
  have b: "y < MAX_LOCKS" "c < 4" using Cons.prems(5) yc by auto
  note t = try_edge_inv [OF Cons.prems(1-4) b]
  obtain zs where zs: "queue ?s = queue s @ zs" using t(2) by blast
  have j: "queue ?s ! j = queue s ! j" "j < length (queue ?s)"
    using zs Cons.prems(2) by (simp_all add: nth_append)
  have IH: "search_inv ls es target st0 head (fold (try_edge ls es (queue ?s ! j)) ycs ?s) \<and>
    (\<exists>zs. queue (fold (try_edge ls es (queue ?s ! j)) ycs ?s) = queue ?s @ zs) \<and>
    (\<forall>(y, c)\<in>set ycs. wedge ls es target (queue ?s ! j) c (y * 2 + c mod 2) \<longrightarrow>
       visited (fold (try_edge ls es (queue ?s ! j)) ycs ?s) (y * 2 + c mod 2)) \<and>
    (\<forall>st. visited ?s st \<longrightarrow> visited (fold (try_edge ls es (queue ?s ! j)) ycs ?s) st)"
    by (rule Cons.IH) (use t(1) j Cons.prems in auto)
  then show ?case using t(3,4) zs unfolding j(1) by (auto simp: yc)
qed

text \<open>After the expansion of a state, all its successors have been visited.\<close>

definition expanded ::
  "(nat \<Rightarrow> lockinfo) \<Rightarrow> (nat \<Rightarrow> nat \<Rightarrow> edge) \<Rightarrow> nat \<Rightarrow> search \<Rightarrow> nat \<Rightarrow> bool" where
  "expanded ls es target s st \<longleftrightarrow> (\<forall>c st'. wedge ls es target st c st' \<longrightarrow> visited s st')"

lemma expand_inv:
  assumes "search_inv ls es target st0 head s" and "j < length (queue s)" "j < head"
    and "queue s ! j div 2 \<noteq> target"
  defines "s' \<equiv> expand ls es (queue s ! j) s"
  shows "search_inv ls es target st0 head s'" and "\<exists>zs. queue s' = queue s @ zs"
    and "expanded ls es target s' (queue s ! j)" and "expanded ls es target s st \<Longrightarrow> expanded ls es target s' st"
proof -
  have all: "\<forall>(y, c)\<in>set (List.product [0..<MAX_LOCKS] [0..<4]). y < MAX_LOCKS \<and> c < 4" by auto
  note f = fold_try_inv [OF assms(1-4) all, folded expand_def s'_def]
  show "search_inv ls es target st0 head s'" and "\<exists>zs. queue s' = queue s @ zs" using f by blast+
  show "expanded ls es target s st \<Longrightarrow> expanded ls es target s' st" using f by (auto simp: expanded_def)
  show "expanded ls es target s' (queue s ! j)"
    unfolding expanded_def
  proof (intro allI impI)
    fix c st' assume w: "wedge ls es target (queue s ! j) c st'"
    then have "(st' div 2, c) \<in> set (List.product [0..<MAX_LOCKS] [0..<4])"
      and "st' = st' div 2 * 2 + c mod 2"
      using div_mult_mod_eq [of st' 2] by (auto simp: wedge_def)
    with f w show "visited s' st'" by (metis (no_types, lifting) case_prodD)
  qed
qed

definition settled ::
  "(nat \<Rightarrow> lockinfo) \<Rightarrow> (nat \<Rightarrow> nat \<Rightarrow> edge) \<Rightarrow> nat \<Rightarrow> nat \<Rightarrow> search \<Rightarrow> nat \<Rightarrow> bool" where
  "settled ls es target hold s st \<longleftrightarrow>
     (if st div 2 = target then \<not> waits ls target (st mod 2) hold else expanded ls es target s st)"

lemma queue_bound: "search_inv ls es target st0 head s \<Longrightarrow> length (queue s) \<le> 2 * MAX_LOCKS"
proof -
  assume inv: "search_inv ls es target st0 head s"
  then have "set (queue s) \<subseteq> {..<2 * MAX_LOCKS}" and d: "distinct (queue s)"
    by (auto simp: search_inv_def)
  then have "card (set (queue s)) \<le> card {..<2 * MAX_LOCKS}" by (intro card_mono) auto
  then show ?thesis using d by (simp add: distinct_card)
qed

lemma bfs_result:
  assumes "search_inv ls es target st0 head s" and "head \<le> length (queue s)"
    and "\<forall>j<head. settled ls es target hold s (queue s ! j)" and "2 * MAX_LOCKS < n + head"
  shows "\<exists>s' r h. bfs ls es target hold n head s = Some (s', r) \<and> search_inv ls es target st0 h s' \<and>
    (case r of None \<Rightarrow> \<forall>st\<in>set (queue s'). settled ls es target hold s' st
     | Some st \<Rightarrow> (\<exists>k<length (queue s'). queue s' ! k = st) \<and> st div 2 = target \<and>
         waits ls target (st mod 2) hold)"
  using assms
proof (induction n arbitrary: head s)
  case 0
  then show ?case using queue_bound [OF 0(1)] by simp
next
  case (Suc n)
  show ?case
  proof (cases "head < length (queue s)")
    case False
    then have "\<forall>st\<in>set (queue s). settled ls es target hold s st"
      using Suc.prems(2,3) by (metis in_set_conv_nth le_antisym not_less)
    with False Suc.prems(1) show ?thesis by auto
  next
    case True
    let ?st = "queue s ! head"
    show ?thesis
    proof (cases "?st div 2 = target")
      case tgt: True
      show ?thesis
      proof (cases "waits ls target (?st mod 2) hold")
        case w: True
        then show ?thesis using True tgt Suc.prems(1) by auto
      next
        case False
        then have "\<forall>j<Suc head. settled ls es target hold s (queue s ! j)"
          using Suc.prems(3) tgt by (auto simp: less_Suc_eq settled_def)
        with Suc.IH [OF search_inv_mono [OF Suc.prems(1)], of "Suc head"] True Suc.prems(4) False tgt
        show ?thesis by simp
      qed
    next
      case False
      let ?s = "expand ls es ?st s"
      note e = expand_inv [OF search_inv_mono [OF Suc.prems(1), of "Suc head"] True _ False]
      obtain zs where zs: "queue ?s = queue s @ zs" using e(2) by auto
      have "settled ls es target hold ?s (queue ?s ! j)" if "j < Suc head" for j
      proof (cases "j = head")
        case True
        then show ?thesis
          using e(3) False \<open>head < length (queue s)\<close> zs by (simp add: settled_def nth_append)
      next
        case False
        then have "settled ls es target hold s (queue s ! j)" "queue ?s ! j = queue s ! j"
          using that Suc.prems(3) True zs by (simp_all add: nth_append)
        then show ?thesis using e(4) by (auto simp: settled_def split: if_splits)
      qed
      with Suc.IH [of "Suc head" ?s] e(1) True zs Suc.prems(4) False show ?thesis by simp
    qed
  qed
qed

section \<open>The path found\<close>

lemma walk_back_path:
  assumes inv: "search_inv ls es target st0 h s" and "k < length (queue s)"
  shows "\<exists>steps. wpath ls es target st0 steps (queue s ! k) \<and> length steps \<le> k \<and>
    (\<forall>n\<ge>Suc (length steps). walk_back s n (int (queue s ! k)) =
       Some (rev ((st0 div 2, via s st0) # map (\<lambda>(c, st). (st div 2, via s st)) steps))) \<and>
    (\<forall>(c, st)\<in>set steps. via s st = c)"
  using assms(2)
proof (induction k rule: less_induct)
  case (less k)
  show ?case
  proof (cases "k = 0")
    case True
    have st0: "queue s ! 0 = st0" "parent s st0 = - 1" using inv by (auto simp: search_inv_def)
    have "walk_back s n (int st0) = Some [(st0 div 2, via s st0)]" if n: "Suc 0 \<le> n" for n
    proof -
      obtain n' where "n = Suc n'" using n by (cases n) auto
      then show ?thesis using st0 by (cases n') simp_all
    qed
    then show ?thesis using True st0 by (intro exI [of _ "[]"]) (auto intro: wpath_start)
  next
    case False
    let ?st = "queue s ! k"
    obtain j where j: "j < k" "parent s ?st = int (queue s ! j)"
        "wedge ls es target (queue s ! j) (via s ?st) ?st"
      using inv less.prems False by (auto simp: search_inv_def)
    obtain steps where steps: "wpath ls es target st0 steps (queue s ! j)" "length steps \<le> j"
        "\<forall>n\<ge>Suc (length steps). walk_back s n (int (queue s ! j)) =
          Some (rev ((st0 div 2, via s st0) # map (\<lambda>(c, st). (st div 2, via s st)) steps))"
        "\<forall>(c, st)\<in>set steps. via s st = c"
      using less.IH [OF j(1)] j(1) less.prems by auto
    let ?steps = "steps @ [(via s ?st, ?st)]"
    have "wpath ls es target st0 ?steps ?st" by (rule wpath_step [OF steps(1) j(3)])
    moreover have "walk_back s n (int ?st) =
        Some (rev ((st0 div 2, via s st0) # map (\<lambda>(c, st). (st div 2, via s st)) ?steps))"
      if n: "Suc (length ?steps) \<le> n" for n
    proof -
      obtain n' where n': "n = Suc n'" "Suc (length steps) \<le> n'" using n by (cases n) auto
      then show ?thesis using steps(3) j(2) by simp
    qed
    ultimately show ?thesis using steps(2,4) j(1) by (intro exI [of _ ?steps]) auto
  qed
qed

lemma wpath_visited:
  assumes "wpath ls es target st0 steps st"
    and "search_inv ls es target st0 h s" and "\<forall>st\<in>set (queue s). settled ls es target hold s st"
  shows "visited s st"
  using assms(1)
proof (induction rule: wpath.induct)
  case wpath_start
  then show ?case using assms(2) by (auto simp: search_inv_def)
next
  case (wpath_step steps st c st')
  then have "st \<in> set (queue s)" using assms(2) by (auto simp: search_inv_def)
  with assms(3) wpath_step show ?case by (auto simp: settled_def expanded_def wedge_def)
qed

text \<open>The result of \<^verbatim>\<open>find_path\<close>, as a whole.\<close>

lemma find_path_result:
  assumes "from < MAX_LOCKS" and "from_want < 2"
  defines "st0 \<equiv> from * 2 + from_want"
  shows "(find_path ls es from from_want target hold = Some None \<and>
     \<not> (\<exists>steps st. wpath ls es target st0 steps st \<and> st div 2 = target \<and> waits ls target (st mod 2) hold)) \<or>
    (\<exists>steps st. find_path ls es from from_want target hold =
       Some (Some (from # map (\<lambda>(c, st). st div 2) steps, map fst steps)) \<and>
       length steps < 2 * MAX_LOCKS \<and>
       wpath ls es target st0 steps st \<and> st div 2 = target \<and> waits ls target (st mod 2) hold)"
proof -
  have st0: "st0 < 2 * MAX_LOCKS" "st0 div 2 = from" using assms by auto
  obtain s r h where b: "bfs ls es target hold (2 * MAX_LOCKS + 1) 0 (search_start st0) = Some (s, r)"
      and inv: "search_inv ls es target st0 h s"
      and r: "case r of None \<Rightarrow> \<forall>st\<in>set (queue s). settled ls es target hold s st
        | Some st \<Rightarrow> (\<exists>k<length (queue s). queue s ! k = st) \<and> st div 2 = target \<and> waits ls target (st mod 2) hold"
    using bfs_result [OF search_inv_start [OF st0(1)], where hold = hold and n = "2 * MAX_LOCKS + 1",
        of ls es target] by (auto simp del: bfs.simps)
  show ?thesis
  proof (cases r)
    case None
    have "\<not> (wpath ls es target st0 steps st \<and> st div 2 = target \<and> waits ls target (st mod 2) hold)" for steps st
    proof
      assume w: "wpath ls es target st0 steps st \<and> st div 2 = target \<and> waits ls target (st mod 2) hold"
      with None r have "visited s st" using wpath_visited [OF _ inv] by auto
      then have "st \<in> set (queue s)" using inv by (auto simp: search_inv_def)
      with None r w show False by (auto simp: settled_def)
    qed
    then show ?thesis using b None by (simp add: find_path_def st0_def)
  next
    case (Some st)
    then obtain k where k: "k < length (queue s)" "queue s ! k = st" "st div 2 = target"
        "waits ls target (st mod 2) hold" using r by auto
    obtain steps where steps: "wpath ls es target st0 steps st" "length steps \<le> k"
        "\<forall>n\<ge>Suc (length steps). walk_back s n (int st) =
          Some (rev ((st0 div 2, via s st0) # map (\<lambda>(c, st). (st div 2, via s st)) steps))"
        "\<forall>(c, st)\<in>set steps. via s st = c"
      using walk_back_path [OF inv k(1)] k(2) by auto
    have len: "Suc (length steps) \<le> 2 * MAX_LOCKS" using steps(2) k(1) queue_bound [OF inv] by simp
    have "map (\<lambda>(c, st). via s st) steps = map fst steps" using steps(4) by (auto intro!: map_cong)
    then have "find_path ls es from from_want target hold =
       Some (Some (from # map (\<lambda>(c, st). st div 2) steps, map fst steps))"
      using b Some steps(3) len st0(2)
      by (simp add: find_path_def st0_def rev_map [symmetric] o_def split_def)
    with steps(1) k(3,4) len show ?thesis by auto
  qed
qed

end
