(* ===== verification/Lockcheck.thy ===== *)
theory Lockcheck
  imports LockGraph
begin

text \<open>
  The checker itself, parts 4 to 10 of \<^verbatim>\<open>Week6/Assignment6/concurrency/tools/lockcheck.c\<close>: the
  locks a thread holds, the warnings W1 to W4, the recording of order edges, and the wrappers
  around the pthread functions as the events of a program under test. A wrapper that calls
  the real function in its middle is two events, since other threads run in between.
\<close>

definition MAX_HELD :: nat where "MAX_HELD = 32"

section \<open>The locks held by a thread\<close>

fun held_find :: "held_lock list \<Rightarrow> nat \<Rightarrow> nat \<Rightarrow> int" where
  "held_find [] idx i = - 1"
| "held_find (h # hs) idx i = (if h_idx h = idx then int i else held_find hs idx (Suc i))"

definition held_add :: "nat \<Rightarrow> nat \<Rightarrow> u64 \<Rightarrow> held_lock list \<Rightarrow> held_lock list" where
  "held_add idx mode site hs =
     (let i = held_find hs idx 0 in
      if i \<ge> 0 then hs[nat i := (hs ! nat i)\<lparr>h_count := h_count (hs ! nat i) + 1\<rparr>]
      else if length hs < MAX_HELD
      then hs @ [\<lparr>h_idx = idx, h_mode = mode, h_count = 1, h_site = site\<rparr>]
      else hs)"

definition held_drop :: "nat \<Rightarrow> held_lock list \<Rightarrow> int \<times> held_lock list" where
  "held_drop idx hs =
     (let i = held_find hs idx 0 in
      if i < 0 then (- 1, hs)
      else let h = hs ! nat i; mode = int (h_mode h); n = h_count h - 1 in
        if n > 0 then (mode, hs[nat i := h\<lparr>h_count := n\<rparr>])
        else (mode, take (nat i) hs @ drop (Suc (nat i)) hs))"

section \<open>The warnings; what they print is not modelled\<close>

definition warn :: "nat \<Rightarrow> lc \<Rightarrow> lc" where
  "warn k s = s\<lparr>n_warn := (n_warn s)(k := n_warn s k + 1)\<rparr>"

definition report_self_deadlock :: "u64 \<Rightarrow> lc \<Rightarrow> lc" where
  "report_self_deadlock site s = snd (first_time (Str ''W1 self'') (At site) (warn 1 s))"

definition report_cycle :: "u64 \<Rightarrow> u64 \<Rightarrow> lc \<Rightarrow> lc" where
  "report_cycle hsite nsite s = snd (first_time (At hsite) (At nsite) (warn 1 s))"

definition report_blocking :: "string \<Rightarrow> u64 \<Rightarrow> lc \<Rightarrow> lc" where
  "report_blocking fn site s = snd (first_time (Str fn) (At site) (warn 3 s))"

definition report_bad_unlock :: "u64 \<Rightarrow> lc \<Rightarrow> lc" where
  "report_bad_unlock site s = snd (first_time (Str ''W4'') (At site) (warn 4 s))"

section \<open>The lock order graph\<close>

definition set_edge :: "nat \<Rightarrow> nat \<Rightarrow> nat \<Rightarrow> edge_rec \<Rightarrow> lc \<Rightarrow> lc" where
  "set_edge a b c r s =
     s\<lparr>edges := (edges s)(a := (edges s a)(b := (edges s a b)
        \<lparr>mask := mask (edges s a b) OR push_bit c 1, rec := (rec (edges s a b))(c := r)\<rparr>))\<rparr>"

text \<open>The body of the loop of \<^verbatim>\<open>check_and_add_edges\<close>, for one lock the thread holds.\<close>

definition add_edge :: "int \<Rightarrow> nat \<Rightarrow> nat \<Rightarrow> u64 \<Rightarrow> held_lock \<Rightarrow> lc \<Rightarrow> lc" where
  "add_edge t idx mode site hl s =
     (let h = h_idx hl; hm = h_mode hl; c = hm * 2 + mode in
      if h = idx \<or> bit (mask (edges s h idx)) c then s
      else let s' = (case find_path (locks s) (edges s) idx mode h hm of
                       Some (Some _) \<Rightarrow> report_cycle (h_site hl) site s
                     | _ \<Rightarrow> s)
        in set_edge h idx c \<lparr>held_site = h_site hl, new_site = site, edge_tid = t\<rparr> s')"

definition check_and_add_edges :: "int \<Rightarrow> nat \<Rightarrow> nat \<Rightarrow> u64 \<Rightarrow> lc \<Rightarrow> lc" where
  "check_and_add_edges t idx mode site s = fold (add_edge t idx mode site) (held_locks s t) s"

definition before_wait :: "int \<Rightarrow> nat \<Rightarrow> nat \<Rightarrow> u64 \<Rightarrow> lc \<Rightarrow> lc" where
  "before_wait t idx mode site s =
     (let i = held_find (held_locks s t) idx 0 in
      if i < 0 then check_and_add_edges t idx mode site s
      else let hm = h_mode (held_locks s t ! nat i); l = locks s idx in
        if recursive l then s
        else if is_rw l \<and> mode = RD \<and> hm = RD \<and> read_shares l then s
        else report_self_deadlock site s)"

definition mark_acquired :: "int \<Rightarrow> nat \<Rightarrow> nat \<Rightarrow> u64 \<Rightarrow> lc \<Rightarrow> lc" where
  "mark_acquired t idx mode site s =
     (let l = locks s idx;
          l = (if mode = WR then l\<lparr>lk_owner := t, owner_site := site\<rparr>
               else l\<lparr>readers := readers l + 1, reader_site := site\<rparr>)
      in s\<lparr>locks := (locks s)(idx := l),
           held_locks := (held_locks s)(t := held_add idx mode site (held_locks s t))\<rparr>)"

text \<open>\<^verbatim>\<open>mark_released\<close>: 0 if the thread does not hold the lock (with its recorded owner).\<close>

definition mark_released :: "int \<Rightarrow> nat \<Rightarrow> lc \<Rightarrow> int \<times> int \<times> lc" where
  "mark_released t idx s =
     (let i = held_find (held_locks s t) idx 0 in
      if i < 0 then (0, lk_owner (locks s idx), s)
      else let last = (h_count (held_locks s t ! nat i) = 1);
               (mode, hs) = held_drop idx (held_locks s t);
               l = locks s idx;
               l = (if mode = int RD then l\<lparr>readers := readers l - 1\<rparr>
                    else if last then l\<lparr>lk_owner := 0\<rparr> else l)
        in (1, 0, s\<lparr>locks := (locks s)(idx := l), held_locks := (held_locks s)(t := hs)\<rparr>))"

section \<open>The wrappers\<close>

text \<open>Where a thread is that called a wrapper: inside the real lock or condition wait.\<close>

datatype call = InLock int nat u64 | InCond int u64

record prog_state =
  lc :: lc
  call_of :: "int \<Rightarrow> call option"

text \<open>
  The calls of the program under test. \<open>Lock\<close> and \<open>Locked\<close> are the two halves of
  \<^verbatim>\<open>pthread_mutex_lock\<close>, \<^verbatim>\<open>pthread_rwlock_rdlock\<close> and \<^verbatim>\<open>wrlock\<close> around the real call, which
  returned \<open>rc\<close>; \<open>CondWait\<close> and \<open>CondDone\<close> those of \<^verbatim>\<open>pthread_cond_wait\<close>.
\<close>

datatype event =
    Lock int u64 bool nat u64
  | Locked int int
  | TryLock int u64 bool nat u64 int
  | Unlock int u64 bool u64
  | Destroy u64
  | CondWait int u64 u64
  | CondDone int
  | Blocking int string u64

definition check_blocking :: "int \<Rightarrow> string \<Rightarrow> u64 \<Rightarrow> lc \<Rightarrow> lc" where
  "check_blocking t fn site s = (if held_locks s t = [] then s else report_blocking fn site s)"

definition unlock_hook ::
  "(u64 \<Rightarrow> int) \<Rightarrow> (u64 \<Rightarrow> int) \<Rightarrow> int \<Rightarrow> u64 \<Rightarrow> bool \<Rightarrow> u64 \<Rightarrow> lc \<Rightarrow> int \<times> lc" where
  "unlock_hook rwkind mkind t p rw site s =
     (let (idx, s) = lock_index rwkind mkind p rw s in
      if idx \<ge> 0
      then let (ok, owner, s) = mark_released t (nat idx) s
           in (idx, if ok = 0 then report_bad_unlock site s else s)
      else (idx, s))"

definition lock_hook ::
  "(u64 \<Rightarrow> int) \<Rightarrow> (u64 \<Rightarrow> int) \<Rightarrow> int \<Rightarrow> u64 \<Rightarrow> bool \<Rightarrow> nat \<Rightarrow> u64 \<Rightarrow> lc \<Rightarrow> int \<times> lc" where
  "lock_hook rwkind mkind t p rw mode site s =
     (let (idx, s) = lock_index rwkind mkind p rw s
      in (idx, if idx \<ge> 0 then before_wait t (nat idx) mode site s else s))"

definition try_hook ::
  "(u64 \<Rightarrow> int) \<Rightarrow> (u64 \<Rightarrow> int) \<Rightarrow> int \<Rightarrow> u64 \<Rightarrow> bool \<Rightarrow> nat \<Rightarrow> u64 \<Rightarrow> int \<Rightarrow> lc \<Rightarrow> lc" where
  "try_hook rwkind mkind t p rw mode site rc s =
     (if rc \<noteq> 0 then s
      else let (idx, s) = lock_index rwkind mkind p rw s
           in if idx \<ge> 0 then mark_acquired t (nat idx) mode site s else s)"

definition after_cond_wait :: "int \<Rightarrow> int \<Rightarrow> u64 \<Rightarrow> lc \<Rightarrow> lc" where
  "after_cond_wait t idx site s =
     (if idx < 0 then s
      else mark_acquired t (nat idx) WR site (check_and_add_edges t (nat idx) WR site s))"

fun lc_event ::
  "(u64 \<Rightarrow> int) \<Rightarrow> (u64 \<Rightarrow> int) \<Rightarrow> event \<Rightarrow> prog_state \<Rightarrow> prog_state" where
  "lc_event rwkind mkind (Lock t p rw mode site) s =
     (let (idx, c) = lock_hook rwkind mkind t p rw mode site (lc s)
      in s\<lparr>lc := c, call_of := (call_of s)(t := Some (InLock idx mode site))\<rparr>)"
| "lc_event rwkind mkind (Locked t rc) s =
     (case call_of s t of
        Some (InLock idx mode site) \<Rightarrow>
          s\<lparr>lc := (if rc = 0 \<and> idx \<ge> 0 then mark_acquired t (nat idx) mode site (lc s) else lc s),
            call_of := (call_of s)(t := None)\<rparr>
      | _ \<Rightarrow> s)"
| "lc_event rwkind mkind (TryLock t p rw mode site rc) s =
     s\<lparr>lc := try_hook rwkind mkind t p rw mode site rc (lc s)\<rparr>"
| "lc_event rwkind mkind (Unlock t p rw site) s =
     s\<lparr>lc := snd (unlock_hook rwkind mkind t p rw site (lc s))\<rparr>"
| "lc_event rwkind mkind (Destroy p) s = s\<lparr>lc := lock_forget p (lc s)\<rparr>"
| "lc_event rwkind mkind (CondWait t p site) s =
     (let (idx, c) = unlock_hook rwkind mkind t p False site (lc s)
      in s\<lparr>lc := c, call_of := (call_of s)(t := Some (InCond idx site))\<rparr>)"
| "lc_event rwkind mkind (CondDone t) s =
     (case call_of s t of
        Some (InCond idx site) \<Rightarrow>
          s\<lparr>lc := after_cond_wait t idx site (lc s), call_of := (call_of s)(t := None)\<rparr>
      | _ \<Rightarrow> s)"
| "lc_event rwkind mkind (Blocking t fn site) s = s\<lparr>lc := check_blocking t fn site (lc s)\<rparr>"

text \<open>\<^verbatim>\<open>lockcheck_exit\<close>: the locks still held, each of which is a warning W2.\<close>

definition lockcheck_exit :: "lc \<Rightarrow> lc" where
  "lockcheck_exit s =
     fold (\<lambda>i s. if addr (locks s i) \<noteq> NULL \<and> addr (locks s i) \<noteq> TOMBSTONE \<and>
                    (lk_owner (locks s i) \<noteq> 0 \<or> readers (locks s i) > 0)
                 then warn 2 s else s) [0..<MAX_LOCKS] s"

definition prog_init :: prog_state where
  "prog_init = \<lparr>lc = lc_init, call_of = (\<lambda>_. None)\<rparr>"

section \<open>Cycles of waits\<close>

text \<open>
  A cycle of the graph that could be a deadlock: distinct locks, each with the combination of
  modes of the edge to the next one, such that at every lock the thread that wants it waits
  for the thread that holds it.
\<close>

definition cyc_next :: "(nat \<times> nat) list \<Rightarrow> nat \<Rightarrow> nat \<times> nat" where
  "cyc_next cs k = cs ! (Suc k mod length cs)"

definition wait_cycle ::
  "(nat \<Rightarrow> lockinfo) \<Rightarrow> (nat \<Rightarrow> nat \<Rightarrow> edge) \<Rightarrow> (nat \<times> nat) list \<Rightarrow> bool" where
  "wait_cycle ls es cs \<longleftrightarrow> cs \<noteq> [] \<and> distinct (map fst cs) \<and>
     (\<forall>k<length cs. fst (cs ! k) < MAX_LOCKS \<and> snd (cs ! k) < 4 \<and>
        bit (mask (es (fst (cs ! k)) (fst (cyc_next cs k)))) (snd (cs ! k)) \<and>
        waits ls (fst (cyc_next cs k)) (snd (cs ! k) mod 2) (snd (cyc_next cs k) div 2))"

lemma wait_cycle_rotate:
  assumes "wait_cycle ls es cs"
  shows "wait_cycle ls es (rotate m cs)"
proof -
  have ne: "cs \<noteq> []" using assms by (simp add: wait_cycle_def)
  have nth: "rotate m cs ! k = cs ! ((m + k) mod length cs)" if "k < length cs" for k
    using that by (simp add: nth_rotate)
  have next_rot: "cyc_next (rotate m cs) k = cyc_next cs ((m + k) mod length cs)" if "k < length cs" for k
    using ne by (simp add: cyc_next_def nth mod_simps)
  have "fst (rotate m cs ! k) < MAX_LOCKS \<and> snd (rotate m cs ! k) < 4 \<and>
        bit (mask (es (fst (rotate m cs ! k)) (fst (cyc_next (rotate m cs) k)))) (snd (rotate m cs ! k)) \<and>
        waits ls (fst (cyc_next (rotate m cs) k)) (snd (rotate m cs ! k) mod 2)
          (snd (cyc_next (rotate m cs) k) div 2)" if k: "k < length cs" for k
    using assms ne unfolding nth [OF k] next_rot [OF k] by (simp add: wait_cycle_def)
  then show ?thesis
    using assms by (simp add: wait_cycle_def rotate_map [symmetric])
qed

text \<open>The steps of a path along a cycle, from its first lock to its last one.\<close>

lemma cycle_path:
  assumes cyc: "wait_cycle ls es' cs" and last: "last cs = (h, c)"
    and es: "\<And>x y. x \<noteq> h \<Longrightarrow> es' x y = es x y"
  shows "\<exists>steps st. wpath ls es h (fst (hd cs) * 2 + c mod 2) steps st \<and> st div 2 = h \<and>
    waits ls h (st mod 2) (c div 2)"
proof -
  let ?n = "length cs" and ?x = "\<lambda>k. fst (cs ! k)" and ?c = "\<lambda>k. snd (cs ! k)"
  have ne: "cs \<noteq> []" using cyc by (simp add: wait_cycle_def)
  have lst: "cs ! (?n - 1) = (h, c)" using last ne by (simp add: last_conv_nth)
  have nx: "cyc_next cs k = cs ! Suc k" if "Suc k < ?n" for k
    using that by (simp add: cyc_next_def)
  have n0: "cyc_next cs (?n - 1) = cs ! 0" using ne by (simp add: cyc_next_def)
  define w where "w k = (if k = 0 then c mod 2 else ?c (k - 1) mod 2)" for k
  have wait: "waits ls (?x k) (w k) (?c k div 2)" if k: "k < ?n" for k
  proof (cases k)
    case 0
    have "?n - 1 < ?n" using ne by simp
    then have "waits ls (fst (cyc_next cs (?n - 1))) (?c (?n - 1) mod 2) (snd (cyc_next cs (?n - 1)) div 2)"
      using cyc unfolding wait_cycle_def by blast
    then show ?thesis unfolding n0 lst by (simp add: 0 w_def)
  next
    case (Suc j)
    then have nj: "cyc_next cs j = cs ! k" and "j < ?n" using nx [of j] k by simp_all
    moreover have "waits ls (fst (cyc_next cs j)) (?c j mod 2) (snd (cyc_next cs j) div 2)"
      using cyc \<open>j < ?n\<close> unfolding wait_cycle_def by blast
    ultimately show ?thesis by (simp add: Suc w_def)
  qed
  have edge: "wedge ls es h (?x k * 2 + w k) (?c k) (?x (Suc k) * 2 + w (Suc k))" if k: "Suc k < ?n" for k
  proof -
    have d: "distinct (map fst cs)" using cyc by (simp add: wait_cycle_def)
    have "map fst cs ! k \<noteq> map fst cs ! (?n - 1)" using d k by (subst nth_eq_iff_index_eq) auto
    then have xh: "?x k \<noteq> h" using k lst by simp
    have "bit (mask (es' (?x k) (fst (cyc_next cs k)))) (?c k) \<and> ?c k < 4"
      using cyc k unfolding wait_cycle_def by (meson Suc_lessD)
    then have b: "bit (mask (es (?x k) (?x (Suc k)))) (?c k)" "?c k < 4"
      by (simp_all add: nx [OF k] es [OF xh])
    have "?x (Suc k) < MAX_LOCKS" using cyc k by (simp add: wait_cycle_def)
    moreover have "w k < 2" by (simp add: w_def)
    ultimately show ?thesis
      using xh b wait [of k] k by (simp add: wedge_def w_def)
  qed
  have "\<exists>steps. wpath ls es h (?x 0 * 2 + w 0) steps (?x k * 2 + w k)" if "k < ?n" for k
    using that
  proof (induction k)
    case 0
    show ?case by (intro exI) (rule wpath_start)
  next
    case (Suc k)
    then obtain steps where "wpath ls es h (?x 0 * 2 + w 0) steps (?x k * 2 + w k)" by auto
    from wpath_step [OF this edge] Suc.prems show ?case by blast
  qed
  then obtain steps where p: "wpath ls es h (?x 0 * 2 + w 0) steps (?x (?n - 1) * 2 + w (?n - 1))"
    using ne by (meson diff_less length_greater_0_conv zero_less_one)
  have "w (?n - 1) < 2" by (simp add: w_def)
  with p wait [of "?n - 1"] ne lst show ?thesis
    by (intro exI [of _ steps] exI [of _ "?x (?n - 1) * 2 + w (?n - 1)"])
      (simp add: hd_conv_nth w_def [of 0])
qed

text \<open>
  The heart of the checker: if the search finds no path from the new lock back to the lock
  held, the new edge closes no cycle.
\<close>

lemma mask_set: "bit ((m::u8) OR push_bit c 1) k \<longleftrightarrow> bit m k \<or> k = c \<and> c < 8"
  by (auto simp: bit_simps)

lemma no_new_cycle:
  assumes none: "\<nexists>steps st. wpath ls es h (idx * 2 + c mod 2) steps st \<and> st div 2 = h \<and> waits ls h (st mod 2) (c div 2)"
    and old: "\<And>cs. \<not> wait_cycle ls es cs"
    and es': "\<And>x y. mask (es' x y) = (if x = h \<and> y = idx then mask (es x y) OR push_bit c 1 else mask (es x y))"
  shows "\<not> wait_cycle ls es' cs"
proof
  assume cyc: "wait_cycle ls es' cs"
  then have ne: "cs \<noteq> []" by (simp add: wait_cycle_def)
  have "\<exists>k<length cs. cs ! k = (h, c) \<and> fst (cyc_next cs k) = idx"
  proof (rule ccontr)
    assume no: "\<not> (\<exists>k<length cs. cs ! k = (h, c) \<and> fst (cyc_next cs k) = idx)"
    have "bit (mask (es (fst (cs ! k)) (fst (cyc_next cs k)))) (snd (cs ! k))" if k: "k < length cs" for k
    proof -
      have "bit (mask (es' (fst (cs ! k)) (fst (cyc_next cs k)))) (snd (cs ! k))"
        using cyc k by (simp add: wait_cycle_def)
      moreover have "\<not> (fst (cs ! k) = h \<and> snd (cs ! k) = c \<and> fst (cyc_next cs k) = idx)"
        using no k by (metis prod.collapse)
      ultimately show ?thesis by (auto simp: es' mask_set simp del: push_bit_of_1 split: if_splits)
    qed
    then have "wait_cycle ls es cs" using cyc by (simp add: wait_cycle_def)
    with old show False by blast
  qed
  then obtain k where k: "k < length cs" "cs ! k = (h, c)" "fst (cyc_next cs k) = idx" by blast
  let ?cs = "rotate (Suc k) cs"
  have hd: "fst (hd ?cs) = idx"
    using k(1,3) ne by (simp add: hd_rotate_conv_nth cyc_next_def del: rotate_Suc)
  have "last ?cs = ?cs ! (length cs - 1)" using ne by (simp add: last_conv_nth)
  also have "\<dots> = cs ! ((Suc k + (length cs - 1)) mod length cs)"
    using ne by (intro nth_rotate) simp
  also have "Suc k + (length cs - 1) = k + length cs" using k(1) by simp
  also have "(k + length cs) mod length cs = k" using k(1) by simp
  finally have "last ?cs = (h, c)" using k(2) by simp
  \<comment> \<open>an edge that does not start at \<open>h\<close> is an old one\<close>
  moreover define es2 where "es2 x y = (if x = h then es' x y else es x y)" for x y
  moreover have meq: "mask (es2 x y) = mask (es' x y)" for x y by (simp add: es2_def es')
  have "wait_cycle ls es2 ?cs"
    using wait_cycle_rotate [OF cyc, of "Suc k"] unfolding wait_cycle_def meq .
  ultimately show False using cycle_path [of ls es2 ?cs h c es] none hd by auto
qed

section \<open>The invariant of the checker\<close>

definition live :: "lc \<Rightarrow> nat \<Rightarrow> bool" where
  "live s i \<longleftrightarrow> i < MAX_LOCKS \<and> valid_addr (addr (locks s i))"

text \<open>Whether readers share the lock at an address, given its kind in memory.\<close>

definition shares :: "(u64 \<Rightarrow> int) \<Rightarrow> (u64 \<Rightarrow> bool) \<Rightarrow> u64 \<Rightarrow> bool" where
  "shares rwkind isrw p \<longleftrightarrow> isrw p \<and> rwkind p \<noteq> PREFER_WRITER"

definition lc_inv :: "(u64 \<Rightarrow> int) \<Rightarrow> (u64 \<Rightarrow> bool) \<Rightarrow> lc \<Rightarrow> bool" where
  "lc_inv rwkind isrw s \<longleftrightarrow> table_inv (locks s) \<and>
     (\<forall>i. live s i \<longrightarrow> read_shares (locks s i) = shares rwkind isrw (addr (locks s i))) \<and>
     (\<forall>a b. mask (edges s a b) \<noteq> 0 \<longrightarrow> live s a \<and> live s b) \<and>
     (\<forall>t. \<forall>hl\<in>set (held_locks s t). live s (h_idx hl) \<and> h_mode hl < 2) \<and>
     0 \<le> n_warn s 1 \<and> (n_warn s 1 = 0 \<longrightarrow> (\<forall>cs. \<not> wait_cycle (locks s) (edges s) cs))"

lemma lc_invD:
  assumes "lc_inv rwkind isrw s"
  shows "table_inv (locks s)" "live s i \<Longrightarrow> read_shares (locks s i) = shares rwkind isrw (addr (locks s i))"
    "mask (edges s a b) \<noteq> 0 \<Longrightarrow> live s a \<and> live s b"
    "hl \<in> set (held_locks s t) \<Longrightarrow> live s (h_idx hl) \<and> h_mode hl < 2" "0 \<le> n_warn s 1"
    "n_warn s 1 = 0 \<Longrightarrow> \<not> wait_cycle (locks s) (edges s) cs"
  using assms by (auto simp: lc_inv_def)

lemma wait_cycle_subset:
  assumes "wait_cycle ls' es' cs"
    and "\<And>a b c. bit (mask (es' a b)) c \<Longrightarrow> bit (mask (es a b)) c"
    and "\<And>x y. mask (es' x y) \<noteq> 0 \<Longrightarrow> read_shares (ls' x) = read_shares (ls x)"
  shows "wait_cycle ls es cs"
proof -
  have nz: "mask (es' (fst (cs ! k)) (fst (cyc_next cs k))) \<noteq> 0" if "k < length cs" for k
    using assms(1) that by (auto simp: wait_cycle_def)
  have rs: "read_shares (ls' (fst (cyc_next cs k))) = read_shares (ls (fst (cyc_next cs k)))"
    if "k < length cs" for k
  proof -
    have "Suc k mod length cs < length cs" using that by (auto intro: mod_less_divisor)
    from assms(3) [OF nz [OF this]] show ?thesis by (simp add: cyc_next_def)
  qed
  have "bit (mask (es (fst (cs ! k)) (fst (cyc_next cs k)))) (snd (cs ! k)) \<and>
      waits ls (fst (cyc_next cs k)) (snd (cs ! k) mod 2) (snd (cyc_next cs k) div 2)"
    if k: "k < length cs" for k
  proof
    have c: "bit (mask (es' (fst (cs ! k)) (fst (cyc_next cs k)))) (snd (cs ! k))"
        "waits ls' (fst (cyc_next cs k)) (snd (cs ! k) mod 2) (snd (cyc_next cs k) div 2)"
      using assms(1) k by (simp_all add: wait_cycle_def)
    show "bit (mask (es (fst (cs ! k)) (fst (cyc_next cs k)))) (snd (cs ! k))"
      by (rule assms(2) [OF c(1)])
    show "waits ls (fst (cyc_next cs k)) (snd (cs ! k) mod 2) (snd (cyc_next cs k) div 2)"
      using c(2) rs [OF k] by (simp add: waits_def)
  qed
  then show ?thesis using assms(1) by (simp add: wait_cycle_def)
qed

text \<open>Operations that leave the graph alone, or shrink it, and keep the kinds of its locks.\<close>

lemma lc_inv_shrink:
  assumes inv: "lc_inv rwkind isrw s" and tab: "table_inv (locks s')"
    and kind: "\<And>i. live s' i \<Longrightarrow> read_shares (locks s' i) = shares rwkind isrw (addr (locks s' i))"
    and sub: "\<And>a b c. bit (mask (edges s' a b)) c \<Longrightarrow> bit (mask (edges s a b)) c"
    and liv: "\<And>a b. mask (edges s' a b) \<noteq> 0 \<Longrightarrow> live s' a \<and> live s' b"
    and same: "\<And>x y. mask (edges s' x y) \<noteq> 0 \<Longrightarrow> addr (locks s' x) = addr (locks s x)"
    and held: "\<And>t hl. hl \<in> set (held_locks s' t) \<Longrightarrow> live s' (h_idx hl) \<and> h_mode hl < 2"
    and w: "n_warn s 1 \<le> n_warn s' 1"
  shows "lc_inv rwkind isrw s'"
proof -
  have "\<not> wait_cycle (locks s') (edges s') cs" if "n_warn s' 1 = 0" for cs
  proof
    assume c: "wait_cycle (locks s') (edges s') cs"
    have "read_shares (locks s' x) = read_shares (locks s x)" if nz: "mask (edges s' x y) \<noteq> 0" for x y
    proof -
      obtain c where "bit (mask (edges s' x y)) c" using nz by (auto simp: bit_eq_iff)
      then have "mask (edges s x y) \<noteq> 0" using sub by force
      then have "live s x" using lc_invD(3) [OF inv] by blast
      then show ?thesis using lc_invD(2) [OF inv] kind liv [OF nz] same [OF nz] by simp
    qed
    with sub have "wait_cycle (locks s) (edges s) cs"
      by (intro wait_cycle_subset [OF c]) auto
    moreover have "n_warn s 1 = 0" using w that lc_invD(5) [OF inv] by simp
    ultimately show False using lc_invD(6) [OF inv] by blast
  qed
  then show ?thesis
    using tab kind liv held w lc_invD(5) [OF inv] by (simp add: lc_inv_def)
qed

lemma lc_inv_same:
  assumes inv: "lc_inv rwkind isrw s"
    and l: "\<And>i. addr (locks s' i) = addr (locks s i) \<and> read_shares (locks s' i) = read_shares (locks s i)"
    and e: "edges s' = edges s"
    and held: "\<And>t hl. hl \<in> set (held_locks s' t) \<Longrightarrow> live s (h_idx hl) \<and> h_mode hl < 2"
    and w: "n_warn s 1 \<le> n_warn s' 1"
  shows "lc_inv rwkind isrw s'"
proof -
  have liv: "live s' i = live s i" for i using l by (simp add: live_def)
  show ?thesis
    by (rule lc_inv_shrink [OF inv])
      (use lc_invD(1-3) [OF inv] l e held w liv table_inv_cong [of "locks s'" "locks s"] in auto)
qed

lemma lc_inv_lock_index:
  assumes inv: "lc_inv rwkind isrw s" and p: "valid_addr p"
    and li: "lock_index rwkind mkind p (isrw p) s = (i, s')"
  shows "lc_inv rwkind isrw s'" and "0 \<le> i \<Longrightarrow> live s' (nat i)"
    and "\<And>j. live s j \<Longrightarrow> live s' j" and "held_locks s' = held_locks s"
proof -
  note tab = lc_invD(1) [OF inv]
  have shr: "read_shares (set_kind rwkind mkind p (isrw p) l) = shares rwkind isrw p" for l
    by (simp add: set_kind_def shares_def)
  have "lc_inv rwkind isrw s' \<and> (0 \<le> i \<longrightarrow> live s' (nat i)) \<and> (\<forall>j. live s j \<longrightarrow> live s' j) \<and>
    held_locks s' = held_locks s"
    using tab p li
  proof (cases rule: lock_index_cases)
    case (found k)
    have k: "live s k" "addr (locks s k) = p" using found(2) p by (auto simp: live_def index_of_def)
    have "lc_inv rwkind isrw s'"
      by (rule lc_inv_same [OF inv])
        (use found(3) k shr lc_invD(2) [OF inv k(1)] lc_invD(4) [OF inv] in auto)
    then show ?thesis using found k by (auto simp: live_def)
  next
    case (new k)
    have nl: "\<not> live s k" using new(4) by (simp add: live_def)
    have liv: "live s' j = (live s j \<or> j = k)" for j
      using new(2,6) p by (auto simp: live_def fresh_lockinfo_def)
    have "lc_inv rwkind isrw s'"
    proof (rule lc_inv_shrink [OF inv])
      show "table_inv (locks s')" using lock_index_inv(1) [OF tab p li] .
      show "read_shares (locks s' j) = shares rwkind isrw (addr (locks s' j))" if "live s' j" for j
        using that liv lc_invD(2) [OF inv] shr new(6) by (auto simp: fresh_lockinfo_def)
      show "live s' a \<and> live s' b" if "mask (edges s' a b) \<noteq> 0" for a b
        using that new(6) lc_invD(3) [OF inv, of a b] liv by simp
      show "addr (locks s' x) = addr (locks s x)" if "mask (edges s' x y) \<noteq> 0" for x y
        using that new(6) lc_invD(3) [OF inv, of x y] nl by auto
      show "live s' (h_idx hl) \<and> h_mode hl < 2" if "hl \<in> set (held_locks s' t)" for t hl
        using that new(6) lc_invD(4) [OF inv, of hl t] liv by simp
    qed (use new(6) in auto)
    then show ?thesis using new(1,6) liv by simp
  next
    case full
    have "lc_inv rwkind isrw s'"
      by (rule lc_inv_same [OF inv]) (use full(3) lc_invD(4) [OF inv] in auto)
    then show ?thesis using full by (simp add: live_def)
  qed
  then show "lc_inv rwkind isrw s'" and "0 \<le> i \<Longrightarrow> live s' (nat i)"
    and "\<And>j. live s j \<Longrightarrow> live s' j" and "held_locks s' = held_locks s" by blast+
qed

lemma clear_edges_bit:
  "bit (mask (clear_edges i es a b)) c \<Longrightarrow> bit (mask (es a b)) c"
  "mask (clear_edges i es a b) \<noteq> 0 \<Longrightarrow> a < MAX_LOCKS \<Longrightarrow> b < MAX_LOCKS \<Longrightarrow> a \<noteq> i \<and> b \<noteq> i"
  by (auto simp: clear_edges_def split: if_splits)

text \<open>Destroying a lock that no thread holds.\<close>

lemma lc_inv_forget:
  assumes inv: "lc_inv rwkind isrw s" and p: "valid_addr p"
    and unheld: "\<And>t hl. hl \<in> set (held_locks s t) \<Longrightarrow> addr (locks s (h_idx hl)) \<noteq> p"
  shows "lc_inv rwkind isrw (lock_forget p s)"
    and "live s j \<Longrightarrow> addr (locks s j) \<noteq> p \<Longrightarrow> live (lock_forget p s) j"
proof -
  note tab = lc_invD(1) [OF inv]
  have "lc_inv rwkind isrw (lock_forget p s) \<and>
    (\<forall>j. live s j \<longrightarrow> addr (locks s j) \<noteq> p \<longrightarrow> live (lock_forget p s) j)"
    using tab p
  proof (cases rule: lock_forget_cases)
    case (gone i)
    let ?s = "lock_forget p s"
    have i: "i < MAX_LOCKS" "addr (locks s i) = p" using gone(1) by (simp_all add: index_of_def)
    have liv: "live ?s j = (live s j \<and> j \<noteq> i)" for j
      unfolding gone(2) by (simp add: live_def fresh_lockinfo_def valid_addr_def TOMBSTONE_def NULL_def)
    have "lc_inv rwkind isrw ?s"
    proof (rule lc_inv_shrink [OF inv])
      show "table_inv (locks ?s)" by (rule lock_forget_inv(1) [OF tab p])
      show "read_shares (locks ?s j) = shares rwkind isrw (addr (locks ?s j))" if "live ?s j" for j
        using that lc_invD(2) [OF inv] liv unfolding gone(2) by simp
      show "bit (mask (edges s a b)) c" if "bit (mask (edges ?s a b)) c" for a b c
        using that clear_edges_bit(1) unfolding gone(2) by simp
      show ok: "live ?s a \<and> live ?s b" if nz: "mask (edges ?s a b) \<noteq> 0" for a b
      proof -
        have nz': "mask (clear_edges i (edges s) a b) \<noteq> 0" using nz unfolding gone(2) by simp
        then have "mask (edges s a b) \<noteq> 0" by (auto simp: clear_edges_def split: if_splits)
        then have "live s a" "live s b" using lc_invD(3) [OF inv] by auto
        then show ?thesis using liv clear_edges_bit(2) [OF nz'] by (auto simp: live_def)
      qed
      show "addr (locks ?s x) = addr (locks s x)" if "mask (edges ?s x y) \<noteq> 0" for x y
        using ok [OF that] liv unfolding gone(2) by simp
      show "live ?s (h_idx hl) \<and> h_mode hl < 2" if "hl \<in> set (held_locks ?s t)" for t hl
      proof -
        have hl: "hl \<in> set (held_locks s t)" using that unfolding gone(2) by simp
        then have "h_idx hl \<noteq> i" using unheld i(2) by auto
        then show ?thesis using lc_invD(4) [OF inv hl] liv by simp
      qed
      show "n_warn s 1 \<le> n_warn ?s 1" unfolding gone(2) by simp
    qed
    then show ?thesis using liv i(2) by auto
  next
    case absent
    then show ?thesis using inv by simp
  qed
  then show "lc_inv rwkind isrw (lock_forget p s)"
    and "live s j \<Longrightarrow> addr (locks s j) \<noteq> p \<Longrightarrow> live (lock_forget p s) j" by blast+
qed

text \<open>The held sets.\<close>

lemma held_find_found:
  "0 \<le> held_find hs idx k \<Longrightarrow> \<exists>n<length hs. held_find hs idx k = int (k + n) \<and> h_idx (hs ! n) = idx"
proof (induction hs arbitrary: k)
  case Nil
  then show ?case by simp
next
  case (Cons h hs)
  show ?case
  proof (cases "h_idx h = idx")
    case True
    then show ?thesis by (intro exI [of _ 0]) simp
  next
    case False
    with Cons obtain n where "n < length hs" "held_find hs idx (Suc k) = int (Suc k + n)" "h_idx (hs ! n) = idx"
      by fastforce
    with False show ?thesis by (intro exI [of _ "Suc n"]) simp
  qed
qed

lemma held_find_neg: "held_find hs idx k < 0 \<longleftrightarrow> idx \<notin> h_idx ` set hs"
  by (induction hs arbitrary: k) auto

lemma held_find_0:
  assumes "0 \<le> held_find hs idx 0"
  shows "nat (held_find hs idx 0) < length hs" "h_idx (hs ! nat (held_find hs idx 0)) = idx"
  using held_find_found [OF assms] by auto

lemma set_held_add:
  assumes "hl \<in> set (held_add idx mode site hs)"
  shows "(\<exists>h\<in>set hs. h_idx hl = h_idx h \<and> h_mode hl = h_mode h) \<or> h_idx hl = idx \<and> h_mode hl = mode"
proof (cases "0 \<le> held_find hs idx 0")
  case True
  let ?i = "nat (held_find hs idx 0)"
  have i: "?i < length hs" using held_find_0 [OF True] by simp
  have "hl \<in> insert ((hs ! ?i)\<lparr>h_count := h_count (hs ! ?i) + 1\<rparr>) (set hs)"
    using assms True set_update_subset_insert by (fastforce simp: held_add_def Let_def)
  then show ?thesis using nth_mem [OF i] by fastforce
next
  case False
  then show ?thesis using assms by (auto simp: held_add_def Let_def split: if_splits)
qed

lemma set_held_drop:
  assumes "hl \<in> set (snd (held_drop idx hs))"
  shows "\<exists>h\<in>set hs. h_idx hl = h_idx h \<and> h_mode hl = h_mode h"
proof (cases "0 \<le> held_find hs idx 0")
  case True
  let ?i = "nat (held_find hs idx 0)"
  have i: "?i < length hs" using held_find_0 [OF True] by simp
  have "hl \<in> insert ((hs ! ?i)\<lparr>h_count := h_count (hs ! ?i) - 1\<rparr>) (set hs)"
    using assms True set_update_subset_insert [of hs ?i]
    by (fastforce simp: held_drop_def Let_def split: if_splits dest: in_set_takeD in_set_dropD)
  then show ?thesis using nth_mem [OF i] by fastforce
next
  case False
  then show ?thesis using assms by (auto simp: held_drop_def Let_def split: if_splits)
qed

lemma lc_inv_acquired:
  assumes inv: "lc_inv rwkind isrw s" and "live s idx" and "mode < 2"
  shows "lc_inv rwkind isrw (mark_acquired t idx mode site s)"
proof (rule lc_inv_same [OF inv])
  fix u hl assume "hl \<in> set (held_locks (mark_acquired t idx mode site s) u)"
  then show "live s (h_idx hl) \<and> h_mode hl < 2"
    using lc_invD(4) [OF inv] assms(2,3)
    by (auto simp: mark_acquired_def Let_def split: if_splits dest!: set_held_add)
qed (auto simp: mark_acquired_def Let_def)

lemma lc_inv_released:
  assumes inv: "lc_inv rwkind isrw s"
  shows "lc_inv rwkind isrw (snd (snd (mark_released t idx s)))"
proof (rule lc_inv_same [OF inv])
  fix u hl assume "hl \<in> set (held_locks (snd (snd (mark_released t idx s))) u)"
  then show "live s (h_idx hl) \<and> h_mode hl < 2"
    using lc_invD(4) [OF inv] set_held_drop [of hl idx "held_locks s t"]
    by (auto simp: mark_released_def Let_def split_def split: if_splits)
qed (auto simp: mark_released_def Let_def split_def)

lemma lc_inv_warned:
  assumes "lc_inv rwkind isrw s"
  shows "lc_inv rwkind isrw (snd (first_time a b (warn k s)))"
  by (rule lc_inv_same [OF assms]) (use lc_invD(4) [OF assms] in \<open>auto simp: warn_def\<close>)

lemma live_simps [simp]:
  "live (snd (first_time a b s)) = live s" "live (warn k s) = live s"
  "live (set_edge x y c r s) = live s" "live (mark_acquired t idx mode site s) = live s"
  "live (snd (snd (mark_released t idx s))) = live s"
  by (auto simp: fun_eq_iff live_def warn_def set_edge_def mark_acquired_def mark_released_def Let_def split_def)

lemma first_time_seen_only [simp]:
  "locks (report_cycle a b s) = locks s" "edges (report_cycle a b s) = edges s"
  "held_locks (report_cycle a b s) = held_locks s" "live (report_cycle a b s) = live s"
  "n_warn (report_cycle a b s) (Suc 0) = n_warn s (Suc 0) + 1"
  by (simp_all add: report_cycle_def) (simp_all add: warn_def)

lemma set_edge_simps [simp]:
  "locks (set_edge a b c r s) = locks s" "held_locks (set_edge a b c r s) = held_locks s"
  "n_warn (set_edge a b c r s) = n_warn s"
  "mask (edges (set_edge a b c r s) x y) =
    (if x = a \<and> y = b then mask (edges s x y) OR push_bit c 1 else mask (edges s x y))"
  by (simp_all add: set_edge_def)

text \<open>Adding an edge keeps the invariant: a cycle is either reported or not there.\<close>

lemma lc_inv_add_edge:
  assumes inv: "lc_inv rwkind isrw s" and idx: "live s idx" "mode < 2"
    and hl: "live s (h_idx hl)" "h_mode hl < 2"
  shows "lc_inv rwkind isrw (add_edge t idx mode site hl s)"
    and "live (add_edge t idx mode site hl s) = live s"
    and "held_locks (add_edge t idx mode site hl s) = held_locks s"
proof -
  let ?h = "h_idx hl" and ?c = "h_mode hl * 2 + mode"
  have c: "?c < 4" "?c mod 2 = mode" "?c div 2 = h_mode hl" using idx hl by auto
  have "lc_inv rwkind isrw (add_edge t idx mode site hl s) \<and>
    live (add_edge t idx mode site hl s) = live s \<and> held_locks (add_edge t idx mode site hl s) = held_locks s"
  proof (cases "?h = idx \<or> bit (mask (edges s ?h idx)) ?c")
    case True
    then show ?thesis using inv by (auto simp: add_edge_def Let_def)
  next
    case False
    let ?r = "\<lparr>held_site = h_site hl, new_site = site, edge_tid = t\<rparr>"
    define s1 where "s1 = (case find_path (locks s) (edges s) idx mode ?h (h_mode hl) of
        Some (Some _) \<Rightarrow> report_cycle (h_site hl) site s | _ \<Rightarrow> s)"
    have e: "add_edge t idx mode site hl s = set_edge ?h idx ?c ?r s1"
      using False by (simp add: add_edge_def s1_def Let_def)
    have s1: "locks s1 = locks s" "edges s1 = edges s" "held_locks s1 = held_locks s" "live s1 = live s"
        "n_warn s 1 \<le> n_warn s1 1"
      by (auto simp: s1_def split: option.splits)
    have "idx < MAX_LOCKS" using idx(1) by (simp add: live_def)
    note fp = find_path_result [OF this idx(2), of "locks s" "edges s" ?h "h_mode hl"]
    have nocyc: "\<not> wait_cycle (locks s) (edges (set_edge ?h idx ?c ?r s1)) cs" if z: "n_warn s1 1 = 0" for cs
    proof (rule no_new_cycle [where es = "edges s" and h = ?h and idx = idx and c = ?c])
      have z': "n_warn s 1 = 0" using z s1(5) lc_invD(5) [OF inv] by simp
      show "\<And>cs. \<not> wait_cycle (locks s) (edges s) cs" by (rule lc_invD(6) [OF inv z'])
      have "\<nexists>p. find_path (locks s) (edges s) idx mode ?h (h_mode hl) = Some (Some p)"
        using z lc_invD(5) [OF inv] by (auto simp: s1_def)
      then show "\<nexists>steps st. wpath (locks s) (edges s) ?h (idx * 2 + ?c mod 2) steps st \<and> st div 2 = ?h \<and>
          waits (locks s) ?h (st mod 2) (?c div 2)"
        using fp unfolding c by auto
      show "mask (edges (set_edge ?h idx ?c ?r s1) x y) =
          (if x = ?h \<and> y = idx then mask (edges s x y) OR push_bit ?c 1 else mask (edges s x y))" for x y
        by (simp add: s1)
    qed
    have "lc_inv rwkind isrw (set_edge ?h idx ?c ?r s1)"
      unfolding lc_inv_def
    proof (intro conjI allI impI ballI)
      fix a b
      assume "mask (edges (set_edge ?h idx ?c ?r s1) a b) \<noteq> 0"
      then have "a = ?h \<and> b = idx \<or> mask (edges s a b) \<noteq> 0" by (auto simp: s1 split: if_splits)
      then show "live (set_edge ?h idx ?c ?r s1) a" "live (set_edge ?h idx ?c ?r s1) b"
        using idx(1) hl(1) lc_invD(3) [OF inv, of a b] by (auto simp: s1)
    qed (use lc_invD(1,2,4,5) [OF inv] s1 nocyc in \<open>auto simp: s1\<close>)
    then show ?thesis by (simp add: e s1)
  qed
  then show "lc_inv rwkind isrw (add_edge t idx mode site hl s)"
    and "live (add_edge t idx mode site hl s) = live s"
    and "held_locks (add_edge t idx mode site hl s) = held_locks s" by blast+
qed

lemma lc_inv_edges:
  assumes "lc_inv rwkind isrw s" and "live s idx" "mode < 2"
  shows "lc_inv rwkind isrw (check_and_add_edges t idx mode site s)"
    and "live (check_and_add_edges t idx mode site s) = live s"
    and "held_locks (check_and_add_edges t idx mode site s) = held_locks s"
proof -
  have "lc_inv rwkind isrw (fold (add_edge t idx mode site) hs s) \<and>
    live (fold (add_edge t idx mode site) hs s) = live s \<and>
    held_locks (fold (add_edge t idx mode site) hs s) = held_locks s"
    if "\<forall>hl\<in>set hs. live s (h_idx hl) \<and> h_mode hl < 2" for hs
    using that assms
  proof (induction hs arbitrary: s)
    case Nil
    then show ?case by simp
  next
    case (Cons hl hs)
    have hl: "live s (h_idx hl)" "h_mode hl < 2" using Cons.prems(1) by auto
    note a = lc_inv_add_edge [OF Cons.prems(2,3,4) hl, where t = t and site = site]
    then show ?case using Cons.IH [of "add_edge t idx mode site hl s"] Cons.prems by simp
  qed
  moreover have "\<forall>hl\<in>set (held_locks s t). live s (h_idx hl) \<and> h_mode hl < 2"
    using lc_invD(4) [OF assms(1)] by blast
  ultimately show "lc_inv rwkind isrw (check_and_add_edges t idx mode site s)"
    and "live (check_and_add_edges t idx mode site s) = live s"
    and "held_locks (check_and_add_edges t idx mode site s) = held_locks s"
    by (auto simp: check_and_add_edges_def)
qed

lemma lc_inv_before_wait:
  assumes "lc_inv rwkind isrw s" and "live s idx" "mode < 2"
  shows "lc_inv rwkind isrw (before_wait t idx mode site s)"
    and "live (before_wait t idx mode site s) = live s"
  using lc_inv_edges [OF assms, of t site] lc_inv_warned [OF assms(1)] assms(1)
  by (auto simp: before_wait_def report_self_deadlock_def Let_def)

section \<open>Whole runs of a program under test\<close>

text \<open>
  What a program does with its locks: an address is either a mutex or an rwlock, modes fit,
  a thread is in one call at a time, and no lock is destroyed while a thread holds it or
  waits for it (which POSIX leaves undefined).
\<close>

fun call_idx :: "call \<Rightarrow> int" where
  "call_idx (InLock idx mode site) = idx"
| "call_idx (InCond idx site) = idx"

fun call_mode :: "call \<Rightarrow> nat" where
  "call_mode (InLock idx mode site) = mode"
| "call_mode (InCond idx site) = WR"

fun event_ok :: "(u64 \<Rightarrow> bool) \<Rightarrow> prog_state \<Rightarrow> event \<Rightarrow> bool" where
  "event_ok isrw s (Lock t p rw mode site) = (valid_addr p \<and> rw = isrw p \<and> mode < 2 \<and> call_of s t = None)"
| "event_ok isrw s (TryLock t p rw mode site rc) = (valid_addr p \<and> rw = isrw p \<and> mode < 2)"
| "event_ok isrw s (Unlock t p rw site) = (valid_addr p \<and> rw = isrw p)"
| "event_ok isrw s (CondWait t p site) = (valid_addr p \<and> \<not> isrw p \<and> call_of s t = None)"
| "event_ok isrw s (Destroy p) = (valid_addr p \<and>
     (\<forall>t. \<forall>hl\<in>set (held_locks (lc s) t). addr (locks (lc s) (h_idx hl)) \<noteq> p) \<and>
     (\<forall>t k. call_of s t = Some k \<longrightarrow> 0 \<le> call_idx k \<longrightarrow> addr (locks (lc s) (nat (call_idx k))) \<noteq> p))"
| "event_ok isrw s (Locked t rc) = True"
| "event_ok isrw s (CondDone t) = True"
| "event_ok isrw s (Blocking t fn site) = True"

fun run_events ::
  "(u64 \<Rightarrow> int) \<Rightarrow> (u64 \<Rightarrow> int) \<Rightarrow> event list \<Rightarrow> prog_state \<Rightarrow> prog_state" where
  "run_events rwkind mkind [] s = s"
| "run_events rwkind mkind (e # es) s = run_events rwkind mkind es (lc_event rwkind mkind e s)"

fun events_ok ::
  "(u64 \<Rightarrow> int) \<Rightarrow> (u64 \<Rightarrow> int) \<Rightarrow> (u64 \<Rightarrow> bool) \<Rightarrow> event list \<Rightarrow> prog_state \<Rightarrow> bool" where
  "events_ok rwkind mkind isrw [] s = True"
| "events_ok rwkind mkind isrw (e # es) s =
     (event_ok isrw s e \<and> events_ok rwkind mkind isrw es (lc_event rwkind mkind e s))"

definition prog_inv :: "(u64 \<Rightarrow> int) \<Rightarrow> (u64 \<Rightarrow> bool) \<Rightarrow> prog_state \<Rightarrow> bool" where
  "prog_inv rwkind isrw s \<longleftrightarrow> lc_inv rwkind isrw (lc s) \<and>
     (\<forall>t k. call_of s t = Some k \<longrightarrow> 0 \<le> call_idx k \<longrightarrow> live (lc s) (nat (call_idx k)) \<and> call_mode k < 2)"

lemma lc_inv_lock_hook:
  assumes "lc_inv rwkind isrw s" and "valid_addr p" and "mode < 2"
    and "lock_hook rwkind mkind t p (isrw p) mode site s = (i, s')"
  shows "lc_inv rwkind isrw s' \<and> (0 \<le> i \<longrightarrow> live s' (nat i)) \<and> (\<forall>j. live s j \<longrightarrow> live s' j)"
proof -
  obtain j s1 where li': "lock_index rwkind mkind p (isrw p) s = (j, s1)" by force
  have s': "s' = (if 0 \<le> i then before_wait t (nat i) mode site s1 else s1)" and j: "j = i"
    using assms(4) by (auto simp: lock_hook_def li')
  note li = li' [unfolded j]
  note l = lc_inv_lock_index [OF assms(1,2) li]
  show ?thesis using l lc_inv_before_wait [OF l(1) l(2) assms(3)] by (auto simp: s')
qed

lemma lc_inv_unlock_hook:
  assumes "lc_inv rwkind isrw s" and "valid_addr p"
    and "unlock_hook rwkind mkind t p (isrw p) site s = (i, s')"
  shows "lc_inv rwkind isrw s' \<and> (0 \<le> i \<longrightarrow> live s' (nat i)) \<and> (\<forall>j. live s j \<longrightarrow> live s' j)"
proof -
  obtain j s1 where li': "lock_index rwkind mkind p (isrw p) s = (j, s1)" by force
  have s': "s' = (if 0 \<le> i then let r = mark_released t (nat i) s1 in
          if fst r = 0 then report_bad_unlock site (snd (snd r)) else snd (snd r) else s1)" and j: "j = i"
    using assms(3) by (auto simp: unlock_hook_def li' split_def Let_def split: if_splits)
  note li = li' [unfolded j]
  note l = lc_inv_lock_index [OF assms(1,2) li]
  show ?thesis
    using l lc_inv_released [OF l(1)] lc_inv_warned [OF lc_inv_released [OF l(1)]]
    by (auto simp: s' Let_def report_bad_unlock_def)
qed

lemma lc_inv_try_hook:
  assumes "lc_inv rwkind isrw s" and "valid_addr p" and "mode < 2"
  shows "lc_inv rwkind isrw (try_hook rwkind mkind t p (isrw p) mode site rc s) \<and>
    (\<forall>j. live s j \<longrightarrow> live (try_hook rwkind mkind t p (isrw p) mode site rc s) j)"
proof -
  obtain i s1 where li: "lock_index rwkind mkind p (isrw p) s = (i, s1)" by force
  note l = lc_inv_lock_index [OF assms(1,2) li]
  show ?thesis
    using l assms(1) lc_inv_acquired [OF l(1) l(2) assms(3)] by (auto simp: try_hook_def li)
qed

lemma prog_inv_event:
  assumes inv: "prog_inv rwkind isrw s" and ok: "event_ok isrw s e"
  shows "prog_inv rwkind isrw (lc_event rwkind mkind e s)"
proof -
  have li: "lc_inv rwkind isrw (lc s)" using inv by (simp add: prog_inv_def)
  have calls: "live (lc s) (nat (call_idx k)) \<and> call_mode k < 2" if "call_of s t = Some k" "0 \<le> call_idx k" for t k
    using inv that by (auto simp: prog_inv_def)
  show ?thesis
  proof (cases e)
    case (Lock t p rw mode site)
    obtain i c where h: "lock_hook rwkind mkind t p rw mode site (lc s) = (i, c)" by force
    have "lc_inv rwkind isrw c \<and> (0 \<le> i \<longrightarrow> live c (nat i)) \<and> (\<forall>j. live (lc s) j \<longrightarrow> live c j)"
      using lc_inv_lock_hook [OF li, of p mode mkind t site i c] ok h Lock by simp
    then show ?thesis using calls ok h Lock by (auto simp: prog_inv_def)
  next
    case (Locked t rc)
    show ?thesis
    proof (cases "call_of s t")
      case None
      then show ?thesis using inv Locked by simp
    next
      case (Some k)
      show ?thesis
      proof (cases k)
        case (InLock i mode site)
        have "lc_inv rwkind isrw (mark_acquired t (nat i) mode site (lc s))" if "0 \<le> i"
          using lc_inv_acquired [OF li] calls [OF Some] InLock that by simp
        then show ?thesis using Some InLock Locked li calls by (auto simp: prog_inv_def)
      next
        case (InCond i site)
        then show ?thesis using inv Locked Some by simp
      qed
    qed
  next
    case (TryLock t p rw mode site rc)
    then show ?thesis using lc_inv_try_hook [OF li, of p mode mkind t site rc] ok calls by (auto simp: prog_inv_def)
  next
    case (Unlock t p rw site)
    obtain i c where h: "unlock_hook rwkind mkind t p rw site (lc s) = (i, c)" by force
    have "lc_inv rwkind isrw c \<and> (0 \<le> i \<longrightarrow> live c (nat i)) \<and> (\<forall>j. live (lc s) j \<longrightarrow> live c j)"
      using lc_inv_unlock_hook [OF li, of p mkind t site i c] ok h Unlock by simp
    then show ?thesis using calls h Unlock by (auto simp: prog_inv_def)
  next
    case (Destroy p)
    have p: "valid_addr p" and u: "\<And>t hl. hl \<in> set (held_locks (lc s) t) \<Longrightarrow> addr (locks (lc s) (h_idx hl)) \<noteq> p"
      using ok Destroy by auto
    note f = lc_inv_forget [OF li p u]
    then show ?thesis using calls ok Destroy by (auto simp: prog_inv_def)
  next
    case (CondWait t p site)
    obtain i c where h: "unlock_hook rwkind mkind t p False site (lc s) = (i, c)" by force
    have "lc_inv rwkind isrw c \<and> (0 \<le> i \<longrightarrow> live c (nat i)) \<and> (\<forall>j. live (lc s) j \<longrightarrow> live c j)"
      using lc_inv_unlock_hook [OF li, of p mkind t site i c] ok h CondWait by simp
    then show ?thesis using calls h CondWait by (auto simp: prog_inv_def)
  next
    case (CondDone t)
    show ?thesis
    proof (cases "call_of s t")
      case None
      then show ?thesis using inv CondDone by simp
    next
      case (Some k)
      show ?thesis
      proof (cases k)
        case (InLock i mode site)
        then show ?thesis using inv CondDone Some by simp
      next
        case (InCond i site)
        have "lc_inv rwkind isrw (after_cond_wait t i site (lc s)) \<and>
            live (after_cond_wait t i site (lc s)) = live (lc s)"
        proof (cases "i < 0")
          case True
          then show ?thesis using li by (simp add: after_cond_wait_def)
        next
          case False
          then have "live (lc s) (nat i)" using calls [OF Some] InCond by simp
          note e = lc_inv_edges [OF li this, of WR t site]
          then show ?thesis
            using False lc_inv_acquired [of rwkind isrw _ "nat i" WR t site] \<open>live (lc s) (nat i)\<close>
            by (simp add: after_cond_wait_def)
        qed
        then show ?thesis using Some InCond CondDone calls by (auto simp: prog_inv_def)
      qed
    qed
  next
    case (Blocking t fn site)
    then show ?thesis
      using li lc_inv_warned [OF li] calls by (auto simp: prog_inv_def check_blocking_def report_blocking_def)
  qed
qed

lemma prog_inv_init: "prog_inv rwkind isrw prog_init"
  by (auto simp: prog_inv_def lc_inv_def prog_init_def lc_init_def live_def valid_addr_def table_inv_def
      fresh_lockinfo_def wait_cycle_def)

lemma prog_inv_run:
  "prog_inv rwkind isrw s \<Longrightarrow> events_ok rwkind mkind isrw es s \<Longrightarrow> prog_inv rwkind isrw (run_events rwkind mkind es s)"
  by (induction es arbitrary: s) (auto intro: prog_inv_event)

text \<open>A program that takes one lock, whatever its address hashes to.\<close>

lemma lock_index_quiet:
  "n_warn (snd (lock_index rwkind mkind p rw s)) = n_warn s"
  "held_locks (snd (lock_index rwkind mkind p rw s)) = held_locks s"
  by (auto simp: lock_index_def split_def Let_def)

lemma one_lock_quiet:
  "n_warn (lc (run_events rwkind mkind [Lock t p rw mode site, Locked t rc] prog_init)) = (\<lambda>_. 0)"
proof -
  obtain i c where li: "lock_index rwkind mkind p rw lc_init = (i, c)" by force
  have "n_warn c = (\<lambda>_. 0)" "held_locks c = (\<lambda>_. [])"
    using lock_index_quiet [of rwkind mkind p rw lc_init] li by (simp_all add: lc_init_def)
  then show ?thesis
    by (simp add: lock_hook_def li prog_init_def before_wait_def check_and_add_edges_def
        mark_acquired_def Let_def)
qed

lemma held_find_snoc:
  "idx \<notin> h_idx ` set hs \<Longrightarrow> held_find (hs @ [h]) idx k = (if h_idx h = idx then int (k + length hs) else - 1)"
  by (induction hs arbitrary: k) auto

section \<open>Properties\<close>

text \<open>C2: The search of \<^verbatim>\<open>find_path\<close> always ends, stays inside its fixed arrays, and finds a path
  exactly if there is one: a chain of edges on which each thread waits for the next one.\<close>

theorem find_path_correct:
  assumes "from < MAX_LOCKS" and "from_want < 2"
  shows "(find_path ls es from from_want target hold = Some None \<and>
     \<not> (\<exists>steps st. wpath ls es target (from * 2 + from_want) steps st \<and> st div 2 = target \<and>
          waits ls target (st mod 2) hold)) \<or>
    (\<exists>steps st. find_path ls es from from_want target hold =
       Some (Some (from # map (\<lambda>(c, st). st div 2) steps, map fst steps)) \<and>
       length steps < 2 * MAX_LOCKS \<and>
       wpath ls es target (from * 2 + from_want) steps st \<and> st div 2 = target \<and>
       waits ls target (st mod 2) hold)"
  using find_path_result [OF assms] .

theorem find_path_correct_witness:
  "\<exists>r. find_path (locks lc_init) (edges lc_init) 3 WR 5 WR = Some r"
  using find_path_correct [of 3 WR "locks lc_init" "edges lc_init" 5 WR] by (auto simp: MAX_LOCKS_def)

text \<open>C1: If a program has run without a warning W1, the recorded lock order graph has no cycle
  on which every thread would wait for the next one: every possible circular wait is
  reported when its last edge is recorded.\<close>

theorem no_warning_no_cycle:
  assumes "events_ok rwkind mkind isrw evs prog_init"
    and "n_warn (lc (run_events rwkind mkind evs prog_init)) 1 = 0"
  shows "\<not> wait_cycle (locks (lc (run_events rwkind mkind evs prog_init)))
    (edges (lc (run_events rwkind mkind evs prog_init))) cs"
  using prog_inv_run [OF prog_inv_init assms(1)] assms(2) by (simp add: prog_inv_def lc_inv_def)

theorem no_warning_no_cycle_witness:
  "\<not> wait_cycle (locks (lc (run_events (\<lambda>_. 0) (\<lambda>_. 0) [Lock 1 16 False WR 100, Locked 1 0] prog_init)))
    (edges (lc (run_events (\<lambda>_. 0) (\<lambda>_. 0) [Lock 1 16 False WR 100, Locked 1 0] prog_init))) [(3, 3), (7, 3)]"
proof (rule no_warning_no_cycle [where isrw = "\<lambda>_. False"])
  show "events_ok (\<lambda>_. 0) (\<lambda>_. 0) (\<lambda>_. False) [Lock 1 16 False WR 100, Locked 1 0] prog_init"
    by (simp add: prog_init_def valid_addr_def NULL_def TOMBSTONE_def)
qed (simp only: one_lock_quiet)

text \<open>C3: The table maps every lock to one index that no other lock has, finds it again whatever
  else was inserted or destroyed, and refuses a new lock only when all 256 entries are in use
  by others; destroying a lock removes it and no other one.\<close>

theorem lock_table_refines_map:
  assumes "table_inv (locks s)" and "valid_addr p" and "lock_index rwkind mkind p rw s = (i, s')"
  shows "table_inv (locks s') \<and> table_inv (locks (lock_forget p s)) \<and>
    (\<forall>j. index_of (locks s) p j \<longrightarrow> i = int j) \<and>
    (0 \<le> i \<longrightarrow> index_of (locks s') p (nat i)) \<and>
    (i < 0 \<longleftrightarrow> (\<forall>j<MAX_LOCKS. valid_addr (addr (locks s j)) \<and> addr (locks s j) \<noteq> p)) \<and>
    (\<forall>j. \<not> index_of (locks (lock_forget p s)) p j) \<and>
    (\<forall>q j. valid_addr q \<longrightarrow> q \<noteq> p \<longrightarrow> index_of (locks s') q j = index_of (locks s) q j \<and>
       index_of (locks (lock_forget p s)) q j = index_of (locks s) q j)"
  using lock_index_inv [OF assms] lock_forget_inv [OF assms(1,2)] by blast

theorem lock_table_refines_map_witness:
  "\<exists>i s'. lock_index (\<lambda>_. 0) (\<lambda>_. 0) 16 False lc_init = (i, s') \<and> 0 \<le> i \<and> index_of (locks s') 16 (nat i)"
proof -
  obtain i s' where li: "lock_index (\<lambda>_. 0) (\<lambda>_. 0) 16 False lc_init = (i, s')" by force
  have inv: "table_inv (locks lc_init)"
    by (simp add: table_inv_def lc_init_def fresh_lockinfo_def valid_addr_def)
  have v: "valid_addr 16" by (simp add: valid_addr_def NULL_def TOMBSTONE_def)
  have "0 < MAX_LOCKS \<and> \<not> valid_addr (addr (locks lc_init 0))"
    by (simp add: lc_init_def fresh_lockinfo_def valid_addr_def MAX_LOCKS_def)
  then have "\<not> i < 0" using lock_table_refines_map [OF inv v li] by blast
  with lock_table_refines_map [OF inv v li] li show ?thesis by (intro exI [of _ i] exI [of _ s']) simp
qed

text \<open>C17: A lock that a thread has just taken is recognised as held at its release exactly if the
  thread held fewer than 32 other locks: the thirty-third one is reported as a false W4.\<close>

theorem release_recognised_iff_room:
  assumes "idx \<notin> h_idx ` set (held_locks s t)"
  shows "fst (mark_released t idx (mark_acquired t idx mode site s)) =
    (if length (held_locks s t) < MAX_HELD then 1 else 0)"
proof -
  have "held_find (held_locks s t) idx 0 < 0" using assms by (simp add: held_find_neg)
  then show ?thesis
    using assms by (auto simp: mark_released_def mark_acquired_def held_add_def held_find_snoc split_def Let_def)
qed

theorem release_recognised_iff_room_witness:
  "fst (mark_released 7 3 (mark_acquired 7 3 WR 100 lc_init)) = 1"
  using release_recognised_iff_room [of 3 lc_init 7 WR 100] by (simp add: lc_init_def MAX_HELD_def)

end
