(* ===== verification/Text.thy ===== *)
theory Text
  imports Main
begin

text \<open>
  Text as the C programs print and read it: decimal digits, \<^verbatim>\<open>%d\<close> and zero-padded fields,
  the characters \<^verbatim>\<open>isspace\<close> accepts, and \<^verbatim>\<open>strtoull\<close>. A byte is a \<open>char\<close>.
\<close>

definition LF :: char where "LF = CHR 0x0A"
definition CR :: char where "CR = CHR 0x0D"

definition digit :: "nat \<Rightarrow> char" where
  "digit n = char_of (48 + n)"

definition is_digit :: "char \<Rightarrow> bool" where
  "is_digit c \<longleftrightarrow> 48 \<le> (of_char c :: nat) \<and> (of_char c :: nat) \<le> 57"

definition digit_val :: "char \<Rightarrow> nat" where
  "digit_val c = of_char c - 48"

definition printable :: "char \<Rightarrow> bool" where
  "printable c \<longleftrightarrow> 32 \<le> (of_char c :: nat) \<and> (of_char c :: nat) \<le> 126"

text \<open>\<^verbatim>\<open>%d\<close> of a number that is not negative.\<close>

fun dec :: "nat \<Rightarrow> string" where
  "dec n = (if n < 10 then [digit n] else dec (n div 10) @ [digit (n mod 10)])"

declare dec.simps [simp del]

text \<open>The value of a digit string, and a number padded with zeros to \<open>k\<close> digits.\<close>

fun num_from :: "nat \<Rightarrow> string \<Rightarrow> nat" where
  "num_from acc [] = acc"
| "num_from acc (c # cs) = num_from (acc * 10 + digit_val c) cs"

definition num :: "string \<Rightarrow> nat" where
  "num s = num_from 0 s"

fun pad :: "nat \<Rightarrow> nat \<Rightarrow> string" where
  "pad 0 n = []"
| "pad (Suc k) n = pad k (n div 10) @ [digit (n mod 10)]"

definition is_space :: "char \<Rightarrow> bool" where
  "is_space c \<longleftrightarrow> (of_char c :: nat) = 32 \<or> 9 \<le> (of_char c :: nat) \<and> (of_char c :: nat) \<le> 13"

definition ULLONG_MAX :: nat where "ULLONG_MAX = 2 ^ 64 - 1"

text \<open>
  \<^verbatim>\<open>strtoull(s, &end, 10)\<close>: the value, what is left of the string at \<^verbatim>\<open>end\<close>, and whether
  \<^verbatim>\<open>errno\<close> was set. A minus sign negates the value modulo \<open>2^64\<close>.
\<close>

definition strtoull :: "string \<Rightarrow> nat \<times> string \<times> bool" where
  "strtoull s =
     (let t = dropWhile is_space s;
          neg = (t \<noteq> [] \<and> hd t = CHR ''-'');
          u = (if t \<noteq> [] \<and> hd t \<in> {CHR ''-'', CHR ''+''} then tl t else t);
          ds = takeWhile is_digit u
      in if ds = [] then (0, s, False)
         else let v = num ds in
           if v > ULLONG_MAX then (ULLONG_MAX, dropWhile is_digit u, True)
           else (if neg then (2 ^ 64 - v) mod 2 ^ 64 else v, dropWhile is_digit u, False))"

section \<open>Digits\<close>

lemma of_char_digit [simp]: "n < 10 \<Longrightarrow> of_char (digit n) = 48 + n"
  by (simp add: digit_def)

lemma is_digit_digit [simp]: "n < 10 \<Longrightarrow> is_digit (digit n)"
  by (simp add: is_digit_def)

lemma digit_val_digit [simp]: "n < 10 \<Longrightarrow> digit_val (digit n) = n"
  by (simp add: digit_val_def)

lemma digit_digit_val [simp]: "is_digit c \<Longrightarrow> digit (digit_val c) = c"
  by (simp add: is_digit_def digit_def digit_val_def)

lemma digit_val_less: "is_digit c \<Longrightarrow> digit_val c < 10"
  by (auto simp: is_digit_def digit_val_def)

lemma printable_digit: "is_digit c \<Longrightarrow> printable c"
  by (simp add: is_digit_def printable_def)

lemma dec_digits: "c \<in> set (dec n) \<Longrightarrow> is_digit c"
proof (induction n rule: dec.induct)
  case (1 n)
  then show ?case by (subst (asm) dec.simps) (auto split: if_splits)
qed

lemma dec_not_Nil [simp]: "dec n \<noteq> []"
  by (subst dec.simps) simp

lemma num_from_append: "num_from acc (xs @ ys) = num_from (num_from acc xs) ys"
  by (induction xs arbitrary: acc) auto

lemma num_snoc: "num (xs @ [c]) = num xs * 10 + digit_val c"
  by (simp add: num_def num_from_append)

lemma num_dec [simp]: "num (dec n) = n"
proof (induction n rule: dec.induct)
  case (1 n)
  then show ?case by (subst dec.simps) (auto simp: num_snoc, simp add: num_def)
qed

lemma dec_inject: "dec m = dec n \<Longrightarrow> m = n"
  using num_dec by metis

lemma length_dec: "n < 10 ^ k \<Longrightarrow> 0 < k \<Longrightarrow> length (dec n) \<le> k"
proof (induction k arbitrary: n)
  case 0
  then show ?case by simp
next
  case (Suc k)
  show ?case
  proof (cases "n < 10")
    case True
    then show ?thesis by (subst dec.simps) simp
  next
    case False
    with Suc.prems have k: "0 < k" by (cases k) auto
    have "n div 10 < 10 ^ k" using Suc.prems(1) by (simp add: less_mult_imp_div_less mult.commute)
    with Suc.IH k False show ?thesis by (subst dec.simps) simp
  qed
qed

lemma length_pad [simp]: "length (pad k n) = k"
  by (induction k arbitrary: n) auto

lemma pad_digits: "c \<in> set (pad k n) \<Longrightarrow> is_digit c"
  by (induction k arbitrary: n) auto

lemma num_pad: "num (pad k n) = n mod 10 ^ k"
proof (induction k arbitrary: n)
  case 0
  then show ?case by (simp add: num_def)
next
  case (Suc k)
  have "n mod 10 ^ Suc k = (n div 10) mod 10 ^ k * 10 + n mod 10"
    using mod_mult2_eq [of n 10 "10 ^ k"] by simp
  then show ?case using Suc by (simp add: num_snoc)
qed

text \<open>A string of \<open>k\<close> digits is what its value prints as.\<close>

lemma pad_num: "\<forall>c\<in>set s. is_digit c \<Longrightarrow> pad (length s) (num s) = s"
proof (induction s rule: rev_induct)
  case Nil
  then show ?case by simp
next
  case (snoc c s)
  have "digit_val c < 10" using snoc.prems digit_val_less by simp
  then show ?case using snoc by (simp add: num_snoc)
qed

lemma num_less: "\<forall>c\<in>set s. is_digit c \<Longrightarrow> num s < 10 ^ length s"
  using num_pad [of "length s" "num s"] pad_num [of s] by (metis mod_less_divisor zero_less_numeral zero_less_power)

end
