(* ===== verification/Io.thy ===== *)
theory Io
  imports Complex_Main
begin

text \<open>
  System calls as an explicit script of answers: every call takes the next answer and reads the
  fields of it that the call has. A program is a function of the state that returns a value and
  the new state, or stops: because the script is over (\<open>Cut\<close>, the run is a prefix of a longer
  one), because it called \<^verbatim>\<open>exit\<close>, or because it did something C leaves undefined or that must not
  happen (\<open>Fault\<close>: a store outside its array, \<^verbatim>\<open>close\<close> of a descriptor that is not open). A signal
  handler that sets a flag runs between two calls. The library holds Hoare rules for programs; a
  triple promises that no run ends in a \<open>Fault\<close>.
\<close>

datatype errno = EINTR | EAGAIN | EINPROGRESS | EOTHER

record answer =
  a_ok :: bool
  a_err :: errno
  a_n :: int
  a_time :: real
  a_data :: string
  a_events :: "nat list"
  a_signal :: bool

datatype stop = Cut | Exit nat | Fault

record io_state =
  script :: "answer list"
  interrupted :: bool
  fds :: "int set"

type_synonym ('z, 'a) io = "'z io_state_scheme \<Rightarrow> stop + 'a \<times> 'z io_state_scheme"

section \<open>Programs\<close>

definition ret :: "'a \<Rightarrow> ('z, 'a) io" where
  "ret x s = Inr (x, s)"

definition halt :: "stop \<Rightarrow> ('z, 'a) io" where
  "halt e s = Inl e"

definition andthen :: "('z, 'a) io \<Rightarrow> ('a \<Rightarrow> ('z, 'b) io) \<Rightarrow> ('z, 'b) io" where
  "andthen m f s = (case m s of Inl e \<Rightarrow> Inl e | Inr (x, s') \<Rightarrow> f x s')"

definition gets :: "('z io_state_scheme \<Rightarrow> 'a) \<Rightarrow> ('z, 'a) io" where
  "gets f s = Inr (f s, s)"

definition modify :: "('z io_state_scheme \<Rightarrow> 'z io_state_scheme) \<Rightarrow> ('z, unit) io" where
  "modify f s = Inr ((), f s)"

definition unless_fault :: "bool \<Rightarrow> ('z, 'a) io \<Rightarrow> ('z, 'a) io" where
  "unless_fault safe m = (if safe then m else halt Fault)"

fun fold_io :: "('b \<Rightarrow> 'a \<Rightarrow> ('z, 'b) io) \<Rightarrow> 'b \<Rightarrow> 'a list \<Rightarrow> ('z, 'b) io" where
  "fold_io f b [] = ret b"
| "fold_io f b (x # xs) = andthen (f b x) (\<lambda>b'. fold_io f b' xs)"

definition each_io :: "('a \<Rightarrow> ('z, unit) io) \<Rightarrow> 'a list \<Rightarrow> ('z, unit) io" where
  "each_io f = fold_io (\<lambda>_. f) ()"

text \<open>
  A loop that may be left in its body: \<open>Inl\<close> goes round with the new value of the loop's variables,
  \<open>Inr\<close> leaves. Each round of every loop of these programs makes a system call before it goes
  round, so that the length of the script is enough fuel (\<open>loop_fuel\<close>).
\<close>

fun loop_io :: "nat \<Rightarrow> ('b \<Rightarrow> ('z, 'b + 'a) io) \<Rightarrow> 'b \<Rightarrow> ('z, 'a) io" where
  "loop_io 0 body b = halt Cut"
| "loop_io (Suc n) body b =
     andthen (body b) (\<lambda>r. case r of Inl b' \<Rightarrow> loop_io n body b' | Inr x \<Rightarrow> ret x)"

definition while_io :: "('b \<Rightarrow> ('z, 'b + 'a) io) \<Rightarrow> 'b \<Rightarrow> ('z, 'a) io" where
  "while_io body b s = loop_io (Suc (length (script s))) body b s"

section \<open>System calls\<close>

definition pop :: "('z, answer) io" where
  "pop s = (case script s of
     [] \<Rightarrow> Inl Cut
   | a # rest \<Rightarrow> Inr (a, s\<lparr>script := rest, interrupted := interrupted s \<or> a_signal a\<rparr>))"

definition new_fd :: "('z, int) io" where
  "new_fd = andthen pop (\<lambda>a s.
     if a_ok a \<and> 0 \<le> a_n a \<and> a_n a \<notin> fds s then Inr (a_n a, s\<lparr>fds := insert (a_n a) (fds s)\<rparr>) else Inr (-1, s))"

definition close_fd :: "int \<Rightarrow> ('z, unit) io" where
  "close_fd fd s = (if fd \<in> fds s then Inr ((), s\<lparr>fds := fds s - {fd}\<rparr>) else Inl Fault)"

definition close_if_open :: "int \<Rightarrow> ('z, unit) io" where
  "close_if_open fd = (if fd \<ge> 0 then close_fd fd else ret ())"

section \<open>Triples\<close>

definition valid :: "('z io_state_scheme \<Rightarrow> bool) \<Rightarrow> ('z, 'a) io \<Rightarrow> ('a \<Rightarrow> 'z io_state_scheme \<Rightarrow> bool) \<Rightarrow> bool" where
  "valid P m Q \<longleftrightarrow> (\<forall>s. P s \<longrightarrow> (case m s of Inl e \<Rightarrow> e \<noteq> Fault | Inr (x, s') \<Rightarrow> Q x s'))"

named_theorems vcg \<open>rules for triples\<close>

lemma valid_result: "valid P m Q \<Longrightarrow> P s \<Longrightarrow> m s = Inr (x, s') \<Longrightarrow> Q x s'"
  unfolding valid_def by fastforce

lemma valid_no_fault: "valid P m Q \<Longrightarrow> P s \<Longrightarrow> m s \<noteq> Inl Fault"
  unfolding valid_def by (metis sum.case(1))

lemma valid_pre: "valid P m Q \<Longrightarrow> (\<And>s. P' s \<Longrightarrow> P s) \<Longrightarrow> valid P' m Q"
  unfolding valid_def by blast

lemma valid_post: "valid P m Q \<Longrightarrow> (\<And>x s. Q x s \<Longrightarrow> Q' x s) \<Longrightarrow> valid P m Q'"
  unfolding valid_def by (metis (mono_tags, lifting) case_prod_conv prod.exhaust sum.case sum.exhaust)

lemma valid_cons: "valid P m Q \<Longrightarrow> (\<And>s. P' s \<Longrightarrow> P s) \<Longrightarrow> (\<And>x s. Q x s \<Longrightarrow> Q' x s) \<Longrightarrow> valid P' m Q'"
  by (blast intro: valid_pre valid_post)

lemma valid_ret: "valid (Q x) (ret x) Q"
  by (simp add: valid_def ret_def)

lemma valid_halt: "e \<noteq> Fault \<Longrightarrow> valid P (halt e) Q"
  by (simp add: valid_def halt_def)

lemma valid_andthen: "valid P m R \<Longrightarrow> (\<And>x. valid (R x) (f x) Q) \<Longrightarrow> valid P (andthen m f) Q"
  unfolding valid_def andthen_def by (fastforce split: sum.splits prod.splits)

lemma valid_gets: "valid (\<lambda>s. Q (f s) s) (gets f) Q"
  by (simp add: valid_def gets_def)

lemma valid_modify: "valid (\<lambda>s. Q () (f s)) (modify f) Q"
  by (simp add: valid_def modify_def)

lemma valid_if: "(b \<Longrightarrow> valid P m Q) \<Longrightarrow> (\<not> b \<Longrightarrow> valid P m' Q) \<Longrightarrow> valid P (if b then m else m') Q"
  by simp

lemma valid_pure: "(b \<Longrightarrow> valid P m Q) \<Longrightarrow> valid (\<lambda>s. b \<and> P s) m Q"
  by (auto simp: valid_def)

lemma valid_conj: "valid P m Q \<Longrightarrow> valid P' m Q' \<Longrightarrow> valid (\<lambda>s. P s \<and> P' s) m (\<lambda>x s. Q x s \<and> Q' x s)"
  unfolding valid_def by (fastforce split: sum.splits prod.splits)

lemma valid_pop: "(\<And>s a rest. P s \<Longrightarrow> script s = a # rest \<Longrightarrow> Q a (s\<lparr>script := rest, interrupted := interrupted s \<or> a_signal a\<rparr>)) \<Longrightarrow>
   valid P pop Q"
  by (auto simp: valid_def pop_def split: list.splits)

lemma valid_unless_fault: "(\<And>s. P s \<Longrightarrow> safe) \<Longrightarrow> valid P m Q \<Longrightarrow> valid P (unless_fault safe m) Q"
  by (auto simp: valid_def unless_fault_def)

text \<open>The value of a state component bound by \<open>gets\<close> is known in what follows.\<close>

lemma valid_gets_bind: "(\<And>v. valid (\<lambda>s. P s \<and> v = f s) (g v) Q) \<Longrightarrow> valid P (andthen (gets f) g) Q"
  by (fastforce simp: valid_def andthen_def gets_def)

lemma valid_fold:
  assumes "\<And>b x ys zs. xs = ys @ x # zs \<Longrightarrow> valid (I b ys) (f b x) (\<lambda>b'. I b' (ys @ [x]))"
  shows "valid (I b []) (fold_io f b xs) (\<lambda>b'. I b' xs)"
proof -
  have "valid (I b ys) (fold_io f b zs) (\<lambda>b'. I b' xs)" if "xs = ys @ zs" for b ys zs
    using that
  proof (induction zs arbitrary: b ys)
    case Nil
    then show ?case by (simp add: valid_def ret_def)
  next
    case (Cons z zs)
    have "valid (I b' (ys @ [z])) (fold_io f b' zs) (\<lambda>b'. I b' xs)" for b' using Cons by simp
    then show ?case using assms [OF Cons.prems] by (auto intro: valid_andthen)
  qed
  from this [of "[]"] show ?thesis by simp
qed

lemma valid_fold_inv: "(\<And>b x. x \<in> set xs \<Longrightarrow> valid (I b) (f b x) I) \<Longrightarrow> valid (I b) (fold_io f b xs) I"
  using valid_fold [where I = "\<lambda>b _. I b" and xs = xs and f = f] by auto

lemma valid_each: "(\<And>x. x \<in> set xs \<Longrightarrow> valid I (f x) (\<lambda>_. I)) \<Longrightarrow> valid I (each_io f xs) (\<lambda>_. I)"
  unfolding each_io_def using valid_fold_inv [where I = "\<lambda>_. I" and f = "\<lambda>_. f"] by auto

lemma valid_loop:
  assumes "\<And>b. valid (I b) (body b) (\<lambda>r s. case r of Inl b' \<Rightarrow> I b' s | Inr x \<Rightarrow> Q x s)"
  shows "valid (I b) (loop_io n body b) Q"
proof (induction n arbitrary: b)
  case 0
  then show ?case by (simp add: valid_halt)
next
  case (Suc n)
  have "valid (case r of Inl b' \<Rightarrow> I b' | Inr x \<Rightarrow> Q x) (case r of Inl b' \<Rightarrow> loop_io n body b' | Inr x \<Rightarrow> ret x) Q" for r
    using Suc by (cases r) (auto simp: valid_ret)
  moreover have "valid (I b) (body b) (\<lambda>r. case r of Inl b' \<Rightarrow> I b' | Inr x \<Rightarrow> Q x)"
    using assms [of b] by (rule valid_post) (auto split: sum.splits)
  ultimately show ?case by (auto intro: valid_andthen)
qed

lemma valid_while:
  assumes "\<And>b. valid (I b) (body b) (\<lambda>r s. case r of Inl b' \<Rightarrow> I b' s | Inr x \<Rightarrow> Q x s)"
  shows "valid (I b) (while_io body b) Q"
  using valid_loop [where I = I and body = body and Q = Q, OF assms] unfolding valid_def while_io_def by blast

section \<open>Fuel\<close>

text \<open>A loop whose body uses an answer before it goes round gives the same result with any larger fuel.\<close>

definition consumes :: "('z, 'a) io \<Rightarrow> ('a \<Rightarrow> bool) \<Rightarrow> bool" where
  "consumes m strict \<longleftrightarrow>
     (\<forall>s x s'. m s = Inr (x, s') \<longrightarrow> length (script s') \<le> length (script s) \<and>
        (strict x \<longrightarrow> length (script s') < length (script s)))"

lemma loop_fuel:
  assumes "\<And>b. consumes (body b) isl"
  shows "length (script s) < n \<Longrightarrow> n \<le> m \<Longrightarrow> loop_io m body b s = loop_io n body b s"
proof (induction n arbitrary: b s m)
  case 0
  then show ?case by simp
next
  case (Suc n)
  then obtain k where m: "m = Suc k" "n \<le> k" by (cases m) auto
  show ?case
  proof (cases "body b s")
    case (Inl e)
    then show ?thesis by (simp add: m andthen_def)
  next
    case (Inr r)
    obtain x s' where r: "r = (x, s')" by (cases r)
    show ?thesis
    proof (cases x)
      case (Inl b')
      have "length (script s') < length (script s)"
        using assms [of b] \<open>body b s = Inr r\<close> r Inl unfolding consumes_def by fastforce
      then have "loop_io k body b' s' = loop_io n body b' s'" using Suc.IH [of s' k b'] Suc.prems m(2) by simp
      then show ?thesis using \<open>body b s = Inr r\<close> r Inl by (simp add: m andthen_def)
    next
      case (Inr y)
      then show ?thesis using \<open>body b s = Inr r\<close> r by (simp add: m andthen_def)
    qed
  qed
qed

theorem while_fuel:
  assumes "\<And>b. consumes (body b) isl" "length (script s) < n"
  shows "while_io body b s = loop_io n body b s"
  unfolding while_io_def by (rule loop_fuel [OF assms(1), symmetric]) (simp, use assms(2) in simp)

lemma consumes_andthen:
  assumes "consumes m S" "\<And>x. consumes (f x) (if S x then (\<lambda>_. False) else T)" 
  shows "consumes (andthen m f) T"
  unfolding consumes_def
proof (intro allI impI)
  fix s y s' assume "andthen m f s = Inr (y, s')"
  then obtain x t where m: "m s = Inr (x, t)" and f: "f x t = Inr (y, s')"
    by (auto simp: andthen_def split: sum.splits prod.splits)
  have 1: "length (script t) \<le> length (script s)" "S x \<longrightarrow> length (script t) < length (script s)"
    using assms(1) m unfolding consumes_def by blast+
  have 2: "length (script s') \<le> length (script t)" "\<not> S x \<longrightarrow> T y \<longrightarrow> length (script s') < length (script t)"
    using assms(2) [of x] f unfolding consumes_def by (cases "S x"; simp)+
  show "length (script s') \<le> length (script s) \<and> (T y \<longrightarrow> length (script s') < length (script s))"
    using 1 2 by (cases "S x") auto
qed

lemma consumes_weaken: "consumes m S \<Longrightarrow> (\<And>x. T x \<Longrightarrow> S x) \<Longrightarrow> consumes m T"
  unfolding consumes_def by blast

lemma consumes_pop: "consumes pop S"
  by (auto simp: consumes_def pop_def split: list.splits)

lemma consumes_ret: "(\<not> S x) \<Longrightarrow> consumes (ret x) S"
  by (simp add: consumes_def ret_def)

lemma consumes_halt: "consumes (halt e) S"
  by (simp add: consumes_def halt_def)

lemma consumes_gets: "consumes (gets f) (\<lambda>_. False)"
  by (simp add: consumes_def gets_def)

lemma consumes_modify: "(\<And>s. length (script (f s)) \<le> length (script s)) \<Longrightarrow> consumes (modify f) (\<lambda>_. False)"
  by (simp add: consumes_def modify_def)

end
