(* ===== verification/LoadgenLine.thy ===== *)
theory LoadgenLine
  imports Complex_Main Prelude Text
begin

text \<open>
  The load generator of \<^verbatim>\<open>Week3/Assignment3/loadgen/loadgen.c\<close>, first part: its data types, its
  command line, the requests it sends and the check of the lines it gets back. Bytes are
  characters, an array with its length is a string, times (C doubles) are reals without
  rounding. \<^verbatim>\<open>getopt_long\<close>, \<^verbatim>\<open>strtod\<close>, \<^verbatim>\<open>inet_pton\<close> and \<^verbatim>\<open>getrlimit\<close> are the system's: what they
  answer is an argument of \<open>parse\<close>. \<^verbatim>\<open>exit(n)\<close> is the value \<open>Inl n\<close>.
\<close>

section \<open>Types\<close>

definition LINE_MAX_BYTES :: nat where "LINE_MAX_BYTES = 256"
definition MAX_SAMPLES :: nat where "MAX_SAMPLES = 2000000"

datatype workload = W_ECHO | W_TIME | W_COMPUTE | W_MIXED | W_FUNCTIONAL | W_RESPONSIVE
datatype command = C_ECHO | C_TIME | C_COMPUTE | C_QUIT
datatype status = S_OK | S_BUSY | S_PROTOCOL | S_IO | S_TIMEOUT | S_CANCELLED
datatype cstate = IDLE | SENDING | READING | DONE

definition work_names :: "(string \<times> workload) list" where
  "work_names = [(''echo'', W_ECHO), (''time'', W_TIME), (''compute'', W_COMPUTE), (''mixed'', W_MIXED),
     (''functional'', W_FUNCTIONAL), (''responsive'', W_RESPONSIVE)]"

record config =
  c_ip :: string
  c_json :: "string option"
  c_label :: string
  c_port :: nat
  c_clients :: nat
  c_requests :: nat
  c_percent :: nat
  c_seed :: nat
  c_work :: nat
  c_workload :: workload
  c_timeout :: real
  c_connect_timeout :: real
  c_max_seconds :: real
  c_interval :: real
  c_backoff :: real
  c_probe_delay :: real
  c_fragment_delay :: real

record sample =
  s_client :: nat
  s_sequence :: nat
  s_command :: command
  s_status :: status
  s_start :: real
  s_end :: real

text \<open>\<^verbatim>\<open>tx\<close> holds \<^verbatim>\<open>tx_len\<close> bytes and \<^verbatim>\<open>rx\<close> the \<^verbatim>\<open>rx_len\<close> bytes received so far.\<close>

record client =
  p_fd :: int
  p_id :: nat
  p_seq :: nat
  p_target :: nat
  p_state :: cstate
  p_command :: command
  p_tx :: string
  p_rx :: string
  p_expected :: string
  p_sent :: nat
  p_started :: real
  p_due :: real

definition calloc_client :: client where
  "calloc_client = \<lparr>p_fd = 0, p_id = 0, p_seq = 0, p_target = 0, p_state = IDLE, p_command = C_ECHO, p_tx = [],
     p_rx = [], p_expected = [], p_sent = 0, p_started = 0, p_due = 0\<rparr>"

definition milliseconds :: "real \<Rightarrow> int" where
  "milliseconds seconds =
     (if seconds \<le> 0 then 0 else if seconds > 1 then 1000 else \<lceil>seconds * 1000\<rceil>)"

section \<open>The command line\<close>

definition integer :: "string \<Rightarrow> nat \<Rightarrow> nat \<Rightarrow> nat + nat" where
  "integer s lo hi =
     (let (v, rest, errno) = strtoull s
      in if s = [] \<or> hd s = CHR ''-'' \<or> rest \<noteq> [] \<or> errno \<or> v < lo \<or> v > hi then Inl 2 else Inr v)"

text \<open>\<^verbatim>\<open>strtod\<close>: the value if it is finite, what is left of the string, and whether it set \<^verbatim>\<open>errno\<close>.\<close>

type_synonym strtod = "string \<Rightarrow> real option \<times> string \<times> bool"

definition number :: "strtod \<Rightarrow> string \<Rightarrow> real \<Rightarrow> real \<Rightarrow> nat + real" where
  "number strtod s lo hi =
     (case strtod s of (v, rest, errno) \<Rightarrow>
        if s = [] \<or> rest \<noteq> [] \<or> errno then Inl 2
        else case v of None \<Rightarrow> Inl 2 | Some x \<Rightarrow> if x < lo \<or> x > hi then Inl 2 else Inr x)"

definition default_config :: config where
  "default_config = \<lparr>c_ip = [], c_json = None, c_label = [], c_port = 0, c_clients = 0, c_requests = 0, c_percent = 20,
     c_seed = 1, c_work = 1000000, c_workload = W_ECHO, c_timeout = 5, c_connect_timeout = 10,
     c_max_seconds = 120, c_interval = 0, c_backoff = 0, c_probe_delay = 2 / 100, c_fragment_delay = 4 / 100\<rparr>"

text \<open>The cases of the option loop; \<open>map_sum id f\<close> stores a value that was accepted.\<close>

definition set_option :: "strtod \<Rightarrow> config \<Rightarrow> char \<times> string \<Rightarrow> nat + config" where
  "set_option strtod c oa =
     (let (opt, optarg) = oa in
      if opt = CHR ''w'' then map_sum id (\<lambda>v. c\<lparr>c_work := v\<rparr>) (integer optarg 1 (2 ^ 63 - 1))
      else if opt = CHR ''p'' then map_sum id (\<lambda>v. c\<lparr>c_percent := v\<rparr>) (integer optarg 0 100)
      else if opt = CHR ''s'' then map_sum id (\<lambda>v. c\<lparr>c_seed := v\<rparr>) (integer optarg 0 (2 ^ 32 - 1))
      else if opt = CHR ''t'' then map_sum id (\<lambda>v. c\<lparr>c_timeout := v\<rparr>) (number strtod optarg (1 / 100) 3600)
      else if opt = CHR ''c'' then map_sum id (\<lambda>v. c\<lparr>c_connect_timeout := v\<rparr>) (number strtod optarg (1 / 100) 3600)
      else if opt = CHR ''m'' then map_sum id (\<lambda>v. c\<lparr>c_max_seconds := v\<rparr>) (number strtod optarg (5 / 100) 86400)
      else if opt = CHR ''i'' then map_sum id (\<lambda>v. c\<lparr>c_interval := v / 1000\<rparr>) (number strtod optarg 0 60000)
      else if opt = CHR ''b'' then map_sum id (\<lambda>v. c\<lparr>c_backoff := v / 1000\<rparr>) (number strtod optarg 0 60000)
      else if opt = CHR ''d'' then map_sum id (\<lambda>v. c\<lparr>c_probe_delay := v / 1000\<rparr>) (number strtod optarg 0 60000)
      else if opt = CHR ''f'' then map_sum id (\<lambda>v. c\<lparr>c_fragment_delay := v / 1000\<rparr>) (number strtod optarg 1 10000)
      else if opt = CHR ''j'' then Inr (c\<lparr>c_json := Some optarg\<rparr>)
      else if opt = CHR ''l'' then Inr (c\<lparr>c_label := optarg\<rparr>)
      else if opt = CHR ''h'' \<or> opt = CHR ''v'' then Inl 0
      else Inl 2)"

fun set_options :: "strtod \<Rightarrow> config \<Rightarrow> (char \<times> string) list \<Rightarrow> nat + config" where
  "set_options strtod c [] = Inr c"
| "set_options strtod c (oa # rest) =
     (case set_option strtod c oa of Inl e \<Rightarrow> Inl e | Inr c' \<Rightarrow> set_options strtod c' rest)"

text \<open>
  \<open>opts\<close> is what \<^verbatim>\<open>getopt_long\<close> returns call by call, \<open>args\<close> the arguments from \<^verbatim>\<open>optind\<close> on,
  \<open>ipv4\<close> whether \<^verbatim>\<open>inet_pton\<close> accepts an address and \<open>nofile\<close> the limit \<^verbatim>\<open>getrlimit\<close> reports.
\<close>

definition parse_args :: "(string \<Rightarrow> bool) \<Rightarrow> nat option \<Rightarrow> config \<Rightarrow> string list \<Rightarrow> nat + config" where
  "parse_args ipv4 nofile c args =
     (case args of [ip, port, cs, rs, w] \<Rightarrow>
        if \<not> ipv4 ip then Inl 2 else
        (case integer port 1 65535 of Inl e \<Rightarrow> Inl e | Inr port \<Rightarrow>
        (case integer cs 1 10000 of Inl e \<Rightarrow> Inl e | Inr cs \<Rightarrow>
        (case integer rs 1 10000000 of Inl e \<Rightarrow> Inl e | Inr rs \<Rightarrow>
        (case map_of work_names w of None \<Rightarrow> Inl 2 | Some w \<Rightarrow>
           if w = W_RESPONSIVE \<and> cs < 2 then Inl 2
           else if w \<noteq> W_FUNCTIONAL \<and> cs * rs > MAX_SAMPLES then Inl 2
           else if (case nofile of None \<Rightarrow> False | Some l \<Rightarrow> l < cs + 32) then Inl 2
           else Inr (c\<lparr>c_ip := ip, c_port := port, c_clients := cs, c_requests := rs, c_workload := w\<rparr>)))))
      | _ \<Rightarrow> Inl 2)"

definition parse :: "strtod \<Rightarrow> (string \<Rightarrow> bool) \<Rightarrow> nat option \<Rightarrow> (char \<times> string) list \<Rightarrow> string list \<Rightarrow> nat + config" where
  "parse strtod ipv4 nofile opts args =
     (case set_options strtod default_config opts of Inl e \<Rightarrow> Inl e | Inr c \<Rightarrow> parse_args ipv4 nofile c args)"

section \<open>The check of a response line\<close>

text \<open>The directives of \<^verbatim>\<open>sscanf\<close> the program uses: \<^verbatim>\<open>%d\<close>, a literal character, white space.\<close>

datatype directive = Dec | Lit char | Blank

definition scan_d :: "string \<Rightarrow> (int \<times> string) option" where
  "scan_d s =
     (let t = dropWhile is_space s;
          neg = (t \<noteq> [] \<and> hd t = CHR ''-'');
          u = (if t \<noteq> [] \<and> hd t \<in> {CHR ''-'', CHR ''+''} then tl t else t)
      in if takeWhile is_digit u = [] then None
         else Some ((if neg then - int (num (takeWhile is_digit u)) else int (num (takeWhile is_digit u))),
                    dropWhile is_digit u))"

text \<open>\<^verbatim>\<open>%ld\<close>: a number outside the range of \<^verbatim>\<open>long\<close> is cut to it; \<^verbatim>\<open>%d\<close> and \<^verbatim>\<open>atoi\<close> keep the low 32 bits of that.\<close>

definition LONG_MAX :: int where "LONG_MAX = 2 ^ 63 - 1"

definition as_int :: "int \<Rightarrow> int" where
  "as_int v = (v + 2 ^ 31) mod 2 ^ 32 - 2 ^ 31"

definition scan_ld :: "string \<Rightarrow> (int \<times> string) option" where
  "scan_ld s = map_option (\<lambda>(v, rest). (max (- LONG_MAX - 1) (min LONG_MAX v), rest)) (scan_d s)"

definition scan_int :: "string \<Rightarrow> (int \<times> string) option" where
  "scan_int s = map_option (\<lambda>(v, rest). (as_int v, rest)) (scan_ld s)"

lemma as_int_range: "- (2 ^ 31) \<le> as_int v \<and> as_int v < 2 ^ 31"
  by (simp add: as_int_def)

lemma scan_int_range: "scan_int s = Some (v, rest) \<Longrightarrow> - (2 ^ 31) \<le> v \<and> v < 2 ^ 31"
  using as_int_range by (auto simp: scan_int_def)

lemma scan_ld_range: "scan_ld s = Some (v, rest) \<Longrightarrow> - LONG_MAX - 1 \<le> v \<and> v \<le> LONG_MAX"
  by (auto simp: scan_ld_def LONG_MAX_def)

fun sscanf :: "directive list \<Rightarrow> string \<Rightarrow> int list" where
  "sscanf [] s = []"
| "sscanf (Dec # ds) s = (case scan_d s of None \<Rightarrow> [] | Some (v, rest) \<Rightarrow> v # sscanf ds rest)"
| "sscanf (Lit c # ds) s = (if s \<noteq> [] \<and> hd s = c then sscanf ds (tl s) else [])"
| "sscanf (Blank # ds) s = sscanf ds (dropWhile is_space s)"

definition date_format :: "directive list" where
  "date_format = [Dec, Lit (CHR ''-''), Dec, Lit (CHR ''-''), Dec, Blank, Dec, Lit (CHR '':''), Dec, Lit (CHR '':''), Dec]"

definition days :: "int list" where
  "days = [0, 31, 28, 31, 30, 31, 30, 31, 31, 30, 31, 30, 31]"

definition expected_char :: "nat \<Rightarrow> char option" where
  "expected_char i = (if i = 4 \<or> i = 7 then Some (CHR ''-'') else if i = 10 then Some (CHR '' '')
                      else if i = 13 \<or> i = 16 then Some (CHR '':'') else None)"

definition valid_time :: "string \<Rightarrow> bool" where
  "valid_time s \<longleftrightarrow>
     length s = 19 \<and>
     list_all (\<lambda>i. case expected_char i of Some c \<Rightarrow> s ! i = c | None \<Rightarrow> is_digit (s ! i)) [0..<19] \<and>
     (case sscanf date_format s of
        [y, m, d, h, mi, se] \<Rightarrow>
          \<not> (y < 1 \<or> m < 1 \<or> m > 12 \<or> d < 1 \<or> h > 23 \<or> mi > 59 \<or> se > 59) \<and>
          (let leap = y mod 4 = 0 \<and> (y mod 100 \<noteq> 0 \<or> y mod 400 = 0)
           in d \<le> days ! nat m + (if m = 2 \<and> leap then 1 else 0))
      | _ \<Rightarrow> False)"

text \<open>\<open>line\<close> is the \<^verbatim>\<open>len\<close> bytes the caller hands over; the terminator is cut off first.\<close>

definition chomp :: "string \<Rightarrow> string" where
  "chomp line = (let l = butlast line in if l \<noteq> [] \<and> last l = CR then butlast l else l)"

definition validate :: "string \<Rightarrow> command \<Rightarrow> string \<Rightarrow> status" where
  "validate line command expected =
     (if line = [] \<or> length line > LINE_MAX_BYTES \<or> last line \<noteq> LF then S_PROTOCOL
      else let line = chomp line in
        if \<not> list_all printable line then S_PROTOCOL
        else if line = ''BUSY'' then (if command = C_COMPUTE then S_BUSY else S_PROTOCOL)
        else if command = C_ECHO then (if line = expected then S_OK else S_PROTOCOL)
        else if command = C_TIME then
          (if take 5 line = ''TIME '' \<and> valid_time (drop 5 line) then S_OK else S_PROTOCOL)
        else if command = C_QUIT then (if line = ''BYE'' then S_OK else S_PROTOCOL)
        else if take 7 line \<noteq> ''RESULT '' then S_PROTOCOL
        else if list_ex (\<lambda>c. c \<noteq> CHR '' '') (drop 7 line) then S_OK
        else S_PROTOCOL)"

section \<open>The request of a client\<close>

definition mixed_slot :: "nat \<Rightarrow> nat \<Rightarrow> nat \<Rightarrow> nat" where
  "mixed_slot seq i seed = ((seq * 37 + i * 17 + seed) mod 2 ^ 64) mod 100"

definition choose_command :: "config \<Rightarrow> nat \<Rightarrow> nat \<Rightarrow> command" where
  "choose_command c i seq =
     (case c_workload c of
        W_ECHO \<Rightarrow> C_ECHO
      | W_TIME \<Rightarrow> C_TIME
      | W_COMPUTE \<Rightarrow> C_COMPUTE
      | W_MIXED \<Rightarrow>
          (let slot = mixed_slot seq i (c_seed c)
          in if slot < c_percent c then C_COMPUTE else if slot mod 2 \<noteq> 0 then C_ECHO else C_TIME)
      | W_RESPONSIVE \<Rightarrow> if i = 0 then C_COMPUTE else if seq mod 2 \<noteq> 0 then C_TIME else C_ECHO
      | _ \<Rightarrow> C_ECHO)"

definition snprintf :: "nat \<Rightarrow> string \<Rightarrow> string" where
  "snprintf n s = take (n - 1) s"

definition echo_tag :: "config \<Rightarrow> nat \<Rightarrow> nat \<Rightarrow> string" where
  "echo_tag c i seq = ''lg-'' @ dec (c_seed c) @ ''-'' @ dec i @ ''-'' @ dec seq"

text \<open>\<open>t\<close> is what \<^verbatim>\<open>now()\<close> returns.\<close>

definition prepare :: "config \<Rightarrow> real \<Rightarrow> client \<Rightarrow> client" where
  "prepare c t p =
     (let command = choose_command c (p_id p) (p_seq p);
          tag = echo_tag c (p_id p) (p_seq p);
          p = p\<lparr>p_command := command\<rparr>;
          p = (if command = C_ECHO
               then p\<lparr>p_tx := snprintf (LINE_MAX_BYTES + 1) (''echo '' @ tag @ [LF]),
                      p_expected := snprintf (LINE_MAX_BYTES + 1) (''OK '' @ tag)\<rparr>
               else if command = C_TIME then p\<lparr>p_tx := ''time'' @ [LF]\<rparr>
               else p\<lparr>p_tx := snprintf (LINE_MAX_BYTES + 1) (''compute '' @ dec (c_work c) @ [LF])\<rparr>)
      in p\<lparr>p_sent := 0, p_rx := [], p_started := t, p_state := SENDING\<rparr>)"

section \<open>What the command line can set\<close>

definition seconds_in :: "real \<Rightarrow> real \<Rightarrow> real \<Rightarrow> bool" where
  "seconds_in lo hi x \<longleftrightarrow> lo \<le> x \<and> x \<le> hi"

definition number_in :: "nat \<Rightarrow> nat \<Rightarrow> nat \<Rightarrow> bool" where
  "number_in lo hi n \<longleftrightarrow> lo \<le> n \<and> n \<le> hi"

definition options_in_range :: "config \<Rightarrow> bool" where
  "options_in_range c \<longleftrightarrow>
     number_in 1 (2 ^ 63 - 1) (c_work c) \<and> number_in 0 100 (c_percent c) \<and> number_in 0 (2 ^ 32 - 1) (c_seed c) \<and>
     seconds_in (1 / 100) 3600 (c_timeout c) \<and> seconds_in (1 / 100) 3600 (c_connect_timeout c) \<and>
     seconds_in (5 / 100) 86400 (c_max_seconds c) \<and> seconds_in 0 60 (c_interval c) \<and>
     seconds_in 0 60 (c_backoff c) \<and> seconds_in 0 60 (c_probe_delay c) \<and> seconds_in 0 10 (c_fragment_delay c)"

definition config_in_range :: "config \<Rightarrow> bool" where
  "config_in_range c \<longleftrightarrow>
     options_in_range c \<and> number_in 1 65535 (c_port c) \<and> number_in 1 10000 (c_clients c) \<and>
     number_in 1 10000000 (c_requests c) \<and>
     (c_workload c = W_FUNCTIONAL \<or> c_clients c * c_requests c \<le> MAX_SAMPLES) \<and>
     (c_workload c = W_RESPONSIVE \<longrightarrow> 2 \<le> c_clients c)"

lemma integer_range: "integer s lo hi = Inr v \<Longrightarrow> number_in lo hi v"
  by (auto simp: integer_def number_in_def Let_def split: prod.splits if_splits)

lemma number_range: "number strtod s lo hi = Inr x \<Longrightarrow> seconds_in lo hi x"
  by (auto simp: number_def seconds_in_def split: prod.splits if_splits option.splits)

lemma thousandth [simp]: "seconds_in 0 60000 x \<Longrightarrow> seconds_in 0 60 (x / 1000)"
  "seconds_in 1 10000 x \<Longrightarrow> seconds_in 0 10 (x / 1000)"
  by (simp_all add: seconds_in_def)

lemma map_sum_Inr_iff [simp]: "(map_sum id f r = Inr y) = (\<exists>x. r = Inr x \<and> y = f x)"
  by (cases r) auto

lemma if_Inr: "(if b then x else y) = Inr c \<Longrightarrow> (x = Inr c \<Longrightarrow> R) \<Longrightarrow> (y = Inr c \<Longrightarrow> R) \<Longrightarrow> R"
  by (cases b) simp_all

lemma store_integer:
  "map_sum id f (integer s lo hi) = Inr c' \<Longrightarrow> (\<And>v. number_in lo hi v \<Longrightarrow> c' = f v \<Longrightarrow> R) \<Longrightarrow> R"
  by (auto dest!: integer_range)

lemma store_number:
  "map_sum id f (number strtod s lo hi) = Inr c' \<Longrightarrow> (\<And>v. seconds_in lo hi v \<Longrightarrow> c' = f v \<Longrightarrow> R) \<Longrightarrow> R"
  by (auto dest!: number_range)

lemma set_option_range:
  assumes "set_option strtod c oa = Inr c'" "options_in_range c"
  shows "options_in_range c'"
proof -
  obtain opt optarg where oa: "oa = (opt, optarg)" by (cases oa)
  show ?thesis
    using assms unfolding set_option_def oa Let_def prod.case
    by (elim if_Inr store_integer store_number) (auto simp: options_in_range_def)
qed

lemma bind_Inr: "(case m of Inl e \<Rightarrow> Inl e | Inr x \<Rightarrow> f x) = Inr c \<Longrightarrow> (\<And>x. m = Inr x \<Longrightarrow> f x = Inr c \<Longrightarrow> R) \<Longrightarrow> R"
  by (cases m) auto

lemma some_Inr: "(case m of None \<Rightarrow> Inl e | Some x \<Rightarrow> f x) = Inr c \<Longrightarrow> (\<And>x. f x = Inr c \<Longrightarrow> R) \<Longrightarrow> R"
  by (cases m) auto

lemma guard_Inr: "(if b then Inl e else m) = Inr c \<Longrightarrow> (\<not> b \<Longrightarrow> m = Inr c \<Longrightarrow> R) \<Longrightarrow> R"
  by (cases b) auto

lemma set_options_range:
  "set_options strtod c opts = Inr c' \<Longrightarrow> options_in_range c \<Longrightarrow> options_in_range c'"
  by (induction opts arbitrary: c) (auto split: sum.splits dest: set_option_range)

text \<open>the program runs only with a configuration in range: every number is within the limits
  its option names, at most two million samples are planned and a responsive run has a light client.\<close>

theorem parse_in_range:
  assumes "parse strtod ipv4 nofile opts args = Inr c"
  shows "config_in_range c"
proof -
  obtain c0 where c0: "set_options strtod default_config opts = Inr c0" and pa: "parse_args ipv4 nofile c0 args = Inr c"
    using assms by (auto simp: parse_def split: sum.splits)
  have "options_in_range default_config"
    by (simp add: options_in_range_def default_config_def seconds_in_def number_in_def)
  then have "options_in_range c0" by (rule set_options_range [OF c0])
  moreover obtain ip port cs rs w where args': "args = [ip, port, cs, rs, w]"
    using pa by (auto simp: parse_args_def split: list.splits)
  moreover have "c = c0\<lparr>c_ip := ip, c_port := p, c_clients := n, c_requests := r, c_workload := k\<rparr> \<Longrightarrow> options_in_range c0 \<Longrightarrow>
      options_in_range c" for ip p n r k by (simp add: options_in_range_def)
  ultimately show ?thesis
    using pa unfolding parse_args_def args' list.case
    by (elim bind_Inr guard_Inr some_Inr) (auto simp: config_in_range_def dest!: integer_range)
qed

lemma integer_digits:
  assumes "s \<noteq> []" "\<forall>c\<in>set s. is_digit c" "num s \<le> hi" "lo \<le> num s" "hi \<le> ULLONG_MAX"
  shows "integer s lo hi = Inr (num s)"
proof -
  obtain c cs where s: "s = c # cs" using assms(1) by (cases s) auto
  have c: "is_digit c" using assms(2) s by simp
  then have k: "\<not> is_space c" "c \<noteq> CHR ''-''" "c \<noteq> CHR ''+''" by (auto simp: is_digit_def is_space_def)
  have tw: "takeWhile is_digit cs = cs" using assms(2) s by (auto simp: takeWhile_eq_all_conv)
  then show ?thesis using assms s k c by (simp add: integer_def strtoull_def Let_def tw)
qed

theorem parse_in_range_witness:
  "config_in_range (default_config\<lparr>c_ip := ''127.0.0.1'', c_port := 80, c_clients := 2, c_requests := 5, c_workload := W_RESPONSIVE\<rparr>)"
proof -
  have i: "integer ''80'' 1 65535 = Inr 80" "integer ''2'' 1 10000 = Inr 2" "integer ''5'' 1 10000000 = Inr 5"
    using integer_digits [of "''80''" 65535 1] integer_digits [of "''2''" 10000 1] integer_digits [of "''5''" 10000000 1]
    by (simp_all add: num_def digit_val_def is_digit_def ULLONG_MAX_def)
  show ?thesis
  proof (rule parse_in_range [of "\<lambda>s. (None, s, True)" "\<lambda>s. True" None "[]" "[''127.0.0.1'', ''80'', ''2'', ''5'', ''responsive'']"])
  qed (simp add: parse_def parse_args_def i [unfolded One_nat_def] work_names_def MAX_SAMPLES_def)
qed

section \<open>Dates\<close>

definition month_length :: "int \<Rightarrow> int \<Rightarrow> int" where
  "month_length y m =
     (if m \<in> {4, 6, 9, 11} then 30 else if m = 2 then (if 4 dvd y \<and> \<not> (100 dvd y \<and> \<not> 400 dvd y) then 29 else 28)
      else 31)"

definition date_text :: "nat \<Rightarrow> nat \<Rightarrow> nat \<Rightarrow> nat \<Rightarrow> nat \<Rightarrow> nat \<Rightarrow> string" where
  "date_text y m d h mi se =
     pad 4 y @ ''-'' @ pad 2 m @ ''-'' @ pad 2 d @ '' '' @ pad 2 h @ '':'' @ pad 2 mi @ '':'' @ pad 2 se"

lemma days_month_length:
  "1 \<le> m \<Longrightarrow> m \<le> 12 \<Longrightarrow>
   days ! m + (if m = 2 \<and> y mod 4 = 0 \<and> (y mod 100 \<noteq> 0 \<or> y mod 400 = 0) then 1 else 0) = month_length y (int m)"
proof -
  assume "1 \<le> m" "m \<le> 12"
  then have "m \<in> {1, 2, 3, 4, 5, 6, 7, 8, 9, 10, 11, 12}" by (simp, presburger)
  then show ?thesis
    by (elim insertE emptyE) (simp_all add: days_def month_length_def dvd_eq_mod_eq_0)
qed

lemma digit_not_space [simp]: "is_digit c \<Longrightarrow> \<not> is_space c"
  by (auto simp: is_digit_def is_space_def)

lemma digit_not_sign [simp]: "is_digit c \<Longrightarrow> c \<noteq> CHR ''-''" "is_digit c \<Longrightarrow> c \<noteq> CHR ''+''"
  by (auto simp: is_digit_def)

lemma scan_d_digits:
  assumes "\<forall>c\<in>set ds. is_digit c" "ds \<noteq> []" "rest = [] \<or> \<not> is_digit (hd rest)"
  shows "scan_d (ds @ rest) = Some (int (num ds), rest)"
proof -
  obtain c cs where ds: "ds = c # cs" using assms(2) by (cases ds) auto
  then have c: "is_digit c" using assms(1) by simp
  have tw: "takeWhile is_digit (ds @ rest) = ds" and dw: "dropWhile is_digit (ds @ rest) = rest"
    using assms by (cases rest; auto simp: takeWhile_append dropWhile_append)+
  have "dropWhile is_space (ds @ rest) = ds @ rest" using ds c by simp
  then show ?thesis using ds c tw dw by (simp add: scan_d_def Let_def)
qed

lemma pad_digit_list: "\<forall>c\<in>set (pad k n). is_digit c"
  using pad_digits by blast

lemma scan_d_pad:
  assumes "0 < k" "rest = [] \<or> \<not> is_digit (hd rest)"
  shows "scan_d (pad k n @ rest) = Some (int (n mod 10 ^ k), rest)"
proof -
  have "pad k n \<noteq> []" using assms(1) length_pad [of k n] by (metis length_0_conv less_numeral_extra(3))
  from scan_d_digits [OF pad_digit_list this assms(2)] show ?thesis by (simp add: num_pad)
qed

lemma not_digits [simp]: "\<not> is_digit (CHR ''-'')" "\<not> is_digit (CHR '':'')" "\<not> is_digit (CHR '' '')"
  by (simp_all add: is_digit_def)

lemma drop_blank: "0 < k \<Longrightarrow> dropWhile is_space (CHR '' '' # pad k n @ rest) = pad k n @ rest"
proof -
  assume "0 < k"
  then obtain c cs where c: "pad k n = c # cs" using length_pad [of k n] by (cases "pad k n") auto
  then have "is_digit c" using pad_digit_list [of k n] by simp
  then show ?thesis using c by (simp add: is_space_def) (auto simp: is_digit_def)
qed

lemma sscanf_date:
  "sscanf date_format (date_text y m d h mi se) =
     map int [y mod 10000, m mod 100, d mod 100, h mod 100, mi mod 100, se mod 100]"
proof -
  have "scan_d (pad 2 se) = Some (int (se mod 100), [])" using scan_d_pad [of 2 "[]" se] by simp
  then show ?thesis
    by (simp add: date_format_def date_text_def scan_d_pad drop_blank del: pad.simps dropWhile.simps)
qed

definition date_shape :: "string \<Rightarrow> bool" where
  "date_shape s \<longleftrightarrow> length s = 19 \<and>
     list_all (\<lambda>i. case expected_char i of Some c \<Rightarrow> s ! i = c | None \<Rightarrow> is_digit (s ! i)) [0..<19]"

lemma four_digits:
  assumes "is_digit a" "is_digit b" "is_digit c" "is_digit d"
  shows "\<exists>n<10000. [a, b, c, d] = pad 4 n"
proof -
  have l: "length [a, b, c, d] = 4" and ds: "\<forall>x\<in>set [a, b, c, d]. is_digit x" using assms by simp_all
  have "num [a, b, c, d] < 10 ^ 4" using num_less [OF ds] unfolding l .
  moreover have "pad 4 (num [a, b, c, d]) = [a, b, c, d]" using pad_num [OF ds] unfolding l .
  ultimately show ?thesis by (intro exI [of _ "num [a, b, c, d]"]) simp
qed

lemma two_digits:
  assumes "is_digit a" "is_digit b"
  shows "\<exists>n<100. [a, b] = pad 2 n"
proof -
  have l: "length [a, b] = 2" and ds: "\<forall>x\<in>set [a, b]. is_digit x" using assms by simp_all
  have "num [a, b] < 10 ^ 2" using num_less [OF ds] unfolding l .
  moreover have "pad 2 (num [a, b]) = [a, b]" using pad_num [OF ds] unfolding l .
  ultimately show ?thesis by (intro exI [of _ "num [a, b]"]) simp
qed

lemma pad2_list: "pad 2 n = [digit (n div 10 mod 10), digit (n mod 10)]"
  by (simp add: numeral_2_eq_2)

lemma pad4_list: "pad 4 n = [digit (n div 1000 mod 10), digit (n div 100 mod 10), digit (n div 10 mod 10), digit (n mod 10)]"
proof -
  have "(4::nat) = Suc (Suc (Suc (Suc 0)))" by simp
  then have "pad 4 n = pad (Suc (Suc (Suc (Suc 0)))) n" by (rule arg_cong [where f = "\<lambda>k. pad k n"])
  then show ?thesis unfolding pad.simps by (simp add: div_mult2_eq [symmetric])
qed

lemma date_shape_text: "date_shape (date_text y m d h mi se)"
  by (simp add: date_shape_def date_text_def pad2_list pad4_list upt_rec expected_char_def)

lemma date_shape_ex:
  assumes "date_shape s"
  shows "\<exists>y m d h mi se. y < 10000 \<and> m < 100 \<and> d < 100 \<and> h < 100 \<and> mi < 100 \<and> se < 100 \<and> s = date_text y m d h mi se"
proof -
  have "length s = 19" using assms by (simp add: date_shape_def)
  then obtain a0 a1 a2 a3 a4 a5 a6 a7 a8 a9 b0 b1 b2 b3 b4 b5 b6 b7 b8
    where s: "s = [a0, a1, a2, a3, a4, a5, a6, a7, a8, a9, b0, b1, b2, b3, b4, b5, b6, b7, b8]"
    by (auto simp: eval_nat_numeral length_Suc_conv)
  have c: "a4 = CHR ''-''" "a7 = CHR ''-''" "b0 = CHR '' ''" "b3 = CHR '':''" "b6 = CHR '':''"
    and ds: "is_digit a0" "is_digit a1" "is_digit a2" "is_digit a3" "is_digit a5" "is_digit a6" "is_digit a8" "is_digit a9"
    "is_digit b1" "is_digit b2" "is_digit b4" "is_digit b5" "is_digit b7" "is_digit b8"
    using assms unfolding s date_shape_def by (simp_all add: upt_rec expected_char_def)
  obtain y m d h mi se where "y < 10000" "[a0, a1, a2, a3] = pad 4 y" "m < 100" "[a5, a6] = pad 2 m"
    "d < 100" "[a8, a9] = pad 2 d" "h < 100" "[b1, b2] = pad 2 h" "mi < 100" "[b4, b5] = pad 2 mi" "se < 100" "[b7, b8] = pad 2 se"
    using four_digits two_digits ds by meson
  moreover from this have "s = date_text y m d h mi se"
    unfolding s c date_text_def by (metis append_Cons append_Nil)
  ultimately show ?thesis by blast
qed

lemma valid_time_date:
  assumes "y < 10000" "m < 100" "d < 100" "h < 100" "mi < 100" "se < 100"
  shows "valid_time (date_text y m d h mi se) \<longleftrightarrow>
     1 \<le> y \<and> m \<in> {1..12} \<and> 1 \<le> d \<and> int d \<le> month_length (int y) (int m) \<and> h < 24 \<and> mi < 60 \<and> se < 60"
proof -
  have sc: "sscanf date_format (date_text y m d h mi se) = [int y, int m, int d, int h, int mi, int se]"
    using assms by (simp add: sscanf_date)
  have "valid_time (date_text y m d h mi se) \<longleftrightarrow>
      (case sscanf date_format (date_text y m d h mi se) of
        [y, m, d, h, mi, se] \<Rightarrow>
          \<not> (y < 1 \<or> m < 1 \<or> m > 12 \<or> d < 1 \<or> h > 23 \<or> mi > 59 \<or> se > 59) \<and>
          (let leap = y mod 4 = 0 \<and> (y mod 100 \<noteq> 0 \<or> y mod 400 = 0)
           in d \<le> days ! nat m + (if m = 2 \<and> leap then 1 else 0))
      | _ \<Rightarrow> False)"
    using date_shape_text [of y m d h mi se] unfolding valid_time_def date_shape_def by blast
  also have "\<dots> \<longleftrightarrow>
      \<not> (int y < 1 \<or> int m < 1 \<or> int m > 12 \<or> int d < 1 \<or> int h > 23 \<or> int mi > 59 \<or> int se > 59) \<and>
      int d \<le> days ! m + (if m = 2 \<and> int y mod 4 = 0 \<and> (int y mod 100 \<noteq> 0 \<or> int y mod 400 = 0) then 1 else 0)"
    unfolding sc by (simp add: Let_def del: of_nat_mod)
  also have "\<dots> \<longleftrightarrow>
      \<not> (y < 1 \<or> m < 1 \<or> m > 12 \<or> d < 1 \<or> h > 23 \<or> mi > 59 \<or> se > 59) \<and>
      int d \<le> days ! m + (if m = 2 \<and> int y mod 4 = 0 \<and> (int y mod 100 \<noteq> 0 \<or> int y mod 400 = 0) then 1 else 0)"
  proof -
    have "(int y < 1) = (y < 1)" "(int m < 1) = (m < 1)" "(12 < int m) = (12 < m)" "(int d < 1) = (d < 1)"
      "(23 < int h) = (23 < h)" "(59 < int mi) = (59 < mi)" "(59 < int se) = (59 < se)" by simp_all
    then show ?thesis by (simp only:)
  qed
  also have "\<dots> \<longleftrightarrow> \<not> (y < 1 \<or> m < 1 \<or> m > 12 \<or> d < 1 \<or> h > 23 \<or> mi > 59 \<or> se > 59) \<and>
      int d \<le> month_length (int y) (int m)"
    using days_month_length [of m "int y"] by (cases "1 \<le> m \<and> m \<le> 12") (simp, fastforce)
  finally show ?thesis by auto
qed

text \<open>C16: a time answer is accepted exactly if it is a date of the Gregorian calendar and a time of day,
  written as four digits of the year, two of everything else, and the separators of the protocol.\<close>

theorem valid_time_iff_date:
  "valid_time s \<longleftrightarrow>
     (\<exists>y m d h mi se. y < 10000 \<and> 1 \<le> y \<and> m \<in> {1..12} \<and> 1 \<le> d \<and> int d \<le> month_length (int y) (int m) \<and>
        h < 24 \<and> mi < 60 \<and> se < 60 \<and> s = date_text y m d h mi se)"
  (is "_ \<longleftrightarrow> ?R")
proof
  assume v: "valid_time s"
  then have "date_shape s" by (simp only: valid_time_def date_shape_def)
  then obtain y m d h mi se where n: "y < 10000" "m < 100" "d < 100" "h < 100" "mi < 100" "se < 100"
    and s: "s = date_text y m d h mi se" using date_shape_ex [of s] by blast
  from v n have "1 \<le> y \<and> m \<in> {1..12} \<and> 1 \<le> d \<and> int d \<le> month_length (int y) (int m) \<and> h < 24 \<and> mi < 60 \<and> se < 60"
    unfolding s valid_time_date [OF n] by blast
  with n s show ?R by blast
next
  assume ?R
  then obtain y m d h mi se where n: "y < 10000" "1 \<le> y" "m \<in> {1..12}" "1 \<le> d" "int d \<le> month_length (int y) (int m)"
    "h < 24" "mi < 60" "se < 60" and s: "s = date_text y m d h mi se" by metis
  moreover have "month_length (int y) (int m) \<le> 31" by (simp add: month_length_def)
  ultimately have b: "m < 100" "d < 100" "h < 100" "mi < 100" "se < 100" by simp_all
  from n show "valid_time s" unfolding s using valid_time_date [OF n(1) b] by blast
qed

section \<open>Echo requests and the mixed workload\<close>

lemma printable_chars [simp]: "printable (CHR ''-'')" "printable (CHR '' '')" "printable (CHR ''O'')" "printable (CHR ''K'')"
  "printable (CHR ''l'')" "printable (CHR ''g'')" "\<not> printable LF" "\<not> printable CR"
  by (simp_all add: printable_def LF_def CR_def)

lemma printable_dec [simp]: "list_all printable (dec n)"
  using dec_digits printable_digit by (auto simp: list_all_iff)

lemma printable_echo_tag [simp]: "list_all printable (echo_tag c i seq)"
  by (simp add: echo_tag_def)

lemma length_echo_tag:
  assumes "c_seed c < 2 ^ 32" "i < 2 ^ 31" "seq < 2 ^ 31"
  shows "length (echo_tag c i seq) \<le> 36"
proof -
  have "length (dec (c_seed c)) \<le> 10" "length (dec i) \<le> 10" "length (dec seq) \<le> 10"
    using assms by (auto intro: length_dec)
  then show ?thesis by (simp add: echo_tag_def)
qed

lemma chomp_LF [simp]: "xs = [] \<or> last xs \<noteq> CR \<Longrightarrow> chomp (xs @ [LF]) = xs"
  by (auto simp: chomp_def)

lemma chomp_CRLF [simp]: "chomp (xs @ [CR, LF]) = xs"
  by (simp add: chomp_def butlast_append)

lemma chomp_cases: "line \<noteq> [] \<Longrightarrow> last line = LF \<Longrightarrow> line = chomp line @ [LF] \<or> line = chomp line @ [CR, LF]"
proof (cases line rule: rev_cases)
  case (snoc ys c)
  assume "last line = LF"
  with snoc show ?thesis by (cases ys rule: rev_cases) (auto simp: chomp_def Let_def butlast_append)
qed simp

lemma prepare_command [simp]: "p_command (prepare c t p) = choose_command c (p_id p) (p_seq p)"
  by (simp add: prepare_def Let_def)

lemma prepare_expected:
  assumes "choose_command c (p_id p) (p_seq p) = C_ECHO" "c_seed c < 2 ^ 32" "p_id p < 2 ^ 31" "p_seq p < 2 ^ 31"
  shows "p_tx (prepare c t p) = ''echo '' @ echo_tag c (p_id p) (p_seq p) @ [LF]"
    and "p_expected (prepare c t p) = ''OK '' @ echo_tag c (p_id p) (p_seq p)"
  using length_echo_tag [OF assms(2-4)] assms(1)
  by (simp_all add: prepare_def Let_def snprintf_def LINE_MAX_BYTES_def)

text \<open>the answer to an echo request counts as a success exactly if it is the tag of this request,
  with the seed, the client and the sequence number in it, ended by LF or CR LF.\<close>

theorem echo_answer_exact:
  assumes "choose_command c (p_id p) (p_seq p) = C_ECHO" "c_seed c < 2 ^ 32" "p_id p < 2 ^ 31" "p_seq p < 2 ^ 31"
  shows "validate line C_ECHO (p_expected (prepare c t p)) = S_OK \<longleftrightarrow>
     line = ''OK '' @ echo_tag c (p_id p) (p_seq p) @ [LF] \<or> line = ''OK '' @ echo_tag c (p_id p) (p_seq p) @ [CR, LF]"
  (is "?v \<longleftrightarrow> ?r")
proof -
  let ?e = "''OK '' @ echo_tag c (p_id p) (p_seq p)"
  have len: "length ?e \<le> 39" using length_echo_tag [OF assms(2-4)] by simp
  have pr: "list_all printable ?e" by simp
  then have nCR: "last ?e \<noteq> CR" by (metis append_is_Nil_conv last_in_set list.distinct(1) list_all_iff printable_chars(8))
  have ne: "?e \<noteq> ''BUSY''" by simp
  have accepted: "validate l C_ECHO ?e = S_OK" if "l = ?e @ [LF] \<or> l = ?e @ [CR, LF]" for l
  proof -
    have "chomp l = ?e" using that nCR chomp_LF [of ?e] chomp_CRLF [of ?e] by metis
    moreover have "l \<noteq> []" "length l \<le> LINE_MAX_BYTES" "last l = LF"
      using that len by (auto simp: LINE_MAX_BYTES_def)
    ultimately show ?thesis using pr ne by (simp add: validate_def Let_def)
  qed
  have forth: "l = ?e @ [LF] \<or> l = ?e @ [CR, LF]" if "validate l C_ECHO ?e = S_OK" for l
  proof -
    have "l \<noteq> []" "last l = LF" "chomp l = ?e" using that by (auto simp: validate_def Let_def split: if_splits)
    then show ?thesis using chomp_cases by metis
  qed
  show ?thesis unfolding prepare_expected(2) [OF assms] using accepted [of line] forth [of line] unfolding append_assoc by blast
qed

theorem echo_answer_exact_witness:
  "validate (''OK lg-1-0-0'' @ [CR, LF]) C_ECHO (p_expected (prepare default_config 0 calloc_client)) = S_OK"
proof -
  have tag: "echo_tag default_config 0 0 = ''lg-1-0-0''"
    by (simp add: echo_tag_def default_config_def dec.simps digit_def char_of_def bit_0)
  have "choose_command default_config (p_id calloc_client) (p_seq calloc_client) = C_ECHO"
    "c_seed default_config < 2 ^ 32" "p_id calloc_client < 2 ^ 31" "p_seq calloc_client < 2 ^ 31"
    by (simp_all add: choose_command_def default_config_def calloc_client_def)
  from echo_answer_exact [OF this, of "''OK lg-1-0-0'' @ [CR, LF]" 0] tag show ?thesis
    by (simp add: calloc_client_def)
qed

lemma mixed_slot_inj:
  assumes "s < 2 ^ 31" "s' < 2 ^ 31" "i < 2 ^ 31" "seed < 2 ^ 32" "mixed_slot s i seed = mixed_slot s' i seed"
  shows "s mod 100 = s' mod 100"
proof -
  have "s * 37 + i * 17 + seed < 2 ^ 64" "s' * 37 + i * 17 + seed < 2 ^ 64"
    using assms(1-4) by simp_all
  then have "(s * 37 + i * 17 + seed) mod 100 = (s' * 37 + i * 17 + seed) mod 100"
    using assms(5) by (simp only: mixed_slot_def mod_less)
  then have "int (s * 37 + i * 17 + seed) mod 100 = int (s' * 37 + i * 17 + seed) mod 100"
    by (drule_tac arg_cong [where f = int]) (simp only: of_nat_mod of_nat_numeral)
  then have "100 dvd int (s * 37 + i * 17 + seed) - int (s' * 37 + i * 17 + seed)"
    by (simp only: mod_eq_dvd_iff)
  then have "100 dvd 37 * (int s - int s')" by (simp add: algebra_simps)
  then have "100 dvd 100 * (10 * (int s - int s')) - 27 * (37 * (int s - int s'))" by (rule dvd_diff [OF dvd_triv_left dvd_mult])
  moreover have "100 * (10 * (int s - int s')) - 27 * (37 * (int s - int s')) = int s - int s'" by (simp add: algebra_simps)
  ultimately have "100 dvd int s - int s'" by (simp only:)
  then have "int s mod 100 = int s' mod 100" by (simp only: mod_eq_dvd_iff)
  then show ?thesis by (metis of_nat_eq_iff of_nat_mod of_nat_numeral)
qed

lemma inj_mod_window: "inj_on (\<lambda>s. s mod (100::nat)) {a..<a + 100}"
proof (rule inj_onI)
  fix x y assume x: "x \<in> {a..<a + 100}" "y \<in> {a..<a + 100}" and e: "x mod 100 = y mod 100"
  have "u = v" if "u \<le> v" "u \<in> {a..<a + 100}" "v \<in> {a..<a + 100}" "u mod 100 = v mod 100" for u v :: nat
  proof -
    have "100 dvd v - u" using that mod_eq_dvd_iff_nat [of u v 100] by simp
    moreover have "v - u < 100" using that by simp
    ultimately show ?thesis using that(1) dvd_imp_le [of 100 "v - u"] by linarith
  qed
  then show "x = y" using x e by (metis nat_le_linear)
qed

text \<open>of any hundred consecutive requests of a client, exactly the configured percentage is a
  computation, whatever the seed: the slots of a window are a permutation of 0 to 99.\<close>

theorem mixed_share:
  assumes "c_workload c = W_MIXED" "c_percent c \<le> 100" "c_seed c < 2 ^ 32" "i < 2 ^ 31" "a + 100 < 2 ^ 31"
  shows "card {seq \<in> {a..<a + 100}. choose_command c i seq = C_COMPUTE} = c_percent c"
proof -
  let ?f = "\<lambda>s. mixed_slot s i (c_seed c)" and ?W = "{a..<a + 100}"
  have inj: "inj_on ?f ?W"
  proof (rule inj_onI)
    fix s s' assume s: "s \<in> ?W" "s' \<in> ?W" "?f s = ?f s'"
    then have "s mod 100 = s' mod 100" using mixed_slot_inj [of s s' i "c_seed c"] assms by auto
    with s inj_mod_window [of a] show "s = s'" by (simp add: inj_on_def)
  qed
  have img: "?f ` ?W = {..<100}"
  proof (rule card_subset_eq)
    show "?f ` ?W \<subseteq> {..<100}" by (auto simp: mixed_slot_def)
    show "card (?f ` ?W) = card {..<100::nat}" using card_image [OF inj] by simp
  qed simp
  have "{seq \<in> ?W. choose_command c i seq = C_COMPUTE} = {s \<in> ?W. ?f s < c_percent c}"
    using assms(1) by (auto simp: choose_command_def Let_def split: if_splits)
  moreover have "?f ` {s \<in> ?W. ?f s < c_percent c} = {..<c_percent c}"
  proof -
    have "?f ` {s \<in> ?W. ?f s < c_percent c} = {v \<in> ?f ` ?W. v < c_percent c}" by blast
    also have "\<dots> = {..<c_percent c}" unfolding img using assms(2) by (simp only: set_eq_iff) (simp, linarith)
    finally show ?thesis .
  qed
  moreover have "inj_on ?f {s \<in> ?W. ?f s < c_percent c}" using inj by (rule inj_on_subset) auto
  ultimately show ?thesis using card_image [of ?f "{s \<in> ?W. ?f s < c_percent c}"] by (simp only: card_lessThan)
qed

theorem mixed_share_witness:
  "card {seq \<in> {7..<107}. choose_command (default_config\<lparr>c_workload := W_MIXED\<rparr>) 3 seq = C_COMPUTE} = 20"
  using mixed_share [of "default_config\<lparr>c_workload := W_MIXED\<rparr>" 3 7] by (simp add: default_config_def)

end
