(* ===== verification/LoadgenInv.thy ===== *)
theory LoadgenInv
  imports LoadgenRun
begin

text \<open>
  The invariant of the measured phase of the load generator, kept by every operation on a client,
  and what it gives for \<open>benchmark\<close>. \<open>X\<close> is the set of clients in the middle of \<open>finish\<close>; \<open>B\<close> is
  the set of descriptors that are open for other reasons.
\<close>

definition bad_sample :: "sample \<Rightarrow> bool" where
  "bad_sample x \<longleftrightarrow> s_status x \<noteq> S_OK \<and> s_status x \<noteq> S_BUSY"

definition seqs :: "nat \<Rightarrow> sample list \<Rightarrow> nat list" where
  "seqs i xs = map s_sequence (filter (\<lambda>x. s_client x = i) xs)"

definition client_ok :: "config \<Rightarrow> nat set \<Rightarrow> nat \<Rightarrow> client \<Rightarrow> bool" where
  "client_ok c X i p \<longleftrightarrow>
     p_id p = i \<and> p_target p = target_of c i \<and> p_seq p \<le> p_target p \<and> length (p_rx p) \<le> LINE_MAX_BYTES + 1 \<and>
     (i \<notin> X \<longrightarrow> p_state p \<noteq> DONE \<longrightarrow> p_seq p < p_target p)"

definition samples_ok :: "nat set \<Rightarrow> client list \<Rightarrow> sample list \<Rightarrow> bool" where
  "samples_ok X ps xs \<longleftrightarrow>
     length xs = (\<Sum>i<length ps. p_seq (ps ! i)) \<and>
     (\<forall>i<length ps. seqs i xs = [0..<p_seq (ps ! i)]) \<and>
     (\<forall>x\<in>set xs. s_client x < length ps) \<and>
     (\<forall>x\<in>set xs. bad_sample x \<longrightarrow>
        Suc (s_sequence x) = p_seq (ps ! s_client x) \<and> (s_client x \<notin> X \<longrightarrow> p_state (ps ! s_client x) = DONE))"

definition fd_inv :: "int set \<Rightarrow> nat \<Rightarrow> (nat \<Rightarrow> int) \<Rightarrow> int set \<Rightarrow> bool" where
  "fd_inv B n F S \<longleftrightarrow>
     S = B \<union> {F i |i. i < n \<and> 0 \<le> F i} \<and> (\<forall>i<n. 0 \<le> F i \<longrightarrow> F i \<notin> B) \<and>
     (\<forall>i<n. \<forall>j<n. 0 \<le> F i \<longrightarrow> F i = F j \<longrightarrow> i = j)"

definition bench_inv :: "nat set \<Rightarrow> config \<Rightarrow> int set \<Rightarrow> lg \<Rightarrow> bool" where
  "bench_inv X c B s \<longleftrightarrow>
     length (clients s) = c_clients c \<and> planned (run s) = planned_of c \<and>
     (\<forall>i<c_clients c. client_ok c X i (clients s ! i)) \<and>
     samples_ok X (clients s) (samples (run s)) \<and>
     fd_inv B (c_clients c) (\<lambda>i. p_fd (clients s ! i)) (fds s)"

section \<open>Descriptors\<close>

lemma fd_inv_drop:
  assumes "fd_inv B n F S" "i < n" "0 \<le> F i"
  shows "fd_inv B n (F(i := -1)) (S - {F i})" and "F i \<in> S"
  using assms unfolding fd_inv_def by auto

lemma fd_inv_add:
  assumes "fd_inv B n F S" "F i < 0" "i < n" "fd \<notin> S" "0 \<le> fd"
  shows "fd_inv B n (F(i := fd)) (insert fd S)"
  using assms unfolding fd_inv_def by (auto; metis linorder_not_less)

lemma fd_inv_cong: "fd_inv B n F S \<Longrightarrow> (\<And>i. i < n \<Longrightarrow> G i = F i) \<Longrightarrow> fd_inv B n G S"
  unfolding fd_inv_def by (auto; metis)

section \<open>Updates of one client\<close>

lemma with_client_simps [simp]:
  "run (with_client i f s) = run s" "fds (with_client i f s) = fds s"
  "clients (with_client i f s) = (clients s)[i := f (clients s ! i)]"
  "script (with_client i f s) = script s" "interrupted (with_client i f s) = interrupted s"
  by (simp_all add: with_client_def)

lemma with_run_simps [simp]:
  "run (with_run g s) = g (run s)" "fds (with_run g s) = fds s" "clients (with_run g s) = clients s"
  "script (with_run g s) = script s" "interrupted (with_run g s) = interrupted s"
  by (simp_all add: with_run_def)

lemma bench_inv_env [simp]:
  "bench_inv X c B (s\<lparr>script := a\<rparr>) = bench_inv X c B s"
  "bench_inv X c B (s\<lparr>interrupted := b\<rparr>) = bench_inv X c B s"
  by (simp_all add: bench_inv_def)

lemma bench_inv_run:
  "bench_inv X c B s \<Longrightarrow> samples (g (run s)) = samples (run s) \<Longrightarrow> planned (g (run s)) = planned (run s) \<Longrightarrow>
   bench_inv X c B (with_run g s)"
  by (simp add: bench_inv_def)

lemma bench_inv_client:
  assumes inv: "bench_inv X c B s" and i: "i < c_clients c"
    and keep: "p_id (f (clients s ! i)) = p_id (clients s ! i)" "p_target (f (clients s ! i)) = p_target (clients s ! i)"
      "p_seq (f (clients s ! i)) = p_seq (clients s ! i)" "p_fd (f (clients s ! i)) = p_fd (clients s ! i)"
    and rx: "length (p_rx (f (clients s ! i))) \<le> LINE_MAX_BYTES + 1"
    and st: "i \<notin> Y \<Longrightarrow> p_state (f (clients s ! i)) \<noteq> DONE \<Longrightarrow>
      p_seq (clients s ! i) < p_target (clients s ! i) \<and> (\<forall>x\<in>set (samples (run s)). bad_sample x \<longrightarrow> s_client x \<noteq> i)"
    and XY: "X \<subseteq> insert i Y"
  shows "bench_inv Y c B (with_client i f s)"
proof -
  let ?ps = "clients s" and ?qs = "(clients s)[i := f (clients s ! i)]"
  have len: "length ?ps = c_clients c" using inv by (simp add: bench_inv_def)
  have seq: "p_seq (?qs ! k) = p_seq (?ps ! k)" and fd: "p_fd (?qs ! k) = p_fd (?ps ! k)" for k
    using keep i len by (auto simp: nth_list_update)
  have cl: "client_ok c Y k (?qs ! k)" if "k < c_clients c" for k
    using inv that keep rx st XY i len by (cases "k = i") (auto simp: bench_inv_def client_ok_def)
  have "samples_ok Y ?qs (samples (run s))"
    unfolding samples_ok_def
  proof (intro conjI ballI impI)
    fix x assume x: "x \<in> set (samples (run s))" "bad_sample x"
    then show "Suc (s_sequence x) = p_seq (?qs ! s_client x)"
      using inv by (auto simp: bench_inv_def samples_ok_def seq)
    assume nY: "s_client x \<notin> Y"
    show "p_state (?qs ! s_client x) = DONE"
    proof (cases "s_client x = i")
      case True
      then show ?thesis using st x nY i len by auto
    next
      case False
      then have "s_client x \<notin> X" using nY XY by auto
      then show ?thesis using inv x False by (auto simp: bench_inv_def samples_ok_def)
    qed
  qed (use inv in \<open>auto simp: bench_inv_def samples_ok_def seq\<close>)
  moreover have "fd_inv B (c_clients c) (\<lambda>k. p_fd (?qs ! k)) (fds s)"
    using inv fd by (auto simp: bench_inv_def elim: fd_inv_cong)
  ultimately show ?thesis using inv cl by (simp add: bench_inv_def)
qed

text \<open>A client that has not finished has no failed sample, so its state may change freely.\<close>

lemma bench_inv_active:
  assumes "bench_inv X c B s" "i < c_clients c" "i \<notin> X" "p_state (clients s ! i) \<noteq> DONE"
    "p_id (f (clients s ! i)) = p_id (clients s ! i)" "p_target (f (clients s ! i)) = p_target (clients s ! i)"
    "p_seq (f (clients s ! i)) = p_seq (clients s ! i)" "p_fd (f (clients s ! i)) = p_fd (clients s ! i)"
    "length (p_rx (f (clients s ! i))) \<le> LINE_MAX_BYTES + 1"
  shows "bench_inv X c B (with_client i f s)"
  using assms by (intro bench_inv_client [OF assms(1)]) (auto simp: bench_inv_def samples_ok_def client_ok_def)

lemma bench_inv_close:
  assumes inv: "bench_inv X c B s" and i: "i < c_clients c" and fd: "0 \<le> p_fd (clients s ! i)"
  shows "bench_inv X c B (with_client i (p_fd_update (\<lambda>_. -1)) (s\<lparr>fds := fds s - {p_fd (clients s ! i)}\<rparr>))"
proof -
  let ?ps = "clients s" and ?qs = "(clients s)[i := (clients s ! i)\<lparr>p_fd := -1\<rparr>]"
  have len: "length ?ps = c_clients c" using inv by (simp add: bench_inv_def)
  have keep: "p_seq (?qs ! k) = p_seq (?ps ! k)" "p_state (?qs ! k) = p_state (?ps ! k)" "client_ok c X k (?qs ! k) = client_ok c X k (?ps ! k)" for k
    using i len by (auto simp: nth_list_update client_ok_def)
  have "fd_inv B (c_clients c) (\<lambda>k. p_fd (?qs ! k)) (fds s - {p_fd (?ps ! i)})"
    using fd_inv_drop(1) [of B "c_clients c" "\<lambda>k. p_fd (?ps ! k)" "fds s" i] inv i fd len
    by (auto simp: bench_inv_def nth_list_update elim: fd_inv_cong)
  moreover have "samples_ok X ?qs (samples (run s))"
  proof -
    have "samples_ok X ?ps (samples (run s))" using inv by (simp only: bench_inv_def)
    then show ?thesis by (simp add: samples_ok_def keep)
  qed
  ultimately show ?thesis using inv by (simp add: bench_inv_def keep)
qed

section \<open>A finished request\<close>

lemma sum_targets: "1 \<le> c_clients c \<Longrightarrow> (\<Sum>i<c_clients c. target_of c i) = planned_of c"
proof -
  assume "1 \<le> c_clients c"
  then obtain n where n: "c_clients c = Suc n" by (cases "c_clients c") auto
  show ?thesis unfolding n planned_of_def target_of_def by (simp add: sum.lessThan_Suc_shift del: sum.lessThan_Suc)
qed

lemma room_for_sample:
  assumes inv: "bench_inv X c B s" and i: "i < c_clients c" and lt: "p_seq (clients s ! i) < p_target (clients s ! i)"
  shows "length (samples (run s)) < planned (run s)"
proof -
  have "(\<Sum>k<c_clients c. p_seq (clients s ! k)) < (\<Sum>k<c_clients c. target_of c k)"
    using inv i lt by (intro sum_strict_mono_ex1) (auto simp: bench_inv_def client_ok_def)
  then show ?thesis using inv sum_targets [of c] i by (simp add: bench_inv_def samples_ok_def)
qed

lemma seqs_snoc: "seqs i (xs @ [x]) = seqs i xs @ (if s_client x = i then [s_sequence x] else [])"
  by (simp add: seqs_def)

definition after_sample :: "nat \<Rightarrow> status \<Rightarrow> real \<Rightarrow> lg \<Rightarrow> lg" where
  "after_sample i st t s =
     with_client i (\<lambda>p. p\<lparr>p_seq := p_seq p + 1\<rparr>) (with_run (add_sample (sample_of (clients s ! i) st (origin (run s)) t)) s)"

lemma bench_inv_sample:
  assumes inv: "bench_inv {} c B s" and i: "i < c_clients c" and st: "p_state (clients s ! i) \<noteq> DONE"
  shows "bench_inv {i} c B (after_sample i status t s)"
proof -
  let ?ps = "clients s" and ?xs = "samples (run s)" and ?p = "clients s ! i"
  let ?qs = "?ps[i := ?p\<lparr>p_seq := p_seq ?p + 1\<rparr>]" and ?x = "sample_of ?p status (origin (run s)) t"
  have len: "length ?ps = c_clients c" using inv by (simp add: bench_inv_def)
  have idp: "p_id ?p = i" and lt: "p_seq ?p < p_target ?p"
    using inv i st by (auto simp: bench_inv_def client_ok_def)
  have so: "samples_ok {} ?ps ?xs" using inv by (simp add: bench_inv_def)
  have none: "s_client x \<noteq> i" if "x \<in> set ?xs" "bad_sample x" for x
    using so that st unfolding samples_ok_def by fastforce
  have x: "s_client ?x = i" "s_sequence ?x = p_seq ?p" by (simp_all add: sample_of_def idp)
  have sum: "(\<Sum>k<length ?qs. p_seq (?qs ! k)) = Suc (\<Sum>k<length ?ps. p_seq (?ps ! k))"
  proof -
    have "(\<Sum>k<length ?qs. p_seq (?qs ! k)) = p_seq (?qs ! i) + (\<Sum>k\<in>{..<length ?qs} - {i}. p_seq (?qs ! k))"
      by (rule sum.remove) (use i len in auto)
    moreover have "(\<Sum>k<length ?ps. p_seq (?ps ! k)) = p_seq (?ps ! i) + (\<Sum>k\<in>{..<length ?ps} - {i}. p_seq (?ps ! k))"
      by (rule sum.remove) (use i len in auto)
    moreover have "(\<Sum>k\<in>{..<length ?qs} - {i}. p_seq (?qs ! k)) = (\<Sum>k\<in>{..<length ?ps} - {i}. p_seq (?ps ! k))"
      by (rule sum.cong) auto
    ultimately show ?thesis using i len by simp
  qed
  have "samples_ok {i} ?qs (?xs @ [?x])"
    unfolding samples_ok_def
  proof (intro conjI)
    show "length (?xs @ [?x]) = (\<Sum>k<length ?qs. p_seq (?qs ! k))" using so sum by (simp add: samples_ok_def)
    show "\<forall>k<length ?qs. seqs k (?xs @ [?x]) = [0..<p_seq (?qs ! k)]"
      using so i len x by (auto simp: samples_ok_def seqs_snoc nth_list_update)
    show "\<forall>y\<in>set (?xs @ [?x]). s_client y < length ?qs" using so i len x by (auto simp: samples_ok_def)
    show "\<forall>y\<in>set (?xs @ [?x]). bad_sample y \<longrightarrow> Suc (s_sequence y) = p_seq (?qs ! s_client y) \<and>
        (s_client y \<notin> {i} \<longrightarrow> p_state (?qs ! s_client y) = DONE)"
      using so i len x none by (auto simp: samples_ok_def nth_list_update)
  qed
  moreover have "client_ok c {i} k (?qs ! k)" if "k < c_clients c" for k
    using inv that i lt len by (cases "k = i") (auto simp: bench_inv_def client_ok_def)
  moreover have "fd_inv B (c_clients c) (\<lambda>k. p_fd (?qs ! k)) (fds s)"
    using inv i len by (auto simp: bench_inv_def nth_list_update elim: fd_inv_cong)
  ultimately show ?thesis using inv by (simp add: bench_inv_def after_sample_def add_sample_def)
qed

section \<open>Triples of the operations on a client\<close>

definition env_closed :: "('z io_state_scheme \<Rightarrow> bool) \<Rightarrow> bool" where
  "env_closed P \<longleftrightarrow> (\<forall>s a b. P s \<longrightarrow> P (s\<lparr>script := a, interrupted := b\<rparr>))"

lemma valid_pop_env: "env_closed P \<Longrightarrow> valid P pop (\<lambda>_. P)"
  by (rule valid_pop) (auto simp: env_closed_def)

lemma valid_pop_bind: "env_closed P \<Longrightarrow> (\<And>a. valid P (f a) Q) \<Longrightarrow> valid P (andthen pop f) Q"
  by (rule valid_andthen [OF valid_pop_env])

lemma valid_now_bind: "env_closed P \<Longrightarrow> (\<And>t. valid P (f t) Q) \<Longrightarrow> valid P (andthen now f) Q"
  unfolding now_def
  by (rule valid_andthen [where R = "\<lambda>_. P"], rule valid_pop_bind, assumption)
    (auto simp: valid_def ret_def halt_def)

lemma valid_watch_bind: "env_closed P \<Longrightarrow> (\<And>t. valid P (f t) Q) \<Longrightarrow> valid P (andthen watch f) Q"
  unfolding watch_def
  by (rule valid_andthen [where R = "\<lambda>_. P"], rule valid_pop_bind, assumption) (auto simp: valid_def ret_def)

lemma valid_send_bind:
  "env_closed P \<Longrightarrow> (\<And>k. (\<And>j. k = Inr j \<Longrightarrow> j \<le> n) \<Longrightarrow> valid P (f k) Q) \<Longrightarrow> valid P (andthen (sys_send n) f) Q"
  unfolding sys_send_def
  by (rule valid_andthen [where R = "\<lambda>k s. P s \<and> (\<forall>j. k = Inr j \<longrightarrow> j \<le> n)"], rule valid_pop_bind, assumption)
    (auto simp: valid_def ret_def)

lemma valid_recv_bind:
  "env_closed P \<Longrightarrow> (\<And>k. (\<And>j. k = Inr j \<Longrightarrow> length j \<le> n) \<Longrightarrow> valid P (f k) Q) \<Longrightarrow> valid P (andthen (sys_recv n) f) Q"
  unfolding sys_recv_def
  by (rule valid_andthen [where R = "\<lambda>k s. P s \<and> (\<forall>j. k = Inr j \<longrightarrow> length j \<le> n)"], rule valid_pop_bind, assumption)
    (auto simp: valid_def ret_def)

lemma valid_recv_into_bind:
  assumes "env_closed P" "\<And>s. P s \<Longrightarrow> used + n \<le> size_of" "\<And>k. (\<And>j. k = Inr j \<Longrightarrow> length j \<le> n) \<Longrightarrow> valid P (f k) Q"
  shows "valid P (andthen (recv_into size_of used n) f) Q"
proof (cases "used + n \<le> size_of")
  case True
  then show ?thesis unfolding recv_into_def unless_fault_def by (simp add: valid_recv_bind [OF assms(1,3)])
next
  case False
  then show ?thesis using assms(2) by (auto simp: valid_def)
qed

lemma valid_client_bind:
  "(\<And>s. P s \<Longrightarrow> i < length (clients s)) \<Longrightarrow> (\<And>p. valid (\<lambda>s. P s \<and> p = clients s ! i) (f p) Q) \<Longrightarrow>
   valid P (andthen (client i) f) Q"
  by (fastforce simp: valid_def andthen_def client_def)

lemma valid_modify_bind: "(\<And>s. P s \<Longrightarrow> R (f s)) \<Longrightarrow> valid R m Q \<Longrightarrow> valid P (andthen (modify f) (\<lambda>_. m)) Q"
  by (auto simp: valid_def andthen_def modify_def)

lemma valid_ret_post: "(\<And>s. P s \<Longrightarrow> Q x s) \<Longrightarrow> valid P (ret x) Q"
  by (simp add: valid_def ret_def)

lemma env_closed_inv [simp]: "env_closed (bench_inv X c B)"
  by (simp add: env_closed_def bench_inv_def)

text \<open>A client \<open>i\<close> that may still send or receive.\<close>

definition active :: "config \<Rightarrow> int set \<Rightarrow> nat \<Rightarrow> lg \<Rightarrow> bool" where
  "active c B i s \<longleftrightarrow> bench_inv {} c B s \<and> i < c_clients c \<and> p_state (clients s ! i) \<noteq> DONE"

lemma env_closed_active [simp]: "env_closed (active c B i)"
  by (simp add: env_closed_def active_def bench_inv_def)

lemma active_length: "active c B i s \<Longrightarrow> i < length (clients s)"
  by (simp add: active_def bench_inv_def)

lemma retire_inv:
  assumes "i < c_clients c" "X \<subseteq> {i}"
  shows "valid (bench_inv X c B) (retire i) (\<lambda>_. bench_inv {} c B)"
proof -
  have fin: "bench_inv {} c B (with_client i (p_state_update (\<lambda>_. DONE)) s)" if "bench_inv X c B s" for s
    using that assms by (intro bench_inv_client [OF that]) (auto simp: bench_inv_def client_ok_def)
  have step: "valid (\<lambda>s. bench_inv X c B s \<and> p = clients s ! i)
      (if p_fd p \<ge> 0 then andthen pop (\<lambda>_. andthen (close_fd (p_fd p)) (\<lambda>_. modify (with_client i (p_fd_update (\<lambda>_. -1))))) else ret ())
      (\<lambda>_. bench_inv X c B)" for p
  proof (rule valid_if)
    assume fd: "p_fd p \<ge> 0"
    have "valid (\<lambda>s. bench_inv X c B s \<and> p = clients s ! i)
        (andthen (close_fd (p_fd p)) (\<lambda>_. modify (with_client i (p_fd_update (\<lambda>_. -1))))) (\<lambda>_. bench_inv X c B)"
      unfolding valid_def
    proof (intro allI impI)
      fix s assume s: "bench_inv X c B s \<and> p = clients s ! i"
      have "p_fd p \<in> fds s"
        using fd_inv_drop(2) [of B "c_clients c" "\<lambda>k. p_fd (clients s ! k)" "fds s" i] s assms fd by (simp add: bench_inv_def)
      then show "case andthen (close_fd (p_fd p)) (\<lambda>_. modify (with_client i (p_fd_update (\<lambda>_. -1)))) s of
          Inl e \<Rightarrow> e \<noteq> Fault | Inr (x, s') \<Rightarrow> bench_inv X c B s'"
        using bench_inv_close [of X c B s i] s assms fd by (simp add: andthen_def close_fd_def modify_def)
    qed
    then show "valid (\<lambda>s. bench_inv X c B s \<and> p = clients s ! i)
        (andthen pop (\<lambda>_. andthen (close_fd (p_fd p)) (\<lambda>_. modify (with_client i (p_fd_update (\<lambda>_. -1)))))) (\<lambda>_. bench_inv X c B)"
      by (rule valid_pop_bind [rotated]) (simp add: env_closed_def bench_inv_def)
  qed (auto intro: valid_ret_post)
  show ?thesis
    unfolding retire_def
    by (rule valid_client_bind, use assms in \<open>simp add: bench_inv_def\<close>, rule valid_andthen, rule step,
        rule valid_pre [OF valid_modify]) (rule fin)
qed

lemma valid_modify2_bind:
  "(\<And>s. P s \<Longrightarrow> R (g (f s))) \<Longrightarrow> valid R m Q \<Longrightarrow>
   valid P (andthen (modify f) (\<lambda>_. andthen (modify g) (\<lambda>_. m))) Q"
  by (auto simp: valid_def andthen_def modify_def)

lemma watch_or_inv:
  assumes "env_closed P" "\<And>s. P s \<Longrightarrow> bench_inv {} c B s" "valid P m (\<lambda>_. bench_inv {} c B)"
  shows "valid P (andthen watch (\<lambda>ok. if ok then ret () else m)) (\<lambda>_. bench_inv {} c B)"
  by (rule valid_watch_bind [OF assms(1)]) (auto intro: valid_ret_post assms)

definition sampled :: "config \<Rightarrow> int set \<Rightarrow> nat \<Rightarrow> client \<Rightarrow> status \<Rightarrow> lg \<Rightarrow> bool" where
  "sampled c B i p st s \<longleftrightarrow>
     bench_inv {i} c B s \<and> i < c_clients c \<and> p_seq (clients s ! i) = p_seq p + 1 \<and> p_target (clients s ! i) = p_target p \<and>
     (st = S_OK \<or> st = S_BUSY \<longrightarrow> (\<forall>x\<in>set (samples (run s)). bad_sample x \<longrightarrow> s_client x \<noteq> i))"

lemma sampled_after_sample:
  assumes a: "active c B i s"
  shows "sampled c B i (clients s ! i) st (after_sample i st t s)"
proof -
  have inv: "bench_inv {} c B s" and i: "i < c_clients c" and nd: "p_state (clients s ! i) \<noteq> DONE"
    using a by (simp_all add: active_def)
  have len: "i < length (clients s)" using a by (rule active_length)
  have "s_client x \<noteq> i" if "x \<in> set (samples (run s))" "bad_sample x" for x
    using inv that nd unfolding bench_inv_def samples_ok_def by fastforce
  then show ?thesis
    using bench_inv_sample [OF inv i nd] i len
    by (auto simp: sampled_def after_sample_def add_sample_def sample_of_def bad_sample_def)
qed

lemma sampled_idle:
  assumes s: "sampled c B i p st s" and st: "st = S_OK \<or> st = S_BUSY" and lt: "p_seq p + 1 < p_target p"
  shows "bench_inv {} c B (with_client i (\<lambda>p. p\<lparr>p_state := IDLE, p_due := d\<rparr>) s)"
proof (rule bench_inv_client)
  show "bench_inv {i} c B s" "i < c_clients c" using s by (simp_all add: sampled_def)
qed (use s st lt in \<open>auto simp: sampled_def bench_inv_def client_ok_def\<close>)

lemma finish_inv: "valid (active c B i) (finish c i st) (\<lambda>_. bench_inv {} c B)"
proof -
  have i: "i < c_clients c" if "active c B i s" for s using that by (simp add: active_def)
  have end_case: "valid (sampled c B i p st) (retire i) (\<lambda>_. bench_inv {} c B)" for p
  proof (cases "i < c_clients c")
    case True
    show ?thesis by (rule valid_pre [OF retire_inv [of i c "{i}"]]) (use True in \<open>auto simp: sampled_def\<close>)
  qed (simp add: valid_def sampled_def)
  have idle: "valid (sampled c B i p st)
      (andthen now (\<lambda>t. andthen (modify (with_client i (\<lambda>p. p\<lparr>p_state := IDLE, p_due := d t\<rparr>))) (\<lambda>_.
         andthen watch (\<lambda>ok. if ok then ret () else retire i)))) (\<lambda>_. bench_inv {} c B)"
    if "st = S_OK \<or> st = S_BUSY" "p_seq p + 1 < p_target p" for p d
  proof (cases "i < c_clients c")
    case True
    show ?thesis
      by (rule valid_now_bind, simp add: env_closed_def sampled_def bench_inv_def,
          rule valid_modify_bind [where R = "bench_inv {} c B"], erule sampled_idle [OF _ that],
          rule watch_or_inv) (use retire_inv [of i c "{}"] True in auto)
  qed (auto simp: valid_def sampled_def)
  show ?thesis
    unfolding finish_def
    apply (rule valid_client_bind, erule active_length)
    apply (rule valid_now_bind, simp add: env_closed_def active_def bench_inv_def)
    apply (rule valid_gets_bind)
    apply (rule valid_unless_fault)
     apply (use room_for_sample [of "{}"] in \<open>fastforce simp: active_def bench_inv_def client_ok_def\<close>)
    subgoal for p t r
      apply (rule valid_modify2_bind [where R = "sampled c B i p st"])
      using sampled_after_sample [of c B i _ st t] apply (auto simp: after_sample_def)[1]
      using end_case idle by (auto intro!: valid_if simp: linorder_not_le)
    done
qed

text \<open>How a step of a loop over one client ends: the client is still active, or the loop is over.\<close>

definition step_post :: "config \<Rightarrow> int set \<Rightarrow> nat \<Rightarrow> unit + unit \<Rightarrow> lg \<Rightarrow> bool" where
  "step_post c B i r s \<longleftrightarrow> (case r of Inl _ \<Rightarrow> active c B i s | Inr _ \<Rightarrow> bench_inv {} c B s)"

lemma step_post_simps [simp]: "step_post c B i (Inl ()) = active c B i" "step_post c B i (Inr ()) = bench_inv {} c B"
  by (auto simp: step_post_def)

lemma active_inv: "active c B i s \<Longrightarrow> bench_inv {} c B s"
  by (simp add: active_def)

lemma finish_step: "(\<And>s. P s \<Longrightarrow> active c B i s) \<Longrightarrow> valid P (andthen (finish c i st) (\<lambda>_. ret (Inr ()))) (step_post c B i)"
  by (rule valid_andthen [OF valid_pre [OF finish_inv]]) (auto intro: valid_ret_post)

lemma watch_step:
  assumes "env_closed P" "\<And>s. P s \<Longrightarrow> active c B i s"
  shows "valid P (andthen watch (\<lambda>ok. andthen (if ok then ret () else finish c i S_IO) (\<lambda>_. ret (Inr ())))) (step_post c B i)"
  by (rule valid_watch_bind [OF assms(1)], rule valid_andthen [where R = "\<lambda>_. bench_inv {} c B"])
    (auto intro!: valid_if valid_ret_post valid_pre [OF finish_inv] dest: assms(2) active_inv)

lemma active_upd:
  assumes "active c B i s" "p_state (f (clients s ! i)) \<noteq> DONE"
    "p_id (f (clients s ! i)) = p_id (clients s ! i)" "p_target (f (clients s ! i)) = p_target (clients s ! i)"
    "p_seq (f (clients s ! i)) = p_seq (clients s ! i)" "p_fd (f (clients s ! i)) = p_fd (clients s ! i)"
    "length (p_rx (f (clients s ! i))) \<le> LINE_MAX_BYTES + 1"
  shows "active c B i (with_client i f s)"
  using assms active_length [OF assms(1)] bench_inv_active [of "{}" c B s i f] by (simp add: active_def)

lemma active_rx: "active c B i s \<Longrightarrow> length (p_rx (clients s ! i)) \<le> LINE_MAX_BYTES + 1"
  by (auto simp: active_def bench_inv_def client_ok_def)

lemma active_run: "active c B i s \<Longrightarrow> active c B i (with_run (compute_sent_update g) s)"
  by (simp add: active_def bench_inv_run)

lemma env_closed_at [simp]: "env_closed (\<lambda>s. active c B i s \<and> p = clients s ! i)"
  by (simp add: env_closed_def active_def bench_inv_def)

lemma active_modify_ret:
  assumes "\<And>p. p_state (f p) = p_state p" "\<And>p. p_id (f p) = p_id p" "\<And>p. p_target (f p) = p_target p"
    "\<And>p. p_seq (f p) = p_seq p" "\<And>p. p_fd (f p) = p_fd p" "\<And>p. p_rx (f p) = p_rx p"
  shows "valid (active c B i) (andthen (modify (with_client i f)) (\<lambda>_. ret (Inl ()))) (step_post c B i)"
proof (rule valid_modify_bind [where R = "active c B i"])
  fix s assume a: "active c B i s"
  show "active c B i (with_client i f s)"
    by (rule active_upd [OF a]) (use a active_rx [OF a] in \<open>simp_all add: assms active_def\<close>)
qed (rule valid_ret_post, simp)

lemma send_step_inv: "valid (active c B i) (send_step c i) (step_post c B i)"
proof -
  let ?A = "active c B i"
  have sent: "valid (\<lambda>s. ?A s \<and> p = clients s ! i)
      (andthen (modify (with_client i (p_state_update (\<lambda>_. READING)))) (\<lambda>_.
       andthen (if c_workload c = W_RESPONSIVE \<and> p_id p = 0
                then andthen now (\<lambda>t. modify (with_run (compute_sent_update (\<lambda>_. t)))) else ret ()) (\<lambda>_.
       andthen watch (\<lambda>ok. andthen (if ok then ret () else finish c i S_IO) (\<lambda>_. ret (Inr ()))))))
      (step_post c B i)" for p
    apply (rule valid_modify_bind [where R = "?A"])
     apply (rule active_upd, use active_rx in auto)[1]
    apply (rule valid_andthen [where R = "\<lambda>_. ?A"])
     apply (rule valid_if)
      apply (rule valid_now_bind, simp, rule valid_pre [OF valid_modify], erule active_run)
     apply (rule valid_ret_post, assumption)
    by (rule watch_step) simp_all
  show ?thesis
    unfolding send_step_def
    apply (rule valid_client_bind, erule active_length)
    apply (rule valid_if)
     apply (rule valid_send_bind, simp)
    subgoal for p k
      apply (cases k)
       apply (auto intro!: finish_step watch_step valid_ret_post valid_pre [OF active_modify_ret])
      done
    by (rule sent)
qed

lemma while_step_inv:
  "valid (active c B i) (m i) (step_post c B i) \<Longrightarrow> valid (active c B i) (while_io (\<lambda>_. m i) ()) (\<lambda>_. bench_inv {} c B)"
  by (rule valid_while [where I = "\<lambda>_. active c B i"]) (erule valid_post, auto simp: step_post_def split: sum.splits)

lemma send_pending_inv: "valid (active c B i) (send_pending c i) (\<lambda>_. bench_inv {} c B)"
  unfolding send_pending_def by (rule while_step_inv [where m = "send_step c", OF send_step_inv])

lemma receive_step_inv: "valid (active c B i) (receive_step c i) (step_post c B i)"
proof -
  let ?A = "active c B i"
  have got: "valid (\<lambda>s. ?A s \<and> p = clients s ! i)
      (andthen (modify (with_client i (p_rx_update (\<lambda>_. rx)))) (\<lambda>_. m)) (step_post c B i)"
    if "length rx \<le> LINE_MAX_BYTES + 1" "valid ?A m (step_post c B i)" for p rx m
    by (rule valid_modify_bind [where R = "?A"], rule active_upd) (use that in \<open>auto simp: active_def\<close>)
  show ?thesis
    unfolding receive_step_def
    apply (rule valid_client_bind, erule active_length)
    apply (rule valid_unless_fault)
     apply (use active_rx in blast)
    apply (rule valid_recv_into_bind, simp)
     apply (use active_rx in \<open>fastforce simp: RX_SIZE_def\<close>)
    subgoal for p k
    proof (cases k)
      case (Inl e)
      then show ?thesis by (auto intro!: finish_step valid_ret_post dest: active_inv)
    next
      case (Inr b)
      assume "\<And>j. k = Inr j \<Longrightarrow> length j \<le> LINE_MAX_BYTES + 1 - length (p_rx p)"
      then have len: "length (p_rx p @ b) \<le> LINE_MAX_BYTES + 1" if "length (p_rx p) \<le> LINE_MAX_BYTES + 1" using Inr that by auto
      show ?thesis
      proof (cases "length (p_rx p) \<le> LINE_MAX_BYTES + 1")
        case True
        show ?thesis unfolding Inr sum.case Let_def
          by (intro valid_if got len [OF True] finish_step valid_ret_post) auto
      next
        case False
        then show ?thesis using active_rx by (auto simp: valid_def)
      qed
    qed
    done
qed

lemma receive_pending_inv: "valid (active c B i) (receive_pending c i) (\<lambda>_. bench_inv {} c B)"
  unfolding receive_pending_def by (rule while_step_inv [where m = "receive_step c", OF receive_step_inv])

section \<open>The rounds\<close>

lemma prepare_keeps [simp]:
  "p_id (prepare c t p) = p_id p" "p_target (prepare c t p) = p_target p" "p_seq (prepare c t p) = p_seq p"
  "p_fd (prepare c t p) = p_fd p" "p_rx (prepare c t p) = []" "p_state (prepare c t p) = SENDING" "p_sent (prepare c t p) = 0"
  by (simp_all add: prepare_def Let_def)

abbreviation inv :: "config \<Rightarrow> int set \<Rightarrow> lg \<Rightarrow> bool" where
  "inv \<equiv> bench_inv {}"

lemma inv_client_bind:
  assumes "i < c_clients c"
    and "\<And>p. p_state p \<noteq> DONE \<Longrightarrow> valid (\<lambda>s. active c B i s \<and> p = clients s ! i) (f p) Q"
    and "\<And>p. p_state p = DONE \<Longrightarrow> valid (inv c B) (f p) Q"
  shows "valid (inv c B) (andthen (client i) f) Q"
proof (rule valid_client_bind)
  fix p show "valid (\<lambda>s. inv c B s \<and> p = clients s ! i) (f p) Q"
  proof (cases "p_state p = DONE")
    case True
    then show ?thesis by (blast intro: valid_pre assms(3))
  next
    case False
    show ?thesis by (rule valid_pre [OF assms(2) [OF False]]) (use False assms(1) in \<open>auto simp: active_def\<close>)
  qed
qed (use assms(1) in \<open>simp add: bench_inv_def\<close>)

lemma finish_ret: "(\<And>s. P s \<Longrightarrow> active c B i s) \<Longrightarrow> valid P (andthen (finish c i st) (\<lambda>_. ret x)) (\<lambda>_. inv c B)"
  by (rule valid_andthen [OF valid_pre [OF finish_inv]]) (auto intro: valid_ret_post)

lemma prepare_then:
  assumes "valid (active c B i) m (\<lambda>_. inv c B)" "\<And>s. P s \<Longrightarrow> active c B i s" "env_closed P"
  shows "valid P (andthen now (\<lambda>t. andthen (modify (with_client i (prepare c t))) (\<lambda>_. m))) (\<lambda>_. inv c B)"
  by (rule valid_now_bind [OF assms(3)], rule valid_modify_bind [OF _ assms(1)])
    (auto intro!: active_upd dest!: assms(2))

lemma due_upd: "active c B i s \<Longrightarrow> active c B i (with_client i (\<lambda>p. p\<lparr>p_due := d\<rparr>) s)"
  by (rule active_upd) (use active_rx in \<open>auto simp: active_def\<close>)

lemma start_due_inv: "i < c_clients c \<Longrightarrow> valid (inv c B) (start_due c t wake i) (\<lambda>_. inv c B)"
  unfolding start_due_def
  apply (rule inv_client_bind, assumption)
   apply (rule valid_if)
    apply (auto intro!: valid_ret_post dest: active_inv)[1]
   apply (rule valid_gets_bind)
   apply (rule valid_andthen [where R = "\<lambda>_. active c B i"])
    apply (rule valid_if)
     apply (rule valid_pre [OF valid_modify], rule due_upd, simp)
    apply (rule valid_ret_post, simp)
   apply (rule valid_client_bind, erule active_length)
   apply (rule valid_if)
    apply (rule prepare_then)
      apply (rule valid_andthen [OF send_pending_inv], rule valid_ret_post)
  by (auto intro!: valid_ret_post dest: active_inv)

lemma check_timeout_inv: "i < c_clients c \<Longrightarrow> valid (inv c B) (check_timeout c t wake i) (\<lambda>_. inv c B)"
  unfolding check_timeout_def
  by (rule inv_client_bind) (auto intro!: valid_if finish_ret valid_ret_post dest: active_inv)

lemma tick_client_inv:
  assumes "i < c_clients c"
  shows "valid (inv c B) (tick_client c t aw i) (\<lambda>_. inv c B)"
proof -
  have "valid (inv c B) (andthen (start_due c t (snd aw) i) (\<lambda>wake. andthen (check_timeout c t wake i) (\<lambda>wake. ret (fst aw + 1, wake)))) (\<lambda>_. inv c B)"
    by (rule valid_andthen [OF start_due_inv [OF assms]], rule valid_andthen [OF check_timeout_inv [OF assms]], rule valid_ret_post)
  then show ?thesis
    unfolding tick_client_def
    by (intro inv_client_bind [OF assms] valid_if) (auto intro: valid_pre valid_ret_post dest: active_inv)
qed

lemma cancel_pending_inv: "i < c_clients c \<Longrightarrow> valid (inv c B) (cancel_pending c i) (\<lambda>_. inv c B)"
  unfolding cancel_pending_def
  by (rule inv_client_bind)
    (auto intro!: valid_if valid_pre [OF finish_inv] valid_ret_post dest: active_inv)

lemma handle_event_inv: "i < c_clients c \<Longrightarrow> valid (inv c B) (handle_event c i) (\<lambda>_. inv c B)"
proof -
  have peek: "valid (\<lambda>s. active c B i s \<and> p = clients s ! i) (case got of
         Inr b \<Rightarrow> andthen now (\<lambda>t. andthen (modify (with_client i (prepare c t))) (\<lambda>_.
                    finish c i (if b \<noteq> [] then S_PROTOCOL else S_IO)))
       | Inl e \<Rightarrow>
           if e \<noteq> EAGAIN \<and> e \<noteq> EINTR then
             andthen now (\<lambda>t. andthen (modify (with_client i (prepare c t))) (\<lambda>_. finish c i S_IO))
           else ret ()) (\<lambda>_. inv c B)" for got :: "errno + string" and p
    by (cases got) (auto intro!: prepare_then finish_inv valid_ret_post dest: active_inv)
  assume "i < c_clients c"
  then show ?thesis
    unfolding handle_event_def
    by (rule inv_client_bind)
      (auto intro!: valid_if valid_pre [OF send_pending_inv] valid_pre [OF receive_pending_inv] valid_recv_bind peek valid_ret_post
        dest: active_inv)
qed

lemma valid_epoll_bind:
  "env_closed P \<Longrightarrow> (\<And>ev. (\<And>is. ev = Inr is \<Longrightarrow> \<forall>i\<in>set is. i < n) \<Longrightarrow> valid P (f ev) Q) \<Longrightarrow>
   valid P (andthen (epoll_wait n) f) Q"
  unfolding epoll_wait_def
  by (rule valid_andthen [where R = "\<lambda>ev s. P s \<and> (\<forall>is. ev = Inr is \<longrightarrow> (\<forall>i\<in>set is. i < n))"], rule valid_pop_bind, assumption)
    (auto simp: valid_def ret_def dest: in_set_takeD)

lemma valid_gets_drop: "(\<And>v. valid P (g v) Q) \<Longrightarrow> valid P (andthen (gets f) g) Q"
  by (rule valid_gets_bind) (auto intro: valid_pre)

lemma valid_client_drop:
  "(\<And>s. P s \<Longrightarrow> i < length (clients s)) \<Longrightarrow> (\<And>p. valid P (f p) Q) \<Longrightarrow> valid P (andthen (client i) f) Q"
  by (rule valid_client_bind) (auto intro: valid_pre)

lemma valid_then: "valid P m (\<lambda>_. R) \<Longrightarrow> (\<And>x. valid R (f x) Q) \<Longrightarrow> valid P (andthen m f) Q"
  by (rule valid_andthen)

lemma bench_round_inv:
  assumes "1 \<le> c_clients c"
  shows "valid (inv c B) (bench_round c) (\<lambda>_. inv c B)"
proof -
  have upto: "i < c_clients c" if "i \<in> set [0..<c_clients c]" for i using that by simp
  have late: "valid (inv c B) (andthen (modify (with_run (\<lambda>r. r\<lparr>deadline_hit := b\<rparr>))) (\<lambda>_.
      andthen (each_io (cancel_pending c) [0..<c_clients c]) (\<lambda>_. ret (Inr ())))) (\<lambda>_. inv c B)" for b
    by (rule valid_modify_bind [where R = "inv c B"], erule bench_inv_run, simp, simp, rule valid_then, rule valid_each,
        rule cancel_pending_inv, erule upto) (rule valid_ret_post)
  have events: "valid (inv c B) (case ev of
       Inl e \<Rightarrow>
         if e = EINTR then ret (Inl ())
         else andthen (modify (with_run (\<lambda>r. r\<lparr>setup_errors := setup_errors r + 1\<rparr>))) (\<lambda>_. ret (Inr ()))
     | Inr is \<Rightarrow> andthen (each_io (handle_event c) is) (\<lambda>_. ret (Inl ()))) (\<lambda>_. inv c B)"
    if "\<And>is. ev = Inr is \<Longrightarrow> \<forall>i\<in>set is. i < c_clients c" for ev
  proof (cases ev)
    case (Inl e)
    have "valid (inv c B) (andthen (modify (with_run (\<lambda>r. r\<lparr>setup_errors := setup_errors r + 1\<rparr>))) (\<lambda>_. ret (Inr ()))) (\<lambda>_. inv c B)"
      by (rule valid_modify_bind [where R = "inv c B"], erule bench_inv_run, simp, simp) (rule valid_ret_post)
    then show ?thesis by (auto simp: Inl intro: valid_ret_post)
  next
    case (Inr evs)
    show ?thesis unfolding Inr sum.case
      by (rule valid_then, rule valid_each, rule handle_event_inv, use that Inr in blast) (rule valid_ret_post)
  qed
  show ?thesis
    unfolding bench_round_def
    apply (rule valid_now_bind, simp)
    apply (rule valid_gets_drop)+
    apply (rule valid_if, rule late)
    apply (rule valid_then, rule valid_fold_inv [where I = "\<lambda>_. inv c B"], rule tick_client_inv, erule upto)
    apply (rule valid_if, rule valid_ret_post, assumption)
    apply (rule valid_gets_drop)
    apply (rule valid_client_drop, use assms in \<open>simp add: bench_inv_def\<close>)
    apply (rule valid_gets_drop)
    apply (rule valid_if, rule valid_ret_post, assumption)
    apply (rule valid_now_bind, simp)
    apply (rule valid_epoll_bind, simp)
    by (rule events)
qed

lemma add_client_inv: "i < c_clients c \<Longrightarrow> valid (inv c B) (add_client c ok i) (\<lambda>_. inv c B)"
  unfolding add_client_def
  apply (rule valid_gets_drop)
  apply (rule valid_if, rule valid_ret_post, assumption)
  apply (rule valid_modify_bind [where R = "inv c B"])
   apply (rule bench_inv_client, assumption)
         apply (auto simp: bench_inv_def client_ok_def samples_ok_def)[7]
    apply simp
  apply (rule valid_watch_bind, simp)
  apply (rule valid_if, rule valid_ret_post, assumption)
  by (rule valid_modify_bind [where R = "inv c B"], erule bench_inv_run, simp, simp) (rule valid_ret_post)

lemma measure_all_inv:
  assumes "1 \<le> c_clients c"
  shows "valid (inv c B) (measure_all c) (\<lambda>_. inv c B)"
proof -
  have loop: "valid (inv c B) (while_io (\<lambda>_. bench_round c) ()) (\<lambda>_. inv c B)"
    by (rule valid_while [where I = "\<lambda>_. inv c B"], rule valid_post [OF bench_round_inv [OF assms]]) (auto split: sum.splits)
  show ?thesis
    unfolding measure_all_def
    apply (rule valid_gets_drop)+
    apply (rule valid_if, rule valid_ret_post, assumption)
    apply (rule valid_then, rule valid_fold_inv [where I = "\<lambda>_. inv c B"], rule add_client_inv, simp)
    by (rule valid_if, rule valid_ret_post, assumption, rule loop)
qed

end
