(* ===== verification/LoadgenSetup.thy ===== *)
theory LoadgenSetup
  imports LoadgenInv
begin

text \<open>
  The connection phase of the load generator, and the whole of \<open>benchmark\<close>: every client is
  counted once as connected or as an error, and every descriptor that was opened is closed once.
\<close>

section \<open>Setup\<close>

text \<open>After \<open>m\<close> clients of the first loop: those before \<open>m\<close> are set up, the rest is as \<^verbatim>\<open>calloc\<close> left it.\<close>

definition opened :: "config \<Rightarrow> int set \<Rightarrow> nat \<Rightarrow> int list \<times> nat \<Rightarrow> lg \<Rightarrow> bool" where
  "opened c B m fp s \<longleftrightarrow>
     length (clients s) = c_clients c \<and> planned (run s) = planned_of c \<and> samples (run s) = [] \<and> m \<le> c_clients c \<and>
     (\<forall>k<c_clients c. p_seq (clients s ! k) = 0 \<and> p_state (clients s ! k) = IDLE \<and> p_rx (clients s ! k) = []) \<and>
     (\<forall>k<m. p_id (clients s ! k) = k \<and> p_target (clients s ! k) = target_of c k) \<and>
     fd_inv B m (\<lambda>k. p_fd (clients s ! k)) (fds s) \<and>
     fst fp = map (\<lambda>k. p_fd (clients s ! k)) [0..<m] \<and>
     snd fp = card {k. k < m \<and> 0 \<le> p_fd (clients s ! k)} \<and>
     connected (run s) = 0 \<and> setup_errors (run s) + snd fp = m"

definition waiting :: "int list \<Rightarrow> nat" where
  "waiting xs = card {k. k < length xs \<and> 0 \<le> xs ! k}"

definition connecting :: "config \<Rightarrow> int set \<Rightarrow> int list \<times> nat \<Rightarrow> lg \<Rightarrow> bool" where
  "connecting c B fp s \<longleftrightarrow>
     inv c B s \<and> length (fst fp) = c_clients c \<and>
     (\<forall>k<c_clients c. 0 \<le> fst fp ! k \<longrightarrow> p_fd (clients s ! k) = fst fp ! k) \<and>
     snd fp = waiting (fst fp) \<and>
     connected (run s) + setup_errors (run s) + snd fp = c_clients c \<and>
     (\<forall>k<c_clients c. p_fd (clients s ! k) < 0 \<longrightarrow> 0 < setup_errors (run s))"

text \<open>\<open>new_fd\<close> and \<open>new_socket\<close> give -1 and leave the open descriptors as they were, or one new descriptor.\<close>

definition fd_result :: "'z io_state_scheme \<Rightarrow> int \<Rightarrow> 'z io_state_scheme \<Rightarrow> bool" where
  "fd_result s fd s' \<longleftrightarrow>
     (\<exists>a b. fd = -1 \<and> s' = s\<lparr>script := a, interrupted := b\<rparr> \<or>
        0 \<le> fd \<and> fd \<notin> fds s \<and> s' = s\<lparr>script := a, interrupted := b, fds := insert fd (fds s)\<rparr>)"

lemma new_fd_result: "case new_fd s of Inl e \<Rightarrow> e = Cut | Inr (fd, s') \<Rightarrow> fd_result s fd s'"
  by (auto simp: new_fd_def andthen_def pop_def fd_result_def split: list.splits)

lemma fds_first: "s\<lparr>fds := F, script := a, interrupted := b\<rparr> = s\<lparr>script := a, interrupted := b, fds := F\<rparr>"
  by simp

lemma new_socket_result: "case new_socket s of Inl e \<Rightarrow> e = Cut | Inr (fd, s') \<Rightarrow> fd_result s fd s'"
  unfolding new_socket_def new_fd_def andthen_def pop_def close_fd_def ret_def fd_result_def
  by (auto split: list.splits simp: fds_first) (blast+)?

lemma valid_fd_bind:
  assumes "\<And>s. case m s of Inl e \<Rightarrow> e = Cut | Inr (fd, s') \<Rightarrow> fd_result s fd s'"
    "\<And>s fd s'. P s \<Longrightarrow> fd_result s fd s' \<Longrightarrow> R fd s'" "\<And>fd. valid (R fd) (f fd) Q"
  shows "valid P (andthen m f) Q"
proof (rule valid_andthen [where R = R, OF _ assms(3)])
  show "valid P m R"
    unfolding valid_def
  proof (intro allI impI)
    fix s assume "P s"
    then show "case m s of Inl e \<Rightarrow> e \<noteq> Fault | Inr (x, s') \<Rightarrow> R x s'"
      using assms(1) [of s] assms(2) [of s] by (auto split: sum.splits prod.splits)
  qed
qed

lemma card_upto_Suc: "card {k. k < Suc m \<and> P k} = card {k. k < m \<and> P k} + (if P m then 1 else 0)"
proof -
  have "{k. k < Suc m \<and> P k} = {k. k < m \<and> P k} \<union> (if P m then {m} else {})" by (auto simp: less_Suc_eq)
  then show ?thesis by simp
qed

lemma card_upto_cong: "(\<And>k. k < (m::nat) \<Longrightarrow> P k = Q k) \<Longrightarrow> card {k. k < m \<and> P k} = card {k. k < m \<and> Q k}"
  by (rule arg_cong [where f = card]) auto

lemma fd_inv_Suc:
  assumes "fd_inv B m F S" "fd \<notin> S \<or> fd = -1" "0 \<le> fd \<or> fd = -1" "\<And>k. k < m \<Longrightarrow> G k = F k" "G m = fd"
  shows "fd_inv B (Suc m) G (if fd < 0 then S else insert fd S)"
proof -
  have ff: "G i = F i" if "i < m" for i using assms(4) that by simp
  have S: "S = B \<union> {F i |i. i < m \<and> 0 \<le> F i}" and nB: "\<forall>i<m. 0 \<le> F i \<longrightarrow> F i \<notin> B"
    and inj: "\<forall>i<m. \<forall>j<m. 0 \<le> F i \<longrightarrow> F i = F j \<longrightarrow> i = j"
    using assms(1) by (simp_all add: fd_inv_def)
  have G: "{G i |i. i < Suc m \<and> 0 \<le> G i} = {F i |i. i < m \<and> 0 \<le> F i} \<union> (if 0 \<le> fd then {fd} else {})"
  proof -
    have "{G i |i. i < Suc m \<and> 0 \<le> G i} = {G i |i. i < m \<and> 0 \<le> G i} \<union> {G i |i. i = m \<and> 0 \<le> G i}"
      by (auto simp: less_Suc_eq)
    moreover have "{G i |i. i < m \<and> 0 \<le> G i} = {F i |i. i < m \<and> 0 \<le> F i}" using ff by (auto; metis ff)
    moreover have "{G i |i. i = m \<and> 0 \<le> G i} = (if 0 \<le> fd then {fd} else {})" using assms(5) by auto
    ultimately show ?thesis by simp
  qed
  have new: "F i \<noteq> fd" if "i < m" "0 \<le> F i" for i
    using assms(2) that S by auto
  show ?thesis
    unfolding fd_inv_def G
  proof (intro conjI)
    show "(if fd < 0 then S else insert fd S) = B \<union> ({F i |i. i < m \<and> 0 \<le> F i} \<union> (if 0 \<le> fd then {fd} else {}))"
      unfolding S by auto
    show "\<forall>i<Suc m. 0 \<le> G i \<longrightarrow> G i \<notin> B" using nB ff assms(2,5) S by (auto simp: less_Suc_eq)
    show "\<forall>i<Suc m. \<forall>j<Suc m. 0 \<le> G i \<longrightarrow> G i = G j \<longrightarrow> i = j"
    proof (intro allI impI)
      fix i j assume ij: "i < Suc m" "j < Suc m" "0 \<le> G i" "G i = G j"
      consider "i < m" "j < m" | "i = m" "j < m" | "i < m" "j = m" | "i = m" "j = m" using ij by linarith
      then show "i = j"
      proof cases
        case 1
        then show ?thesis using ij(3,4) ff [of i] ff [of j] inj by metis
      next
        case 2
        then show ?thesis using ij(3,4) ff [of j] new [of j] assms(5) by auto
      next
        case 3
        then show ?thesis using ij(3,4) ff [of i] new [of i] assms(5) by auto
      qed simp
    qed
  qed
qed

definition set_up :: "config \<Rightarrow> nat \<Rightarrow> client \<Rightarrow> client" where
  "set_up c i p = p\<lparr>p_id := i, p_target := target_of c i\<rparr>"

lemma opened_step:
  assumes o: "opened c B i fp s" and i: "i < c_clients c" and r: "fd_result (with_client i (set_up c i) s) fd s'"
  defines "s'' \<equiv> with_client i (\<lambda>p. p\<lparr>p_fd := fd\<rparr>) s'"
  shows "fd < 0 \<Longrightarrow> opened c B (Suc i) (fst fp @ [fd], snd fp) (with_run (\<lambda>r. r\<lparr>setup_errors := setup_errors r + 1\<rparr>) s'')"
    and "\<not> fd < 0 \<Longrightarrow> opened c B (Suc i) (fst fp @ [fd], snd fp + 1) s''"
proof -
  have cl: "clients s' = (clients s)[i := set_up c i (clients s ! i)]" and rn: "run s' = run s"
    and fd: "0 \<le> fd \<or> fd = -1" "fd \<notin> fds s \<or> fd = -1" "fds s' = (if fd < 0 then fds s else insert fd (fds s))"
    using r by (auto simp: fd_result_def)
  have len: "length (clients s) = c_clients c" using o by (simp add: opened_def)
  have cl'': "clients s'' ! k = (if k = i then (set_up c i (clients s ! i))\<lparr>p_fd := fd\<rparr> else clients s ! k)" if "k < c_clients c" for k
    using that i len by (simp add: s''_def cl nth_list_update)
  have low: "p_fd (clients s'' ! k) = p_fd (clients s ! k)" if "k < i" for k using that cl'' i by simp
  have at: "p_fd (clients s'' ! i) = fd" using cl'' i by simp
  have F: "fd_inv B (Suc i) (\<lambda>k. p_fd (clients s'' ! k)) (fds s')"
    unfolding fd(3) by (rule fd_inv_Suc [of B i "\<lambda>k. p_fd (clients s ! k)"]) (use o fd low at in \<open>auto simp: opened_def\<close>)
  have cnt: "card {k. k < Suc i \<and> 0 \<le> p_fd (clients s'' ! k)} = snd fp + (if 0 \<le> fd then 1 else 0)"
    using o low unfolding card_upto_Suc at opened_def by (simp cong: card_upto_cong)
  have pend: "fst fp @ [fd] = map (\<lambda>k. p_fd (clients s'' ! k)) [0..<Suc i]"
    using o low at by (simp add: opened_def)
  have rest: "length (clients s'') = c_clients c" "planned (run s'') = planned_of c" "samples (run s'') = []" "Suc i \<le> c_clients c"
    "\<forall>k<c_clients c. p_seq (clients s'' ! k) = 0 \<and> p_state (clients s'' ! k) = IDLE \<and> p_rx (clients s'' ! k) = []"
    "\<forall>k<Suc i. p_id (clients s'' ! k) = k \<and> p_target (clients s'' ! k) = target_of c k"
    "connected (run s'') = 0" "setup_errors (run s'') = setup_errors (run s)" "fds s'' = fds s'"
    using o i len cl'' rn by (auto simp: opened_def s''_def cl set_up_def less_Suc_eq nth_list_update)
  show "fd < 0 \<Longrightarrow> opened c B (Suc i) (fst fp @ [fd], snd fp) (with_run (\<lambda>r. r\<lparr>setup_errors := setup_errors r + 1\<rparr>) s'')"
    using rest F cnt pend o unfolding opened_def by simp
  show "\<not> fd < 0 \<Longrightarrow> opened c B (Suc i) (fst fp @ [fd], snd fp + 1) s''"
    using rest F cnt pend o unfolding opened_def by simp
qed

lemma setup_client_opened:
  assumes "i < c_clients c"
  shows "valid (opened c B i fp) (setup_client c fp i) (opened c B (Suc i))"
proof -
  define R where "R fd s' = (\<exists>s. opened c B i fp s \<and> fd_result (with_client i (set_up c i) s) fd s')" for fd s'
  have body: "valid (R fd) (andthen (modify (with_client i (\<lambda>p. p\<lparr>p_fd := fd\<rparr>))) (\<lambda>_.
     if fd < 0 then andthen (modify (with_run (\<lambda>r. r\<lparr>setup_errors := setup_errors r + 1\<rparr>))) (\<lambda>_. ret (fst fp @ [fd], snd fp))
     else ret (fst fp @ [fd], snd fp + 1))) (opened c B (Suc i))" for fd
    using opened_step [OF _ assms, of B fp _ fd] unfolding valid_def andthen_def modify_def ret_def R_def by auto
  have "valid (opened c B i fp) (andthen (modify (with_client i (set_up c i))) (\<lambda>_. andthen new_socket (\<lambda>fd.
      andthen (modify (with_client i (\<lambda>p. p\<lparr>p_fd := fd\<rparr>))) (\<lambda>_.
     if fd < 0 then andthen (modify (with_run (\<lambda>r. r\<lparr>setup_errors := setup_errors r + 1\<rparr>))) (\<lambda>_. ret (fst fp @ [fd], snd fp))
     else ret (fst fp @ [fd], snd fp + 1))))) (opened c B (Suc i))"
    by (rule valid_modify_bind [where R = "\<lambda>s'. \<exists>s. opened c B i fp s \<and> s' = with_client i (set_up c i) s"], blast,
        rule valid_fd_bind [where R = R, OF new_socket_result _ body]) (auto simp: R_def)
  then show ?thesis by (simp add: setup_client_def set_up_def [abs_def] case_prod_beta)
qed

lemma waiting_clear:
  assumes "i < length xs" "0 \<le> xs ! i"
  shows "waiting xs = Suc (waiting (xs[i := -1]))"
proof -
  have "{k. k < length xs \<and> 0 \<le> xs ! k} = insert i {k. k < length xs \<and> 0 \<le> xs[i := -1] ! k}"
    using assms by (auto simp: nth_list_update)
  moreover have "i \<notin> {k. k < length xs \<and> 0 \<le> xs[i := -1] ! k}" using assms by simp
  ultimately show ?thesis by (simp add: waiting_def)
qed

abbreviation one_error :: "run \<Rightarrow> run" where
  "one_error \<equiv> \<lambda>r. r\<lparr>setup_errors := setup_errors r + 1\<rparr>"

definition closed :: "nat \<Rightarrow> lg \<Rightarrow> lg" where
  "closed i s = with_client i (\<lambda>p. p\<lparr>p_fd := -1\<rparr>) (s\<lparr>fds := fds s - {p_fd (clients s ! i)}\<rparr>)"

lemma closed_inv: "inv c B s \<Longrightarrow> i < c_clients c \<Longrightarrow> 0 \<le> p_fd (clients s ! i) \<Longrightarrow> inv c B (closed i s)"
  using bench_inv_close [of "{}" c B s i] by (simp add: closed_def)

lemma open_client_fd: "inv c B s \<Longrightarrow> i < c_clients c \<Longrightarrow> 0 \<le> p_fd (clients s ! i) \<Longrightarrow> p_fd (clients s ! i) \<in> fds s"
  using fd_inv_drop(2) [of B "c_clients c" "\<lambda>k. p_fd (clients s ! k)" "fds s" i] by (simp add: bench_inv_def)

lemma close_client_run:
  "inv c B s \<Longrightarrow> i < c_clients c \<Longrightarrow> 0 \<le> p_fd (clients s ! i) \<Longrightarrow> close_client i s = Inr ((), closed i s)"
  using open_client_fd [of c B s i]
  by (simp add: close_client_def client_def andthen_def close_fd_def modify_def closed_def bench_inv_def)

lemma connecting_len: "connecting c B fp s \<Longrightarrow> length (clients s) = c_clients c"
  by (simp add: connecting_def bench_inv_def)

lemma connecting_ok:
  assumes s: "connecting c B fp s" and i: "i < c_clients c" "0 \<le> fst fp ! i"
  shows "connecting c B ((fst fp)[i := -1], snd fp - 1) (with_run (\<lambda>r. r\<lparr>connected := connected r + 1\<rparr>) s)"
proof -
  have "waiting (fst fp) = Suc (waiting ((fst fp)[i := -1]))"
    by (rule waiting_clear) (use s i in \<open>auto simp: connecting_def\<close>)
  moreover have "inv c B (with_run (\<lambda>r. r\<lparr>connected := connected r + 1\<rparr>) s)"
    by (rule bench_inv_run) (use s in \<open>simp_all add: connecting_def\<close>)
  ultimately show ?thesis using s i by (auto simp: connecting_def nth_list_update)
qed

lemma connecting_err:
  assumes s: "connecting c B fp s" and i: "i < c_clients c" "0 \<le> fst fp ! i"
  shows "connecting c B ((fst fp)[i := -1], snd fp - 1) (closed i (with_run one_error s))"
proof -
  have fd: "0 \<le> p_fd (clients s ! i)" using s i by (simp add: connecting_def)
  have "waiting (fst fp) = Suc (waiting ((fst fp)[i := -1]))"
    by (rule waiting_clear) (use s i in \<open>auto simp: connecting_def\<close>)
  moreover have "inv c B (closed i (with_run one_error s))"
    by (rule closed_inv, rule bench_inv_run) (use s i fd in \<open>simp_all add: connecting_def\<close>)
  ultimately show ?thesis using s i connecting_len [OF s] by (auto simp: connecting_def nth_list_update closed_def)
qed

lemma env_closed_connecting [simp]: "env_closed (connecting c B fp)"
  by (simp add: env_closed_def connecting_def)

lemma check_client_valid:
  assumes "i < c_clients c"
  shows "valid (connecting c B fp) (check_client evs fp i) (connecting c B)"
proof -
  have err: "valid (connecting c B fp) (andthen (modify (with_run one_error)) (\<lambda>_. close_client i))
      (\<lambda>_. connecting c B ((fst fp)[i := -1], snd fp - 1))" if "0 \<le> fst fp ! i"
    unfolding valid_def
  proof (intro allI impI)
    fix s assume s: "connecting c B fp s"
    then have "inv c B (with_run one_error s)" "0 \<le> p_fd (clients s ! i)"
      using that assms by (auto simp: connecting_def intro: bench_inv_run)
    then show "case andthen (modify (with_run one_error)) (\<lambda>_. close_client i) s of
        Inl e \<Rightarrow> e \<noteq> Fault | Inr (x, t) \<Rightarrow> connecting c B ((fst fp)[i := -1], snd fp - 1) t"
      using connecting_err [OF s assms that] close_client_run [of c B "with_run one_error s" i] assms
      by (simp add: andthen_def modify_def)
  qed
  have ok: "valid (connecting c B fp) (modify (with_run (\<lambda>r. r\<lparr>connected := connected r + 1\<rparr>)))
      (\<lambda>_. connecting c B ((fst fp)[i := -1], snd fp - 1))" if "0 \<le> fst fp ! i"
    by (rule valid_pre [OF valid_modify]) (rule connecting_ok [OF _ assms that])
  show ?thesis
    unfolding check_client_def case_prod_beta connected_error_def
    by (rule valid_if, rule valid_then [where R = "connecting c B fp"], rule valid_pop_bind, simp, rule valid_ret_post, assumption,
        rule valid_then, rule valid_if, rule err, simp, rule ok, simp, rule valid_ret_post, simp)
      (rule valid_ret_post, simp)
qed

lemma setup_round_valid: "valid (connecting c B fp) (setup_round c until fp) (\<lambda>r s. case r of Inl fp \<Rightarrow> connecting c B fp s | Inr fp \<Rightarrow> connecting c B fp s)"
  unfolding setup_round_def
  apply (rule valid_if, rule valid_ret_post, simp)
  apply (rule valid_gets_drop)
  apply (rule valid_if, rule valid_ret_post, simp)
  apply (rule valid_now_bind, simp)
  apply (rule valid_if, rule valid_ret_post, simp)
  apply (rule valid_now_bind, simp)
  apply (rule valid_pop_bind, simp)
  apply (rule valid_if, rule valid_ret_post, simp)
  apply (rule valid_if, rule valid_ret_post, simp)
  by (rule valid_andthen, rule valid_fold_inv [where I = "connecting c B"], rule check_client_valid, simp)
    (rule valid_ret_post, simp)

text \<open>The state setup leaves: every client is counted once, as connected or as an error.\<close>

definition ready_to_run :: "config \<Rightarrow> int set \<Rightarrow> lg \<Rightarrow> bool" where
  "ready_to_run c B s \<longleftrightarrow>
     inv c B s \<and> connected (run s) + setup_errors (run s) = c_clients c \<and>
     (\<forall>k<c_clients c. p_fd (clients s ! k) < 0 \<longrightarrow> 0 < setup_errors (run s))"

text \<open>While the descriptors still waited for are closed.\<close>

definition giving_up :: "config \<Rightarrow> int set \<Rightarrow> int list \<Rightarrow> nat \<Rightarrow> lg \<Rightarrow> bool" where
  "giving_up c B pend m s \<longleftrightarrow>
     ready_to_run c B s \<and> (\<forall>k. m \<le> k \<longrightarrow> k < c_clients c \<longrightarrow> 0 \<le> pend ! k \<longrightarrow> p_fd (clients s ! k) = pend ! k) \<and>
     ((\<exists>k<c_clients c. 0 \<le> pend ! k) \<longrightarrow> 0 < setup_errors (run s))"

lemma giving_up_start:
  assumes "connecting c B fp s"
  shows "giving_up c B (fst fp) 0 (with_run (\<lambda>r. r\<lparr>setup_errors := setup_errors r + snd fp\<rparr>) s)"
proof -
  have "inv c B (with_run (\<lambda>r. r\<lparr>setup_errors := setup_errors r + snd fp\<rparr>) s)"
    by (rule bench_inv_run) (use assms in \<open>simp_all add: connecting_def\<close>)
  moreover have "0 < snd fp" if "k < c_clients c" "0 \<le> fst fp ! k" for k
    using assms that by (auto simp: connecting_def waiting_def card_gt_0_iff)
  ultimately show ?thesis using assms by (auto simp: giving_up_def ready_to_run_def connecting_def; blast)
qed

lemma giving_up_step:
  assumes "i < c_clients c"
  shows "valid (giving_up c B pend i) (if pend ! i \<ge> 0 then close_client i else ret ()) (\<lambda>_. giving_up c B pend (Suc i))"
proof (rule valid_if)
  assume p: "pend ! i \<ge> 0"
  show "valid (giving_up c B pend i) (close_client i) (\<lambda>_. giving_up c B pend (Suc i))"
    unfolding valid_def
  proof (intro allI impI)
    fix s assume s: "giving_up c B pend i s"
    then have fd: "p_fd (clients s ! i) = pend ! i" and inv: "inv c B s" and len: "length (clients s) = c_clients c"
      and err: "0 < setup_errors (run s)"
      using assms p by (auto simp: giving_up_def ready_to_run_def bench_inv_def)
    have "giving_up c B pend (Suc i) (closed i s)"
      using s closed_inv [OF inv assms] fd p len err assms
      by (auto simp: giving_up_def ready_to_run_def closed_def nth_list_update)
    then show "case close_client i s of Inl e \<Rightarrow> e \<noteq> Fault | Inr (x, t) \<Rightarrow> giving_up c B pend (Suc i) t"
      using close_client_run [OF inv assms] fd p by simp
  qed
qed (rule valid_ret_post, auto simp: giving_up_def)

lemma opened_start: "B = fds s \<Longrightarrow> opened c B 0 ([], 0) (s\<lparr>run := fresh_run c, clients := replicate (c_clients c) calloc_client\<rparr>)"
  by (simp add: opened_def fresh_run_def calloc_client_def fd_inv_def)

lemma opened_inv:
  assumes o: "opened c B (c_clients c) fp s" and pos: "1 \<le> c_requests c"
  shows "inv c B s"
proof -
  have z: "p_seq (clients s ! k) = 0" "p_rx (clients s ! k) = []" "p_id (clients s ! k) = k" "p_target (clients s ! k) = target_of c k"
    if "k < c_clients c" for k using o that by (simp_all add: opened_def)
  have len: "length (clients s) = c_clients c" and smp: "samples (run s) = []" "planned (run s) = planned_of c"
    and fd: "fd_inv B (c_clients c) (\<lambda>k. p_fd (clients s ! k)) (fds s)"
    using o by (simp_all add: opened_def)
  have "client_ok c {} k (clients s ! k)" if "k < c_clients c" for k
    using z [OF that] pos by (simp add: client_ok_def target_of_def)
  moreover have "samples_ok {} (clients s) []" by (simp add: samples_ok_def seqs_def z len)
  ultimately show ?thesis using len smp fd by (simp add: bench_inv_def)
qed

lemma opened_all:
  assumes o: "opened c B (c_clients c) fp s" and pos: "1 \<le> c_requests c"
  shows "connecting c B fp s"
proof -
  have pend: "fst fp = map (\<lambda>k. p_fd (clients s ! k)) [0..<c_clients c]" and con: "connected (run s) = 0"
    and n: "snd fp = card {k. k < c_clients c \<and> 0 \<le> p_fd (clients s ! k)}" and sum: "setup_errors (run s) + snd fp = c_clients c"
    using o by (simp_all add: opened_def)
  have w: "snd fp = waiting (fst fp)"
    unfolding n waiting_def pend by (rule arg_cong [where f = card]) auto
  have "0 < setup_errors (run s)" if "k < c_clients c" "p_fd (clients s ! k) < 0" for k
  proof -
    have "{k. k < c_clients c \<and> 0 \<le> p_fd (clients s ! k)} \<subset> {..<c_clients c}"
    proof (rule psubsetI)
      show "{k. k < c_clients c \<and> 0 \<le> p_fd (clients s ! k)} \<noteq> {..<c_clients c}"
      proof
        assume "{k. k < c_clients c \<and> 0 \<le> p_fd (clients s ! k)} = {..<c_clients c}"
        then have "k \<in> {k. k < c_clients c \<and> 0 \<le> p_fd (clients s ! k)}" using that(1) by blast
        then show False using that(2) by simp
      qed
    qed auto
    then have "snd fp < c_clients c" unfolding n by (metis card_lessThan finite_lessThan psubset_card_mono)
    then show ?thesis using sum by linarith
  qed
  then show ?thesis unfolding connecting_def using opened_inv [OF o pos] w con sum by (simp add: pend)
qed

lemma valid_fold_upto:
  assumes "\<And>b i. i < n \<Longrightarrow> valid (I i b) (f b i) (I (Suc i))"
  shows "valid (I 0 b) (fold_io f b [0..<n]) (I n)"
proof -
  have "valid (I (length ([] :: nat list)) b) (fold_io f b [0..<n]) (\<lambda>b'. I (length [0..<n]) b')"
  proof (rule valid_fold [where I = "\<lambda>b ys. I (length ys) b"])
    fix b x ys zs assume e: "[0..<n] = ys @ x # zs"
    have l: "length ys < n" using arg_cong [OF e, of length] by simp
    have "[0..<n] ! length ys = x" unfolding e by (rule nth_append_length)
    with l have "x = length ys" by simp
    with l show "valid (I (length ys) b) (f b x) (\<lambda>b'. I (length (ys @ [x])) b')" using assms [of "length ys" b] by simp
  qed
  then show ?thesis by simp
qed

lemma valid_each_upto:
  assumes "\<And>i. i < n \<Longrightarrow> valid (I i) (f i) (\<lambda>_. I (Suc i))"
  shows "valid (I 0) (each_io f [0..<n]) (\<lambda>_. I n)"
  unfolding each_io_def using valid_fold_upto [where I = "\<lambda>i _. I i" and f = "\<lambda>_. f", OF assms] by blast

lemma setup_clients_valid:
  assumes "1 \<le> c_requests c"
  shows "valid (opened c B 0 ([], 0)) (setup_clients c) (\<lambda>_. ready_to_run c B)"
proof -
  have env: "env_closed (opened c B m fp)" for m fp by (simp add: env_closed_def opened_def)
  have env2: "env_closed (giving_up c B pend m)" for pend m by (simp add: env_closed_def giving_up_def ready_to_run_def)
  have finish_up: "valid (connecting c B fp)
      (andthen (modify (with_run (\<lambda>r. r\<lparr>setup_errors := setup_errors r + snd fp\<rparr>))) (\<lambda>_.
       andthen (each_io (\<lambda>i. if fst fp ! i \<ge> 0 then close_client i else ret ()) [0..<c_clients c]) (\<lambda>_.
       andthen now (\<lambda>t. modify (with_run (\<lambda>r. r\<lparr>setup_seconds := t - start\<rparr>)))))) (\<lambda>_. ready_to_run c B)" for fp start
    apply (rule valid_modify_bind [where R = "giving_up c B (fst fp) 0"], rule giving_up_start, assumption)
    apply (rule valid_then, rule valid_each_upto [where I = "giving_up c B (fst fp)"], erule giving_up_step)
    apply (rule valid_now_bind, rule env2)
    by (rule valid_pre [OF valid_modify]) (auto simp: giving_up_def ready_to_run_def bench_inv_run)
  show ?thesis
    unfolding setup_clients_def allocate_def
    apply (rule valid_then [where R = "opened c B 0 ([], 0)"], rule valid_pop_bind, rule env, rule valid_if,
        rule valid_ret_post, assumption, rule valid_halt, simp)
    apply (rule valid_now_bind, rule env)
    apply (simp only: Let_def)
    apply (rule valid_andthen, rule valid_fold_upto [where I = "opened c B"], erule setup_client_opened)
    apply (rule valid_andthen, rule valid_pre, rule valid_while [where I = "connecting c B" and Q = "connecting c B"],
        rule setup_round_valid, rule opened_all, assumption, rule assms)
    by (rule finish_up)
qed

section \<open>The whole benchmark\<close>

definition fds_from :: "config \<Rightarrow> int set \<Rightarrow> nat \<Rightarrow> lg \<Rightarrow> int set" where
  "fds_from c B m s = B \<union> {p_fd (clients s ! k) |k. m \<le> k \<and> k < c_clients c \<and> 0 \<le> p_fd (clients s ! k)}"


lemma ready_inv: "ready_to_run c B s \<Longrightarrow> inv c B s"
  by (simp add: ready_to_run_def)

lemma fds_from_all: "inv c B s \<Longrightarrow> fds s = fds_from c B 0 s"
  by (simp add: bench_inv_def fd_inv_def fds_from_def)

text \<open>Closing what is left: from client \<open>m\<close> on the descriptors are still open.\<close>

definition distinct_fds :: "int set \<Rightarrow> client list \<Rightarrow> bool" where
  "distinct_fds B ps \<longleftrightarrow>
     (\<forall>i<length ps. 0 \<le> p_fd (ps ! i) \<longrightarrow> p_fd (ps ! i) \<notin> B) \<and>
     (\<forall>i<length ps. \<forall>j<length ps. 0 \<le> p_fd (ps ! i) \<longrightarrow> p_fd (ps ! i) = p_fd (ps ! j) \<longrightarrow> i = j)"

definition closing :: "config \<Rightarrow> int set \<Rightarrow> run \<Rightarrow> nat \<Rightarrow> lg \<Rightarrow> bool" where
  "closing c B r m s \<longleftrightarrow>
     run s = r \<and> length (clients s) = c_clients c \<and> fds s = fds_from c B m s \<and> distinct_fds B (clients s)"

lemma fds_from_Suc:
  assumes "i < c_clients c"
  shows "fds_from c B i s = fds_from c B (Suc i) s \<union> (if 0 \<le> p_fd (clients s ! i) then {p_fd (clients s ! i)} else {})"
proof -
  have "i \<le> k \<longleftrightarrow> k = i \<or> Suc i \<le> k" for k by auto
  then have "{p_fd (clients s ! k) |k. i \<le> k \<and> k < c_clients c \<and> 0 \<le> p_fd (clients s ! k)} =
      {p_fd (clients s ! k) |k. Suc i \<le> k \<and> k < c_clients c \<and> 0 \<le> p_fd (clients s ! k)} \<union>
      {p_fd (clients s ! k) |k. k = i \<and> 0 \<le> p_fd (clients s ! k)}" using assms by blast
  then show ?thesis by (auto simp: fds_from_def)
qed

lemma fds_from_fresh:
  assumes "distinct_fds B (clients s)" "i < c_clients c" "length (clients s) = c_clients c" "0 \<le> p_fd (clients s ! i)"
  shows "p_fd (clients s ! i) \<notin> fds_from c B (Suc i) s"
proof
  assume "p_fd (clients s ! i) \<in> fds_from c B (Suc i) s"
  moreover have "p_fd (clients s ! i) \<notin> B" using assms by (simp add: distinct_fds_def)
  ultimately obtain k where k: "Suc i \<le> k" "k < c_clients c" "p_fd (clients s ! i) = p_fd (clients s ! k)"
    by (auto simp: fds_from_def)
  then have "i = k" using assms unfolding distinct_fds_def by metis
  with k(1) show False by simp
qed

lemma closing_step:
  assumes i: "i < c_clients c"
  shows "valid (closing c B r i) (close_remaining i) (\<lambda>_. closing c B r (Suc i))"
  unfolding valid_def
proof (intro allI impI)
  fix s assume "closing c B r i s"
  then have s: "run s = r" "length (clients s) = c_clients c" "fds s = fds_from c B i s" "distinct_fds B (clients s)"
    by (simp_all add: closing_def)
  let ?fd = "p_fd (clients s ! i)"
  have upd: "fds_from c B m (s\<lparr>fds := F\<rparr>) = fds_from c B m s" for m F by (simp add: fds_from_def)
  have cl: "client i s = Inr (clients s ! i, s)" using i s(2) by (simp add: client_def)
  show "case close_remaining i s of Inl e \<Rightarrow> e \<noteq> Fault | Inr (x, t) \<Rightarrow> closing c B r (Suc i) t"
  proof (cases "0 \<le> ?fd")
    case True
    have "fds s = insert ?fd (fds_from c B (Suc i) s)" "?fd \<notin> fds_from c B (Suc i) s"
      using True fds_from_Suc [OF i, of B s] s(3) fds_from_fresh [OF s(4) i s(2) True] by simp_all
    then show ?thesis using True s by (simp add: close_remaining_def cl andthen_def close_if_open_def close_fd_def closing_def upd)
  next
    case False
    then have "fds s = fds_from c B (Suc i) s" using fds_from_Suc [OF i, of B s] s(3) by simp
    then show ?thesis using False s by (simp add: close_remaining_def cl andthen_def close_if_open_def ret_def closing_def)
  qed
qed

lemma closing_start:
  assumes "inv c B s"
  shows "closing c B (g (run s)) 0 (with_run g s)"
proof -
  have fi: "fd_inv B (c_clients c) (\<lambda>i. p_fd (clients s ! i)) (fds s)" and len: "length (clients s) = c_clients c"
    using assms unfolding bench_inv_def by blast+
  have "distinct_fds B (clients s)" using fi unfolding fd_inv_def distinct_fds_def len by blast
  moreover have "fds s = fds_from c B 0 s" using fi by (simp add: fd_inv_def fds_from_def)
  ultimately show ?thesis using len by (simp add: closing_def fds_from_def)
qed

text \<open>What a run of the benchmark is: samples of the clients' requests in order, and not more than planned.\<close>

definition complete_prefix :: "config \<Rightarrow> run \<Rightarrow> bool" where
  "complete_prefix c r \<longleftrightarrow>
     planned r = planned_of c \<and> length (samples r) \<le> planned r \<and>
     (\<forall>x\<in>set (samples r). s_client x < c_clients c) \<and>
     (\<forall>i<c_clients c. \<exists>n\<le>target_of c i. seqs i (samples r) = [0..<n] \<and>
        (\<forall>x\<in>set (samples r). s_client x = i \<longrightarrow> bad_sample x \<longrightarrow> Suc (s_sequence x) = n))"

lemma inv_complete_prefix:
  assumes inv: "inv c B s" and n: "1 \<le> c_clients c"
  shows "complete_prefix c (run s)"
proof -
  let ?r = "run s"
  have so: "samples_ok {} (clients s) (samples ?r)" and len: "length (clients s) = c_clients c"
    and cl: "\<forall>i<c_clients c. client_ok c {} i (clients s ! i)" and pl: "planned ?r = planned_of c"
    using inv unfolding bench_inv_def by blast+
  have le: "p_seq (clients s ! i) \<le> target_of c i" if "i < c_clients c" for i using cl that by (auto simp: client_ok_def)
  have "length (samples ?r) \<le> (\<Sum>i<c_clients c. target_of c i)"
    using so len le by (auto simp: samples_ok_def intro: sum_mono)
  then have "length (samples ?r) \<le> planned ?r" using sum_targets [OF n] pl by simp
  moreover have "\<exists>m\<le>target_of c i. seqs i (samples ?r) = [0..<m] \<and>
      (\<forall>x\<in>set (samples ?r). s_client x = i \<longrightarrow> bad_sample x \<longrightarrow> Suc (s_sequence x) = m)" if "i < c_clients c" for i
    using so le [OF that] len that by (intro exI [of _ "p_seq (clients s ! i)"]) (auto simp: samples_ok_def)
  ultimately show ?thesis using pl so len by (simp add: complete_prefix_def samples_ok_def)
qed

lemma inv_new_fd:
  assumes inv: "inv c B s" and r: "fd_result s ep s'" and ep: "\<not> ep < 0"
  shows "inv c (insert ep B) s'" and "ep \<notin> B"
proof -
  have new: "0 \<le> ep" "ep \<notin> fds s" "fds s' = insert ep (fds s)" "clients s' = clients s" "run s' = run s"
    using r ep by (auto simp: fd_result_def)
  have fi: "fd_inv B (c_clients c) (\<lambda>i. p_fd (clients s ! i)) (fds s)" using inv unfolding bench_inv_def by blast
  then have "fd_inv (insert ep B) (c_clients c) (\<lambda>i. p_fd (clients s ! i)) (insert ep (fds s))"
    using new(1,2) unfolding fd_inv_def by auto
  then show "inv c (insert ep B) s'" using inv new unfolding bench_inv_def by simp
  show "ep \<notin> B" using fi new(2) by (simp add: fd_inv_def)
qed

lemma valid_allocate_bind: "env_closed P \<Longrightarrow> valid P m Q \<Longrightarrow> valid P (andthen allocate (\<lambda>_. m)) Q"
  unfolding allocate_def
  by (rule valid_then [where R = P], rule valid_pop_bind, assumption, rule valid_if, rule valid_ret_post, assumption,
      rule valid_halt, simp)

lemma valid_cpu_now_bind: "env_closed P \<Longrightarrow> (\<And>t. valid P (f t) Q) \<Longrightarrow> valid P (andthen cpu_now f) Q"
  unfolding cpu_now_def
  by (rule valid_then [where R = P], rule valid_pop_bind, assumption, rule valid_ret_post, assumption)

lemma closing_end:
  assumes "ep \<notin> B"
  shows "valid (closing c (insert ep B) r (c_clients c)) (andthen (close_fd ep) (\<lambda>_. gets run)) (\<lambda>x s. x = r \<and> fds s = B)"
  using assms by (auto simp: valid_def andthen_def close_fd_def gets_def closing_def fds_from_def)

lemma benchmark_tail:
  assumes n: "1 \<le> c_clients c" and ep: "ep \<notin> B"
  shows "valid (inv c (insert ep B))
     (andthen now (\<lambda>t.
     andthen (modify (with_run (\<lambda>r. r\<lparr>origin := t\<rparr>))) (\<lambda>_.
     andthen cpu_now (\<lambda>cpu_start.
     andthen (measure_all c) (\<lambda>_.
     andthen now (\<lambda>t'.
     andthen cpu_now (\<lambda>cpu_end.
     andthen (modify (with_run (\<lambda>r. r\<lparr>elapsed := t' - origin r, cpu_seconds := cpu_end - cpu_start\<rparr>))) (\<lambda>_.
     andthen (each_io close_remaining [0..<c_clients c]) (\<lambda>_.
     andthen (close_fd ep) (\<lambda>_.
     gets run)))))))))) (\<lambda>r s. complete_prefix c r \<and> fds s = B)"
proof -
  have after: "valid (inv c (insert ep B))
     (andthen (modify (with_run g)) (\<lambda>_.
     andthen (each_io close_remaining [0..<c_clients c]) (\<lambda>_.
     andthen (close_fd ep) (\<lambda>_. gets run)))) (\<lambda>r s. complete_prefix c r \<and> fds s = B)"
    if g: "\<And>r. samples (g r) = samples r" "\<And>r. planned (g r) = planned r" for g
    unfolding valid_def
  proof (intro allI impI)
    fix s assume s: "inv c (insert ep B) s"
    let ?s = "with_run g s" and ?m = "andthen (each_io close_remaining [0..<c_clients c]) (\<lambda>_. andthen (close_fd ep) (\<lambda>_. gets run))"
    have "complete_prefix c (run ?s)"
      by (rule inv_complete_prefix [OF bench_inv_run n]) (use s g in simp_all)
    moreover have "valid (closing c (insert ep B) (g (run s)) 0) ?m (\<lambda>x s'. x = g (run s) \<and> fds s' = B)"
      by (rule valid_then [OF valid_each_upto [where I = "closing c (insert ep B) (g (run s))"]], erule closing_step, rule closing_end [OF ep])
    moreover have "closing c (insert ep B) (g (run s)) 0 ?s" by (rule closing_start [OF s])
    ultimately have "case ?m ?s of Inl e \<Rightarrow> e \<noteq> Fault | Inr (x, s') \<Rightarrow> x = g (run s) \<and> fds s' = B" "complete_prefix c (g (run s))"
      unfolding valid_def by simp_all
    then show "case andthen (modify (with_run g)) (\<lambda>_. ?m) s of Inl e \<Rightarrow> e \<noteq> Fault | Inr (x, s') \<Rightarrow> complete_prefix c x \<and> fds s' = B"
      by (auto simp: andthen_def modify_def split: sum.splits)
  qed
  show ?thesis
    apply (rule valid_now_bind, simp)
    apply (rule valid_modify_bind [where R = "inv c (insert ep B)"], erule bench_inv_run, simp, simp)
    apply (rule valid_cpu_now_bind, simp)
    apply (rule valid_then, rule measure_all_inv [OF n])
    apply (rule valid_now_bind, simp)
    apply (rule valid_cpu_now_bind, simp)
    by (rule after) simp_all
qed

lemma benchmark_valid:
  assumes n: "1 \<le> c_clients c" and r: "1 \<le> c_requests c"
  shows "valid (\<lambda>s. fds s = B) (benchmark c) (\<lambda>r s. complete_prefix c r \<and> fds s = B)"
proof -
  have env: "env_closed (\<lambda>s. fds s = B)" by (simp add: env_closed_def)
  show ?thesis
    unfolding benchmark_def bench_init_def
    apply (rule valid_allocate_bind, rule env)+
    apply (rule valid_modify_bind [where R = "opened c B 0 ([], 0)"], rule opened_start, simp)
    apply (rule valid_then, rule setup_clients_valid [OF r])
    apply (rule valid_fd_bind [where R = "\<lambda>ep s. \<not> ep < 0 \<longrightarrow> inv c (insert ep B) s \<and> ep \<notin> B", OF new_fd_result])
     apply (use inv_new_fd ready_inv in blast)
    subgoal for x ep
      apply (rule valid_if, rule valid_halt, simp)
      apply (cases "ep \<in> B")
       apply (simp add: valid_def)
      by (rule valid_pre [OF benchmark_tail [OF n]]) auto
    done
qed

text \<open>C5: whatever the network, the clock and signals do, the measured run stores no sample outside its
  array, closes every descriptor it opened exactly once, and what it returns are, client by client, the
  samples of the first so many requests in order, none after a failed one.\<close>

theorem benchmark_safe:
  assumes "1 \<le> c_clients c" "1 \<le> c_requests c"
  shows "benchmark c s \<noteq> Inl Fault \<and>
    (case benchmark c s of Inl e \<Rightarrow> True | Inr (r, s') \<Rightarrow> fds s' = fds s \<and> complete_prefix c r)"
proof -
  have "case benchmark c s of Inl e \<Rightarrow> e \<noteq> Fault | Inr (r, s') \<Rightarrow> complete_prefix c r \<and> fds s' = fds s"
    using benchmark_valid [OF assms, of "fds s"] unfolding valid_def by blast
  then show ?thesis by (cases "benchmark c s") auto
qed

text \<open>A run in which one client connects, sends its request in one piece and gets a result back.\<close>

definition plain :: answer where
  "plain = \<lparr>a_ok = True, a_err = EOTHER, a_n = 0, a_time = 0, a_data = [], a_events = [], a_signal = False\<rparr>"

definition example_script :: "answer list" where
  "example_script = [plain, plain, plain, plain, plain\<lparr>a_n := 3\<rparr>, plain, plain, plain, plain, plain\<lparr>a_events := [0]\<rparr>, plain, plain,
     plain\<lparr>a_n := 4\<rparr>, plain, plain, plain, plain, plain, plain\<lparr>a_n := 100\<rparr>, plain, plain, plain\<lparr>a_events := [0]\<rparr>,
     plain\<lparr>a_data := ''RESULT 7'' @ [LF]\<rparr>, plain, plain, plain, plain, plain]"

definition one_client :: config where
  "one_client = default_config\<lparr>c_work := 1, c_percent := 1, c_clients := 1, c_requests := 1, c_workload := W_COMPUTE\<rparr>"

definition example_start :: lg where
  "example_start = \<lparr>script = example_script, interrupted = False, fds = {}, clients = [], run = fresh_run one_client\<rparr>"

lemma result_line: "validate [CHR ''R'', CHR ''E'', CHR ''S'', CHR ''U'', CHR ''L'', CHR ''T'', CHR '' '', CHR ''7'', CHR 0x0A] C_COMPUTE e = S_OK"
  by (simp add: validate_def chomp_def LF_def CR_def LINE_MAX_BYTES_def printable_def)

lemma example_run:
  "case benchmark one_client example_start of Inl e \<Rightarrow> False
     | Inr (r, s) \<Rightarrow> map s_status (samples r) = [S_OK] \<and> setup_errors r = 0 \<and> \<not> deadline_hit r \<and> planned r = 1 \<and> \<not> interrupted s"
proof -
  have d: "dec (Suc 0) = ''1''" by (subst dec.simps) (simp add: digit_def char_of_def bit_0)
  show ?thesis
    by (simp add: benchmark_def andthen_def allocate_def pop_def ret_def bench_init_def modify_def example_start_def
      example_script_def plain_def setup_clients_def now_def one_client_def default_config_def setup_client_def with_client_def
      with_run_def fresh_run_def new_socket_def new_fd_def calloc_client_def target_of_def planned_of_def while_io_def
      setup_round_def each_io_def cpu_now_def measure_all_def gets_def close_remaining_def client_def close_if_open_def close_fd_def
      Let_def check_client_def connected_error_def add_client_def watch_def bench_round_def tick_client_def start_due_def
      check_timeout_def prepare_def choose_command_def send_pending_def send_step_def sys_send_def epoll_wait_def
      handle_event_def receive_pending_def receive_step_def sys_recv_def recv_into_def RX_SIZE_def unless_fault_def LINE_MAX_BYTES_def EVENT_BATCH_def
      finish_def retire_def add_sample_def sample_of_def halt_def snprintf_def d
      result_line line_length_def LF_def)
qed

theorem benchmark_safe_witness:
  "\<exists>r s'. benchmark one_client example_start = Inr (r, s') \<and> map s_status (samples r) = [S_OK] \<and> fds s' = {} \<and> complete_prefix one_client r"
proof -
  have "1 \<le> c_clients one_client" "1 \<le> c_requests one_client" by (simp_all add: one_client_def)
  from benchmark_safe [OF this, of example_start] example_run show ?thesis
    by (auto simp: example_start_def split: sum.splits prod.splits)
qed

end
