(* ===== verification/LoadgenAnswers.thy ===== *)
theory LoadgenAnswers
  imports LoadgenSetup
begin

text \<open>
  Where the answers of the load generator come from. The answers the system gave to \<^verbatim>\<open>recv\<close> are assigned to requests:
  every answer that was used goes to at most one request, with the prefix of its data that fitted. A sample that
  counts as a success or as busy is of a request whose data, put together in order, are one line that \<open>validate\<close>
  accepts for the command and the payload of that request. The triples here are for partial correctness: that no run
  ends in a fault is shown in \<^verbatim>\<open>LoadgenSetup\<close>.
\<close>

section \<open>Answers and requests\<close>

text \<open>A request is a client and a sequence number.\<close>

type_synonym hearing = "((nat \<times> nat) option \<times> string) list"

definition hears :: "hearing \<Rightarrow> answer list \<Rightarrow> bool" where
  "hears h used \<longleftrightarrow> list_all2 (\<lambda>(q, d) a. d = take (length d) (a_data a)) h used"

definition line_for :: "nat \<times> nat \<Rightarrow> hearing \<Rightarrow> string" where
  "line_for q h = concat (map snd (filter (\<lambda>(l, d). l = Some q) h))"

definition expected_text :: "config \<Rightarrow> nat \<Rightarrow> nat \<Rightarrow> string" where
  "expected_text c i seq = snprintf (LINE_MAX_BYTES + 1) (''OK '' @ echo_tag c i seq)"

definition accepted_line :: "config \<Rightarrow> nat \<Rightarrow> nat \<Rightarrow> command \<Rightarrow> string \<Rightarrow> status \<Rightarrow> bool" where
  "accepted_line c i seq k line st \<longleftrightarrow>
     k = choose_command c i seq \<and> LF \<notin> set (butlast line) \<and> validate line k (expected_text c i seq) = st"

definition answered :: "config \<Rightarrow> hearing \<Rightarrow> sample \<Rightarrow> bool" where
  "answered c h x \<longleftrightarrow>
     accepted_line c (s_client x) (s_sequence x) (s_command x) (line_for (s_client x, s_sequence x) h) (s_status x)"

lemma line_for_snoc: "line_for q (h @ [(l, d)]) = line_for q h @ (if l = Some q then d else [])"
  by (simp add: line_for_def)

lemma hears_snoc: "hears h used \<Longrightarrow> hears (h @ [(l, take n (a_data a))]) (used @ [a])"
  by (auto simp: hears_def min_def intro!: list_all2_appendI)

lemma validate_expected: "k \<noteq> C_ECHO \<Longrightarrow> validate line k e = validate line k e'"
  by (simp add: validate_def Let_def)

section \<open>The invariant\<close>

text \<open>\<open>X\<close>: the clients in the middle of \<open>finish\<close>, whose next request has heard nothing.\<close>

definition busy :: "client \<Rightarrow> bool" where
  "busy p \<longleftrightarrow> p_state p = SENDING \<or> p_state p = READING"

definition client_hears :: "config \<Rightarrow> nat set \<Rightarrow> hearing \<Rightarrow> nat \<Rightarrow> client \<Rightarrow> bool" where
  "client_hears c X h i p \<longleftrightarrow>
     p_id p = i \<and> (\<forall>n > p_seq p. line_for (i, n) h = []) \<and>
     (p_state p = IDLE \<or> i \<in> X \<longrightarrow> line_for (i, p_seq p) h = []) \<and>
     (busy p \<and> i \<notin> X \<longrightarrow> line_for (i, p_seq p) h = p_rx p \<and> p_command p = choose_command c i (p_seq p) \<and>
        (p_command p = C_ECHO \<longrightarrow> p_expected p = expected_text c i (p_seq p)))"

definition samples_heard :: "config \<Rightarrow> hearing \<Rightarrow> client list \<Rightarrow> sample list \<Rightarrow> bool" where
  "samples_heard c h ps xs \<longleftrightarrow> (\<forall>x \<in> set xs. s_client x < length ps \<and> s_sequence x < p_seq (ps ! s_client x) \<and>
     (\<not> bad_sample x \<longrightarrow> answered c h x))"

definition hearing_ok :: "config \<Rightarrow> answer list \<Rightarrow> nat set \<Rightarrow> hearing \<Rightarrow> lg \<Rightarrow> bool" where
  "hearing_ok c all X h s \<longleftrightarrow>
     (\<exists>used. all = used @ script s \<and> hears h used) \<and> samples_heard c h (clients s) (samples (run s)) \<and>
     (\<forall>i < length (clients s). client_hears c X h i (clients s ! i))"

definition heard :: "config \<Rightarrow> answer list \<Rightarrow> nat set \<Rightarrow> lg \<Rightarrow> bool" where
  "heard c all X s \<longleftrightarrow> (\<exists>h. hearing_ok c all X h s)"

definition heard_busy :: "config \<Rightarrow> answer list \<Rightarrow> nat \<Rightarrow> lg \<Rightarrow> bool" where
  "heard_busy c all i s \<longleftrightarrow> heard c all {} s \<and> i < length (clients s) \<and> busy (clients s ! i)"

definition heard_idle :: "config \<Rightarrow> answer list \<Rightarrow> nat \<Rightarrow> lg \<Rightarrow> bool" where
  "heard_idle c all i s \<longleftrightarrow> heard c all {} s \<and> i < length (clients s) \<and> p_state (clients s ! i) = IDLE"

lemma hearing_pop:
  "hearing_ok c all X h s \<Longrightarrow> script s = a # rest \<Longrightarrow>
   hearing_ok c all X (h @ [(None, [])]) (s\<lparr>script := rest, interrupted := b\<rparr>)"
proof -
  assume h: "hearing_ok c all X h s" "script s = a # rest"
  obtain used where u: "all = used @ script s" "hears h used" using h(1) by (auto simp: hearing_ok_def)
  have "all = (used @ [a]) @ rest" using u h(2) by simp
  moreover have "hears (h @ [(None, [])]) (used @ [a])" using hears_snoc [OF u(2), of None 0 a] by simp
  ultimately show ?thesis
    using h(1) by (auto simp: hearing_ok_def client_hears_def samples_heard_def answered_def line_for_snoc)
qed

lemma heard_fds [simp]: "heard c all X (s\<lparr>fds := F\<rparr>) = heard c all X s"
  by (simp add: heard_def hearing_ok_def)

lemma heard_run: "heard c all X s \<Longrightarrow> samples (g (run s)) = samples (run s) \<Longrightarrow> heard c all X (with_run g s)"
  by (auto simp: heard_def hearing_ok_def)

text \<open>An update of a client that keeps what the invariant is about.\<close>

lemma heard_client:
  assumes "heard c all X s"
    and "p_id (f (clients s ! i)) = p_id (clients s ! i)" "p_seq (f (clients s ! i)) = p_seq (clients s ! i)"
    and "\<And>h. i < length (clients s) \<Longrightarrow> client_hears c X h i (clients s ! i) \<Longrightarrow> client_hears c Y h i (f (clients s ! i))" "X - {i} = Y - {i}"
  shows "heard c all Y (with_client i f s)"
proof -
  obtain h where h: "hearing_ok c all X h s" using assms(1) by (auto simp: heard_def)
  have "client_hears c Y h k ((clients s)[i := f (clients s ! i)] ! k)" if "k < length (clients s)" for k
  proof (cases "k = i")
    case True
    then show ?thesis using h that assms(4) by (auto simp: hearing_ok_def)
  next
    case False
    then have "k \<in> X \<longleftrightarrow> k \<in> Y" using assms(5) by blast
    then show ?thesis using False h that by (simp add: hearing_ok_def client_hears_def)
  qed
  moreover have "samples_heard c h ((clients s)[i := f (clients s ! i)]) (samples (run s))"
  proof -
    have "p_seq ((clients s)[i := f (clients s ! i)] ! k) = p_seq (clients s ! k)" for k
      using assms(3) by (cases "k = i"; cases "i < length (clients s)") (auto simp: list_update_beyond)
    then show ?thesis using h by (simp add: hearing_ok_def samples_heard_def)
  qed
  ultimately show ?thesis using h by (auto simp: heard_def hearing_ok_def intro!: exI [of _ h])
qed

section \<open>Triples\<close>

definition pvalid :: "('z io_state_scheme \<Rightarrow> bool) \<Rightarrow> ('z, 'a) io \<Rightarrow> ('a \<Rightarrow> 'z io_state_scheme \<Rightarrow> bool) \<Rightarrow> bool" where
  "pvalid P m Q \<longleftrightarrow> (\<forall>s x s'. P s \<longrightarrow> m s = Inr (x, s') \<longrightarrow> Q x s')"

lemma pvalidD: "pvalid P m Q \<Longrightarrow> P s \<Longrightarrow> m s = Inr (x, s') \<Longrightarrow> Q x s'"
  by (simp add: pvalid_def)

lemma pvalid_valid: "valid P m Q \<Longrightarrow> pvalid P m Q"
  unfolding pvalid_def by (blast dest: valid_result)

lemma pvalid_conj: "pvalid P m Q \<Longrightarrow> pvalid P' m Q' \<Longrightarrow> pvalid (\<lambda>s. P s \<and> P' s) m (\<lambda>x s. Q x s \<and> Q' x s)"
  unfolding pvalid_def by blast

lemma pvalid_pre: "pvalid P m Q \<Longrightarrow> (\<And>s. P' s \<Longrightarrow> P s) \<Longrightarrow> pvalid P' m Q"
  unfolding pvalid_def by blast

lemma pvalid_post: "pvalid P m Q \<Longrightarrow> (\<And>x s. Q x s \<Longrightarrow> Q' x s) \<Longrightarrow> pvalid P m Q'"
  unfolding pvalid_def by blast

lemma pvalid_then: "pvalid P m R \<Longrightarrow> (\<And>x. pvalid (R x) (f x) Q) \<Longrightarrow> pvalid P (andthen m f) Q"
  unfolding pvalid_def andthen_def by (fastforce split: sum.splits)

lemma pvalid_ret: "(\<And>s. P s \<Longrightarrow> Q x s) \<Longrightarrow> pvalid P (ret x) Q"
  by (simp add: pvalid_def ret_def)

lemma pvalid_halt: "pvalid P (halt e) Q"
  by (simp add: pvalid_def halt_def)

lemma pvalid_if: "(b \<Longrightarrow> pvalid P m Q) \<Longrightarrow> (\<not> b \<Longrightarrow> pvalid P m' Q) \<Longrightarrow> pvalid P (if b then m else m') Q"
  by simp

lemma pvalid_unless: "(safe \<Longrightarrow> pvalid P m Q) \<Longrightarrow> pvalid P (unless_fault safe m) Q"
  by (simp add: unless_fault_def pvalid_halt)

lemma pvalid_modify: "(\<And>s. P s \<Longrightarrow> Q () (f s)) \<Longrightarrow> pvalid P (modify f) Q"
  by (simp add: pvalid_def modify_def)

lemma pvalid_gets: "(\<And>v. pvalid P (f v) Q) \<Longrightarrow> pvalid P (andthen (gets g) f) Q"
  by (simp add: pvalid_def andthen_def gets_def)

lemma pvalid_gets_at: "(\<And>v. pvalid (\<lambda>s. P s \<and> v = g s) (f v) Q) \<Longrightarrow> pvalid P (andthen (gets g) f) Q"
  by (simp add: pvalid_def andthen_def gets_def)

lemma pvalid_modify_bind: "(\<And>s. P s \<Longrightarrow> R (f s)) \<Longrightarrow> pvalid R m Q \<Longrightarrow> pvalid P (andthen (modify f) (\<lambda>_. m)) Q"
  unfolding pvalid_def andthen_def modify_def by auto

lemma pvalid_modify2:
  "(\<And>s. P s \<Longrightarrow> R (g (f s))) \<Longrightarrow> pvalid R m Q \<Longrightarrow> pvalid P (andthen (modify f) (\<lambda>_. andthen (modify g) (\<lambda>_. m))) Q"
  unfolding pvalid_def andthen_def modify_def by auto

lemma pvalid_client:
  "(\<And>p. pvalid (\<lambda>s. P s \<and> i < length (clients s) \<and> p = clients s ! i) (f p) Q) \<Longrightarrow> pvalid P (andthen (client i) f) Q"
  by (simp add: pvalid_def andthen_def client_def)

lemma pvalid_fold: "(\<And>b x. x \<in> set xs \<Longrightarrow> pvalid P (f b x) (\<lambda>_. P)) \<Longrightarrow> pvalid P (fold_io f b xs) (\<lambda>_. P)"
  by (induction xs arbitrary: b) (auto intro!: pvalid_ret pvalid_then)

lemma pvalid_each: "(\<And>x. x \<in> set xs \<Longrightarrow> pvalid P (f x) (\<lambda>_. P)) \<Longrightarrow> pvalid P (each_io f xs) (\<lambda>_. P)"
  unfolding each_io_def by (rule pvalid_fold)

lemma pvalid_while:
  assumes "\<And>b. pvalid P (body b) (\<lambda>r. case r of Inl _ \<Rightarrow> P | Inr _ \<Rightarrow> Q)"
  shows "pvalid P (while_io body b) (\<lambda>_. Q)"
proof -
  have "pvalid P (loop_io n body b) (\<lambda>_. Q)" for n b
  proof (induction n arbitrary: b)
    case (Suc n)
    have r: "pvalid (case r of Inl _ \<Rightarrow> P | Inr _ \<Rightarrow> Q) (case r of Inl b' \<Rightarrow> loop_io n body b' | Inr x \<Rightarrow> ret x) (\<lambda>_. Q)" for r
      using Suc by (cases r) (auto intro: pvalid_ret)
    show ?case unfolding loop_io.simps by (rule pvalid_then, rule assms, rule r)
  qed (simp add: pvalid_halt)
  then show ?thesis unfolding pvalid_def while_io_def by blast
qed

text \<open>Predicates that do not change when an answer is taken.\<close>

definition pop_closed :: "('z io_state_scheme \<Rightarrow> bool) \<Rightarrow> bool" where
  "pop_closed P \<longleftrightarrow> (\<forall>s a rest. P s \<longrightarrow> script s = a # rest \<longrightarrow> P (s\<lparr>script := rest, interrupted := interrupted s \<or> a_signal a\<rparr>))"

lemma pop_closed_heard [simp]: "pop_closed (heard c all X)" "pop_closed (heard_busy c all i)" "pop_closed (heard_idle c all i)"
  by (auto simp: pop_closed_def heard_busy_def heard_idle_def heard_def intro: hearing_pop)

lemma pop_closed_at:
  "pop_closed P \<Longrightarrow> pop_closed (\<lambda>s. P s \<and> i < length (clients s) \<and> p = clients s ! i)"
  "pop_closed P \<Longrightarrow> pop_closed (\<lambda>s. P s \<and> R (clients s))"
  by (simp_all add: pop_closed_def)

lemma pvalid_pop: "pop_closed P \<Longrightarrow> pvalid P pop (\<lambda>_. P)"
  by (auto simp: pvalid_def pop_def pop_closed_def split: list.splits)

lemma pvalid_pop_bind: "pop_closed P \<Longrightarrow> (\<And>a. pvalid P (f a) Q) \<Longrightarrow> pvalid P (andthen pop f) Q"
  by (rule pvalid_then [OF pvalid_pop])

lemma pvalid_calls:
  assumes "pop_closed P"
  shows "pvalid P now (\<lambda>_. P)" "pvalid P cpu_now (\<lambda>_. P)" "pvalid P allocate (\<lambda>_. P)" "pvalid P watch (\<lambda>_. P)" "pvalid P connected_error (\<lambda>_. P)"
    "pvalid P (sys_send n) (\<lambda>_. P)" "pvalid P (sys_recv n) (\<lambda>_. P)" "pvalid P (epoll_wait n) (\<lambda>_. P)"
  unfolding now_def cpu_now_def allocate_def watch_def connected_error_def sys_send_def sys_recv_def epoll_wait_def
  using assms by (auto intro!: pvalid_pop_bind pvalid_if pvalid_ret pvalid_halt)

lemmas pvalid_call_bind = pvalid_calls [THEN pvalid_then]

section \<open>The operations on a client\<close>

definition finishing :: "config \<Rightarrow> answer list \<Rightarrow> nat \<Rightarrow> status \<Rightarrow> lg \<Rightarrow> bool" where
  "finishing c all i st s \<longleftrightarrow> i < length (clients s) \<and> (\<exists>h. hearing_ok c all {} h s \<and>
     (st = S_OK \<or> st = S_BUSY \<longrightarrow>
        accepted_line c i (p_seq (clients s ! i)) (p_command (clients s ! i)) (line_for (i, p_seq (clients s ! i)) h) st))"

lemma pop_closed_finishing [simp]: "pop_closed (finishing c all i st)"
  unfolding pop_closed_def finishing_def using hearing_pop by (fastforce simp: line_for_snoc)

lemma finishing_bad: "heard c all {} s \<Longrightarrow> i < length (clients s) \<Longrightarrow> st \<noteq> S_OK \<Longrightarrow> st \<noteq> S_BUSY \<Longrightarrow> finishing c all i st s"
  by (auto simp: finishing_def heard_def)

lemma heard_after_sample:
  assumes "finishing c all i st s"
  shows "heard c all {i} (after_sample i st t s)"
proof -
  let ?p = "clients s ! i" and ?ps = "clients s"
  let ?qs = "?ps[i := ?p\<lparr>p_seq := p_seq ?p + 1\<rparr>]" and ?x = "sample_of ?p st (origin (run s)) t"
  obtain h where i: "i < length ?ps" and h: "hearing_ok c all {} h s"
    and acc: "st = S_OK \<or> st = S_BUSY \<longrightarrow> accepted_line c i (p_seq ?p) (p_command ?p) (line_for (i, p_seq ?p) h) st"
    using assms by (auto simp: finishing_def)
  have id: "p_id ?p = i" using h i by (simp add: hearing_ok_def client_hears_def)
  have ge: "p_seq (?ps ! k) \<le> p_seq (?qs ! k)" for k by (cases "k = i") (use i in auto)
  have "samples_heard c h ?qs (samples (run s))"
    using h ge unfolding samples_heard_def hearing_ok_def length_list_update by (meson order_less_le_trans)
  moreover have "\<not> bad_sample ?x \<longrightarrow> answered c h ?x" using acc id by (auto simp: bad_sample_def answered_def sample_of_def)
  ultimately have "samples_heard c h ?qs (samples (run s) @ [?x])"
    using i id by (auto simp: samples_heard_def sample_of_def)
  moreover have "client_hears c {i} h k (?qs ! k)" if "k < length ?ps" for k
    using h that i by (cases "k = i") (auto simp: hearing_ok_def client_hears_def busy_def)
  ultimately show ?thesis
    using h by (auto simp: heard_def hearing_ok_def after_sample_def add_sample_def intro!: exI [of _ h])
qed

lemma pvalid_close: "(\<And>s F. P (s\<lparr>fds := F\<rparr>) = P s) \<Longrightarrow> pvalid P (close_fd fd) (\<lambda>_. P)"
  by (auto simp: pvalid_def close_fd_def split: if_splits)

lemma heard_fd: "heard c all X s \<Longrightarrow> heard c all X (with_client i (p_fd_update (\<lambda>_. d)) s)"
  by (erule heard_client) (auto simp: client_hears_def busy_def)

lemma heard_done: "heard c all X s \<Longrightarrow> X \<subseteq> {i} \<Longrightarrow> heard c all {} (with_client i (p_state_update (\<lambda>_. DONE)) s)"
  by (erule heard_client) (auto simp: client_hears_def busy_def)

lemma retire_heard: "X \<subseteq> {i} \<Longrightarrow> pvalid (heard c all X) (retire i) (\<lambda>_. heard c all {})"
  unfolding retire_def
  apply (rule pvalid_client, rule pvalid_pre [where P = "heard c all X"])
   apply (rule pvalid_then [where R = "\<lambda>_. heard c all X"])
    apply (rule pvalid_if)
     apply (rule pvalid_pop_bind, simp, rule pvalid_then, rule pvalid_close, simp, rule pvalid_modify, erule heard_fd)
    apply (rule pvalid_ret, assumption)
  by (rule pvalid_modify) (auto intro: heard_done)

lemma finish_heard: "pvalid (finishing c all i st) (finish c i st) (\<lambda>_. heard c all {})"
proof -
  have idle: "heard c all {} (with_client i (\<lambda>p. p\<lparr>p_state := IDLE, p_due := d\<rparr>) s)" if "heard c all {i} s" for s d
    using that by (rule heard_client) (auto simp: client_hears_def busy_def)
  show ?thesis
    unfolding finish_def
    apply (rule pvalid_client)
    subgoal for p
      apply (rule pvalid_call_bind(1), intro pop_closed_at, simp)
      apply (rule pvalid_gets_at)
      apply (rule pvalid_unless)
      apply (rule pvalid_modify2 [where R = "heard c all {i}"])
       apply (use heard_after_sample in \<open>fastforce simp: after_sample_def\<close>)
      apply (intro pvalid_if)
        apply (rule retire_heard, simp)
       apply (rule retire_heard, simp)
      apply (rule pvalid_call_bind(1), simp)
      apply (rule pvalid_modify_bind, erule idle)
      apply (rule pvalid_call_bind(4), simp)
      by (rule pvalid_if, rule pvalid_ret, assumption, rule retire_heard, simp)
    done
qed

text \<open>How a step of the two loops of a client ends.\<close>

definition heard_step :: "config \<Rightarrow> answer list \<Rightarrow> nat \<Rightarrow> unit + unit \<Rightarrow> lg \<Rightarrow> bool" where
  "heard_step c all i r = (case r of Inl _ \<Rightarrow> heard_busy c all i | Inr _ \<Rightarrow> heard c all {})"

lemma heard_step_simps [simp]: "heard_step c all i (Inl u) = heard_busy c all i" "heard_step c all i (Inr u) = heard c all {}"
  by (simp_all add: heard_step_def)

lemma busy_not_idle: "busy p \<Longrightarrow> p_state p \<noteq> IDLE"
  by (auto simp: busy_def)

lemma heard_busy_update:
  assumes "heard_busy c all i s" "\<And>p. p_id (f p) = p_id p \<and> p_seq (f p) = p_seq p \<and> p_rx (f p) = p_rx p \<and> p_command (f p) = p_command p \<and> p_expected (f p) = p_expected p"
    "\<And>p. busy p \<Longrightarrow> busy (f p)"
  shows "heard_busy c all i (with_client i f s)"
proof -
  have b: "busy (f (clients s ! i))" using assms(1,3) by (simp add: heard_busy_def)
  have "heard c all {} (with_client i f s)"
    by (rule heard_client [of c all "{}"]) (use assms b busy_not_idle [OF b] in \<open>auto simp: heard_busy_def client_hears_def\<close>)
  then show ?thesis using assms(1) b by (simp add: heard_busy_def)
qed

lemma heard_busy_run: "heard_busy c all i s \<Longrightarrow> heard_busy c all i (with_run (compute_sent_update g) s)"
  by (simp add: heard_busy_def heard_run)

lemma finish_heard_step:
  "(\<And>s. P s \<Longrightarrow> finishing c all i st s) \<Longrightarrow> pvalid P (andthen (finish c i st) (\<lambda>_. ret (Inr ()))) (heard_step c all i)"
  by (rule pvalid_then, rule pvalid_pre [OF finish_heard]) (auto intro: pvalid_ret)

lemma busy_finishing: "heard_busy c all i s \<Longrightarrow> st \<noteq> S_OK \<Longrightarrow> st \<noteq> S_BUSY \<Longrightarrow> finishing c all i st s"
  by (auto simp: heard_busy_def intro: finishing_bad)

lemma watch_heard_step:
  "pvalid (heard_busy c all i) (andthen watch (\<lambda>ok. andthen (if ok then ret () else finish c i S_IO) (\<lambda>_. ret (Inr ())))) (heard_step c all i)"
  apply (rule pvalid_call_bind(4), simp)
  apply (rule pvalid_then [where R = "\<lambda>_. heard c all {}"])
   apply (rule pvalid_if, rule pvalid_ret, simp add: heard_busy_def)
   apply (rule pvalid_pre [OF finish_heard], erule busy_finishing, simp, simp)
  by (rule pvalid_ret) simp

lemma send_step_heard: "pvalid (heard_busy c all i) (send_step c i) (heard_step c all i)"
  unfolding send_step_def
  apply (rule pvalid_client, rule pvalid_pre [where P = "heard_busy c all i"])
   apply (rule pvalid_if)
    apply (rule pvalid_call_bind(6), simp)
  subgoal for p n
    by (cases n) (auto intro!: pvalid_if finish_heard_step watch_heard_step pvalid_ret pvalid_modify_bind [where R = "heard_busy c all i"]
        heard_busy_update simp: busy_def intro: busy_finishing)
   apply (rule pvalid_modify_bind [where R = "heard_busy c all i"], erule heard_busy_update, simp, simp add: busy_def)
   apply (rule pvalid_then [where R = "\<lambda>_. heard_busy c all i"])
    apply (rule pvalid_if, rule pvalid_call_bind(1), simp, rule pvalid_modify, erule heard_busy_run)
    apply (rule pvalid_ret, assumption)
   apply (rule watch_heard_step)
  by simp

lemma line_for_other: "q \<noteq> q' \<Longrightarrow> line_for q (h @ [(Some q', d)]) = line_for q h"
  by (simp add: line_for_snoc)

lemma hearing_recv:
  assumes h: "hearing_ok c all {} h s" and i: "i < length (clients s)" and b: "busy (clients s ! i)" and a: "script s = a # rest"
    and d: "d = take n (a_data a)"
  shows "hearing_ok c all {} (h @ [(Some (i, p_seq (clients s ! i)), d)])
    (with_client i (p_rx_update (\<lambda>_. p_rx (clients s ! i) @ d)) (s\<lparr>script := rest, interrupted := z\<rparr>))"
proof -
  let ?p = "clients s ! i" and ?ps = "clients s"
  let ?h = "h @ [(Some (i, p_seq ?p), d)]" and ?qs = "?ps[i := ?p\<lparr>p_rx := p_rx ?p @ d\<rparr>]"
  obtain used where u: "all = used @ script s" "hears h used" using h by (auto simp: hearing_ok_def)
  have "all = (used @ [a]) @ rest" using u a by simp
  moreover have "hears ?h (used @ [a])" unfolding d by (rule hears_snoc [OF u(2)])
  moreover have seq: "p_seq (?qs ! k) = p_seq (?ps ! k)" for k by (cases "k = i") (use i in auto)
  have "answered c ?h x = answered c h x" if "x \<in> set (samples (run s))" for x
  proof -
    have "(s_client x, s_sequence x) \<noteq> (i, p_seq ?p)" using h that by (auto simp: hearing_ok_def samples_heard_def)
    then show ?thesis unfolding answered_def by (subst line_for_other) auto
  qed
  then have "samples_heard c ?h ?qs (samples (run s))" using h by (simp add: hearing_ok_def samples_heard_def seq)
  moreover have "client_hears c {} ?h k (?qs ! k)" if "k < length ?ps" for k
    using h that i b busy_not_idle [OF b] by (cases "k = i") (auto simp: hearing_ok_def client_hears_def line_for_snoc busy_def)
  ultimately show ?thesis by (auto simp: hearing_ok_def)
qed

text \<open>After \<^verbatim>\<open>recv\<close>: appending what it returned to the buffer restores the invariant.\<close>

definition received :: "config \<Rightarrow> answer list \<Rightarrow> nat \<Rightarrow> client \<Rightarrow> errno + string \<Rightarrow> lg \<Rightarrow> bool" where
  "received c all i p k s \<longleftrightarrow> i < length (clients s) \<and> p = clients s ! i \<and>
     (case k of Inl e \<Rightarrow> heard_busy c all i s | Inr b \<Rightarrow> heard_busy c all i (with_client i (p_rx_update (\<lambda>_. p_rx p @ b)) s))"

lemma recv_received:
  "pvalid (\<lambda>s. heard_busy c all i s \<and> i < length (clients s) \<and> p = clients s ! i) (recv_into k u n) (received c all i p)"
proof -
  have "pvalid (\<lambda>s. heard_busy c all i s \<and> i < length (clients s) \<and> p = clients s ! i) (sys_recv n) (received c all i p)"
    unfolding pvalid_def
  proof (intro allI impI)
    fix s x s' assume s: "heard_busy c all i s \<and> i < length (clients s) \<and> p = clients s ! i" and r: "sys_recv n s = Inr (x, s')"
    obtain a rest where a: "script s = a # rest" and s': "s' = s\<lparr>script := rest, interrupted := interrupted s \<or> a_signal a\<rparr>"
      and x: "x = (if a_ok a then Inr (take n (a_data a)) else Inl (a_err a))"
      using r by (auto simp: sys_recv_def andthen_def pop_def ret_def split: list.splits)
    show "received c all i p x s'"
    proof (cases "a_ok a")
      case True
      obtain h where "hearing_ok c all {} h s" using s by (auto simp: heard_busy_def heard_def)
      from hearing_recv [OF this _ _ a refl, of i n] s
      have "heard c all {} (with_client i (p_rx_update (\<lambda>_. p_rx p @ take n (a_data a))) s')"
        unfolding s' by (auto simp: heard_def heard_busy_def)
      then show ?thesis using s True by (auto simp: received_def x heard_busy_def s' busy_def)
    next
      case False
      have "heard_busy c all i s'" using pop_closed_heard(2) [of c all i] s a unfolding pop_closed_def s' by blast
      then show ?thesis using s False by (simp add: received_def x s')
    qed
  qed
  then show ?thesis unfolding recv_into_def by (rule pvalid_unless)
qed

lemma whole_line: "line_length rx = length rx \<Longrightarrow> LF \<notin> set (butlast rx)"
proof
  assume l: "line_length rx = length rx" and m: "LF \<in> set (butlast rx)"
  have "rx \<noteq> []" using m by auto
  then have "takeWhile (\<lambda>c. c \<noteq> LF) rx = takeWhile (\<lambda>c. c \<noteq> LF) (butlast rx)"
    using m by (metis (mono_tags, lifting) append_butlast_last_id takeWhile_append1)
  then have "length (takeWhile (\<lambda>c. c \<noteq> LF) rx) < length (butlast rx)"
    using m by (metis (mono_tags, lifting) length_takeWhile_le le_neq_implies_less takeWhile_eq_all_conv takeWhile_eq_take take_all_iff linorder_not_le)
  then show False using l by (simp add: line_length_def)
qed

lemma line_finishing:
  assumes "heard_busy c all i s" "clients s ! i = p\<lparr>p_rx := rx\<rparr>"
    "st = (if line_length rx \<noteq> length rx then S_PROTOCOL else validate rx (p_command p) (p_expected p))"
  shows "finishing c all i st s"
proof -
  obtain h where h: "hearing_ok c all {} h s" and i: "i < length (clients s)" and b: "busy (clients s ! i)"
    using assms(1) by (auto simp: heard_busy_def heard_def)
  then have "client_hears c {} h i (clients s ! i)" by (simp add: hearing_ok_def)
  then have l: "line_for (i, p_seq p) h = rx" and k: "p_command p = choose_command c i (p_seq p)"
    and e: "p_command p = C_ECHO \<longrightarrow> p_expected p = expected_text c i (p_seq p)"
    using b assms(2) by (simp_all add: client_hears_def)
  have "validate rx (p_command p) (p_expected p) = validate rx (p_command p) (expected_text c i (p_seq p))"
    using e validate_expected by metis
  then have "st = S_OK \<or> st = S_BUSY \<longrightarrow> accepted_line c i (p_seq p) (p_command p) rx st"
    using assms(3) k whole_line by (auto simp: accepted_line_def split: if_splits)
  then show ?thesis using h i assms(2) l by (auto simp: finishing_def)
qed

lemma receive_step_heard: "pvalid (heard_busy c all i) (receive_step c i) (heard_step c all i)"
proof -
  have got: "pvalid (received c all i p (Inr b)) (andthen (modify (with_client i (p_rx_update (\<lambda>_. rx)))) (\<lambda>_. m)) (heard_step c all i)"
    if "rx = p_rx p @ b" "pvalid (\<lambda>s. heard_busy c all i s \<and> clients s ! i = p\<lparr>p_rx := rx\<rparr>) m (heard_step c all i)" for p b m rx
    by (rule pvalid_modify_bind [OF _ that(2)]) (auto simp: received_def that(1))
  have empty: "heard_busy c all i s" if "received c all i p (Inr []) s" for p s
  proof -
    have p: "p = clients s ! i" using that by (simp add: received_def)
    have "with_client i (p_rx_update (\<lambda>_. p_rx p)) s = s" unfolding p by (simp add: with_client_def)
    then show ?thesis using that by (simp add: received_def)
  qed
  have error: "received c all i p (Inl e) s \<Longrightarrow> heard_busy c all i s" for p e s by (simp add: received_def)
  show ?thesis
    unfolding receive_step_def
    apply (rule pvalid_client)
    apply (rule pvalid_unless)
    apply (rule pvalid_then, rule recv_received)
    subgoal for p k
    proof (cases k)
      case (Inl e)
      then show ?thesis by (auto intro!: pvalid_if finish_heard_step pvalid_ret intro: busy_finishing dest!: error simp: heard_busy_def)
    next
      case (Inr b)
      show ?thesis
      proof (cases "b = []")
        case True
        then show ?thesis unfolding Inr by (auto intro!: finish_heard_step intro: busy_finishing dest!: empty)
      next
        case False
        show ?thesis unfolding Inr sum.case if_P [OF False] Let_def
          by (rule got [OF refl], intro pvalid_if finish_heard_step pvalid_ret)
            (auto intro: busy_finishing line_finishing)
      qed
    qed
    done
qed

lemma pending_heard:
  "pvalid (heard_busy c all i) (send_pending c i) (\<lambda>_. heard c all {})" "pvalid (heard_busy c all i) (receive_pending c i) (\<lambda>_. heard c all {})"
  unfolding send_pending_def receive_pending_def
  by (rule pvalid_while, rule pvalid_post, rule send_step_heard receive_step_heard, simp add: heard_step_def split: sum.splits)+

section \<open>The rounds\<close>

lemma heard_idle_due: "heard_idle c all i s \<Longrightarrow> heard_idle c all i (with_client i (\<lambda>p. p\<lparr>p_due := d\<rparr>) s)"
proof -
  assume s: "heard_idle c all i s"
  have "heard c all {} (with_client i (\<lambda>p. p\<lparr>p_due := d\<rparr>) s)"
    by (rule heard_client [of c all "{}"]) (use s in \<open>auto simp: heard_idle_def client_hears_def busy_def\<close>)
  then show ?thesis using s by (simp add: heard_idle_def)
qed

lemma prepare_heard: "heard_idle c all i s \<Longrightarrow> heard_busy c all i (with_client i (prepare c t) s)"
proof -
  assume s: "heard_idle c all i s"
  have e: "p_expected (prepare c t p) = expected_text c (p_id p) (p_seq p)" if "p_command (prepare c t p) = C_ECHO" for p
    using that unfolding prepare_command by (simp add: prepare_def Let_def expected_text_def)
  have "heard c all {} (with_client i (prepare c t) s)"
    by (rule heard_client [of c all "{}"]) (use s e in \<open>auto simp: heard_idle_def client_hears_def busy_def\<close>)
  then show ?thesis using s by (simp add: heard_idle_def heard_busy_def busy_def)
qed

lemma heard_idle_heard: "heard_idle c all i s \<Longrightarrow> heard c all {} s"
  by (simp add: heard_idle_def)

lemma start_due_heard: "pvalid (heard c all {}) (start_due c t wake i) (\<lambda>_. heard c all {})"
  unfolding start_due_def
  apply (rule pvalid_client)
  apply (rule pvalid_if, rule pvalid_ret, simp)
  apply (rule pvalid_pre [where P = "heard_idle c all i"])
   apply (rule pvalid_gets)
   apply (rule pvalid_then [where R = "\<lambda>_. heard_idle c all i"])
    apply (rule pvalid_if, rule pvalid_modify, erule heard_idle_due, rule pvalid_ret, assumption)
   apply (rule pvalid_client, rule pvalid_pre [where P = "heard_idle c all i"])
    apply (rule pvalid_if)
     apply (rule pvalid_call_bind(1), simp)
     apply (rule pvalid_modify_bind, erule prepare_heard)
     apply (rule pvalid_then, rule pending_heard, rule pvalid_ret, assumption)
    apply (rule pvalid_ret, erule heard_idle_heard)
  by (auto simp: heard_idle_def)

lemma finish_bad_heard:
  "st \<noteq> S_OK \<Longrightarrow> st \<noteq> S_BUSY \<Longrightarrow> (\<And>s. P s \<Longrightarrow> heard c all {} s \<and> i < length (clients s)) \<Longrightarrow> pvalid P (finish c i st) (\<lambda>_. heard c all {})"
  by (rule pvalid_pre [OF finish_heard]) (auto intro: finishing_bad)

lemma check_timeout_heard: "pvalid (heard c all {}) (check_timeout c t wake i) (\<lambda>_. heard c all {})"
  unfolding check_timeout_def
  apply (rule pvalid_client)
  apply (rule pvalid_if)
   apply (rule pvalid_if)
    apply (rule pvalid_then [where R = "\<lambda>_. heard c all {}"], rule finish_bad_heard, simp, simp, simp, rule pvalid_ret, assumption)
  by (rule pvalid_ret, simp)+

lemma tick_client_heard: "pvalid (heard c all {}) (tick_client c t aw i) (\<lambda>_. heard c all {})"
  unfolding tick_client_def
  apply (rule pvalid_client)
  apply (rule pvalid_if, rule pvalid_ret, simp)
  apply (rule pvalid_then [where R = "\<lambda>_. heard c all {}"], rule pvalid_pre [OF start_due_heard], simp)
  by (rule pvalid_then [where R = "\<lambda>_. heard c all {}"], rule check_timeout_heard) (rule pvalid_ret)

lemma cancel_pending_heard: "pvalid (heard c all {}) (cancel_pending c i) (\<lambda>_. heard c all {})"
  unfolding cancel_pending_def
  by (rule pvalid_client, rule pvalid_if, rule finish_bad_heard, simp, simp, simp) (rule pvalid_ret, simp)

lemma handle_event_heard: "pvalid (heard c all {}) (handle_event c i) (\<lambda>_. heard c all {})"
proof -
  have peek: "pvalid (heard_idle c all i) (andthen now (\<lambda>t. andthen (modify (with_client i (prepare c t))) (\<lambda>_. finish c i st))) (\<lambda>_. heard c all {})"
    if "st \<noteq> S_OK" "st \<noteq> S_BUSY" for st
    by (rule pvalid_call_bind(1), simp, rule pvalid_modify_bind, erule prepare_heard, rule finish_bad_heard)
      (use that in \<open>auto simp: heard_busy_def\<close>)
  show ?thesis
    unfolding handle_event_def
    apply (rule pvalid_client)
    apply (rule pvalid_if, rule pvalid_pre [OF pending_heard(1)], simp add: heard_busy_def busy_def)
    apply (rule pvalid_if, rule pvalid_pre [OF pending_heard(2)], simp add: heard_busy_def busy_def)
    apply (rule pvalid_if)
     apply (rule pvalid_pre [where P = "heard_idle c all i"])
      apply (rule pvalid_call_bind(7), simp)
    subgoal for p got by (cases got) (auto intro!: peek pvalid_ret simp: heard_idle_heard)
     apply (simp add: heard_idle_def)
    by (rule pvalid_ret) simp
qed

lemma bench_round_heard: "pvalid (heard c all {}) (bench_round c) (\<lambda>_. heard c all {})"
proof -
  have run: "pvalid (heard c all {}) (andthen (modify (with_run g)) (\<lambda>_. m)) Q"
    if "\<And>r. samples (g r) = samples r" "pvalid (heard c all {}) m Q" for g m Q
    by (rule pvalid_modify_bind [OF _ that(2)], erule heard_run) (rule that(1))
  have events: "pvalid (heard c all {}) (case ev of
       Inl e \<Rightarrow>
         if e = EINTR then ret (Inl ())
         else andthen (modify (with_run (\<lambda>r. r\<lparr>setup_errors := setup_errors r + 1\<rparr>))) (\<lambda>_. ret (Inr ()))
     | Inr is \<Rightarrow> andthen (each_io (handle_event c) is) (\<lambda>_. ret (Inl ()))) (\<lambda>_. heard c all {})" for ev
    by (cases ev) (auto intro!: run pvalid_if pvalid_ret pvalid_then [OF pvalid_each] handle_event_heard)
  show ?thesis
    unfolding bench_round_def
    apply (rule pvalid_call_bind(1), simp)
    apply (rule pvalid_gets)+
    apply (rule pvalid_if)
     apply (rule run, simp, rule pvalid_then, rule pvalid_each, rule cancel_pending_heard, rule pvalid_ret, assumption)
    apply (rule pvalid_then, rule pvalid_fold, rule tick_client_heard)
    apply (rule pvalid_if, rule pvalid_ret, assumption)
    apply (rule pvalid_gets)
    apply (rule pvalid_client, rule pvalid_pre [where P = "heard c all {}"])
     apply (rule pvalid_gets)
     apply (rule pvalid_if, rule pvalid_ret, assumption)
     apply (rule pvalid_call_bind(1), simp)
     apply (rule pvalid_call_bind(8), simp)
     apply (rule events)
    by simp
qed

lemma add_client_heard: "pvalid (heard c all {}) (add_client c ok i) (\<lambda>_. heard c all {})"
proof -
  have due: "heard c all {} (with_client i (\<lambda>p. p\<lparr>p_due := d\<rparr>) s)" if "heard c all {} s" for s d
    by (rule heard_client [OF that]) (auto simp: client_hears_def busy_def)
  show ?thesis
    unfolding add_client_def
    apply (rule pvalid_gets)
    apply (rule pvalid_if, rule pvalid_ret, assumption)
    apply (rule pvalid_modify_bind, erule due)
    apply (rule pvalid_call_bind(4), simp)
    apply (rule pvalid_if, rule pvalid_ret, assumption)
    by (rule pvalid_modify_bind, erule heard_run, simp) (rule pvalid_ret)
qed

lemma measure_all_heard: "pvalid (heard c all {}) (measure_all c) (\<lambda>_. heard c all {})"
  unfolding measure_all_def
  apply (rule pvalid_gets)+
  apply (rule pvalid_if, rule pvalid_ret, assumption)
  apply (rule pvalid_then, rule pvalid_fold, rule add_client_heard)
  apply (rule pvalid_if, rule pvalid_ret, assumption)
  by (rule pvalid_while, rule pvalid_post [OF bench_round_heard]) (simp split: sum.splits)

section \<open>The whole benchmark\<close>

text \<open>Until the measured phase no answer belongs to a request.\<close>

definition untouched :: "answer list \<Rightarrow> lg \<Rightarrow> bool" where
  "untouched all s \<longleftrightarrow> (\<exists>used. all = used @ script s) \<and> samples (run s) = [] \<and> (\<forall>p \<in> set (clients s). p_state p = IDLE)"

lemma untouched_fds [simp]: "untouched all (s\<lparr>fds := F\<rparr>) = untouched all s"
  by (simp add: untouched_def)

lemma pop_closed_untouched [simp]: "pop_closed (untouched all)"
  by (auto simp: pop_closed_def untouched_def)

lemma untouched_run: "samples (g (run s)) = samples (run s) \<Longrightarrow> untouched all s \<Longrightarrow> untouched all (with_run g s)"
  by (simp add: untouched_def)

lemma untouched_client: "(\<And>p. p_state (f p) = p_state p) \<Longrightarrow> untouched all s \<Longrightarrow> untouched all (with_client i f s)"
proof -
  assume f: "\<And>p. p_state (f p) = p_state p" and s: "untouched all s"
  have "p_state p = IDLE" if "p \<in> set ((clients s)[i := f (clients s ! i)])" for p
    using that s f by (cases "i < length (clients s)") (auto simp: untouched_def list_update_beyond dest!: subsetD [OF set_update_subset_insert])
  then show ?thesis using s by (simp add: untouched_def)
qed

lemma pvalid_client_drop: "(\<And>p. pvalid P (f p) Q) \<Longrightarrow> pvalid P (andthen (client i) f) Q"
  by (rule pvalid_client, rule pvalid_pre [where P = P]) auto

lemma new_fd_untouched: "pvalid (untouched all) new_fd (\<lambda>_. untouched all)"
  unfolding new_fd_def by (rule pvalid_pop_bind, simp) (auto simp: pvalid_def untouched_def split: if_splits)

lemma new_socket_untouched: "pvalid (untouched all) new_socket (\<lambda>_. untouched all)"
  unfolding new_socket_def
  by (rule pvalid_then [OF new_fd_untouched])
    (auto intro!: pvalid_if pvalid_ret pvalid_pop_bind pvalid_then [OF pvalid_close])

lemma run_untouched: "(\<And>r. samples (g r) = samples r) \<Longrightarrow> pvalid (untouched all) (modify (with_run g)) (\<lambda>_. untouched all)"
  by (rule pvalid_modify) (simp add: untouched_run)

lemma client_untouched: "(\<And>p. p_state (f p) = p_state p) \<Longrightarrow> pvalid (untouched all) (modify (with_client i f)) (\<lambda>_. untouched all)"
  by (rule pvalid_modify) (simp add: untouched_client)

lemma close_client_untouched: "pvalid (untouched all) (close_client i) (\<lambda>_. untouched all)"
  unfolding close_client_def
  by (rule pvalid_client_drop, rule pvalid_then [OF pvalid_close], simp) (rule client_untouched, simp)

lemma setup_client_untouched: "pvalid (untouched all) (setup_client c fp i) (\<lambda>_. untouched all)"
  unfolding setup_client_def case_prod_beta
  by (rule pvalid_then [OF client_untouched], simp, rule pvalid_then [OF new_socket_untouched], rule pvalid_then [OF client_untouched], simp)
    (auto intro!: pvalid_if pvalid_then [OF run_untouched] pvalid_ret)

lemma check_client_untouched: "pvalid (untouched all) (check_client evs fp i) (\<lambda>_. untouched all)"
  unfolding check_client_def case_prod_beta
  apply (rule pvalid_if)
   apply (rule pvalid_call_bind(5), simp)
   apply (rule pvalid_then [where R = "\<lambda>_. untouched all"])
    apply (rule pvalid_if, rule pvalid_then [OF run_untouched], simp, rule close_client_untouched, rule run_untouched, simp)
  by (rule pvalid_ret, assumption)+

lemma setup_round_untouched: "pvalid (untouched all) (setup_round c until fp) (\<lambda>_. untouched all)"
  unfolding setup_round_def
  apply (rule pvalid_if, rule pvalid_ret, assumption)
  apply (rule pvalid_gets)
  apply (rule pvalid_if, rule pvalid_ret, assumption)
  apply (rule pvalid_call_bind(1), simp)
  apply (rule pvalid_if, rule pvalid_ret, assumption)
  apply (rule pvalid_call_bind(1), simp)
  apply (rule pvalid_pop_bind, simp)
  apply (rule pvalid_if, rule pvalid_ret, assumption)
  apply (rule pvalid_if, rule pvalid_ret, assumption)
  by (rule pvalid_then [OF pvalid_fold], rule check_client_untouched) (rule pvalid_ret)

lemma setup_clients_untouched: "pvalid (untouched all) (setup_clients c) (\<lambda>_. untouched all)"
  unfolding setup_clients_def Let_def
  apply (rule pvalid_call_bind(3), simp)
  apply (rule pvalid_call_bind(1), simp)
  apply (rule pvalid_then [OF pvalid_fold], rule setup_client_untouched)
  apply (rule pvalid_then [OF pvalid_while [where P = "untouched all" and Q = "untouched all"]], rule pvalid_post [OF setup_round_untouched], simp split: sum.splits)
  apply (rule pvalid_then [OF run_untouched], simp)
  apply (rule pvalid_then [OF pvalid_each], rule pvalid_if, rule close_client_untouched, rule pvalid_ret, assumption)
  by (rule pvalid_call_bind(1), simp) (rule run_untouched, simp)

lemma untouched_heard:
  assumes "untouched all s" "\<And>i. i < length (clients s) \<Longrightarrow> p_id (clients s ! i) = i"
  shows "heard c all {} s"
proof -
  obtain used where u: "all = used @ script s" using assms(1) by (auto simp: untouched_def)
  let ?h = "map (\<lambda>_. (None, [])) used"
  have l: "line_for q ?h = []" for q by (simp add: line_for_def)
  have "hears ?h used" by (simp add: hears_def list_all2_conv_all_nth)
  moreover have "client_hears c {} ?h i (clients s ! i)" if "i < length (clients s)" for i
  proof -
    have "p_state (clients s ! i) = IDLE" using assms(1) that by (simp add: untouched_def)
    then show ?thesis using assms(2) [OF that] by (simp add: client_hears_def l busy_def)
  qed
  ultimately have "hearing_ok c all {} ?h s" using u assms(1) by (simp add: hearing_ok_def samples_heard_def untouched_def)
  then show ?thesis by (auto simp: heard_def)
qed

definition all_answered :: "config \<Rightarrow> answer list \<Rightarrow> run \<Rightarrow> lg \<Rightarrow> bool" where
  "all_answered c all r s \<longleftrightarrow> (\<exists>used h. all = used @ script s \<and> hears h used \<and> (\<forall>x \<in> set (samples r). \<not> bad_sample x \<longrightarrow> answered c h x))"

lemma benchmark_answered:
  assumes "1 \<le> c_requests c"
  shows "pvalid (\<lambda>s. script s = all) (benchmark c) (all_answered c all)"
proof -
  have pc: "pop_closed (\<lambda>s. \<exists>used. all = used @ script s)" by (auto simp: pop_closed_def)
  have start: "pvalid (\<lambda>s. \<exists>used. all = used @ script s) (bench_init c) (\<lambda>_ s. opened c (fds s) 0 ([], 0) s \<and> untouched all s)"
  proof -
    have "p_state calloc_client = IDLE" "samples (fresh_run c) = []" by (simp_all add: calloc_client_def fresh_run_def)
    then show ?thesis
      unfolding bench_init_def using opened_start [OF refl] by (intro pvalid_modify) (simp add: untouched_def)
  qed
  have after_setup: "pvalid (\<lambda>s. opened c (fds s) 0 ([], 0) s \<and> untouched all s) (setup_clients c) (\<lambda>_. heard c all {})"
    unfolding pvalid_def
  proof (intro allI impI)
    fix s x s' assume s: "opened c (fds s) 0 ([], 0) s \<and> untouched all s" and r: "setup_clients c s = Inr (x, s')"
    have "untouched all s'" using pvalidD [OF setup_clients_untouched _ r] s by blast
    moreover have "ready_to_run c (fds s) s'" using valid_result [OF setup_clients_valid [OF assms] _ r] s by blast
    then have "p_id (clients s' ! i) = i" if "i < length (clients s')" for i
      using that by (simp add: ready_to_run_def bench_inv_def client_ok_def)
    ultimately show "heard c all {} s'" by (rule untouched_heard)
  qed
  have fd: "pvalid (heard c all {}) new_fd (\<lambda>_. heard c all {})"
  proof -
    have "pvalid (heard c all {}) (\<lambda>s. if a_ok a \<and> 0 \<le> a_n a \<and> a_n a \<notin> fds s then Inr (a_n a, s\<lparr>fds := insert (a_n a) (fds s)\<rparr>) else Inr (- 1, s))
        (\<lambda>_. heard c all {})" for a
      by (auto simp: pvalid_def split: if_splits)
    then show ?thesis unfolding new_fd_def by (intro pvalid_pop_bind) simp_all
  qed
  have run: "pvalid (heard c all {}) (andthen (modify (with_run g)) (\<lambda>_. m)) Q"
    if "\<And>r. samples (g r) = samples r" "pvalid (heard c all {}) m Q" for g and m :: "run lgio" and Q
    by (rule pvalid_modify_bind [OF _ that(2)], erule heard_run) (rule that(1))
  have result: "pvalid (heard c all {}) (gets run) (all_answered c all)"
    unfolding pvalid_def gets_def all_answered_def heard_def hearing_ok_def samples_heard_def by auto
  have remaining: "pvalid (heard c all {}) (close_remaining i) (\<lambda>_. heard c all {})" for i
    unfolding close_remaining_def close_if_open_def
    by (rule pvalid_client_drop, rule pvalid_if, rule pvalid_close, simp) (rule pvalid_ret)
  show ?thesis
    unfolding benchmark_def
    apply (rule pvalid_pre [where P = "\<lambda>s. \<exists>used. all = used @ script s"])
     apply (rule pvalid_call_bind(3), rule pc)+
     apply (rule pvalid_then [OF start])
     apply (rule pvalid_then [OF after_setup])
     apply (rule pvalid_then [OF fd])
     apply (rule pvalid_if, rule pvalid_halt)
     apply (rule pvalid_call_bind(1), simp)
     apply (rule run, simp)
     apply (rule pvalid_call_bind(2), simp)
     apply (rule pvalid_then [OF measure_all_heard])
     apply (rule pvalid_call_bind(1), simp)
     apply (rule pvalid_call_bind(2), simp)
     apply (rule run, simp)
     apply (rule pvalid_then [OF pvalid_each], rule remaining)
     apply (rule pvalid_then [OF pvalid_close], simp)
     apply (rule result)
    by auto
qed

end
