(* ===== verification/LoadgenReport.thy ===== *)
theory LoadgenReport
  imports LoadgenAnswers "HOL-Library.Multiset"
begin

text \<open>
  The load generator, third part: what is computed from the samples (\<^verbatim>\<open>stats\<close>, the verdict of
  \<^verbatim>\<open>report\<close>) and how it is written as JSON. \<^verbatim>\<open>printf\<close> with \<^verbatim>\<open>%.9f\<close> is the argument \<open>f9\<close>.
\<close>

section \<open>Statistics\<close>

record statistics =
  st_n :: nat
  st_mean :: real
  st_p50 :: real
  st_p95 :: real
  st_p99 :: real
  st_max :: real

definition selected :: "status \<Rightarrow> command option \<Rightarrow> bool \<Rightarrow> sample option \<Rightarrow> sample \<Rightarrow> bool" where
  "selected status command overlap compute p \<longleftrightarrow>
     \<not> (s_status p \<noteq> status \<or> (case command of None \<Rightarrow> False | Some k \<Rightarrow> s_command p \<noteq> k)) \<and>
     \<not> (overlap \<and> (case compute of None \<Rightarrow> True
          | Some q \<Rightarrow> s_command p = C_COMPUTE \<or> s_start p < s_start q \<or> s_start p \<ge> s_end q))"

definition latencies :: "sample list \<Rightarrow> status \<Rightarrow> command option \<Rightarrow> bool \<Rightarrow> sample option \<Rightarrow> real list" where
  "latencies xs status command overlap compute =
     map (\<lambda>p. (s_end p - s_start p) * 1000) (filter (selected status command overlap compute) xs)"

text \<open>\<^verbatim>\<open>values[(size_t)ceil(n * q) - 1]\<close> of the sorted values.\<close>

definition rank :: "real list \<Rightarrow> real \<Rightarrow> real" where
  "rank values q = values ! (nat \<lceil>real (length values) * q\<rceil> - 1)"

definition stats :: "sample list \<Rightarrow> status \<Rightarrow> command option \<Rightarrow> bool \<Rightarrow> sample option \<Rightarrow> statistics" where
  "stats xs status command overlap compute =
     (let values = latencies xs status command overlap compute; n = length values in
      if n = 0 then \<lparr>st_n = 0, st_mean = 0, st_p50 = 0, st_p95 = 0, st_p99 = 0, st_max = 0\<rparr>
      else let sorted_values = sort values in
        \<lparr>st_n = n, st_mean = sum_list values / real n, st_p50 = rank sorted_values (50 / 100),
         st_p95 = rank sorted_values (95 / 100), st_p99 = rank sorted_values (99 / 100),
         st_max = sorted_values ! (n - 1)\<rparr>)"

section \<open>The verdict\<close>

definition count_status :: "sample list \<Rightarrow> status \<Rightarrow> nat" where
  "count_status xs st = length (filter (\<lambda>x. s_status x = st) xs)"

definition compute_sample :: "config \<Rightarrow> sample list \<Rightarrow> sample option" where
  "compute_sample c xs = fold (\<lambda>x acc. if s_command x = C_COMPUTE \<and> c_workload c = W_RESPONSIVE then Some x else acc) xs None"

definition conclusive :: "config \<Rightarrow> sample list \<Rightarrow> bool" where
  "conclusive c xs \<longleftrightarrow>
     (case compute_sample c xs of None \<Rightarrow> False
      | Some q \<Rightarrow> s_status q = S_OK \<and> st_n (stats xs S_OK None True (Some q)) > 0)"

definition responses :: "sample list \<Rightarrow> nat" where
  "responses xs = count_status xs S_OK + count_status xs S_BUSY"

definition report_ok :: "config \<Rightarrow> bool \<Rightarrow> run \<Rightarrow> bool" where
  "report_ok c intr r =
     (let errors = length (samples r) - responses (samples r);
          ok = (setup_errors r = 0 \<and> \<not> deadline_hit r \<and> \<not> intr \<and> errors = 0 \<and> length (samples r) = planned r)
      in if c_workload c = W_RESPONSIVE \<and> \<not> conclusive c (samples r) then False else ok)"

text \<open>Light requests answered before the computation, for the responsive workload.\<close>

definition light_before :: "sample list \<Rightarrow> sample option \<Rightarrow> nat" where
  "light_before xs compute =
     (case compute of None \<Rightarrow> 0
      | Some q \<Rightarrow> length (filter (\<lambda>s. s_command s \<noteq> C_COMPUTE \<and> s_status s = S_OK \<and> s_start s \<ge> s_start q \<and> s_end s < s_end q) xs))"

section \<open>JSON\<close>

definition hex_digit :: "nat \<Rightarrow> char" where
  "hex_digit n = (if n < 10 then char_of (48 + n) else char_of (87 + n))"

definition QUOTE :: char where "QUOTE = CHR 0x22"
definition BACKSLASH :: char where "BACKSLASH = CHR 0x5C"

definition json_char :: "char \<Rightarrow> string" where
  "json_char ch =
     (if ch = QUOTE \<or> ch = BACKSLASH then [BACKSLASH, ch]
      else if (of_char ch :: nat) < 32
      then [BACKSLASH, CHR ''u'', CHR ''0'', CHR ''0'', hex_digit (of_char ch div 16), hex_digit (of_char ch mod 16)]
      else [ch])"

definition json_string :: "string \<Rightarrow> string" where
  "json_string s = [QUOTE] @ concat (map json_char s) @ [QUOTE]"

definition quoted :: "string \<Rightarrow> string" where
  "quoted s = [QUOTE] @ s @ [QUOTE]"

definition field :: "string \<Rightarrow> string \<Rightarrow> string" where
  "field name v = quoted name @ '':'' @ v"

definition json_stats :: "(real \<Rightarrow> string) \<Rightarrow> statistics \<Rightarrow> string" where
  "json_stats f9 s =
     ''{'' @ field ''count'' (dec (st_n s)) @ '','' @
     (if st_n s > 0
      then field ''mean'' (f9 (st_mean s)) @ '','' @ field ''p50'' (f9 (st_p50 s)) @ '','' @ field ''p95'' (f9 (st_p95 s)) @ '','' @
           field ''p99'' (f9 (st_p99 s)) @ '','' @ field ''max'' (f9 (st_max s)) @ ''}''
      else field ''mean'' ''null'' @ '','' @ field ''p50'' ''null'' @ '','' @ field ''p95'' ''null'' @ '','' @
           field ''p99'' ''null'' @ '','' @ field ''max'' ''null'' @ ''}'')"

definition work_name :: "workload \<Rightarrow> string" where
  "work_name w = (case w of W_ECHO \<Rightarrow> ''echo'' | W_TIME \<Rightarrow> ''time'' | W_COMPUTE \<Rightarrow> ''compute'' | W_MIXED \<Rightarrow> ''mixed''
     | W_FUNCTIONAL \<Rightarrow> ''functional'' | W_RESPONSIVE \<Rightarrow> ''responsive'')"

definition cmd_name :: "command \<Rightarrow> string" where
  "cmd_name k = (case k of C_ECHO \<Rightarrow> ''echo'' | C_TIME \<Rightarrow> ''time'' | C_COMPUTE \<Rightarrow> ''compute'' | C_QUIT \<Rightarrow> ''quit'')"

definition status_name :: "status \<Rightarrow> string" where
  "status_name st = (case st of S_OK \<Rightarrow> ''success'' | S_BUSY \<Rightarrow> ''busy'' | S_PROTOCOL \<Rightarrow> ''protocol_error''
     | S_IO \<Rightarrow> ''connection_error'' | S_TIMEOUT \<Rightarrow> ''timeout'' | S_CANCELLED \<Rightarrow> ''cancelled'')"

definition json_config :: "(real \<Rightarrow> string) \<Rightarrow> config \<Rightarrow> string" where
  "json_config f9 c =
     ''{'' @ field ''schema_version'' ''1'' @ '','' @ field ''loadgen_version'' (quoted ''1.0.1'') @ '','' @
     quoted ''config'' @ '':{'' @ field ''server_ip'' (json_string (c_ip c)) @
     '','' @ field ''port'' (dec (c_port c)) @ '','' @ field ''clients'' (dec (c_clients c)) @
     '','' @ field ''requests_per_client'' (dec (c_requests c)) @ '','' @ field ''workload'' (json_string (work_name (c_workload c))) @
     '','' @ field ''work'' (quoted (dec (c_work c))) @ '','' @ field ''compute_percent'' (dec (c_percent c)) @
     '','' @ field ''seed'' (dec (c_seed c)) @ '','' @ field ''timeout'' (f9 (c_timeout c)) @
     '','' @ field ''connect_timeout'' (f9 (c_connect_timeout c)) @ '','' @ field ''max_seconds'' (f9 (c_max_seconds c)) @
     '','' @ field ''interval_ms'' (f9 (c_interval c * 1000)) @ '','' @ field ''busy_backoff_ms'' (f9 (c_backoff c * 1000)) @
     '','' @ field ''probe_delay_ms'' (f9 (c_probe_delay c * 1000)) @
     '','' @ field ''fragment_delay_ms'' (f9 (c_fragment_delay c * 1000)) @ '','' @ field ''label'' (json_string (c_label c)) @ ''}''"

definition json_bool :: "bool \<Rightarrow> string" where
  "json_bool b = (if b then ''true'' else ''false'')"

fun commas :: "string \<Rightarrow> string list \<Rightarrow> string" where
  "commas sep [] = []"
| "commas sep [x] = x"
| "commas sep (x # y # ys) = x @ sep @ commas sep (y # ys)"

definition json_by_command :: "(real \<Rightarrow> string) \<Rightarrow> sample list \<Rightarrow> command \<Rightarrow> string" where
  "json_by_command f9 xs k =
     (let mine = filter (\<lambda>x. s_command x = k) xs in
      quoted (cmd_name k) @ '':{'' @ field ''success'' (dec (count_status mine S_OK)) @ '','' @
      field ''busy'' (dec (count_status mine S_BUSY)) @ '','' @
      field ''success_latency_ms'' (json_stats f9 (stats xs S_OK (Some k) False None)) @ ''}'')"

definition json_sample :: "(real \<Rightarrow> string) \<Rightarrow> sample \<Rightarrow> string" where
  "json_sample f9 s =
     ''{'' @ field ''client'' (dec (s_client s)) @ '','' @ field ''sequence'' (dec (s_sequence s)) @ '','' @
     field ''command'' (quoted (cmd_name (s_command s))) @ '','' @ field ''status'' (quoted (status_name (s_status s))) @ '','' @
     field ''start_ms'' (f9 (s_start s * 1000)) @ '','' @ field ''end_ms'' (f9 (s_end s * 1000)) @ '','' @
     field ''latency_ms'' (f9 ((s_end s - s_start s) * 1000)) @ ''}''"

definition json_summary :: "(real \<Rightarrow> string) \<Rightarrow> run \<Rightarrow> string" where
  "json_summary f9 r =
     (let xs = samples r; n = length xs; good = count_status xs S_OK; busy = count_status xs S_BUSY;
          resp = responses xs; el = (if elapsed r > 0 then elapsed r else 1 / 10 ^ 9)
      in field ''planned'' (dec (planned r)) @ '','' @ field ''attempted'' (dec n) @ '','' @
         field ''not_sent'' (dec (planned r - n)) @ '','' @ field ''success'' (dec good) @ '','' @ field ''busy'' (dec busy) @ '','' @
         field ''errors'' (dec (n - resp)) @ '','' @ field ''elapsed_seconds'' (f9 el) @ '','' @
         field ''success_rps'' (f9 (real good / el)) @ '','' @ field ''response_rps'' (f9 (real resp / el)) @ '','' @
         field ''busy_percent_of_responses'' (if resp > 0 then f9 (100 * real busy / real resp) else ''null''))"

definition json_report :: "(real \<Rightarrow> string) \<Rightarrow> config \<Rightarrow> bool \<Rightarrow> run \<Rightarrow> string" where
  "json_report f9 c intr r =
     (let xs = samples r; q = compute_sample c xs; el = (if elapsed r > 0 then elapsed r else 1 / 10 ^ 9) in
      json_config f9 c @ '','' @ field ''ok'' (json_bool (report_ok c intr r)) @ '','' @ field ''interrupted'' (json_bool intr) @ '','' @
      field ''deadline_exceeded'' (json_bool (deadline_hit r)) @ '','' @ field ''connected_clients'' (dec (connected r)) @ '','' @
      field ''setup_errors'' (dec (setup_errors r)) @ '','' @ field ''connection_setup_seconds'' (f9 (setup_seconds r)) @ '','' @
      field ''generator_cpu_seconds'' (f9 (cpu_seconds r)) @ '','' @
      field ''generator_cpu_percent_one_core'' (f9 (100 * cpu_seconds r / el)) @ '','' @
      quoted ''summary'' @ '':{'' @ json_summary f9 r @ '','' @ quoted ''error_counts'' @ '':{'' @
      commas '','' (map (\<lambda>k. field (status_name k) (dec (count_status xs k))) [S_PROTOCOL, S_IO, S_TIMEOUT, S_CANCELLED]) @
      ''},'' @ quoted ''latency_ms'' @ '':{'' @ field ''success'' (json_stats f9 (stats xs S_OK None False None)) @
      '','' @ field ''busy'' (json_stats f9 (stats xs S_BUSY None False None)) @ ''},'' @ quoted ''by_command'' @ '':{'' @
      commas '','' (map (json_by_command f9 xs) [C_ECHO, C_TIME, C_COMPUTE]) @ ''}}'' @
      (if c_workload c = W_RESPONSIVE
       then '','' @ quoted ''responsive'' @ '':{'' @ field ''conclusive'' (json_bool (conclusive c xs)) @ '','' @
            field ''light_completed_before_compute_response'' (dec (light_before xs q)) @ '','' @
            field ''light_overlap_success_latency_ms'' (json_stats f9 (stats xs S_OK None True q)) @ ''}''
       else []) @
      '','' @ quoted ''samples'' @ '':['' @ commas ('','' @ [LF]) (map (json_sample f9) xs) @ '']}'' @ [LF])"


section \<open>Nearest-rank percentiles\<close>

lemma rank_index:
  assumes "0 < n" "0 < q" "q \<le> 1"
  shows "nat \<lceil>real n * q\<rceil> - 1 < n" and "0 < nat \<lceil>real n * q\<rceil>"
proof -
  have "0 < real n * q" using assms by simp
  then show pos: "0 < nat \<lceil>real n * q\<rceil>" by linarith
  have "real n * q \<le> real n" using assms by (simp add: mult_left_le)
  then have "nat \<lceil>real n * q\<rceil> \<le> n" by linarith
  with pos show "nat \<lceil>real n * q\<rceil> - 1 < n" by linarith
qed

lemma rank_mono:
  assumes "sorted xs" "xs \<noteq> []" "0 < q" "q \<le> q'" "q' \<le> 1"
  shows "rank xs q \<le> rank xs q'"
proof -
  have "real (length xs) * q \<le> real (length xs) * q'" using assms by (simp add: mult_left_mono)
  then have "nat \<lceil>real (length xs) * q\<rceil> \<le> nat \<lceil>real (length xs) * q'\<rceil>" by linarith
  moreover have "nat \<lceil>real (length xs) * q'\<rceil> - 1 < length xs" using rank_index(1) [of "length xs" q'] assms by simp
  ultimately show ?thesis unfolding rank_def using assms(1) by (intro sorted_nth_mono) linarith+
qed

lemma card_below_sorted: "sorted xs \<Longrightarrow> k < length xs \<Longrightarrow> length (filter (\<lambda>x. x < xs ! k) xs) \<le> k"
proof -
  assume s: "sorted xs" "k < length xs"
  have "xs = take k xs @ drop k xs" by simp
  moreover have "filter (\<lambda>x. x < xs ! k) (drop k xs) = []"
  proof -
    have "xs ! k \<le> y" if "y \<in> set (drop k xs)" for y
      using that s by (auto simp: in_set_conv_nth intro!: sorted_nth_mono)
    then show ?thesis by (auto simp: filter_empty_conv not_less)
  qed
  ultimately have "filter (\<lambda>x. x < xs ! k) xs = filter (\<lambda>x. x < xs ! k) (take k xs)" by (metis filter_append append_Nil2)
  then show ?thesis by (metis length_filter_le length_take min.bounded_iff)
qed

lemma card_upto_sorted: "sorted xs \<Longrightarrow> k < length xs \<Longrightarrow> Suc k \<le> length (filter (\<lambda>x. x \<le> xs ! k) xs)"
proof -
  assume s: "sorted xs" "k < length xs"
  have "filter (\<lambda>x. x \<le> xs ! k) (take (Suc k) xs) = take (Suc k) xs"
    using s by (auto simp: filter_id_conv in_set_conv_nth intro!: sorted_nth_mono)
  moreover have "filter (\<lambda>x. x \<le> xs ! k) xs = filter (\<lambda>x. x \<le> xs ! k) (take (Suc k) xs) @ filter (\<lambda>x. x \<le> xs ! k) (drop (Suc k) xs)"
    by (metis append_take_drop_id filter_append)
  ultimately show ?thesis using s(2) by simp
qed

text \<open>\<open>v\<close> is the \<open>q\<close> quantile by the nearest rank: enough values are at most \<open>v\<close>, too few are below it.\<close>

definition nearest_rank :: "real list \<Rightarrow> real \<Rightarrow> real \<Rightarrow> bool" where
  "nearest_rank xs q v \<longleftrightarrow>
     v \<in> set xs \<and> q * real (length xs) \<le> real (length (filter (\<lambda>x. x \<le> v) xs)) \<and>
     real (length (filter (\<lambda>x. x < v) xs)) < q * real (length xs)"

lemma length_filter_sort: "length (filter P (sort xs)) = length (filter P (xs :: real list))"
  by (metis mset_filter mset_sort size_mset)

lemma rank_nearest:
  assumes "xs \<noteq> []" "0 < q" "q \<le> 1"
  shows "nearest_rank xs q (rank (sort xs) q)"
proof -
  let ?ys = "sort xs" and ?m = "nat \<lceil>real (length xs) * q\<rceil>"
  have m: "?m - 1 < length ?ys" "0 < ?m" using rank_index [of "length xs" q] assms by simp_all
  have v: "rank ?ys q = ?ys ! (?m - 1)" by (simp add: rank_def)
  have "real (length (filter (\<lambda>x. x < rank ?ys q) ?ys)) \<le> real ?m - 1"
    using card_below_sorted [OF sorted_sort m(1)] m(2) unfolding v by linarith
  moreover have "real ?m \<le> real (length (filter (\<lambda>x. x \<le> rank ?ys q) ?ys))"
    using card_upto_sorted [OF sorted_sort m(1)] m(2) unfolding v by linarith
  moreover have "real (length xs) * q \<le> real ?m" "real ?m - 1 < real (length xs) * q" using m(2) by linarith+
  moreover have "rank ?ys q \<in> set xs" unfolding v using nth_mem [OF m(1)] by simp
  ultimately show ?thesis unfolding nearest_rank_def length_filter_sort by (simp add: mult.commute)
qed

text \<open>C20: the percentiles of a report are read inside the sorted array, they are the nearest-rank
  percentiles of the latencies, and they are in order, up to the largest latency.\<close>

theorem percentiles:
  assumes "latencies xs st k overlap q \<noteq> []"
  defines "v \<equiv> latencies xs st k overlap q" and "r \<equiv> stats xs st k overlap q"
  shows "nearest_rank v (50 / 100) (st_p50 r) \<and> nearest_rank v (95 / 100) (st_p95 r) \<and> nearest_rank v (99 / 100) (st_p99 r) \<and>
    st_max r = Max (set v) \<and> st_p50 r \<le> st_p95 r \<and> st_p95 r \<le> st_p99 r \<and> st_p99 r \<le> st_max r"
proof -
  have ne: "v \<noteq> []" using assms(1) by (simp add: v_def)
  have r: "st_p50 r = rank (sort v) (50 / 100)" "st_p95 r = rank (sort v) (95 / 100)" "st_p99 r = rank (sort v) (99 / 100)"
    "st_max r = sort v ! (length v - 1)"
    using ne by (simp_all add: r_def stats_def v_def Let_def)
  have last: "rank (sort v) 1 = sort v ! (length v - 1)" by (simp add: rank_def)
  have sm: "rank (sort v) a \<le> rank (sort v) b" if "0 < a" "a \<le> b" "b \<le> 1" for a b
    by (rule rank_mono) (use that ne in \<open>auto simp: set_empty [symmetric] simp del: set_empty\<close>)
  have "st_max r = Max (set v)"
  proof (rule Max_eqI [symmetric])
    show "st_max r \<in> set v" unfolding r(4) using nth_mem [of "length v - 1" "sort v"] ne by simp
    fix y assume "y \<in> set v"
    then obtain j where "j < length (sort v)" "y = sort v ! j" by (metis in_set_conv_nth set_sort)
    then show "y \<le> st_max r" unfolding r(4) by (auto intro!: sorted_nth_mono)
  qed simp
  then show ?thesis
    using rank_nearest [OF ne, of "50 / 100"] rank_nearest [OF ne, of "95 / 100"] rank_nearest [OF ne, of "99 / 100"]
      sm [of "50 / 100" "95 / 100"] sm [of "95 / 100" "99 / 100"] sm [of "99 / 100" 1] unfolding r last by simp
qed

definition two_samples :: "sample list" where
  "two_samples = [\<lparr>s_client = 0, s_sequence = 0, s_command = C_ECHO, s_status = S_OK, s_start = 0, s_end = 2\<rparr>,
     \<lparr>s_client = 0, s_sequence = 1, s_command = C_TIME, s_status = S_OK, s_start = 2, s_end = 3\<rparr>]"

theorem percentiles_witness: "st_p50 (stats two_samples S_OK None False None) \<le> st_max (stats two_samples S_OK None False None)"
proof -
  have "latencies two_samples S_OK None False None \<noteq> []" by (simp add: latencies_def two_samples_def selected_def)
  from percentiles [OF this] show ?thesis by linarith
qed

section \<open>What a successful exit means\<close>







section \<open>Strings in JSON\<close>

definition hex_val :: "char \<Rightarrow> nat" where
  "hex_val ch = (if of_char ch < (58 :: nat) then of_char ch - 48 else of_char ch - 87)"

definition hex_char :: "char \<Rightarrow> bool" where
  "hex_char ch \<longleftrightarrow> ch \<in> set ''0123456789abcdef''"

text \<open>The escapes of JSON with one character (RFC 8259).\<close>

definition short_escape :: "char \<Rightarrow> char option" where
  "short_escape e = map_of [(QUOTE, QUOTE), (BACKSLASH, BACKSLASH), (CHR ''/'', CHR ''/''), (CHR ''b'', CHR 0x08), (CHR ''f'', CHR 0x0C),
     (CHR ''n'', CHR 0x0A), (CHR ''r'', CHR 0x0D), (CHR ''t'', CHR 0x09)] e"

text \<open>
  A reader of JSON strings, after the opening quote: the string and what follows the closing quote. It refuses what the
  standard does: control characters that are not escaped, other escapes, and \<^verbatim>\<open>\u\<close> without four hexadecimal
  digits. Escaped code points of more than one byte are refused too, the program writes none.
\<close>

fun read_string :: "string \<Rightarrow> (string \<times> string) option" where
  "read_string [] = None"
| "read_string (ch # cs) =
     (if ch = QUOTE then Some ([], cs)
      else if (of_char ch :: nat) < 32 then None
      else if ch = BACKSLASH then
        (case cs of
           [] \<Rightarrow> None
         | e # ds \<Rightarrow>
             if e = CHR ''u'' then
               (case ds of a # b # h # l # rest \<Rightarrow>
                  let v = 4096 * hex_val a + 256 * hex_val b + 16 * hex_val h + hex_val l in
                  if \<not> list_all hex_char [a, b, h, l] \<or> v \<ge> 128 then None
                  else map_option (\<lambda>(s, r). (char_of v # s, r)) (read_string rest)
                | _ \<Rightarrow> None)
             else (case short_escape e of None \<Rightarrow> None | Some x \<Rightarrow> map_option (\<lambda>(s, r). (x # s, r)) (read_string ds)))
      else map_option (\<lambda>(s, r). (ch # s, r)) (read_string cs))"

lemma hex_val_digit [simp]: "n < 16 \<Longrightarrow> hex_val (hex_digit n) = n"
  by (simp add: hex_val_def hex_digit_def)

lemma hex_char_digit [simp]: "n < 16 \<Longrightarrow> hex_char (hex_digit n)"
proof -
  assume "n < 16"
  then have "n \<in> set [0..<16]" by simp
  moreover have "list_all (\<lambda>n. hex_char (hex_digit n)) [0..<16]" by code_simp
  ultimately show ?thesis by (simp add: list_all_iff)
qed

lemma read_json_char: "read_string (json_char ch @ t) = map_option (\<lambda>(s, r). (ch # s, r)) (read_string t)"
proof -
  have d: "QUOTE \<noteq> BACKSLASH" "QUOTE \<noteq> CHR ''u''" "BACKSLASH \<noteq> CHR ''u''" "\<not> (of_char BACKSLASH :: nat) < 32"
    by (simp_all add: QUOTE_def BACKSLASH_def)
  show ?thesis
  proof (cases "ch = QUOTE \<or> ch = BACKSLASH")
    case True
    then have "short_escape ch = Some ch" using d by (auto simp: short_escape_def)
    then show ?thesis using True d by (auto simp: json_char_def)
  next
    case False
    show ?thesis
    proof (cases "(of_char ch :: nat) < 32")
      case True
      have "hex_val (CHR ''0'') = 0" "hex_char (CHR ''0'')" by (simp_all add: hex_val_def hex_char_def)
      moreover have "of_char ch div 16 * 16 + of_char ch mod 16 = (of_char ch :: nat)" "(of_char ch :: nat) div 16 < 16" using True by simp_all
      ultimately show ?thesis using False True d by (simp add: json_char_def Let_def)
    qed (use False in \<open>simp add: json_char_def\<close>)
  qed
qed

text \<open>C21: a JSON reader that keeps to the standard accepts what was written and gets back exactly the label, the address or the
  failure text, quotes, backslashes and control characters included.\<close>

theorem json_string_round_trip: "read_string (tl (json_string s @ rest)) = Some (s, rest) \<and> hd (json_string s) = QUOTE"
proof -
  have "read_string (concat (map json_char s) @ QUOTE # rest) = Some (s, rest)"
    by (induction s) (auto simp: read_json_char)
  then show ?thesis by (auto simp: json_string_def)
qed

end
