(* ===== verification/LoadgenFunc.thy ===== *)
theory LoadgenFunc
  imports LoadgenSetup
begin

text \<open>
  The load generator, fourth part: the functional tests (\<^verbatim>\<open>write_all\<close> to \<^verbatim>\<open>functional_case\<close> and
  \<^verbatim>\<open>run_functional\<close>). \<open>fd\<close> and \<open>data\<close> of a \<^verbatim>\<open>Peer\<close> are values the operations return; the text of
  the last failure is part of the state. \<open>suite\<close> is \<^verbatim>\<open>functional_deadline\<close> and \<open>strerror\<close> the text
  the C library has for a socket error.
\<close>

record ft = io_state +
  check_detail :: string

type_synonym 'a ftio = "(unit ft_ext, 'a) io"

record peer =
  pe_fd :: int
  pe_data :: string

definition PEER_BUFFER :: nat where "PEER_BUFFER = 8192"

definition detail :: "string \<Rightarrow> unit ftio" where
  "detail text = modify (\<lambda>s. s\<lparr>check_detail := take 159 text\<rparr>)"

definition fail :: "string \<Rightarrow> 'a \<Rightarrow> 'a ftio" where
  "fail text x = andthen (detail text) (\<lambda>_. ret x)"

definition request_deadline :: "config \<Rightarrow> real \<Rightarrow> real ftio" where
  "request_deadline c suite = andthen now (\<lambda>t. ret (min (t + c_timeout c) suite))"

text \<open>The pair of an operation on a peer is the peer and the C result.\<close>

definition peer_open :: "config \<Rightarrow> real \<Rightarrow> string \<Rightarrow> (peer \<times> bool) ftio" where
  "peer_open c suite strerror =
     andthen new_socket (\<lambda>fd. let p = \<lparr>pe_fd = fd, pe_data = []\<rparr> in
     if fd < 0 then fail ''connection failed/timed out'' (p, False) else
     andthen (request_deadline c suite) (\<lambda>until.
     andthen (ready until) (\<lambda>ok.
     if \<not> ok then fail ''connection failed/timed out'' (p, False) else
     andthen connected_error (\<lambda>err.
     if err then fail strerror (p, False) else ret (p, True)))))"

definition write_step :: "real \<Rightarrow> string \<Rightarrow> (string + bool) ftio" where
  "write_step until data = andthen (gets interrupted) (\<lambda>intr.
     if data = [] \<or> intr then ret (Inr (\<not> intr)) else
     andthen now (\<lambda>t.
     if t \<ge> until then fail ''write deadline exceeded'' (Inr False) else
     andthen (sys_send (length data)) (\<lambda>n. case n of
       Inr k \<Rightarrow> if k > 0 then ret (Inl (drop k data)) else fail ''write failed'' (Inr False)
     | Inl e \<Rightarrow>
         if e = EINTR then ret (Inl data)
         else if e = EAGAIN then
           andthen (ready until) (\<lambda>ok. if ok then ret (Inl data) else fail ''write timeout'' (Inr False))
         else fail ''write failed'' (Inr False))))"

definition write_all :: "string \<Rightarrow> real \<Rightarrow> bool ftio" where
  "write_all data until = while_io (write_step until) data"

definition read_step :: "command \<Rightarrow> string \<Rightarrow> real \<Rightarrow> peer \<Rightarrow> (peer + peer \<times> bool) ftio" where
  "read_step cmd expected until p =
     (if LF \<in> set (pe_data p) then
        let len = line_length (pe_data p) in
        if validate (take len (pe_data p)) cmd expected \<noteq> S_OK then fail ''invalid or unexpected response'' (Inr (p, False))
        else ret (Inr (p\<lparr>pe_data := drop len (pe_data p)\<rparr>, True))
      else if length (pe_data p) \<ge> LINE_MAX_BYTES then fail ''response line too long'' (Inr (p, False))
      else andthen (ready until) (\<lambda>ok.
        if \<not> ok then fail ''response timeout'' (Inr (p, False)) else
        unless_fault (length (pe_data p) \<le> PEER_BUFFER) (
        andthen (sys_recv (PEER_BUFFER - length (pe_data p))) (\<lambda>n. case n of
          Inr bytes \<Rightarrow>
            if bytes \<noteq> [] then ret (Inl (p\<lparr>pe_data := pe_data p @ bytes\<rparr>))
            else fail ''EOF/socket error before complete response'' (Inr (p, False))
        | Inl e \<Rightarrow>
            if e = EINTR \<or> e = EAGAIN then ret (Inl p)
            else fail ''EOF/socket error before complete response'' (Inr (p, False))))))"

definition read_valid :: "command \<Rightarrow> string \<Rightarrow> real \<Rightarrow> peer \<Rightarrow> (peer \<times> bool) ftio" where
  "read_valid cmd expected until p = while_io (read_step cmd expected until) p"

definition exchange :: "string \<Rightarrow> command \<Rightarrow> string \<Rightarrow> config \<Rightarrow> real \<Rightarrow> peer \<Rightarrow> (peer \<times> bool) ftio" where
  "exchange data cmd expected c suite p =
     andthen (request_deadline c suite) (\<lambda>until.
     andthen (write_all data until) (\<lambda>ok.
     if ok then read_valid cmd expected until p else ret (p, False)))"

text \<open>\<open>peer_open\<close> followed by a test of the peer; whatever the test did, the peer is closed at the end if
  it is still open.\<close>

definition with_peer :: "config \<Rightarrow> real \<Rightarrow> string \<Rightarrow> (peer \<Rightarrow> (peer \<times> bool) ftio) \<Rightarrow> bool ftio" where
  "with_peer c suite strerror test =
     andthen (peer_open c suite strerror) (\<lambda>po.
     andthen (if snd po then test (fst po) else ret (fst po, False)) (\<lambda>pb.
     andthen (close_if_open (pe_fd (fst pb))) (\<lambda>_. ret (snd pb))))"

definition healthy :: "config \<Rightarrow> real \<Rightarrow> string \<Rightarrow> bool ftio" where
  "healthy c suite strerror =
     with_peer c suite strerror (exchange (''echo still-alive'' @ [LF]) C_ECHO ''OK still-alive'' c suite)"

section \<open>The test cases\<close>

definition still_time :: "real \<Rightarrow> bool ftio" where
  "still_time suite = andthen (gets interrupted) (\<lambda>intr. if intr then ret False else andthen now (\<lambda>t. ret (t < suite)))"

text \<open>Nothing must arrive for \<open>delay\<close> seconds; false means that something did or the suite is over.\<close>

definition quiet :: "string \<Rightarrow> real \<Rightarrow> real \<Rightarrow> bool ftio" where
  "quiet text delay suite =
     andthen now (\<lambda>t.
     andthen (ready (min (t + delay) suite)) (\<lambda>answered.
     if answered then fail text False else still_time suite))"

definition client_buffer_isolation :: "config \<Rightarrow> real \<Rightarrow> string \<Rightarrow> bool ftio" where
  "client_buffer_isolation c suite strerror =
     with_peer c suite strerror (\<lambda>a. andthen (with_peer c suite strerror (\<lambda>b.
       andthen (request_deadline c suite) (\<lambda>until.
       andthen (write_all ''echo client-a-'' until) (\<lambda>ok.
       if \<not> ok then ret (b, False) else
       andthen (quiet ''client A responded or closed before its request LF'' (c_fragment_delay c) suite) (\<lambda>ok.
       if \<not> ok then ret (b, False) else
       andthen (exchange (''echo client-b'' @ [LF]) C_ECHO ''OK client-b'' c suite b) (\<lambda>bb.
       if \<not> snd bb then ret bb else
       andthen (exchange (''finished'' @ [LF]) C_ECHO ''OK client-a-finished'' c suite a) (\<lambda>ab. ret (fst bb, snd ab)))))))) (\<lambda>ok. ret (a, ok)))"

definition open_all :: "config \<Rightarrow> real \<Rightarrow> string \<Rightarrow> nat \<Rightarrow> (peer list \<times> bool) ftio" where
  "open_all c suite strerror n = fold_io (\<lambda>acc i.
     if \<not> snd acc then ret acc
     else andthen (peer_open c suite strerror) (\<lambda>po. ret (fst acc @ [fst po], snd po))) ([], True) [0..<n]"

definition concurrent_request :: "nat \<Rightarrow> string" where
  "concurrent_request i = snprintf 64 (''echo concurrent-'' @ dec i @ [LF])"

definition concurrent_expected :: "nat \<Rightarrow> string" where
  "concurrent_expected i = snprintf 64 (''OK concurrent-'' @ dec i)"

definition multiple_clients :: "config \<Rightarrow> real \<Rightarrow> string \<Rightarrow> bool ftio" where
  "multiple_clients c suite strerror =
     (let n = (if c_clients c < 3 then 3 else c_clients c) in
      andthen allocate (\<lambda>_.
      andthen (open_all c suite strerror n) (\<lambda>po.
      andthen (fold_io (\<lambda>ok i. if \<not> ok then ret ok
          else andthen (request_deadline c suite) (\<lambda>until. write_all (concurrent_request i) until)) (snd po) [0..<n]) (\<lambda>ok.
      andthen (fold_io (\<lambda>ok i. if \<not> ok then ret ok
          else andthen (request_deadline c suite) (\<lambda>until.
            andthen (read_valid C_ECHO (concurrent_expected i) until (fst po ! i)) (\<lambda>pb. ret (snd pb)))) ok [0..<n]) (\<lambda>ok.
      andthen (each_io (\<lambda>p. close_if_open (pe_fd p)) (fst po)) (\<lambda>_. ret ok))))))"

text \<open>\<^verbatim>\<open>write_all\<close> and \<^verbatim>\<open>read_valid\<close> with a deadline of their own, as the calls in the conditions have.\<close>

definition send_text :: "config \<Rightarrow> real \<Rightarrow> string \<Rightarrow> bool ftio" where
  "send_text c suite data = andthen (request_deadline c suite) (write_all data)"

definition expect :: "config \<Rightarrow> real \<Rightarrow> command \<Rightarrow> string \<Rightarrow> peer \<times> bool \<Rightarrow> (peer \<times> bool) ftio" where
  "expect c suite cmd expected pb =
     (if snd pb then andthen (request_deadline c suite) (\<lambda>until. read_valid cmd expected until (fst pb)) else ret pb)"

definition partial_command :: "config \<Rightarrow> real \<Rightarrow> peer \<Rightarrow> (peer \<times> bool) ftio" where
  "partial_command c suite p =
     andthen (send_text c suite ''echo frag'') (\<lambda>ok.
     if \<not> ok then ret (p, False) else
     andthen (quiet ''response or EOF before request LF'' (c_fragment_delay c) suite) (\<lambda>ok.
     if \<not> ok then ret (p, False) else exchange (''mented'' @ [LF]) C_ECHO ''OK fragmented'' c suite p))"

definition multiple_commands :: "config \<Rightarrow> real \<Rightarrow> peer \<Rightarrow> (peer \<times> bool) ftio" where
  "multiple_commands c suite p =
     andthen (send_text c suite (''echo first'' @ [LF] @ ''time'' @ [LF] @ ''echo third'' @ [LF])) (\<lambda>ok.
     andthen (expect c suite C_ECHO ''OK first'' (p, ok)) (\<lambda>pb.
     andthen (expect c suite C_TIME [] pb) (\<lambda>pb. expect c suite C_ECHO ''OK third'' pb)))"

definition partial_tail :: "config \<Rightarrow> real \<Rightarrow> peer \<Rightarrow> (peer \<times> bool) ftio" where
  "partial_tail c suite p =
     andthen (send_text c suite (''echo first'' @ [LF] @ ''echo sec'')) (\<lambda>ok.
     andthen (expect c suite C_ECHO ''OK first'' (p, ok)) (\<lambda>pb.
     if snd pb then exchange (''ond'' @ [LF]) C_ECHO ''OK second'' c suite (fst pb) else ret pb))"

definition long_request :: "config \<Rightarrow> real \<Rightarrow> peer \<Rightarrow> (peer \<times> bool) ftio" where
  "long_request c suite p =
     exchange (''echo '' @ replicate 250 (CHR ''x'') @ [LF]) C_ECHO (''OK '' @ replicate 250 (CHR ''x'')) c suite p"

definition quit_and_eof :: "config \<Rightarrow> real \<Rightarrow> string \<Rightarrow> peer \<Rightarrow> (peer \<times> bool) ftio" where
  "quit_and_eof c suite strerror p =
     andthen (exchange (''quit'' @ [LF]) C_QUIT ''BYE'' c suite p) (\<lambda>pb.
     if \<not> snd pb then ret pb else
     if pe_data (fst pb) \<noteq> [] then fail ''expected connection close after BYE'' (fst pb, False) else
     andthen (request_deadline c suite) (\<lambda>until.
     andthen (ready until) (\<lambda>ok.
     if \<not> ok then fail ''expected connection close after BYE'' (fst pb, False) else
     andthen (sys_recv 1) (\<lambda>n.
     if n \<noteq> Inr [] then fail ''expected connection close after BYE'' (fst pb, False) else
     andthen (healthy c suite strerror) (\<lambda>ok. ret (fst pb, ok))))))"

text \<open>The peer is closed by the test itself; the common exit finds -1.\<close>

definition close_then_healthy :: "config \<Rightarrow> real \<Rightarrow> string \<Rightarrow> peer \<Rightarrow> (peer \<times> bool) ftio" where
  "close_then_healthy c suite strerror p =
     andthen (close_fd (pe_fd p)) (\<lambda>_. andthen (healthy c suite strerror) (\<lambda>ok. ret (p\<lparr>pe_fd := -1\<rparr>, ok)))"

definition disconnect :: "bool \<Rightarrow> config \<Rightarrow> real \<Rightarrow> string \<Rightarrow> peer \<Rightarrow> (peer \<times> bool) ftio" where
  "disconnect reset c suite strerror p =
     andthen (send_text c suite ''echo unfinished'') (\<lambda>ok.
     if \<not> ok then ret (p, False) else
     andthen (if reset then andthen pop (\<lambda>a. ret (a_ok a)) else ret True) (\<lambda>ok.
     if \<not> ok then fail ''cannot force RST'' (p, False) else close_then_healthy c suite strerror p))"

definition survival :: "string \<Rightarrow> config \<Rightarrow> real \<Rightarrow> string \<Rightarrow> peer \<Rightarrow> (peer \<times> bool) ftio" where
  "survival data c suite strerror p =
     andthen (send_text c suite data) (\<lambda>ok.
     if \<not> ok then ret (p, False) else
     andthen now (\<lambda>t.
     andthen (ready (min (t + 1 / 10) suite)) (\<lambda>ok.
     andthen (if ok then andthen (sys_recv 512) (\<lambda>_. ret ()) else ret ()) (\<lambda>_.
     close_then_healthy c suite strerror p))))"

definition functional_case :: "config \<Rightarrow> real \<Rightarrow> string \<Rightarrow> nat \<Rightarrow> bool ftio" where
  "functional_case c suite strerror test =
     (if test = 0 then multiple_clients c suite strerror
      else if test = 10 then client_buffer_isolation c suite strerror
      else with_peer c suite strerror (\<lambda>p.
        if test = 1 then partial_command c suite p
        else if test = 2 then multiple_commands c suite p
        else if test = 3 then partial_tail c suite p
        else if test = 4 then long_request c suite p
        else if test = 5 then quit_and_eof c suite strerror p
        else if test = 6 \<or> test = 7 then disconnect (test = 7) c suite strerror p
        else survival (if test = 8 then ''not_a_command'' @ [LF] @ ''compute nope'' @ [LF]
                       else ''echo '' @ replicate 4096 (CHR ''x'') @ [LF]) c suite strerror p))"

definition CHECK_COUNT :: nat where "CHECK_COUNT = 11"

text \<open>A check is whether the case passed and the text of its failure.\<close>

definition run_check :: "config \<Rightarrow> real \<Rightarrow> string \<Rightarrow> (bool \<times> string) list \<Rightarrow> nat \<Rightarrow> (bool \<times> string) list ftio" where
  "run_check c suite strerror checks i =
     andthen (detail ''suite deadline or interruption'') (\<lambda>_.
     andthen (still_time suite) (\<lambda>go.
     andthen (if go then functional_case c suite strerror i else ret False) (\<lambda>ok.
     andthen (gets check_detail) (\<lambda>text. ret (checks @ [(ok, if ok then [] else text)])))))"

definition run_functional :: "config \<Rightarrow> string \<Rightarrow> ((bool \<times> string) list \<times> bool) ftio" where
  "run_functional c strerror =
     andthen now (\<lambda>t.
     andthen (fold_io (run_check c (t + c_max_seconds c) strerror) [] [0..<CHECK_COUNT]) (\<lambda>checks.
     ret (checks, list_all fst checks)))"

section \<open>Every test closes what it opened\<close>

definition keeps :: "int set \<Rightarrow> 'a ftio \<Rightarrow> bool" where
  "keeps S m \<longleftrightarrow> valid (\<lambda>s. fds s = S) m (\<lambda>_ s. fds s = S)"

named_theorems keeps \<open>programs that leave the open descriptors as they are\<close>

lemma env_closed_fds [simp]: "env_closed (\<lambda>s. fds s = S)"
  by (simp add: env_closed_def)

lemma keeps_ret [keeps]: "keeps S (ret x)"
  by (simp add: keeps_def valid_def ret_def)

lemma keeps_halt: "e \<noteq> Fault \<Longrightarrow> keeps S (halt e)"
  by (simp add: keeps_def valid_halt)

lemma keeps_andthen [keeps]: "keeps S m \<Longrightarrow> (\<And>x. keeps S (f x)) \<Longrightarrow> keeps S (andthen m f)"
  unfolding keeps_def by (rule valid_then)

lemma keeps_if [keeps]: "(b \<Longrightarrow> keeps S m) \<Longrightarrow> (\<not> b \<Longrightarrow> keeps S m') \<Longrightarrow> keeps S (if b then m else m')"
  by simp

lemma keeps_sum [keeps]: "(\<And>e. keeps S (f e)) \<Longrightarrow> (\<And>x. keeps S (g x)) \<Longrightarrow> keeps S (case r of Inl e \<Rightarrow> f e | Inr x \<Rightarrow> g x)"
  by (cases r) auto

lemma keeps_gets [keeps]: "keeps S (gets f)"
  by (simp add: keeps_def valid_def gets_def)

lemma keeps_pop [keeps]: "keeps S pop"
  unfolding keeps_def by (rule valid_pop_env) simp

lemma keeps_detail [keeps]: "keeps S (detail text)"
  by (simp add: keeps_def valid_def detail_def modify_def)

lemma keeps_unless_fault: "safe \<Longrightarrow> keeps S m \<Longrightarrow> keeps S (unless_fault safe m)"
  by (simp add: unless_fault_def)

lemma keeps_while: "(\<And>b. keeps S (body b)) \<Longrightarrow> keeps S (while_io body b)"
  unfolding keeps_def
  by (rule valid_while [where I = "\<lambda>_ s. fds s = S"]) (auto intro: valid_post split: sum.splits)

lemma keeps_fold: "(\<And>b x. keeps S (f b x)) \<Longrightarrow> keeps S (fold_io f b xs)"
  unfolding keeps_def by (rule valid_fold_inv [where I = "\<lambda>_ s. fds s = S"])

lemma keeps_fail [keeps]: "keeps S (fail text x)"
  unfolding fail_def by (intro keeps)

lemma keeps_now [keeps]: "keeps S now"
  unfolding now_def by (intro keeps) (simp add: keeps_halt)

lemma keeps_calls [keeps]: "keeps S (sys_send n)" "keeps S (sys_recv k)" "keeps S connected_error" "keeps S (request_deadline c suite)"
  unfolding sys_send_def sys_recv_def connected_error_def request_deadline_def by (intro keeps)+

lemma keeps_ready [keeps]: "keeps S (ready until)"
  unfolding ready_def Let_def by (rule keeps_while) (intro keeps)

lemma keeps_write [keeps]: "keeps S (write_all data until)"
  unfolding write_all_def write_step_def by (rule keeps_while) (intro keeps)

lemma keeps_read [keeps]: "keeps S (read_valid cmd expected until p)"
  unfolding read_valid_def read_step_def Let_def
  by (rule keeps_while) (intro keeps keeps_unless_fault, auto simp: PEER_BUFFER_def LINE_MAX_BYTES_def)

lemma keeps_tests [keeps]:
  "keeps S (exchange data cmd expected c suite p)" "keeps S (still_time suite)" "keeps S (quiet text d suite)"
  "keeps S (send_text c suite data)" "keeps S (expect c suite cmd expected pb)"
  unfolding exchange_def still_time_def quiet_def send_text_def expect_def by (intro keeps)+

lemma keeps_allocate [keeps]: "keeps S allocate"
  unfolding allocate_def by (intro keeps) (simp add: keeps_halt)

text \<open>A test that was handed an open peer gives it back open, or closed and marked so.\<close>

definition peer_state :: "int set \<Rightarrow> int \<Rightarrow> peer \<Rightarrow> ft \<Rightarrow> bool" where
  "peer_state S fd p s \<longleftrightarrow> pe_fd p = fd \<and> fds s = insert fd S \<or> pe_fd p < 0 \<and> fds s = S"

definition tests_peer :: "(peer \<Rightarrow> (peer \<times> bool) ftio) \<Rightarrow> bool" where
  "tests_peer test \<longleftrightarrow>
     (\<forall>S p. pe_fd p \<notin> S \<longrightarrow> 0 \<le> pe_fd p \<longrightarrow>
        valid (\<lambda>s. fds s = insert (pe_fd p) S) (test p) (\<lambda>pb. peer_state S (pe_fd p) (fst pb)))"

lemma tests_peerI: "(\<And>S p. 0 \<le> pe_fd p \<Longrightarrow> pe_fd p \<notin> S \<Longrightarrow>
    valid (\<lambda>s. fds s = insert (pe_fd p) S) (test p) (\<lambda>pb. peer_state S (pe_fd p) (fst pb))) \<Longrightarrow> tests_peer test"
  by (simp add: tests_peer_def)

lemma peer_open_valid:
  "valid (\<lambda>s. fds s = S) (peer_open c suite strerror)
     (\<lambda>po s. if pe_fd (fst po) < 0 then \<not> snd po \<and> fds s = S else pe_fd (fst po) \<notin> S \<and> fds s = insert (pe_fd (fst po)) S)"
  (is "valid _ _ ?Q")
proof -
  have k: "valid (\<lambda>s. fds s = T) m (\<lambda>x s. ?Q x s)"
    if "keeps T m" "\<And>x s s'. m s = Inr (x, s') \<Longrightarrow> fds s' = T \<Longrightarrow> ?Q x s'" for T and m :: "(peer \<times> bool) ftio"
    unfolding valid_def
  proof (intro allI impI)
    fix s :: ft assume s: "fds s = T"
    have v: "valid (\<lambda>s. fds s = T) m (\<lambda>_ s. fds s = T)" using that(1) by (simp add: keeps_def)
    show "case m s of Inl e \<Rightarrow> e \<noteq> Fault | Inr (x, s') \<Rightarrow> ?Q x s'"
    proof (cases "m s")
      case (Inl e)
      then show ?thesis using valid_no_fault [OF v s] by simp
    next
      case (Inr r)
      obtain x s' where r: "r = (x, s')" by (cases r)
      then have "?Q x s'" using that(2) [of s x s'] valid_result [OF v s] Inr by simp
      then show ?thesis using Inr r by simp
    qed
  qed
  have fail_post: "fail msg x s = Inr (y, s') \<Longrightarrow> y = x" for msg x s y s'
    by (auto simp: fail_def andthen_def ret_def split: sum.splits)
  have bad: "valid (\<lambda>s. fds s = S) (fail msg (p, False)) ?Q" if "pe_fd p < 0" for msg p
    by (rule k [OF keeps_fail]) (use that in \<open>auto dest: fail_post\<close>)
  have opened: "valid (\<lambda>s. fds s = insert fd S) m ?Q"
    if "keeps (insert fd S) m" "\<And>x s s'. m s = Inr (x, s') \<Longrightarrow> pe_fd (fst x) = fd" "0 \<le> fd" "fd \<notin> S" for m fd
    by (rule k [OF that(1)]) (use that(2-4) in \<open>auto dest: that(2)\<close>)
  have rest: "andthen (request_deadline c suite) (\<lambda>until. andthen (ready until) (\<lambda>ok.
      if \<not> ok then fail ''connection failed/timed out'' (p, False) else
      andthen connected_error (\<lambda>err. if err then fail strerror (p, False) else ret (p, True)))) s = Inr (x, s') \<Longrightarrow> fst x = p" for p x s s'
    by (auto simp: andthen_def fail_def ret_def split: sum.splits prod.splits if_splits)
  show ?thesis
    unfolding peer_open_def Let_def
    apply (rule valid_fd_bind [where R = "\<lambda>fd s. if fd < 0 then fds s = S else fd \<notin> S \<and> fds s = insert fd S", OF new_socket_result])
     apply (auto simp: fd_result_def)[1]
    subgoal for fd
    proof (cases "fd < 0")
      case True
      then show ?thesis using bad [of "\<lparr>pe_fd = fd, pe_data = []\<rparr>" "''connection failed/timed out''"] by simp
    next
      case False
      show ?thesis unfolding if_not_P [OF False]
        apply (rule valid_pure, rule opened)
           apply (intro keeps)
          apply (drule rest, simp)
        using False by simp_all
    qed
    done
qed

text \<open>Values the operations on an open peer return: the same descriptor.\<close>

definition same_fd :: "peer \<Rightarrow> (peer \<times> bool) ftio \<Rightarrow> bool" where
  "same_fd p m \<longleftrightarrow> (\<forall>s x s'. m s = Inr (x, s') \<longrightarrow> pe_fd (fst x) = pe_fd p)"

named_theorems same \<open>operations that return their peer\<close>

lemma same_ret [same]: "pe_fd q = pe_fd p \<Longrightarrow> same_fd p (ret (q, b))"
  by (auto simp: same_fd_def ret_def)

lemma same_andthen [same]: "(\<And>x. same_fd p (f x)) \<Longrightarrow> same_fd p (andthen m f)"
  by (fastforce simp: same_fd_def andthen_def split: sum.splits prod.splits)

lemma same_if [same]: "same_fd p m \<Longrightarrow> same_fd p m' \<Longrightarrow> same_fd p (if b then m else m')"
  by simp

lemma same_fail [same]: "pe_fd q = pe_fd p \<Longrightarrow> same_fd p (fail text (q, b))"
  unfolding fail_def by (intro same)

text \<open>The result of a loop: what holds of the loop variable and of a value that leaves.\<close>

lemma loop_value:
  assumes "\<And>b s r s'. I b \<Longrightarrow> body b s = Inr (r, s') \<Longrightarrow> (case r of Inl b' \<Rightarrow> I b' | Inr x \<Rightarrow> Q x)"
  shows "I b \<Longrightarrow> loop_io n body b s = Inr (x, s') \<Longrightarrow> Q x"
proof (induction n arbitrary: b s)
  case 0
  then show ?case by (simp add: halt_def)
next
  case (Suc n)
  then obtain r t where r: "body b s = Inr (r, t)"
    and next_round: "(case r of Inl b' \<Rightarrow> loop_io n body b' | Inr x \<Rightarrow> ret x) t = Inr (x, s')"
    by (auto simp: andthen_def split: sum.splits prod.splits)
  show ?case
    using assms [OF Suc.prems(1) r] next_round Suc.IH by (cases r) (auto simp: ret_def)
qed

lemma read_valid_same: "same_fd p (read_valid cmd expected until p)"
  unfolding same_fd_def
proof (intro allI impI)
  fix s x s' assume "read_valid cmd expected until p s = Inr (x, s')"
  then have "loop_io (Suc (length (script s))) (read_step cmd expected until) p s = Inr (x, s')"
    by (simp add: read_valid_def while_io_def del: loop_io.simps)
  then show "pe_fd (fst x) = pe_fd p"
  proof (rule loop_value [where I = "\<lambda>q. pe_fd q = pe_fd p", rotated 2])
    fix b t r t' assume "pe_fd b = pe_fd p" "read_step cmd expected until b t = Inr (r, t')"
    then show "case r of Inl q \<Rightarrow> pe_fd q = pe_fd p | Inr x \<Rightarrow> pe_fd (fst x) = pe_fd p"
      by (auto simp: read_step_def Let_def fail_def andthen_def ret_def unless_fault_def halt_def
          split: if_splits sum.splits prod.splits)
  qed simp
qed

lemma same_fd_trans: "same_fd q m \<Longrightarrow> pe_fd q = pe_fd p \<Longrightarrow> same_fd p m"
  by (simp add: same_fd_def)

lemma exchange_same [same]: "pe_fd q = pe_fd p \<Longrightarrow> same_fd p (exchange data cmd expected c suite q)"
  unfolding exchange_def by (intro same same_fd_trans [OF read_valid_same]) simp_all

lemma expect_same [same]: "pe_fd (fst pb) = pe_fd p \<Longrightarrow> same_fd p (expect c suite cmd expected pb)"
  unfolding expect_def by (cases pb) (auto intro!: same same_fd_trans [OF read_valid_same])

lemma same_bind: "same_fd p m \<Longrightarrow> (\<And>x. pe_fd (fst x) = pe_fd p \<Longrightarrow> same_fd p (f x)) \<Longrightarrow> same_fd p (andthen m f)"
  unfolding same_fd_def
proof (intro allI impI)
  fix s x s'
  assume m: "\<forall>s x s'. m s = Inr (x, s') \<longrightarrow> pe_fd (fst x) = pe_fd p"
    and f: "\<And>x. pe_fd (fst x) = pe_fd p \<Longrightarrow> \<forall>s xa s'. f x s = Inr (xa, s') \<longrightarrow> pe_fd (fst xa) = pe_fd p"
    and r: "andthen m f s = Inr (x, s')"
  obtain y t where "m s = Inr (y, t)" "f y t = Inr (x, s')"
    using r by (auto simp: andthen_def split: sum.splits prod.splits)
  then show "pe_fd (fst x) = pe_fd p" using m f by blast
qed

lemma same_ret_pair [same]: "pe_fd (fst pb) = pe_fd p \<Longrightarrow> same_fd p (ret pb)"
  by (auto simp: same_fd_def ret_def)

lemma tests_peer_same:
  assumes "\<And>S p. keeps S (test p)" "\<And>p. same_fd p (test p)"
  shows "tests_peer test"
proof (rule tests_peerI)
  fix S and p :: peer assume p: "0 \<le> pe_fd p" "pe_fd p \<notin> S"
  have v: "valid (\<lambda>s. fds s = insert (pe_fd p) S) (test p) (\<lambda>_ s. fds s = insert (pe_fd p) S)"
    using assms(1) by (simp add: keeps_def)
  show "valid (\<lambda>s. fds s = insert (pe_fd p) S) (test p) (\<lambda>pb. peer_state S (pe_fd p) (fst pb))"
    unfolding valid_def
  proof (intro allI impI)
    fix s :: ft assume s: "fds s = insert (pe_fd p) S"
    show "case test p s of Inl e \<Rightarrow> e \<noteq> Fault | Inr (x, s') \<Rightarrow> peer_state S (pe_fd p) (fst x) s'"
    proof (cases "test p s")
      case (Inl e)
      then show ?thesis using valid_no_fault [OF v s] by simp
    next
      case (Inr r)
      obtain x s' where r: "r = (x, s')" by (cases r)
      have "pe_fd (fst x) = pe_fd p" using assms(2) [of p] Inr r unfolding same_fd_def by blast
      moreover have "fds s' = insert (pe_fd p) S" using valid_result [OF v s] Inr r by simp
      ultimately show ?thesis using Inr r by (simp add: peer_state_def)
    qed
  qed
qed

lemma close_if_open_valid:
  "valid (peer_state S fd p) (close_if_open (pe_fd p)) (\<lambda>_ s. fds s = S)" if "fd \<notin> S" "0 \<le> fd"
  using that by (auto simp: valid_def close_if_open_def close_fd_def peer_state_def ret_def)

lemma keeps_with_peer:
  assumes "tests_peer test"
  shows "keeps S (with_peer c suite strerror test)"
proof -
  have body: "valid (\<lambda>s. if pe_fd p < 0 then \<not> b \<and> fds s = S else pe_fd p \<notin> S \<and> fds s = insert (pe_fd p) S)
      (andthen (if b then test p else ret (p, False)) (\<lambda>pb. andthen (close_if_open (pe_fd (fst pb))) (\<lambda>_. ret (snd pb))))
      (\<lambda>_ s. fds s = S)" for p b
  proof (cases "pe_fd p < 0")
    case True
    then show ?thesis by (auto simp: valid_def andthen_def ret_def close_if_open_def)
  next
    case False
    have "valid (\<lambda>s. fds s = insert (pe_fd p) S) (if b then test p else ret (p, False)) (\<lambda>pb. peer_state S (pe_fd p) (fst pb))"
      if "pe_fd p \<notin> S"
      using assms that False by (auto simp: tests_peer_def peer_state_def intro!: valid_ret_post)
    moreover have "valid (peer_state S (pe_fd p) (fst pb)) (andthen (close_if_open (pe_fd (fst pb))) (\<lambda>_. ret (snd pb))) (\<lambda>_ s. fds s = S)"
      if "pe_fd p \<notin> S" for pb :: "peer \<times> bool"
      by (rule valid_then [OF close_if_open_valid [OF that]]) (use False in \<open>auto intro: valid_ret_post\<close>)
    ultimately have "pe_fd p \<notin> S \<Longrightarrow> valid (\<lambda>s. fds s = insert (pe_fd p) S)
      (andthen (if b then test p else ret (p, False)) (\<lambda>pb. andthen (close_if_open (pe_fd (fst pb))) (\<lambda>_. ret (snd pb)))) (\<lambda>_ s. fds s = S)"
      by (auto intro: valid_andthen)
    then show ?thesis unfolding if_not_P [OF False] by (rule valid_pure)
  qed
  show ?thesis
    unfolding keeps_def with_peer_def by (rule valid_andthen [OF peer_open_valid]) (rule valid_pre [OF body], simp)
qed

lemma keeps_healthy [keeps]: "keeps S (healthy c suite strerror)"
  unfolding healthy_def by (rule keeps_with_peer, rule tests_peer_same) (auto intro!: keeps exchange_same)

lemma keeps_isolation: "keeps S (client_buffer_isolation c suite strerror)"
proof -
  have inner: "tests_peer (\<lambda>b. andthen (request_deadline c suite) (\<lambda>until.
       andthen (write_all ''echo client-a-'' until) (\<lambda>ok.
       if \<not> ok then ret (b, False) else
       andthen (quiet ''client A responded or closed before its request LF'' (c_fragment_delay c) suite) (\<lambda>ok.
       if \<not> ok then ret (b, False) else
       andthen (exchange (''echo client-b'' @ [LF]) C_ECHO ''OK client-b'' c suite b) (\<lambda>bb.
       if \<not> snd bb then ret bb else
       andthen (exchange (''finished'' @ [LF]) C_ECHO ''OK client-a-finished'' c suite a) (\<lambda>ab. ret (fst bb, snd ab)))))))" for a
    apply (rule tests_peer_same)
     apply (intro keeps)
    apply (rule same_andthen, rule same_andthen, rule same_if, rule same_ret, rule refl, rule same_andthen, rule same_if,
        rule same_ret, rule refl, rule same_bind, rule exchange_same, rule refl, rule same_if, rule same_ret_pair, assumption,
        rule same_andthen, rule same_ret)
    by assumption
  show ?thesis
    unfolding client_buffer_isolation_def
    by (rule keeps_with_peer, rule tests_peer_same, intro keeps keeps_with_peer inner) (rule same_andthen, rule same_ret, rule refl)
qed

lemma close_then_healthy_tests:
  assumes "pe_fd p \<notin> S"
  shows "valid (\<lambda>s. fds s = insert (pe_fd p) S) (close_then_healthy c suite strerror p) (\<lambda>pb. peer_state S (pe_fd p) (fst pb))"
proof -
  have cl: "valid (\<lambda>s. fds s = insert (pe_fd p) S) (close_fd (pe_fd p)) (\<lambda>_ s. fds s = S)"
    using assms by (auto simp: valid_def close_fd_def)
  have h: "valid (\<lambda>s. fds s = S) (healthy c suite strerror) (\<lambda>_ s. fds s = S)" using keeps_healthy by (simp add: keeps_def)
  show ?thesis
    unfolding close_then_healthy_def
    by (rule valid_then [OF cl], rule valid_then [OF h], rule valid_ret_post) (simp add: peer_state_def)
qed

lemma keep_then:
  assumes "keeps (insert (pe_fd p) S) m" "\<And>x. valid (\<lambda>s. fds s = insert (pe_fd p) S) (f x) (\<lambda>pb. peer_state S (pe_fd p) (fst pb))"
  shows "valid (\<lambda>s. fds s = insert (pe_fd p) S) (andthen m f) (\<lambda>pb. peer_state S (pe_fd p) (fst pb))"
  by (rule valid_then [OF assms(1) [unfolded keeps_def] assms(2)])

lemma open_ret: "pe_fd (fst pb) = pe_fd p \<Longrightarrow> valid (\<lambda>s. fds s = insert (pe_fd p) S) (ret pb) (\<lambda>pb. peer_state S (pe_fd p) (fst pb))"
  by (rule valid_ret_post) (simp add: peer_state_def)

lemma open_fail: "pe_fd (fst pb) = pe_fd p \<Longrightarrow> valid (\<lambda>s. fds s = insert (pe_fd p) S) (fail msg pb) (\<lambda>pb. peer_state S (pe_fd p) (fst pb))"
  unfolding fail_def by (rule keep_then [OF keeps_detail open_ret])

lemma tests_cases:
  "tests_peer (partial_command c suite)" "tests_peer (multiple_commands c suite)" "tests_peer (partial_tail c suite)"
  "tests_peer (long_request c suite)"
  unfolding partial_command_def multiple_commands_def partial_tail_def long_request_def
     apply (rule tests_peer_same, (intro keeps), (intro same refl))
    apply (rule tests_peer_same, (intro keeps), rule same_andthen, rule same_bind, rule expect_same, simp, rule same_bind,
      rule expect_same, assumption, rule expect_same, assumption)
   apply (rule tests_peer_same, (intro keeps), rule same_andthen, rule same_bind, rule expect_same, simp, rule same_if,
      rule exchange_same, assumption, rule same_ret_pair, assumption)
  by (rule tests_peer_same, (intro keeps), rule exchange_same, rule refl)

lemma tests_quit: "tests_peer (quit_and_eof c suite strerror)"
  unfolding quit_and_eof_def
  by (rule tests_peer_same, (intro keeps), rule same_bind, rule exchange_same, rule refl)
    (auto intro!: same_if same_ret_pair same_fail same_andthen)

lemma tests_disconnect: "tests_peer (disconnect reset c suite strerror)" "tests_peer (survival data c suite strerror)"
  unfolding disconnect_def survival_def
  by (rule tests_peerI, (intro keep_then valid_if open_ret open_fail close_then_healthy_tests keeps; simp))+

text \<open>The open descriptors are those of \<open>S\<close> and, once each, those of the peers from the list.\<close>

definition peers_open :: "int set \<Rightarrow> peer list \<Rightarrow> ft \<Rightarrow> bool" where
  "peers_open S ps s \<longleftrightarrow>
     (let open_fds = filter (\<lambda>x. 0 \<le> x) (map pe_fd ps) in
      fds s = S \<union> set open_fds \<and> distinct open_fds \<and> S \<inter> set open_fds = {})"

lemma open_all_valid:
  "valid (\<lambda>s. fds s = S) (open_all c suite strerror n) (\<lambda>po. peers_open S (fst po))"
proof -
  have step: "valid (peers_open S (fst acc)) (if \<not> snd acc then ret acc
      else andthen (peer_open c suite strerror) (\<lambda>po. ret (fst acc @ [fst po], snd po))) (\<lambda>po. peers_open S (fst po))" for acc
  proof (rule valid_if)
    show "valid (peers_open S (fst acc)) (ret acc) (\<lambda>po. peers_open S (fst po))" by (rule valid_ret_post)
    show "valid (peers_open S (fst acc)) (andthen (peer_open c suite strerror) (\<lambda>po. ret (fst acc @ [fst po], snd po))) (\<lambda>po. peers_open S (fst po))"
      unfolding valid_def
    proof (intro allI impI)
      fix s assume s: "peers_open S (fst acc) s"
      have "case peer_open c suite strerror s of Inl e \<Rightarrow> e \<noteq> Fault | Inr (po, s') \<Rightarrow>
          if pe_fd (fst po) < 0 then \<not> snd po \<and> fds s' = fds s else pe_fd (fst po) \<notin> fds s \<and> fds s' = insert (pe_fd (fst po)) (fds s)"
        using peer_open_valid [of "fds s" c suite strerror] unfolding valid_def by blast
      then show "case andthen (peer_open c suite strerror) (\<lambda>po. ret (fst acc @ [fst po], snd po)) s of
          Inl e \<Rightarrow> e \<noteq> Fault | Inr (po, s') \<Rightarrow> peers_open S (fst po) s'"
        using s by (cases "peer_open c suite strerror s")
          (auto simp: andthen_def ret_def peers_open_def Let_def split: if_splits)
    qed
  qed
  show ?thesis
    unfolding open_all_def
    by (rule valid_pre, rule valid_fold_inv [where I = "\<lambda>po. peers_open S (fst po)"], rule step) (simp add: peers_open_def)
qed

lemma peers_open_fds: "env_closed (peers_open S ps)"
  by (simp add: env_closed_def peers_open_def)

lemma keeps_peers: "(\<And>T. keeps T m) \<Longrightarrow> valid (peers_open S ps) m (\<lambda>_. peers_open S ps)"
  unfolding keeps_def valid_def
proof (intro allI impI)
  fix s assume m: "\<And>T. \<forall>s. fds s = T \<longrightarrow> (case m s of Inl e \<Rightarrow> e \<noteq> Fault | Inr (x, s') \<Rightarrow> fds s' = T)" and s: "peers_open S ps s"
  have "case m s of Inl e \<Rightarrow> e \<noteq> Fault | Inr (x, s') \<Rightarrow> fds s' = fds s" using m [of "fds s"] by blast
  then show "case m s of Inl e \<Rightarrow> e \<noteq> Fault | Inr (x, s') \<Rightarrow> peers_open S ps s'"
    using s by (cases "m s") (auto simp: peers_open_def)
qed

lemma close_peers_valid: "valid (peers_open S ps) (each_io (\<lambda>p. close_if_open (pe_fd p)) ps) (\<lambda>_ s. fds s = S)"
proof (induction ps)
  case Nil
  then show ?case by (auto simp: each_io_def peers_open_def intro: valid_ret_post)
next
  case (Cons p ps)
  have "valid (peers_open S (p # ps)) (close_if_open (pe_fd p)) (\<lambda>_. peers_open S ps)"
    by (auto simp: valid_def close_if_open_def close_fd_def ret_def peers_open_def Let_def)
  then show ?case using Cons by (simp add: each_io_def) (rule valid_then)
qed

lemma keeps_multiple: "keeps S (multiple_clients c suite strerror)"
proof -
  have tail: "valid (\<lambda>s. fds s = S) (andthen (open_all c suite strerror n) (\<lambda>po.
      andthen (f po) (\<lambda>ok. andthen (g po ok) (\<lambda>ok. andthen (each_io (\<lambda>p. close_if_open (pe_fd p)) (fst po)) (\<lambda>_. ret ok))))) (\<lambda>_ s. fds s = S)"
    if "\<And>T po. keeps T (f po)" "\<And>T po ok. keeps T (g po ok)"
    for n and f :: "peer list \<times> bool \<Rightarrow> bool ftio" and g :: "peer list \<times> bool \<Rightarrow> bool \<Rightarrow> bool ftio"
    by (rule valid_andthen [OF open_all_valid], rule valid_then [OF keeps_peers [OF that(1)]], rule valid_then [OF keeps_peers [OF that(2)]],
        rule valid_then [OF close_peers_valid], rule valid_ret_post)
  show ?thesis
    unfolding multiple_clients_def Let_def
    by (rule keeps_andthen [OF keeps_allocate], unfold keeps_def, rule tail) (intro keeps_fold keeps)+
qed

lemma keeps_case: "keeps S (functional_case c suite strerror test)"
  unfolding functional_case_def
  by (intro keeps_if keeps_multiple keeps_isolation keeps_with_peer)
    (use tests_cases tests_quit tests_disconnect in \<open>simp add: tests_peer_def\<close>)

lemma andthen_InrE:
  "andthen m f s = Inr (x, t) \<Longrightarrow> (\<And>y u. m s = Inr (y, u) \<Longrightarrow> f y u = Inr (x, t) \<Longrightarrow> R) \<Longrightarrow> R"
  by (auto simp: andthen_def split: sum.splits prod.splits)

text \<open>C19: whatever the server does, the functional suite runs all eleven cases or counts them as failed,
  says PASS exactly if all of them passed, never leaves the receive buffer of a peer, and has closed
  every connection it opened, each once.\<close>

theorem functional_suite_safe:
  "run_functional c strerror s \<noteq> Inl Fault \<and>
   (case run_functional c strerror s of Inl e \<Rightarrow> True
    | Inr ((checks, all_ok), s') \<Rightarrow> fds s' = fds s \<and> length checks = 11 \<and> all_ok = list_all fst checks)"
proof -
  have k: "keeps (fds s) (run_check c suite strerror checks i)" for suite checks i
    unfolding run_check_def by (intro keeps keeps_case)
  have st: "valid (\<lambda>s'. fds s' = fds s \<and> length checks = m) (run_check c suite strerror checks i) (\<lambda>r s'. fds s' = fds s \<and> length r = Suc m)"
    for suite checks i m
    unfolding valid_def
  proof (intro allI impI)
    fix t :: ft assume t: "fds t = fds s \<and> length checks = m"
    have k': "valid (\<lambda>s'. fds s' = fds s) (run_check c suite strerror checks i) (\<lambda>_ s'. fds s' = fds s)"
      using k by (simp add: keeps_def)
    show "case run_check c suite strerror checks i t of Inl e \<Rightarrow> e \<noteq> Fault | Inr (r, s') \<Rightarrow> fds s' = fds s \<and> length r = Suc m"
    proof (cases "run_check c suite strerror checks i t")
      case (Inl e)
      then show ?thesis using valid_no_fault [OF k', of t] t by simp
    next
      case (Inr x)
      obtain r t' where r: "x = (r, t')" by (cases x)
      have "length r = Suc (length checks)"
        using Inr unfolding r run_check_def by (elim andthen_InrE) (auto simp: ret_def)
      moreover have "fds t' = fds s" using valid_result [OF k', of t r t'] t Inr r by simp
      ultimately show ?thesis using Inr r t by simp
    qed
  qed
  have "valid (\<lambda>s'. fds s' = fds s) (run_functional c strerror) (\<lambda>r s'. fds s' = fds s \<and> length (fst r) = 11 \<and> snd r = list_all fst (fst r))"
    unfolding run_functional_def CHECK_COUNT_def
    apply (rule valid_now_bind, simp)
    apply (rule valid_andthen)
     apply (rule valid_pre, rule valid_fold_upto [where I = "\<lambda>m r s'. fds s' = fds s \<and> length r = m"], rule st, simp)
    by (rule valid_ret_post) simp
  then have "case run_functional c strerror s of Inl e \<Rightarrow> e \<noteq> Fault
      | Inr (r, s') \<Rightarrow> fds s' = fds s \<and> length (fst r) = 11 \<and> snd r = list_all fst (fst r)" unfolding valid_def by blast
  then show ?thesis by (cases "run_functional c strerror s") auto
qed

end
