(* ===== verification/LogStats.thy ===== *)
theory LogStats
  imports Prelude Text
begin

text \<open>
  The request log of \<^verbatim>\<open>Week3/Lab3/src/log_stats.c\<close>: the reader of the CSV file and the two ways of
  aggregating it, a rescan of the whole log for each service and a single pass. The counters are
  words of the width the C structures have, so that their sums wrap. A file is the list of lines
  \<^verbatim>\<open>fgets\<close> returns, each with its terminator, and whether \<^verbatim>\<open>ferror\<close> holds at the end.
\<close>

definition SERVICE_COUNT :: nat where "SERVICE_COUNT = 1024"

record log_record =
  service_id :: u16
  lr_status :: u16
  lr_duration :: u32

record service_stats =
  requests :: u64
  errors :: u64
  duration_us :: u64
  min_us :: u32
  max_us :: u32

record totals =
  t_requests :: u64
  t_errors :: u64
  t_duration :: u64
  t_signature :: u64

section \<open>Reading the log\<close>

definition valid_status :: "nat \<Rightarrow> bool" where
  "valid_status st \<longleftrightarrow>
     st = 200 \<or> st = 201 \<or> st = 204 \<or> st = 400 \<or> st = 404 \<or> st = 429 \<or> st = 500 \<or> st = 503"

definition csv_header :: string where
  "csv_header = ''timestamp_ms,service_id,status,duration_us'' @ [LF]"

text \<open>
  \<^verbatim>\<open>%llu\<close> and \<^verbatim>\<open>%u\<close> of \<^verbatim>\<open>sscanf\<close>: as \<^verbatim>\<open>strtoull\<close> with the value cut to the width of the type, and
  \<open>None\<close> where nothing could be converted.
\<close>

definition scan_u :: "nat \<Rightarrow> string \<Rightarrow> (nat \<times> string) option" where
  "scan_u width s =
     (let (v, rest, errno) = strtoull s in if rest = s then None else Some (v mod 2 ^ width, rest))"

definition scan_char :: "char \<Rightarrow> string \<Rightarrow> string option" where
  "scan_char ch s = (case s of [] \<Rightarrow> None | x # xs \<Rightarrow> if x = ch then Some xs else None)"

text \<open>\<^verbatim>\<open>sscanf(line, "%llu,%u,%u,%u%c", ...)\<close> with its five conversions.\<close>

definition scan_row :: "string \<Rightarrow> (nat \<times> nat \<times> nat \<times> nat \<times> char) option" where
  "scan_row line =
     Option.bind (scan_u 64 line) (\<lambda>(timestamp, s).
     Option.bind (scan_char (CHR '','') s) (\<lambda>s.
     Option.bind (scan_u 32 s) (\<lambda>(service, s).
     Option.bind (scan_char (CHR '','') s) (\<lambda>s.
     Option.bind (scan_u 32 s) (\<lambda>(st, s).
     Option.bind (scan_char (CHR '','') s) (\<lambda>s.
     Option.bind (scan_u 32 s) (\<lambda>(duration, s).
     case s of [] \<Rightarrow> None | ending # _ \<Rightarrow> Some (timestamp, service, st, duration, ending))))))))"

definition row_ok :: "nat \<Rightarrow> nat \<times> nat \<times> nat \<times> nat \<times> char \<Rightarrow> bool" where
  "row_ok previous row = (case row of (timestamp, service, st, duration, ending) \<Rightarrow>
     \<not> (ending \<noteq> LF \<or> timestamp = 0 \<or> timestamp < previous \<or> service \<ge> SERVICE_COUNT \<or> \<not> valid_status st \<or>
        duration = 0 \<or> duration > 10000000))"

text \<open>
  The loop over the rows: \<open>capacity\<close> doubles when the array is full, \<open>grow\<close> says whether \<^verbatim>\<open>realloc\<close> of
  so many records succeeds. \<open>None\<close> is the return of \<^verbatim>\<open>false\<close>.
\<close>

definition RECORD_SIZE :: nat where "RECORD_SIZE = 8"
definition SIZE_LIMIT :: nat where "SIZE_LIMIT = 2 ^ 64 - 1"

definition make_room :: "(nat \<Rightarrow> bool) \<Rightarrow> nat \<Rightarrow> nat \<Rightarrow> nat option" where
  "make_room grow capacity n =
     (if n = capacity then
        if capacity > SIZE_LIMIT div 2 div RECORD_SIZE then None
        else if grow (capacity * 2) then Some (capacity * 2) else None
      else Some capacity)"

fun load_rows :: "(nat \<Rightarrow> bool) \<Rightarrow> nat \<Rightarrow> nat \<Rightarrow> log_record list \<Rightarrow> string list \<Rightarrow> (log_record list \<times> nat) option" where
  "load_rows grow capacity previous acc [] = Some (acc, capacity)"
| "load_rows grow capacity previous acc (line # rest) =
     (case scan_row line of
        None \<Rightarrow> None
      | Some row \<Rightarrow>
          if \<not> row_ok previous row then None
          else (case row of (timestamp, service, st, duration, ending) \<Rightarrow>
            case make_room grow capacity (length acc) of
              None \<Rightarrow> None
            | Some capacity' \<Rightarrow>
                load_rows grow capacity' timestamp
                  (acc @ [\<lparr>service_id = of_nat service, lr_status = of_nat st, lr_duration = of_nat duration\<rparr>]) rest))"

definition load_log :: "(nat \<Rightarrow> bool) \<Rightarrow> string list option \<Rightarrow> bool \<Rightarrow> log_record list option" where
  "load_log grow file read_error =
     (case file of
        None \<Rightarrow> None
      | Some [] \<Rightarrow> None
      | Some (header # rows) \<Rightarrow>
          if header \<noteq> csv_header then None
          else if \<not> grow 262144 then None
          else (case load_rows grow 262144 0 [] rows of
                  None \<Rightarrow> None
                | Some (records, capacity) \<Rightarrow> if \<not> read_error \<and> records \<noteq> [] then Some records else None))"

section \<open>Aggregation\<close>

definition no_stats :: service_stats where
  "no_stats = \<lparr>requests = 0, errors = 0, duration_us = 0, min_us = 0, max_us = 0\<rparr>"

definition add_record :: "service_stats \<Rightarrow> log_record \<Rightarrow> service_stats" where
  "add_record s r =
     (let s = s\<lparr>requests := requests s + 1,
                errors := errors s + (if lr_status r \<ge> 400 then 1 else 0),
                duration_us := duration_us s + ucast (lr_duration r)\<rparr>;
          s = (if requests s = 1 \<or> lr_duration r < min_us s then s\<lparr>min_us := lr_duration r\<rparr> else s)
      in if lr_duration r > max_us s then s\<lparr>max_us := lr_duration r\<rparr> else s)"

text \<open>An array of \<^verbatim>\<open>SERVICE_COUNT\<close> entries; a store outside it makes the result \<open>None\<close>.\<close>

definition update_at :: "nat \<Rightarrow> (service_stats \<Rightarrow> service_stats) \<Rightarrow> service_stats list option \<Rightarrow> service_stats list option" where
  "update_at i f acc = Option.bind acc (\<lambda>xs. if i < length xs then Some (xs[i := f (xs ! i)]) else None)"

definition aggregate_rescan :: "log_record list \<Rightarrow> service_stats list option" where
  "aggregate_rescan records =
     fold (\<lambda>service acc. fold (\<lambda>r acc.
         if unat (service_id r) = service then update_at service (\<lambda>s. add_record s r) acc else acc) records acc)
       [0..<SERVICE_COUNT] (Some (replicate SERVICE_COUNT no_stats))"

definition aggregate_onepass :: "log_record list \<Rightarrow> service_stats list option" where
  "aggregate_onepass records =
     fold (\<lambda>r acc. update_at (unat (service_id r)) (\<lambda>s. add_record s r) acc) records
       (Some (replicate SERVICE_COUNT no_stats))"

definition add_totals :: "service_stats list \<Rightarrow> nat \<Rightarrow> totals \<Rightarrow> totals" where
  "add_totals stats i t =
     (let s = stats ! i in
      t\<lparr>t_requests := t_requests t + requests s, t_errors := t_errors t + errors s, t_duration := t_duration t + duration_us s,
        t_signature := t_signature t + (of_nat i + 1) * (requests s + errors s + duration_us s + ucast (min_us s) + ucast (max_us s))\<rparr>)"

definition summarize :: "service_stats list \<Rightarrow> totals" where
  "summarize stats = fold (add_totals stats) [0..<SERVICE_COUNT] \<lparr>t_requests = 0, t_errors = 0, t_duration = 0, t_signature = 0\<rparr>"

section \<open>The log that was read\<close>

definition good_record :: "log_record \<Rightarrow> bool" where
  "good_record r \<longleftrightarrow> unat (service_id r) < SERVICE_COUNT \<and> valid_status (unat (lr_status r)) \<and>
     1 \<le> unat (lr_duration r) \<and> unat (lr_duration r) \<le> 10000000"

lemma row_ok_record:
  assumes "row_ok previous (timestamp, service, st, duration, ending)"
  shows "good_record \<lparr>service_id = of_nat service, lr_status = of_nat st, lr_duration = of_nat duration\<rparr>"
proof -
  have "service < 1024" "st \<le> 503" "duration \<le> 10000000" "valid_status st" "1 \<le> duration"
    using assms by (auto simp: row_ok_def SERVICE_COUNT_def valid_status_def)
  moreover from this have "unat (of_nat service :: u16) = service" "unat (of_nat st :: u16) = st" "unat (of_nat duration :: u32) = duration"
    by (simp_all add: unat_of_nat)
  ultimately show ?thesis by (simp add: good_record_def SERVICE_COUNT_def)
qed

lemma load_rows_good:
  "load_rows grow capacity previous acc lines = Some (records, capacity') \<Longrightarrow> list_all good_record acc \<Longrightarrow> length acc \<le> capacity \<Longrightarrow>
   0 < capacity \<Longrightarrow> list_all good_record records \<and> length records \<le> capacity' \<and> length records = length acc + length lines"
proof (induction lines arbitrary: capacity previous acc)
  case Nil
  then show ?case by simp
next
  case (Cons line rest)
  obtain timestamp service st duration ending cap where row: "scan_row line = Some (timestamp, service, st, duration, ending)"
    and ok: "row_ok previous (timestamp, service, st, duration, ending)" and cap: "make_room grow capacity (length acc) = Some cap"
    and rest: "load_rows grow cap timestamp
        (acc @ [\<lparr>service_id = of_nat service, lr_status = of_nat st, lr_duration = of_nat duration\<rparr>]) rest = Some (records, capacity')"
    using Cons.prems(1) by (auto split: option.splits prod.splits if_splits)
  have "length acc < cap" "0 < cap" using cap Cons.prems(3,4) by (auto simp: make_room_def split: if_splits)
  then show ?case using Cons.IH [OF rest] Cons.prems(2) row_ok_record [OF ok] by simp
qed

lemma load_log_good:
  assumes "load_log grow file e = Some records"
  shows "list_all good_record records \<and> records \<noteq> []"
  using assms load_rows_good [where acc = "[]" and capacity = 262144]
  by (fastforce simp: load_log_def split: option.splits list.splits prod.splits if_splits)

section \<open>The two aggregations\<close>

lemma update_at_Some: "i < length xs \<Longrightarrow> update_at i f (Some xs) = Some (xs[i := f (xs ! i)])"
  by (simp add: update_at_def)

definition of_service :: "nat \<Rightarrow> log_record list \<Rightarrow> log_record list" where
  "of_service i records = filter (\<lambda>r. unat (service_id r) = i) records"

definition stats_of :: "log_record list \<Rightarrow> nat \<Rightarrow> service_stats" where
  "stats_of records i = fold (\<lambda>r s. add_record s r) (of_service i records) no_stats"

lemma onepass_fold:
  "list_all good_record records \<Longrightarrow> length xs = SERVICE_COUNT \<Longrightarrow>
   fold (\<lambda>r acc. update_at (unat (service_id r)) (\<lambda>s. add_record s r) acc) records (Some xs) =
   Some (map (\<lambda>i. fold (\<lambda>r s. add_record s r) (of_service i records) (xs ! i)) [0..<SERVICE_COUNT])"
proof (induction records arbitrary: xs)
  case Nil
  then show ?case by (simp add: of_service_def) (metis map_nth)
next
  case (Cons r records)
  have i: "unat (service_id r) < length xs" using Cons.prems by (simp add: good_record_def)
  show ?case
    using Cons.IH [of "xs[unat (service_id r) := add_record (xs ! unat (service_id r)) r]"] Cons.prems i
    by (auto simp: update_at_Some of_service_def nth_list_update intro!: map_cong)
qed

lemma onepass_stats: "list_all good_record records \<Longrightarrow> aggregate_onepass records = Some (map (stats_of records) [0..<SERVICE_COUNT])"
  unfolding aggregate_onepass_def by (subst onepass_fold) (auto simp: stats_of_def)

lemma rescan_service:
  "i < length xs \<Longrightarrow>
   fold (\<lambda>r acc. if unat (service_id r) = i then update_at i (\<lambda>s. add_record s r) acc else acc) records (Some xs) =
   Some (xs[i := fold (\<lambda>r s. add_record s r) (of_service i records) (xs ! i)])"
proof (induction records arbitrary: xs)
  case (Cons r records)
  then show ?case by (simp add: update_at_Some of_service_def)
qed (simp add: of_service_def)

lemma rescan_fold:
  "n \<le> SERVICE_COUNT \<Longrightarrow>
   fold (\<lambda>service acc. fold (\<lambda>r acc. if unat (service_id r) = service then update_at service (\<lambda>s. add_record s r) acc else acc) records acc)
     [0..<n] (Some (replicate SERVICE_COUNT no_stats)) =
   Some (map (\<lambda>i. if i < n then stats_of records i else no_stats) [0..<SERVICE_COUNT])"
proof (induction n)
  case 0
  then show ?case by (simp add: map_replicate_const)
next
  case (Suc n)
  then show ?case
    by (simp add: rescan_service) (auto intro!: nth_equalityI simp: nth_list_update stats_of_def)
qed

lemma rescan_stats: "aggregate_rescan records = Some (map (stats_of records) [0..<SERVICE_COUNT])"
  unfolding aggregate_rescan_def by (subst rescan_fold) (auto intro!: map_cong)

lemma one_row_log:
  "load_log (\<lambda>n. True) (Some [csv_header, ''1,2,200,5'' @ [LF]]) False = Some [\<lparr>service_id = 2, lr_status = 200, lr_duration = 5\<rparr>]"
proof -
  have "scan_row (''1,2,200,5'' @ [LF]) = Some (1, 2, 200, 5, LF)"
    by (simp add: scan_row_def scan_u_def scan_char_def strtoull_def Let_def is_space_def is_digit_def num_def digit_val_def
        ULLONG_MAX_def LF_def)
  moreover have "row_ok 0 (1, 2, 200, 5, LF)" by (simp add: row_ok_def valid_status_def SERVICE_COUNT_def)
  ultimately show ?thesis by (simp add: load_log_def make_room_def)
qed

text \<open>C22: for every log the reader accepts, both aggregations stay inside the array of services and give the
  same statistics, those of each service's own records, so that the two modes of the server answer alike.\<close>

theorem onepass_equals_rescan:
  assumes "load_log grow file e = Some records"
  shows "aggregate_onepass records = aggregate_rescan records \<and>
    aggregate_onepass records = Some (map (stats_of records) [0..<SERVICE_COUNT])"
proof -
  have g: "list_all good_record records" using load_log_good [OF assms] by simp
  show ?thesis using onepass_stats [OF g] rescan_stats by simp
qed

theorem onepass_equals_rescan_witness:
  "aggregate_onepass [\<lparr>service_id = 2, lr_status = 200, lr_duration = 5\<rparr>] = aggregate_rescan [\<lparr>service_id = 2, lr_status = 200, lr_duration = 5\<rparr>]"
  using onepass_equals_rescan [OF one_row_log] by blast

end
