(* ===== verification/IpcServer.thy ===== *)
theory IpcServer
  imports Io LoadgenInv LogStats
begin

text \<open>
  The event loop of \<^verbatim>\<open>Week3/Lab3/src/ipc_server.c\<close>: sixteen client slots with fixed buffers, an
  \<^verbatim>\<open>epoll\<close> loop on one thread, and the aggregation of the request log in the middle of it. The flag
  \<^verbatim>\<open>stopping\<close> is the one a signal sets (\<open>interrupted\<close>). \<open>records\<close> is the log that was loaded and
  \<open>rescan\<close> the mode; what is printed is not modelled.
\<close>

definition CLIENTS :: nat where "CLIENTS = 16"
definition CAPACITY :: nat where "CAPACITY = 512"

record slot =
  c_fd :: int
  c_input :: string
  c_output :: string
  c_sent :: nat
  c_stats :: bool

definition free_slot :: slot where
  "free_slot = \<lparr>c_fd = -1, c_input = [], c_output = [], c_sent = 0, c_stats = False\<rparr>"

record server = io_state +
  peers :: "slot list"

type_synonym 'a srv = "(unit server_ext, 'a) io"

definition peer_at :: "nat \<Rightarrow> slot srv" where
  "peer_at i s = (if i < length (peers s) then Inr (peers s ! i, s) else Inl Fault)"

definition with_peer_at :: "nat \<Rightarrow> (slot \<Rightarrow> slot) \<Rightarrow> server \<Rightarrow> server" where
  "with_peer_at i f s = s\<lparr>peers := (peers s)[i := f (peers s ! i)]\<rparr>"

text \<open>\<^verbatim>\<open>check\<close> of \<^verbatim>\<open>lab.h\<close>: a call that fails ends the program.\<close>

definition checked :: "('z, answer) io" where
  "checked = andthen pop (\<lambda>a. if a_ok a then ret a else halt (Exit 1))"

definition now_ms :: "('z, real) io" where
  "now_ms = andthen checked (\<lambda>a. ret (a_time a))"

definition stop_server :: "unit srv" where
  "stop_server = modify (\<lambda>s. s\<lparr>interrupted := True\<rparr>)"

section \<open>Replies\<close>

definition disconnect_client :: "nat \<Rightarrow> unit srv" where
  "disconnect_client i = andthen (peer_at i) (\<lambda>c.
     andthen pop (\<lambda>_. andthen (close_fd (c_fd c)) (\<lambda>_. modify (with_peer_at i (\<lambda>_. free_slot)))))"

definition queue_reply :: "nat \<Rightarrow> string \<Rightarrow> bool srv" where
  "queue_reply i reply = andthen (peer_at i) (\<lambda>c.
     unless_fault (length (c_output c) \<le> CAPACITY) (
     if length reply > CAPACITY - length (c_output c) then andthen (disconnect_client i) (\<lambda>_. ret False)
     else andthen (modify (with_peer_at i (\<lambda>c. c\<lparr>c_output := c_output c @ reply\<rparr>))) (\<lambda>_. ret True)))"

definition stats_reply :: "totals \<Rightarrow> string" where
  "stats_reply t = snprintf 160
     (''STATS requests='' @ dec (unat (t_requests t)) @ '' errors='' @ dec (unat (t_errors t)) @
      '' duration_us='' @ dec (unat (t_duration t)) @ '' signature='' @ dec (unat (t_signature t)) @ [LF])"

definition aggregate :: "bool \<Rightarrow> log_record list \<Rightarrow> service_stats list option" where
  "aggregate rescan records = (if rescan then aggregate_rescan records else aggregate_onepass records)"

text \<open>One round of \<^verbatim>\<open>flush_reply\<close>: a \<^verbatim>\<open>send\<close>, or the end of the output and the statistics if they are due.\<close>

definition flush_step :: "bool \<Rightarrow> log_record list \<Rightarrow> nat \<Rightarrow> (unit + bool) srv" where
  "flush_step rescan records i = andthen (peer_at i) (\<lambda>c.
     if c_sent c < length (c_output c) then
       andthen (sys_send (length (c_output c) - c_sent c)) (\<lambda>n. case n of
         Inr k \<Rightarrow> if k > 0 then andthen (modify (with_peer_at i (\<lambda>c. c\<lparr>c_sent := c_sent c + k\<rparr>))) (\<lambda>_. ret (Inl ()))
                  else andthen (disconnect_client i) (\<lambda>_. ret (Inr False))
       | Inl e \<Rightarrow> if e = EINTR then ret (Inl ())
                  else if e = EAGAIN then ret (Inr True)
                  else andthen (disconnect_client i) (\<lambda>_. ret (Inr False)))
     else
       andthen (modify (with_peer_at i (\<lambda>c. c\<lparr>c_output := [], c_sent := 0\<rparr>))) (\<lambda>_.
       if \<not> c_stats c then ret (Inr True) else
       andthen (modify (with_peer_at i (\<lambda>c. c\<lparr>c_stats := False\<rparr>))) (\<lambda>_.
       andthen now_ms (\<lambda>start.
       case aggregate rescan records of
         None \<Rightarrow> halt Fault
       | Some stats \<Rightarrow>
           andthen now_ms (\<lambda>_.
           andthen (queue_reply i (stats_reply (summarize stats))) (\<lambda>ok.
           if ok then ret (Inl ()) else ret (Inr False)))))))"

definition flush_reply :: "bool \<Rightarrow> log_record list \<Rightarrow> nat \<Rightarrow> bool srv" where
  "flush_reply rescan records i = while_io (\<lambda>_. flush_step rescan records i) ()"

section \<open>Requests\<close>

definition reply_to :: "string \<Rightarrow> string" where
  "reply_to line = (if line = ''PING'' then ''PONG'' @ [LF] else ''ERROR'' @ [LF])"

text \<open>
  One line of the input. The result goes round (\<open>Inl\<close>), or leaves the loop: with \<open>None\<close> when no line
  is complete, with the value \<^verbatim>\<open>read_requests\<close> returns otherwise.
\<close>

definition line_step :: "bool \<Rightarrow> log_record list \<Rightarrow> nat \<Rightarrow> (unit + bool option) srv" where
  "line_step rescan records i = andthen (peer_at i) (\<lambda>c.
     if LF \<notin> set (c_input c) then ret (Inr None) else
     let line = takeWhile (\<lambda>ch. ch \<noteq> LF) (c_input c) in
     andthen (modify (with_peer_at i (\<lambda>c. c\<lparr>c_input := drop (length line + 1) (c_input c)\<rparr>))) (\<lambda>_.
     if line = ''QUIT'' then
       andthen (queue_reply i (''BYE'' @ [LF])) (\<lambda>ok.
       if \<not> ok then ret (Inr (Some False)) else
       andthen (flush_reply rescan records i) (\<lambda>ok.
       if \<not> ok then ret (Inr (Some False)) else
       andthen stop_server (\<lambda>_. ret (Inr (Some True)))))
     else
       andthen (if line = ''STATS''
                then andthen (queue_reply i (''START'' @ [LF])) (\<lambda>ok.
                       if \<not> ok then ret False
                       else andthen (modify (with_peer_at i (\<lambda>c. c\<lparr>c_stats := True\<rparr>))) (\<lambda>_. ret True))
                else queue_reply i (reply_to line)) (\<lambda>ok.
       if \<not> ok then ret (Inr (Some False)) else
       andthen (flush_reply rescan records i) (\<lambda>ok.
       if \<not> ok then ret (Inr (Some False)) else
       andthen (peer_at i) (\<lambda>c. if c_stats c then ret (Inr (Some True)) else ret (Inl ()))))))"

definition read_step :: "bool \<Rightarrow> log_record list \<Rightarrow> nat \<Rightarrow> (unit + bool) srv" where
  "read_step rescan records i = andthen (peer_at i) (\<lambda>c.
     unless_fault (length (c_input c) \<le> CAPACITY) (
     if length (c_input c) = CAPACITY then andthen (disconnect_client i) (\<lambda>_. ret (Inr False)) else
     andthen (sys_recv (CAPACITY - length (c_input c))) (\<lambda>n. case n of
       Inr bytes \<Rightarrow>
         if bytes = [] then andthen (disconnect_client i) (\<lambda>_. ret (Inr False)) else
         andthen (modify (with_peer_at i (\<lambda>c. c\<lparr>c_input := c_input c @ bytes\<rparr>))) (\<lambda>_.
         andthen (while_io (\<lambda>_. line_step rescan records i) ()) (\<lambda>r.
         case r of None \<Rightarrow> ret (Inl ()) | Some b \<Rightarrow> ret (Inr b)))
     | Inl e \<Rightarrow> if e = EINTR then ret (Inl ())
                else if e = EAGAIN then ret (Inr True)
                else andthen (disconnect_client i) (\<lambda>_. ret (Inr False)))))"

definition read_requests :: "bool \<Rightarrow> log_record list \<Rightarrow> nat \<Rightarrow> bool srv" where
  "read_requests rescan records i = while_io (\<lambda>_. read_step rescan records i) ()"

section \<open>The event loop\<close>

definition watch_client :: "('z, unit) io" where
  "watch_client = andthen checked (\<lambda>_. ret ())"

definition find_slot :: "slot list \<Rightarrow> nat" where
  "find_slot ps = length (takeWhile (\<lambda>c. c_fd c \<ge> 0) ps)"

text \<open>\<^verbatim>\<open>accept4\<close>: a descriptor that was not open before, or an error.\<close>

definition sys_accept :: "('z, errno + int) io" where
  "sys_accept = andthen pop (\<lambda>a s.
     if a_ok a \<and> 0 \<le> a_n a \<and> a_n a \<notin> fds s then Inr (Inr (a_n a), s\<lparr>fds := insert (a_n a) (fds s)\<rparr>)
     else Inr (Inl (a_err a), s))"

definition accept_step :: "(unit + unit) srv" where
  "accept_step = andthen sys_accept (\<lambda>r. case r of
     Inl e \<Rightarrow> if e = EINTR then ret (Inl ()) else if e = EAGAIN then ret (Inr ()) else halt (Exit 1)
   | Inr fd \<Rightarrow>
       andthen (gets (\<lambda>s. find_slot (peers s))) (\<lambda>i.
       if i = CLIENTS then andthen (close_fd fd) (\<lambda>_. ret (Inl ())) else
       unless_fault (i < CLIENTS) (
       andthen (modify (with_peer_at i (\<lambda>c. c\<lparr>c_fd := fd\<rparr>))) (\<lambda>_.
       andthen checked (\<lambda>_. ret (Inl ()))))))"

definition accept_clients :: "unit srv" where
  "accept_clients = while_io (\<lambda>_. accept_step) ()"

text \<open>An event is its \<^verbatim>\<open>data.u32\<close> and which of \<^verbatim>\<open>EPOLLIN\<close>, \<^verbatim>\<open>EPOLLOUT\<close> and the error flags it has.\<close>

type_synonym event = "nat \<times> bool \<times> bool \<times> bool"

definition serve_event :: "bool \<Rightarrow> log_record list \<Rightarrow> event \<Rightarrow> unit srv" where
  "serve_event rescan records ev = (case ev of (data, can_read, can_write, hup) \<Rightarrow>
     andthen (gets interrupted) (\<lambda>stopping.
     if stopping then ret ()
     else if data = 0 then accept_clients
     else let i = data - 1 in
       andthen (peer_at i) (\<lambda>c.
       if c_fd c < 0 then ret () else
       andthen (if can_read then read_requests rescan records i else ret True) (\<lambda>ok.
       if \<not> ok then ret () else
       andthen (peer_at i) (\<lambda>c.
       andthen (if c_fd c \<ge> 0 \<and> can_write then flush_reply rescan records i else ret True) (\<lambda>ok.
       if \<not> ok then ret () else
       andthen (peer_at i) (\<lambda>c.
       if c_fd c \<ge> 0 \<and> hup then disconnect_client i
       else if c_fd c \<ge> 0 then watch_client
       else ret ())))))))"

text \<open>\<^verbatim>\<open>epoll_wait\<close> reports the values that were registered: 0 or the number of a slot. \<open>flags\<close> decodes
  what else an answer says of an event.\<close>

definition server_round :: "bool \<Rightarrow> log_record list \<Rightarrow> (answer \<Rightarrow> nat \<Rightarrow> bool \<times> bool \<times> bool) \<Rightarrow> (unit + unit) srv" where
  "server_round rescan records flags = andthen (gets interrupted) (\<lambda>stopping.
     if stopping then ret (Inr ()) else
     andthen pop (\<lambda>a.
     if \<not> a_ok a \<and> a_err a = EINTR then ret (Inl ())
     else if \<not> a_ok a then halt (Exit 1)
     else andthen (each_io (serve_event rescan records)
            (map (\<lambda>d. (d, flags a d)) (take (CLIENTS + 1) (filter (\<lambda>d. d \<le> CLIENTS) (a_events a))))) (\<lambda>_. ret (Inl ()))))"

definition close_slot :: "nat \<Rightarrow> unit srv" where
  "close_slot i = andthen (peer_at i) (\<lambda>c. if c_fd c \<ge> 0 then disconnect_client i else ret ())"

definition checked_fd :: "('z, int) io" where
  "checked_fd = andthen new_fd (\<lambda>fd. if fd < 0 then halt (Exit 1) else ret fd)"

text \<open>From the socket on; the log has been loaded and the arguments are accepted.\<close>

definition serve :: "bool \<Rightarrow> log_record list \<Rightarrow> (answer \<Rightarrow> nat \<Rightarrow> bool \<times> bool \<times> bool) \<Rightarrow> nat srv" where
  "serve rescan records flags =
     andthen (modify (\<lambda>s. s\<lparr>peers := replicate CLIENTS free_slot\<rparr>)) (\<lambda>_.
     andthen checked (\<lambda>_. andthen checked (\<lambda>_.
     andthen checked_fd (\<lambda>listener.
     andthen checked (\<lambda>_. andthen checked (\<lambda>_.
     andthen checked_fd (\<lambda>epfd.
     andthen checked (\<lambda>_.
     andthen (while_io (\<lambda>_. server_round rescan records flags) ()) (\<lambda>_.
     andthen (each_io close_slot [0..<CLIENTS]) (\<lambda>_.
     andthen (close_fd listener) (\<lambda>_.
     andthen (close_fd epfd) (\<lambda>_.
     andthen checked (\<lambda>_. ret 0))))))))))))) "

definition server_main :: "string list \<Rightarrow> (nat \<Rightarrow> bool) \<Rightarrow> string list option \<Rightarrow> bool \<Rightarrow> (answer \<Rightarrow> nat \<Rightarrow> bool \<times> bool \<times> bool) \<Rightarrow> nat srv" where
  "server_main args grow file read_error flags =
     (case args of
        [mode, path, csv] \<Rightarrow>
          if mode \<noteq> ''rescan'' \<and> mode \<noteq> ''onepass'' then ret 2
          else if length path \<ge> 108 then ret 2
          else (case load_log grow file read_error of
                  None \<Rightarrow> ret 1
                | Some records \<Rightarrow> serve (mode = ''rescan'') records flags)
      | _ \<Rightarrow> ret 2)"

section \<open>Buffers and descriptors\<close>

definition slot_ok :: "slot \<Rightarrow> bool" where
  "slot_ok c \<longleftrightarrow> length (c_input c) \<le> CAPACITY \<and> length (c_output c) \<le> CAPACITY \<and> c_sent c \<le> length (c_output c)"

text \<open>\<open>B\<close> are the descriptors that are not a client's.\<close>

definition serving :: "int set \<Rightarrow> server \<Rightarrow> bool" where
  "serving B s \<longleftrightarrow> length (peers s) = CLIENTS \<and> (\<forall>i<CLIENTS. slot_ok (peers s ! i)) \<and>
     fd_inv B CLIENTS (\<lambda>i. c_fd (peers s ! i)) (fds s)"

definition connected :: "int set \<Rightarrow> nat \<Rightarrow> server \<Rightarrow> bool" where
  "connected B i s \<longleftrightarrow> serving B s \<and> i < CLIENTS \<and> 0 \<le> c_fd (peers s ! i)"

text \<open>What the functions that return whether the client is still there promise.\<close>

definition still :: "int set \<Rightarrow> nat \<Rightarrow> bool \<Rightarrow> server \<Rightarrow> bool" where
  "still B i ok s \<longleftrightarrow> (if ok then connected B i s else serving B s)"

lemma still_simps [simp]: "still B i True = connected B i" "still B i False = serving B"
  by (auto simp: still_def)

lemma connected_serving: "connected B i s \<Longrightarrow> serving B s"
  by (simp add: connected_def)

lemma env_closed_serving [simp]: "env_closed (serving B)" "env_closed (connected B i)"
  by (simp_all add: env_closed_def serving_def connected_def)

lemma env_closed_peer [simp]: "env_closed (\<lambda>s. connected B i s \<and> c = peers s ! i)"
  by (simp add: env_closed_def serving_def connected_def)

lemma with_peer_at_simps [simp]:
  "peers (with_peer_at i f s) = (peers s)[i := f (peers s ! i)]" "fds (with_peer_at i f s) = fds s"
  "script (with_peer_at i f s) = script s" "interrupted (with_peer_at i f s) = interrupted s"
  by (simp_all add: with_peer_at_def)

lemma valid_peer_bind:
  "(\<And>s. P s \<Longrightarrow> i < length (peers s)) \<Longrightarrow> (\<And>c. valid (\<lambda>s. P s \<and> c = peers s ! i) (f c) Q) \<Longrightarrow>
   valid P (andthen (peer_at i) f) Q"
  by (fastforce simp: valid_def andthen_def peer_at_def)

lemma connected_length: "connected B i s \<Longrightarrow> i < length (peers s)"
  by (simp add: connected_def serving_def)

lemma connected_slot: "connected B i s \<Longrightarrow> slot_ok (peers s ! i)"
  by (simp add: connected_def serving_def)

lemma connected_upd:
  assumes "connected B i s" "c_fd (f (peers s ! i)) = c_fd (peers s ! i)" "slot_ok (f (peers s ! i))"
  shows "connected B i (with_peer_at i f s)"
proof -
  have len: "length (peers s) = CLIENTS" using assms(1) by (simp add: connected_def serving_def)
  have "c_fd ((peers s)[i := f (peers s ! i)] ! j) = c_fd (peers s ! j)" if "j < CLIENTS" for j
    using assms(2) that len by (cases "j = i") auto
  then show ?thesis
    using assms len by (auto simp: connected_def serving_def nth_list_update elim!: fd_inv_cong)
qed

lemma serving_free:
  assumes "connected B i s"
  shows "serving B (with_peer_at i (\<lambda>_. free_slot) (s\<lparr>fds := fds s - {c_fd (peers s ! i)}\<rparr>)) \<and> c_fd (peers s ! i) \<in> fds s"
proof -
  let ?F = "\<lambda>j. c_fd (peers s ! j)"
  have len: "length (peers s) = CLIENTS" and fd: "fd_inv B CLIENTS ?F (fds s)" and i: "i < CLIENTS" "0 \<le> ?F i"
    using assms by (auto simp: connected_def serving_def)
  have "fd_inv B CLIENTS (\<lambda>j. c_fd ((peers s)[i := free_slot] ! j)) (fds s - {?F i})"
    by (rule fd_inv_cong [OF fd_inv_drop(1) [OF fd i]]) (use len i in \<open>auto simp: nth_list_update free_slot_def\<close>)
  then show ?thesis
    using assms len fd_inv_drop(2) [OF fd i] by (auto simp: connected_def serving_def nth_list_update slot_ok_def free_slot_def)
qed

lemma disconnect_valid: "(\<And>s. P s \<Longrightarrow> connected B i s) \<Longrightarrow> valid P (disconnect_client i) (\<lambda>_. serving B)"
proof -
  have "valid (connected B i) (disconnect_client i) (\<lambda>_. serving B)"
    unfolding disconnect_client_def
    apply (rule valid_peer_bind, erule connected_length)
    apply (rule valid_pop_bind, simp)
    using serving_free
    apply (fastforce simp: valid_def andthen_def close_fd_def modify_def)
    done
  then show "(\<And>s. P s \<Longrightarrow> connected B i s) \<Longrightarrow> valid P (disconnect_client i) (\<lambda>_. serving B)" by (rule valid_pre)
qed

lemma disconnect_then: "(\<And>s. P s \<Longrightarrow> connected B i s) \<Longrightarrow> (\<And>s. serving B s \<Longrightarrow> Q x s) \<Longrightarrow>
    valid P (andthen (disconnect_client i) (\<lambda>_. ret x)) Q"
  by (rule valid_andthen [OF disconnect_valid]) (auto intro: valid_ret_post)

lemma valid_checked_bind: "env_closed P \<Longrightarrow> (\<And>a. valid P (f a) Q) \<Longrightarrow> valid P (andthen checked f) Q"
  unfolding checked_def
  by (rule valid_andthen [where R = "\<lambda>_. P"], rule valid_pop_bind, assumption) (auto simp: valid_def ret_def halt_def)

lemma valid_now_ms_bind: "env_closed P \<Longrightarrow> (\<And>t. valid P (f t) Q) \<Longrightarrow> valid P (andthen now_ms f) Q"
  unfolding now_ms_def
  by (rule valid_andthen [where R = "\<lambda>_. P"], rule valid_checked_bind, assumption) (auto simp: valid_def ret_def)

lemma queue_reply_valid: "valid (connected B i) (queue_reply i reply) (still B i)"
  unfolding queue_reply_def
  apply (rule valid_peer_bind, erule connected_length)
  apply (rule valid_unless_fault, use connected_slot in \<open>fastforce simp: slot_ok_def\<close>)
  apply (rule valid_if, rule disconnect_then, blast, simp)
  apply (rule valid_modify_bind [where R = "connected B i"])
   apply (clarify, rule connected_upd, assumption, simp)
   apply (use connected_slot in \<open>fastforce simp: slot_ok_def\<close>)
  apply (rule valid_ret_post, simp)
  done

text \<open>A round of a loop keeps the client connected or leaves with the answer.\<close>

definition round_post :: "int set \<Rightarrow> nat \<Rightarrow> unit + bool \<Rightarrow> server \<Rightarrow> bool" where
  "round_post B i r = (case r of Inl _ \<Rightarrow> connected B i | Inr ok \<Rightarrow> still B i ok)"

lemma round_post_simps [simp]: "round_post B i (Inl u) = connected B i" "round_post B i (Inr ok) = still B i ok"
  by (simp_all add: round_post_def)

lemma while_round:
  "valid (connected B i) m (round_post B i) \<Longrightarrow> valid (connected B i) (while_io (\<lambda>_. m) ()) (still B i)"
  by (rule valid_while [where I = "\<lambda>_. connected B i"]) (erule valid_post, auto simp: round_post_def split: sum.splits)

text \<open>A call that says whether the client is still there, and what follows if it is.\<close>

lemma still_bind:
  assumes "valid P m (still B i)" "valid (connected B i) m' Q" "\<And>s. serving B s \<Longrightarrow> Q x s"
  shows "valid P (andthen m (\<lambda>ok. if \<not> ok then ret x else m')) Q"
proof (rule valid_andthen [OF assms(1)])
  show "valid (still B i ok) (if \<not> ok then ret x else m') Q" for ok
    using assms(2,3) by (cases ok) (auto intro: valid_ret_post)
qed

lemma sent_valid:
  assumes "k \<le> length (c_output c) - c_sent c"
  shows "valid (\<lambda>s. connected B i s \<and> c = peers s ! i)
    (modify (with_peer_at i (\<lambda>c. c\<lparr>c_sent := c_sent c + k\<rparr>))) (\<lambda>_. connected B i)"
  using assms connected_slot
  by (fastforce simp: valid_def modify_def slot_ok_def intro!: connected_upd)

lemma send_valid:
  "valid (\<lambda>s. connected B i s \<and> c = peers s ! i)
     (andthen (sys_send (length (c_output c) - c_sent c)) (\<lambda>n. case n of
         Inr k \<Rightarrow> if k > 0 then andthen (modify (with_peer_at i (\<lambda>c. c\<lparr>c_sent := c_sent c + k\<rparr>))) (\<lambda>_. ret (Inl ()))
                  else andthen (disconnect_client i) (\<lambda>_. ret (Inr False))
       | Inl e \<Rightarrow> if e = EINTR then ret (Inl ())
                  else if e = EAGAIN then ret (Inr True)
                  else andthen (disconnect_client i) (\<lambda>_. ret (Inr False)))) (round_post B i)"
proof (rule valid_send_bind)
  fix n :: "errno + nat" assume le: "\<And>j. n = Inr j \<Longrightarrow> j \<le> length (c_output c) - c_sent c"
  show "valid (\<lambda>s. connected B i s \<and> c = peers s ! i) (case n of
         Inr k \<Rightarrow> if k > 0 then andthen (modify (with_peer_at i (\<lambda>c. c\<lparr>c_sent := c_sent c + k\<rparr>))) (\<lambda>_. ret (Inl ()))
                  else andthen (disconnect_client i) (\<lambda>_. ret (Inr False))
       | Inl e \<Rightarrow> if e = EINTR then ret (Inl ())
                  else if e = EAGAIN then ret (Inr True)
                  else andthen (disconnect_client i) (\<lambda>_. ret (Inr False))) (round_post B i)"
    using le
    by (cases n) (auto intro!: valid_if disconnect_then valid_ret_post valid_then [OF sent_valid])
qed simp

lemma flush_step_valid:
  assumes "aggregate rescan records = Some stats"
  shows "valid (connected B i) (flush_step rescan records i) (round_post B i)"
proof -
  have reset: "connected B i (with_peer_at i (\<lambda>c. c\<lparr>c_output := [], c_sent := 0\<rparr>) s)"
    and later: "connected B i (with_peer_at i (\<lambda>c. c\<lparr>c_stats := b\<rparr>) s)" if "connected B i s" for s b
    using that connected_slot [OF that] by (auto simp: slot_ok_def intro!: connected_upd)
  have reply: "valid (connected B i) (andthen (queue_reply i m) (\<lambda>ok. if ok then ret (Inl ()) else ret (Inr False))) (round_post B i)" for m
  proof (rule valid_andthen [OF queue_reply_valid])
    show "valid (still B i ok) (if ok then ret (Inl ()) else ret (Inr False)) (round_post B i)" for ok
      by (cases ok) (auto intro: valid_ret_post)
  qed
  show ?thesis
    unfolding flush_step_def assms option.case
    apply (rule valid_peer_bind, erule connected_length)
    apply (rule valid_if [OF send_valid])
    apply (rule valid_modify_bind [where R = "connected B i"], blast intro: reset)
    apply (rule valid_if, rule valid_ret_post, simp)
    apply (rule valid_modify_bind [where R = "connected B i"], blast intro: later)
    apply (rule valid_now_ms_bind, simp)+
    apply (rule reply)
    done
qed

lemma flush_reply_valid:
  "aggregate rescan records = Some stats \<Longrightarrow> valid (connected B i) (flush_reply rescan records i) (still B i)"
  unfolding flush_reply_def by (rule while_round [OF flush_step_valid])

definition line_post :: "int set \<Rightarrow> nat \<Rightarrow> unit + bool option \<Rightarrow> server \<Rightarrow> bool" where
  "line_post B i r = (case r of Inr (Some ok) \<Rightarrow> still B i ok | _ \<Rightarrow> connected B i)"

lemma line_post_simps [simp]: "line_post B i (Inl u) = connected B i" "line_post B i (Inr None) = connected B i"
    "line_post B i (Inr (Some ok)) = still B i ok"
  by (simp_all add: line_post_def)

lemma line_step_valid:
  assumes agg: "aggregate rescan records = Some stats"
  shows "valid (connected B i) (line_step rescan records i) (line_post B i)"
proof -
  let ?C = "connected B i"
  have used: "?C (with_peer_at i (\<lambda>c. c\<lparr>c_input := drop n (c_input c)\<rparr>) s)"
    and due: "?C (with_peer_at i (\<lambda>c. c\<lparr>c_stats := b\<rparr>) s)" if "?C s" for s b n
    using that connected_slot [OF that] by (auto simp: slot_ok_def intro!: connected_upd)
  have quit: "valid ?C (andthen stop_server (\<lambda>_. ret (Inr (Some True)))) (line_post B i)"
    unfolding stop_server_def
    by (rule valid_modify_bind [where R = ?C]) (auto intro: valid_ret_post simp: connected_def serving_def)
  have stats: "valid ?C (if b then andthen (queue_reply i m) (\<lambda>ok. if \<not> ok then ret False
        else andthen (modify (with_peer_at i (\<lambda>c. c\<lparr>c_stats := True\<rparr>))) (\<lambda>_. ret True)) else queue_reply i m') (still B i)" for b m m'
    by (rule valid_if [OF still_bind [OF queue_reply_valid] queue_reply_valid])
      (auto intro!: valid_modify_bind [where R = ?C] valid_ret_post due)
  have again: "valid ?C (andthen (peer_at i) (\<lambda>c. if c_stats c then ret (Inr (Some True)) else ret (Inl ()))) (line_post B i)"
    by (rule valid_peer_bind, erule connected_length) (auto intro!: valid_if valid_ret_post)
  show ?thesis
    unfolding line_step_def Let_def
    apply (rule valid_peer_bind, erule connected_length)
    apply (rule valid_if, rule valid_ret_post, simp)
    apply (rule valid_modify_bind [where R = ?C], blast intro: used)
    apply (rule valid_if)
     apply (rule still_bind [OF queue_reply_valid])
      apply (rule still_bind [OF flush_reply_valid [OF agg] quit], simp, simp)
    apply (rule still_bind [OF stats])
     apply (rule still_bind [OF flush_reply_valid [OF agg] again], simp, simp)
    done
qed

lemma input_valid:
  assumes "length bytes \<le> CAPACITY - length (c_input c)"
  shows "valid (\<lambda>s. connected B i s \<and> c = peers s ! i)
    (modify (with_peer_at i (\<lambda>c. c\<lparr>c_input := c_input c @ bytes\<rparr>))) (\<lambda>_. connected B i)"
  using assms connected_slot
  by (fastforce simp: valid_def modify_def slot_ok_def intro!: connected_upd)

lemma lines_valid:
  assumes "aggregate rescan records = Some stats"
  shows "valid (connected B i)
     (andthen (while_io (\<lambda>_. line_step rescan records i) ()) (\<lambda>r. case r of None \<Rightarrow> ret (Inl ()) | Some b \<Rightarrow> ret (Inr b)))
     (round_post B i)"
proof (rule valid_andthen)
  let ?R = "\<lambda>r. case r of None \<Rightarrow> connected B i | Some ok \<Rightarrow> still B i ok"
  show "valid (connected B i) (while_io (\<lambda>_. line_step rescan records i) ()) ?R"
    by (rule valid_while [where I = "\<lambda>_. connected B i"], rule valid_post [OF line_step_valid [OF assms]])
      (auto simp: line_post_def split: sum.splits option.splits)
  show "valid (?R r) (case r of None \<Rightarrow> ret (Inl ()) | Some b \<Rightarrow> ret (Inr b)) (round_post B i)" for r
    by (cases r) (auto intro: valid_ret_post)
qed

lemma read_step_valid:
  assumes "aggregate rescan records = Some stats"
  shows "valid (connected B i) (read_step rescan records i) (round_post B i)"
proof -
  have got: "valid (\<lambda>s. connected B i s \<and> c = peers s ! i) (case n of
       Inr bytes \<Rightarrow>
         if bytes = [] then andthen (disconnect_client i) (\<lambda>_. ret (Inr False)) else
         andthen (modify (with_peer_at i (\<lambda>c. c\<lparr>c_input := c_input c @ bytes\<rparr>))) (\<lambda>_.
         andthen (while_io (\<lambda>_. line_step rescan records i) ()) (\<lambda>r.
         case r of None \<Rightarrow> ret (Inl ()) | Some b \<Rightarrow> ret (Inr b)))
     | Inl e \<Rightarrow> if e = EINTR then ret (Inl ())
                else if e = EAGAIN then ret (Inr True)
                else andthen (disconnect_client i) (\<lambda>_. ret (Inr False))) (round_post B i)"
    if "\<And>j. n = Inr j \<Longrightarrow> length j \<le> CAPACITY - length (c_input c)" for c n
    using that
    by (cases n) (auto intro!: valid_if disconnect_then valid_ret_post valid_then [OF input_valid] lines_valid [OF assms])
  show ?thesis
    unfolding read_step_def
    apply (rule valid_peer_bind, erule connected_length)
    apply (rule valid_unless_fault, use connected_slot in \<open>fastforce simp: slot_ok_def\<close>)
    apply (rule valid_if, rule disconnect_then, blast, simp)
    apply (rule valid_recv_bind, simp)
    apply (rule got, blast)
    done
qed

lemma read_requests_valid:
  "aggregate rescan records = Some stats \<Longrightarrow> valid (connected B i) (read_requests rescan records i) (still B i)"
  unfolding read_requests_def by (rule while_round [OF read_step_valid])

section \<open>The loop\<close>

lemma serving_accept:
  assumes "serving B s" "fd \<notin> fds s" "0 \<le> fd" "i < CLIENTS" "c_fd (peers s ! i) < 0"
  shows "serving B (with_peer_at i (\<lambda>c. c\<lparr>c_fd := fd\<rparr>) (s\<lparr>fds := insert fd (fds s)\<rparr>))"
proof -
  let ?F = "\<lambda>j. c_fd (peers s ! j)"
  have len: "length (peers s) = CLIENTS" and inv: "fd_inv B CLIENTS ?F (fds s)"
    using assms(1) by (auto simp: serving_def)
  have "fd_inv B CLIENTS (\<lambda>j. c_fd ((peers s)[i := (peers s ! i)\<lparr>c_fd := fd\<rparr>] ! j)) (insert fd (fds s))"
    by (rule fd_inv_cong [OF fd_inv_add [OF inv assms(5,4,2,3)]]) (use len assms(4) in \<open>auto simp: nth_list_update\<close>)
  then show ?thesis using assms(1,4) len by (auto simp: serving_def nth_list_update slot_ok_def)
qed

lemma find_slot_le: "find_slot ps \<le> length ps"
  by (simp add: find_slot_def length_takeWhile_le)

lemma find_slot_free: "find_slot ps < length ps \<Longrightarrow> c_fd (ps ! find_slot ps) < 0"
  unfolding find_slot_def using nth_length_takeWhile [of "\<lambda>c. c_fd c \<ge> 0" ps] by simp

lemma env_closed_conj: "env_closed P \<Longrightarrow> env_closed Q \<Longrightarrow> env_closed (\<lambda>s. P s \<and> Q s)"
  by (simp add: env_closed_def)

lemma accept_step_valid: "valid (serving B) accept_step (\<lambda>_. serving B)"
proof -
  let ?R = "\<lambda>r. case r of Inl e \<Rightarrow> serving B | Inr fd \<Rightarrow> (\<lambda>t. \<exists>s. t = s\<lparr>fds := insert fd (fds s)\<rparr> \<and> serving B s \<and> 0 \<le> fd \<and> fd \<notin> fds s)"
  have acc: "valid (serving B) sys_accept ?R"
    unfolding sys_accept_def
    by (rule valid_pop_bind) (auto simp: valid_def intro: exI [of _ "_ :: server"])
  have slot: "valid (\<lambda>t. ?R (Inr fd) t \<and> i = find_slot (peers t))
     (if i = CLIENTS then andthen (close_fd fd) (\<lambda>_. ret (Inl ())) else
       unless_fault (i < CLIENTS) (
       andthen (modify (with_peer_at i (\<lambda>c. c\<lparr>c_fd := fd\<rparr>))) (\<lambda>_.
       andthen checked (\<lambda>_. ret (Inl ()))))) (\<lambda>_. serving B)" for fd i
  proof (rule valid_if)
    show "valid (\<lambda>t. ?R (Inr fd) t \<and> i = find_slot (peers t)) (andthen (close_fd fd) (\<lambda>_. ret (Inl ()))) (\<lambda>_. serving B)"
      by (auto simp: valid_def andthen_def close_fd_def ret_def serving_def)
    assume i: "i \<noteq> CLIENTS"
    have fresh: "\<And>t. ?R (Inr fd) t \<and> i = find_slot (peers t) \<Longrightarrow> i < CLIENTS \<and> serving B (with_peer_at i (\<lambda>c. c\<lparr>c_fd := fd\<rparr>) t)"
    proof -
      fix t assume "?R (Inr fd) t \<and> i = find_slot (peers t)"
      then obtain s where t: "t = s\<lparr>fds := insert fd (fds s)\<rparr>" "serving B s" "0 \<le> fd" "fd \<notin> fds s" and fs: "i = find_slot (peers s)"
        by auto
      have len: "length (peers s) = CLIENTS" using t(2) by (simp add: serving_def)
      have lt: "i < CLIENTS" using find_slot_le [of "peers s"] i fs len by simp
      have "c_fd (peers s ! i) < 0" using find_slot_free [of "peers s"] fs lt len by simp
      then show "i < CLIENTS \<and> serving B (with_peer_at i (\<lambda>c. c\<lparr>c_fd := fd\<rparr>) t)"
        using serving_accept [OF t(2,4,3) lt] lt t(1) by simp
    qed
    show "valid (\<lambda>t. ?R (Inr fd) t \<and> i = find_slot (peers t)) (unless_fault (i < CLIENTS) (
       andthen (modify (with_peer_at i (\<lambda>c. c\<lparr>c_fd := fd\<rparr>))) (\<lambda>_.
       andthen checked (\<lambda>_. ret (Inl ()))))) (\<lambda>_. serving B)"
      apply (rule valid_unless_fault, use fresh in blast)
      apply (rule valid_modify_bind [where R = "serving B"], use fresh in blast)
      apply (rule valid_checked_bind, simp, rule valid_ret_post, assumption)
      done
  qed
  show ?thesis
    unfolding accept_step_def
  proof (rule valid_andthen [OF acc])
    show "valid (?R r) (case r of
         Inl e \<Rightarrow> if e = EINTR then ret (Inl ()) else if e = EAGAIN then ret (Inr ()) else halt (Exit 1)
       | Inr fd \<Rightarrow>
           andthen (gets (\<lambda>s. find_slot (peers s))) (\<lambda>i.
           if i = CLIENTS then andthen (close_fd fd) (\<lambda>_. ret (Inl ())) else
           unless_fault (i < CLIENTS) (
           andthen (modify (with_peer_at i (\<lambda>c. c\<lparr>c_fd := fd\<rparr>))) (\<lambda>_.
           andthen checked (\<lambda>_. ret (Inl ())))))) (\<lambda>_. serving B)" for r
    proof (cases r)
      case (Inl e)
      then show ?thesis by (auto intro!: valid_if valid_ret_post valid_halt)
    next
      case (Inr fd)
      show ?thesis unfolding Inr sum.case by (rule valid_gets_bind, rule slot [unfolded sum.case])
    qed
  qed
qed

lemma accept_clients_valid: "valid (serving B) accept_clients (\<lambda>_. serving B)"
  unfolding accept_clients_def
  by (rule valid_while [where I = "\<lambda>_. serving B"]) (rule valid_post [OF accept_step_valid], auto split: sum.splits)

text \<open>Looking at a slot decides whether a client is connected there.\<close>

lemma slot_bind:
  assumes "i < CLIENTS" "\<And>s. P s \<Longrightarrow> serving B s"
    and "\<And>c. 0 \<le> c_fd c \<Longrightarrow> valid (connected B i) (f c) Q" "\<And>c. c_fd c < 0 \<Longrightarrow> valid (serving B) (f c) Q"
  shows "valid P (andthen (peer_at i) f) Q"
proof (rule valid_peer_bind)
  show "i < length (peers s)" if "P s" for s using assms(1,2) that by (simp add: serving_def)
  show "valid (\<lambda>s. P s \<and> c = peers s ! i) (f c) Q" for c
  proof (cases "0 \<le> c_fd c")
    case True
    then show ?thesis using assms(1,2) by (auto intro: valid_pre [OF assms(3)] simp: connected_def)
  next
    case False
    then show ?thesis using assms(2) by (auto intro: valid_pre [OF assms(4)])
  qed
qed

lemma serve_event_valid:
  assumes agg: "aggregate rescan records = Some stats" and d: "fst ev \<le> CLIENTS"
  shows "valid (serving B) (serve_event rescan records ev) (\<lambda>_. serving B)"
proof -
  obtain data can_read can_write hup where ev: "ev = (data, can_read, can_write, hup)" by (cases ev)
  let ?i = "data - 1"
  have watch: "valid (serving B) (watch_client) (\<lambda>_. serving B)"
    unfolding watch_client_def by (rule valid_checked_bind, simp, rule valid_ret_post, assumption)
  have last: "valid (connected B ?i) (andthen (peer_at ?i) (\<lambda>c.
       if c_fd c \<ge> 0 \<and> hup then disconnect_client ?i else if c_fd c \<ge> 0 then watch_client else ret ())) (\<lambda>_. serving B)"
    if "?i < CLIENTS"
    by (rule slot_bind [OF that connected_serving])
      (auto intro!: valid_if disconnect_valid valid_ret_post valid_pre [OF watch] connected_serving)
  have written: "valid (connected B ?i) (if b then flush_reply rescan records ?i else ret True) (still B ?i)" for b
    by (rule valid_if [OF flush_reply_valid [OF agg]]) (auto intro: valid_ret_post)
  have read: "valid (connected B ?i) (if b then read_requests rescan records ?i else ret True) (still B ?i)" for b
    by (rule valid_if [OF read_requests_valid [OF agg]]) (auto intro: valid_ret_post)
  have open_client: "valid (connected B ?i)
      (andthen (if can_read then read_requests rescan records ?i else ret True) (\<lambda>ok.
       if \<not> ok then ret () else
       andthen (peer_at ?i) (\<lambda>c.
       andthen (if c_fd c \<ge> 0 \<and> can_write then flush_reply rescan records ?i else ret True) (\<lambda>ok.
       if \<not> ok then ret () else
       andthen (peer_at ?i) (\<lambda>c.
       if c_fd c \<ge> 0 \<and> hup then disconnect_client ?i
       else if c_fd c \<ge> 0 then watch_client
       else ret ()))))) (\<lambda>_. serving B)" if i: "?i < CLIENTS"
    apply (rule still_bind [OF read])
     apply (rule valid_peer_bind, erule connected_length)
     apply (rule valid_pre [where P = "connected B ?i"])
      apply (rule still_bind [OF written last [OF i]])
      apply blast+
    done
  show ?thesis
    unfolding ev serve_event_def prod.case Let_def
    apply (rule valid_gets_drop)
    apply (rule valid_if, rule valid_ret_post, assumption)
    apply (rule valid_if, rule accept_clients_valid)
    apply (rule slot_bind [where B = B])
       apply (use d ev in simp, assumption)
     apply (use open_client d ev in simp)
    apply (simp add: valid_ret_post)
    done
qed

lemma server_round_valid:
  assumes "aggregate rescan records = Some stats"
  shows "valid (serving B) (server_round rescan records flags) (\<lambda>_. serving B)"
  unfolding server_round_def
  apply (rule valid_gets_drop)
  apply (rule valid_if, rule valid_ret_post, assumption)
  apply (rule valid_pop_bind, simp)
  apply (rule valid_if, rule valid_ret_post, assumption)
  apply (rule valid_if, rule valid_halt, simp)
  apply (rule valid_then [where R = "serving B"])
   apply (rule valid_each, rule serve_event_valid [OF assms])
   apply (auto dest!: in_set_takeD)[1]
  apply (rule valid_ret_post, assumption)
  done

lemma fd_inv_none: "fd_inv B n F S \<Longrightarrow> \<forall>i\<in>{0..<n}. F i < 0 \<Longrightarrow> S = B"
  by (force simp: fd_inv_def)

lemma close_slots_valid: "valid (serving B) (each_io close_slot [0..<CLIENTS]) (\<lambda>_ s. fds s = B)"
proof -
  let ?I = "\<lambda>(_::unit) ys s. serving B s \<and> (\<forall>j\<in>set ys. c_fd (peers s ! j) < 0)"
  have step: "valid (?I b ys) (close_slot i) (\<lambda>b'. ?I b' (ys @ [i]))" if i: "i < CLIENTS" "i \<notin> set ys" for b :: unit and ys i
  proof -
    have keep: "c_fd ((peers s)[i := free_slot] ! j) < 0" if "?I b ys s" "j \<in> set (ys @ [i])" for s j
      using that i by (cases "j = i") (auto simp: serving_def free_slot_def nth_list_update)
    have "valid (\<lambda>s. ?I b ys s \<and> 0 \<le> c_fd (peers s ! i)) (disconnect_client i) (\<lambda>b'. ?I b' (ys @ [i]))"
      unfolding disconnect_client_def
      apply (rule valid_peer_bind)
       apply (use i in \<open>simp add: serving_def\<close>)
      apply (rule valid_pop_bind)
       apply (simp add: env_closed_def serving_def)
      using serving_free keep i
      apply (fastforce simp: valid_def andthen_def close_fd_def modify_def connected_def)
      done
    note close = this
    show ?thesis
      unfolding close_slot_def
    proof (rule valid_peer_bind)
      show "i < length (peers s)" if "?I b ys s" for s using that i by (simp add: serving_def)
      fix c
      show "valid (\<lambda>s. ?I b ys s \<and> c = peers s ! i) (if 0 \<le> c_fd c then disconnect_client i else ret ()) (\<lambda>b'. ?I b' (ys @ [i]))"
        by (rule valid_if, rule valid_pre [OF close], simp, rule valid_ret_post, simp)
    qed
  qed
  have "valid (?I () []) (fold_io (\<lambda>_. close_slot) () [0..<CLIENTS]) (\<lambda>b'. ?I b' [0..<CLIENTS])"
  proof (rule valid_fold [where I = ?I])
    fix b :: unit and x ys zs assume e: "[0..<CLIENTS] = ys @ x # zs"
    have "distinct (ys @ x # zs)" "x \<in> set [0..<CLIENTS]" unfolding e [symmetric] by (simp, simp add: e)
    then show "valid (?I b ys) (close_slot x) (\<lambda>b'. ?I b' (ys @ [x]))" by (intro step) auto
  qed
  then show ?thesis
    unfolding each_io_def
    by (rule valid_cons) (simp, use fd_inv_none in \<open>fastforce simp: serving_def\<close>)
qed

text \<open>A descriptor that \<^verbatim>\<open>main\<close> opens joins those that are not a client's.\<close>

lemma checked_fd_bind:
  assumes "\<And>fd. 0 \<le> fd \<Longrightarrow> fd \<notin> S \<Longrightarrow>
      valid (\<lambda>s. fds s = insert fd S \<and> peers s = replicate CLIENTS free_slot) (f fd) Q"
  shows "valid (\<lambda>s. fds s = S \<and> peers s = replicate CLIENTS free_slot) (andthen checked_fd f) Q"
proof (rule valid_andthen)
  let ?R = "\<lambda>fd s. 0 \<le> fd \<and> fd \<notin> S \<and> fds s = insert fd S \<and> peers s = replicate CLIENTS free_slot"
  show "valid (\<lambda>s. fds s = S \<and> peers s = replicate CLIENTS free_slot) checked_fd ?R"
    unfolding checked_fd_def new_fd_def pop_def
    by (auto simp: valid_def andthen_def ret_def halt_def split: list.splits)
  show "valid (?R fd) (f fd) Q" for fd
    using assms [of fd] by (fastforce simp: valid_def)
qed

lemma serving_start:
  "fds s = S \<Longrightarrow> peers s = replicate CLIENTS free_slot \<Longrightarrow> serving S s"
  by (auto simp: serving_def slot_ok_def fd_inv_def free_slot_def)

lemma close_last:
  assumes "fd \<notin> S" "valid (\<lambda>s. fds s = S) m Q"
  shows "valid (\<lambda>s. fds s = insert fd S) (andthen (close_fd fd) (\<lambda>_. m)) Q"
  using assms by (auto simp: valid_def andthen_def close_fd_def)

lemma env_closed_start [simp]: "env_closed (\<lambda>s. fds s = S \<and> peers s = ps)"
  by (simp add: env_closed_def)

lemma env_closed_open [simp]: "env_closed (\<lambda>s. fds s = S)"
  by (simp add: env_closed_def)

lemma serve_valid:
  assumes agg: "aggregate rescan records = Some stats"
  shows "valid (\<lambda>s. fds s = B) (serve rescan records flags) (\<lambda>r s. fds s = B \<and> r = 0)"
proof -
  let ?P = "\<lambda>S s. fds s = S \<and> peers s = replicate CLIENTS free_slot"
  have fin: "valid (\<lambda>s. fds s = insert epfd (insert listener B))
       (andthen (close_fd listener) (\<lambda>_. andthen (close_fd epfd) (\<lambda>_. andthen checked (\<lambda>_. ret 0))))
       (\<lambda>r s. fds s = B \<and> r = 0)" if "epfd \<notin> insert listener B" "listener \<notin> B" for epfd listener
    unfolding insert_commute [of epfd listener]
    using that by (auto intro!: close_last valid_checked_bind valid_ret_post)
  have loop: "valid (?P S) (while_io (\<lambda>_. server_round rescan records flags) ()) (\<lambda>_. serving S)" for S
    by (rule valid_pre [where P = "serving S"], rule valid_while [where I = "\<lambda>_. serving S"],
        rule valid_post [OF server_round_valid [OF agg]]) (auto split: sum.splits intro: serving_start)
  show ?thesis
    unfolding serve_def
    apply (rule valid_modify_bind [where R = "?P B"], simp)
    apply (rule valid_checked_bind, simp)+
    apply (rule checked_fd_bind)
    apply (rule valid_checked_bind, simp)+
    apply (rule checked_fd_bind)
    apply (rule valid_checked_bind, simp)
    apply (rule valid_then [OF loop])
    apply (rule valid_then [OF close_slots_valid])
    apply (rule fin, assumption+)
    done
qed

lemma aggregate_total:
  "list_all good_record records \<Longrightarrow> \<exists>stats. aggregate rescan records = Some stats"
  by (simp add: aggregate_def onepass_stats rescan_stats)

lemma serve_loaded:
  assumes "load_log grow file e = Some records"
  shows "valid (\<lambda>s. fds s = B) (serve rescan records flags) (\<lambda>r s. fds s = B \<and> r = 0)"
  using aggregate_total [of records rescan] load_log_good [OF assms] serve_valid by blast

text \<open>C18: for every behaviour of the system and every log file, the server never stores outside the buffers
  of a client or the array of services, never closes a descriptor twice or one it does not own, and
  when \<^verbatim>\<open>main\<close> returns exactly the descriptors that were open before are open.\<close>

theorem server_main_safe:
  "valid (\<lambda>s. fds s = B) (server_main args grow file e flags) (\<lambda>r s. fds s = B \<and> r \<le> 2)"
proof -
  have served: "valid (\<lambda>s. fds s = B) (serve rescan records flags) (\<lambda>r s. fds s = B \<and> r \<le> 2)"
    if "load_log grow file e = Some records" for rescan records
    by (rule valid_post [OF serve_loaded [OF that]]) auto
  show ?thesis
    unfolding server_main_def
    by (auto intro!: valid_if valid_ret_post served split: list.splits option.splits)
qed

text \<open>A run: one client connects and sends \<^verbatim>\<open>QUIT\<close>.\<close>

definition fine :: answer where
  "fine = \<lparr>a_ok = True, a_err = EOTHER, a_n = 0, a_time = 0, a_data = [], a_events = [], a_signal = False\<rparr>"

definition quit_start :: server where
  "quit_start = \<lparr>script = [fine, fine, fine\<lparr>a_n := 3\<rparr>, fine, fine, fine\<lparr>a_n := 4\<rparr>, fine, fine\<lparr>a_events := [0]\<rparr>, fine\<lparr>a_n := 5\<rparr>, fine,
      fine\<lparr>a_ok := False, a_err := EAGAIN\<rparr>, fine\<lparr>a_events := [1]\<rparr>, fine\<lparr>a_data := ''QUIT'' @ [LF]\<rparr>, fine\<lparr>a_n := 4\<rparr>, fine, fine, fine],
    interrupted = False, fds = {}, peers = []\<rparr>"

definition quit_run :: "stop + nat \<times> server" where
  "quit_run = server_main [''onepass'', ''s'', ''log''] (\<lambda>_. True) (Some [csv_header, ''1,2,200,5'' @ [LF]]) False (\<lambda>_ _. (True, False, False)) quit_start"

lemma quit_run_result: "case quit_run of Inl _ \<Rightarrow> False | Inr (r, s) \<Rightarrow> interrupted s \<and> r = 0"
  by (simp add: quit_run_def server_main_def one_row_log [unfolded LF_def, simplified] serve_def andthen_def modify_def checked_def pop_def ret_def checked_fd_def new_fd_def
      quit_start_def fine_def while_io_def server_round_def gets_def each_io_def serve_event_def accept_clients_def accept_step_def
      sys_accept_def find_slot_def with_peer_at_def free_slot_def CLIENTS_def unless_fault_def peer_at_def read_requests_def
      read_step_def sys_recv_def CAPACITY_def LF_def line_step_def queue_reply_def flush_reply_def flush_step_def sys_send_def
      stop_server_def close_slot_def disconnect_client_def close_fd_def halt_def watch_client_def
      eval_nat_numeral)

theorem server_main_safe_witness: "\<exists>s. quit_run = Inr (0, s) \<and> fds s = {} \<and> interrupted s"
proof -
  obtain s where s: "quit_run = Inr (0, s)" "interrupted s"
    using quit_run_result by (auto split: sum.splits prod.splits)
  have "fds s = {}"
    using valid_result [OF server_main_safe refl, of "[''onepass'', ''s'', ''log'']" "\<lambda>_. True" _ False "\<lambda>_ _. (True, False, False)" quit_start] s(1)
    by (fastforce simp: quit_run_def quit_start_def)
  then show ?thesis using s by blast
qed

end
