(* ===== verification/Fuel.thy ===== *)
theory Fuel
  imports LoadgenFunc IpcServer
begin

text \<open>
  Enough fuel. A loop of the event-driven programs has one round more than the script has answers as
  its fuel. Each round that is followed by another one uses an answer, so the result is that of the
  loop with any larger fuel: a run is never cut off by its fuel. The collection \<open>shrink\<close> says that a
  program never adds answers, and \<open>uses\<close> names the programs that always take one.
\<close>

section \<open>Programs that take answers\<close>

abbreviation shrinks :: "('z, 'a) io \<Rightarrow> bool" where
  "shrinks m \<equiv> consumes m (\<lambda>_. False)"

abbreviation uses :: "('z, 'a) io \<Rightarrow> bool" where
  "uses m \<equiv> consumes m (\<lambda>_. True)"

named_theorems shrink \<open>programs never add answers to the script\<close>

lemma shrinks_weaken: "consumes m S \<Longrightarrow> shrinks m"
  by (erule consumes_weaken) simp

lemma shrinks_andthen [shrink]: "shrinks m \<Longrightarrow> (\<And>x. shrinks (f x)) \<Longrightarrow> shrinks (andthen m f)"
  by (rule consumes_andthen [where S = "\<lambda>_. False"]) simp_all

lemma uses_first: "uses m \<Longrightarrow> (\<And>x. shrinks (f x)) \<Longrightarrow> consumes (andthen m f) T"
  by (rule consumes_andthen [where S = "\<lambda>_. True"]) simp_all

lemma uses_later: "shrinks m \<Longrightarrow> (\<And>x. consumes (f x) T) \<Longrightarrow> consumes (andthen m f) T"
  by (rule consumes_andthen [where S = "\<lambda>_. False"]) simp_all

lemma shrinks_basic [shrink]: "shrinks pop" "shrinks (ret x)" "shrinks (halt e)" "shrinks (gets f)"
  by (rule consumes_pop consumes_ret consumes_halt consumes_gets; simp)+

lemma shrinks_if [shrink]: "shrinks m \<Longrightarrow> shrinks m' \<Longrightarrow> shrinks (if b then m else m')"
  by simp

lemma shrinks_unless_fault [shrink]: "shrinks m \<Longrightarrow> shrinks (unless_fault b m)"
  by (simp add: unless_fault_def consumes_halt)

lemma shrinks_let [shrink]: "(\<And>x. shrinks (f x)) \<Longrightarrow> shrinks (let x = t in f x)"
  by simp

lemma shrinks_case_sum [shrink]: "(\<And>x. shrinks (f x)) \<Longrightarrow> (\<And>y. shrinks (g y)) \<Longrightarrow> shrinks (case r of Inl x \<Rightarrow> f x | Inr y \<Rightarrow> g y)"
  by (cases r) simp_all

lemma shrinks_case_option [shrink]: "shrinks m \<Longrightarrow> (\<And>y. shrinks (g y)) \<Longrightarrow> shrinks (case r of None \<Rightarrow> m | Some y \<Rightarrow> g y)"
  by (cases r) simp_all

lemma shrinks_case_prod [shrink]: "(\<And>x y. shrinks (f x y)) \<Longrightarrow> shrinks (case r of (x, y) \<Rightarrow> f x y)"
  by (cases r) simp

lemma shrinks_fold [shrink]: "(\<And>b x. shrinks (f b x)) \<Longrightarrow> shrinks (fold_io f b xs)"
  by (induction xs arbitrary: b) (auto intro: shrink)

lemma shrinks_each [shrink]: "(\<And>x. shrinks (f x)) \<Longrightarrow> shrinks (each_io f xs)"
  by (auto simp: each_io_def intro: shrink)

lemma shrinks_loop: "(\<And>b. shrinks (body b)) \<Longrightarrow> shrinks (loop_io n body b)"
  by (induction n arbitrary: b) (auto intro!: shrink)

lemma shrinks_while [shrink]: "(\<And>b. shrinks (body b)) \<Longrightarrow> shrinks (while_io body b)"
  using shrinks_loop unfolding consumes_def while_io_def by fast

lemma uses_pop: "uses pop"
  by (rule consumes_pop)

lemma shrinks_close [shrink]: "shrinks (close_fd fd)" "shrinks (close_if_open fd)"
  by (auto simp: close_if_open_def close_fd_def consumes_def ret_def)

lemma uses_new_fd: "uses new_fd"
  by (auto simp: new_fd_def andthen_def pop_def consumes_def split: list.splits if_splits)

lemma uses_now: "uses now"
  unfolding now_def by (rule uses_first [OF uses_pop]) (auto intro: shrink)

lemma uses_calls: "uses (sys_send n)" "uses (sys_recv n)" "uses watch" "uses connected_error" "uses new_socket"
  unfolding sys_send_def sys_recv_def watch_def connected_error_def new_socket_def
  by (rule uses_first [OF uses_pop] uses_first [OF uses_new_fd]; auto intro!: shrink)+

lemma uses_recv_into: "uses (recv_into k u n)"
  by (simp add: recv_into_def unless_fault_def uses_calls consumes_halt)

lemmas shrinks_calls [shrink] = uses_calls [THEN shrinks_weaken] uses_recv_into [THEN shrinks_weaken] uses_now [THEN shrinks_weaken] uses_new_fd [THEN shrinks_weaken]

lemma consumes_done: "consumes (ret (Inr x)) isl"
  by (simp add: consumes_ret)

section \<open>The load generator\<close>

lemma shrinks_client [shrink]: "shrinks (client i)"
  by (auto simp: client_def consumes_def)

lemma shrinks_with [shrink]: "shrinks (modify (with_client i f))" "shrinks (modify (with_run g))"
  by (rule consumes_modify; simp add: with_client_def with_run_def)+

lemma shrinks_retire [shrink]: "shrinks (retire i)"
  unfolding retire_def by (intro shrink)

lemma shrinks_finish [shrink]: "shrinks (finish c i st)"
  unfolding finish_def by (intro shrink)

text \<open>The body of a loop: every path that goes round takes an answer.\<close>

named_theorems round \<open>paths of a loop body\<close>

lemma round_branches [round]:
  "consumes m S \<Longrightarrow> consumes m' S \<Longrightarrow> consumes (if b then m else m') S"
  "consumes m S \<Longrightarrow> consumes (unless_fault b m) S"
  by (simp_all add: unless_fault_def consumes_halt)

lemma round_case [round]:
  "(\<And>x. consumes (f x) S) \<Longrightarrow> (\<And>y. consumes (g y) S) \<Longrightarrow> consumes (case r of Inl x \<Rightarrow> f x | Inr y \<Rightarrow> g y) S"
  by (cases r) simp_all

lemmas round_calls [round] = consumes_done consumes_halt uses_calls [THEN uses_first] uses_recv_into [THEN uses_first] uses_now [THEN uses_first] uses_pop [THEN uses_first]
lemmas round_local [round] = uses_later [OF consumes_gets] uses_later [OF shrinks_client] shrinks_with [THEN uses_later]
  uses_later [OF shrinks_finish] uses_later [OF shrinks_if] uses_later [OF shrinks_fold] uses_later [OF shrinks_each]

lemma send_step_uses: "consumes (send_step c i) isl"
  unfolding send_step_def by (intro round shrink)

lemma receive_step_uses: "consumes (receive_step c i) isl"
  unfolding receive_step_def Let_def by (intro round shrink)

lemma shrinks_pending [shrink]: "shrinks (send_pending c i)" "shrinks (receive_pending c i)"
  unfolding send_pending_def receive_pending_def
  by (rule shrinks_while, rule shrinks_weaken, rule send_step_uses receive_step_uses)+

lemma shrinks_setup [shrink]: "shrinks (check_client r fp i)" "shrinks (close_client i)"
  unfolding check_client_def close_client_def by (intro shrink)+

lemma setup_round_uses: "consumes (setup_round c until fp) isl"
  unfolding setup_round_def by (intro round shrink)

lemma shrinks_clock [shrink]: "shrinks (modify (with_client i (prepare c t)))"
  by (rule shrinks_with)

lemma shrinks_tick [shrink]: "shrinks (tick_client c t aw i)" "shrinks (handle_event c i)" "shrinks (cancel_pending c i)"
  unfolding tick_client_def start_due_def check_timeout_def handle_event_def cancel_pending_def by (intro shrink)+

lemma bench_round_uses: "consumes (bench_round c) isl"
  unfolding bench_round_def epoll_wait_def by (intro round shrink)

text \<open>Fuel of the generator. The loops that send, receive and connect, and the loop of the measured
  phase, give the same result with any fuel above the number of answers left: none of them is ever
  stopped by its fuel, whatever the system answers.\<close>

theorem generator_fuel_enough:
  assumes "length (script s) < n"
  shows "send_pending c i s = loop_io n (\<lambda>_. send_step c i) () s \<and>
    receive_pending c i s = loop_io n (\<lambda>_. receive_step c i) () s \<and>
    while_io (setup_round c until) fp s = loop_io n (setup_round c until) fp s \<and>
    while_io (\<lambda>_. bench_round c) () s = loop_io n (\<lambda>_. bench_round c) () s"
  unfolding send_pending_def receive_pending_def
  by (intro conjI) (rule while_fuel, rule send_step_uses receive_step_uses setup_round_uses bench_round_uses, rule assms)+

theorem generator_fuel_enough_witness:
  "send_pending one_client 0 example_start = loop_io 100 (\<lambda>_. send_step one_client 0) () example_start \<and>
   receive_pending one_client 0 example_start = loop_io 100 (\<lambda>_. receive_step one_client 0) () example_start \<and>
   while_io (setup_round one_client 1) ([3], 1) example_start = loop_io 100 (setup_round one_client 1) ([3], 1) example_start \<and>
   while_io (\<lambda>_. bench_round one_client) () example_start = loop_io 100 (\<lambda>_. bench_round one_client) () example_start"
  by (rule generator_fuel_enough) (simp add: example_start_def example_script_def)

section \<open>The functional tests\<close>

lemma shrinks_detail [shrink]: "shrinks (detail t)" "shrinks (fail t x)"
  unfolding fail_def detail_def by (intro shrink consumes_modify; simp)+

lemma fail_done [round]: "consumes (fail t (Inr x)) isl"
  unfolding fail_def by (rule uses_later [OF shrinks_detail(1)]) (rule consumes_done)

lemma ready_uses: "consumes (andthen (gets interrupted) (\<lambda>intr.
     if intr then ret (Inr False) else
     andthen now (\<lambda>t.
     let left = until - t in
     if left \<le> 0 then ret (Inr False) else
     andthen pop (\<lambda>polled.
     if a_ok polled \<and> a_n polled > 0 then ret (Inr True)
     else if \<not> a_ok polled \<and> a_err polled \<noteq> EINTR then ret (Inr False)
     else ret (Inl ()))))) isl"
  unfolding Let_def by (intro round shrink)

lemma shrinks_ready [shrink]: "shrinks (ready until)"
  unfolding ready_def by (rule shrinks_while, rule shrinks_weaken, rule ready_uses)

lemma write_step_uses: "consumes (write_step until data) isl"
  unfolding write_step_def by (intro round shrink)

lemma read_step_uses: "consumes (LoadgenFunc.read_step cmd expected until p) isl"
  unfolding LoadgenFunc.read_step_def Let_def by (intro round shrink uses_later [OF shrinks_ready])

theorem functional_fuel_enough:
  assumes "length (script s) < n"
  shows "write_all data until s = loop_io n (write_step until) data s \<and>
    read_valid cmd expected until p s = loop_io n (LoadgenFunc.read_step cmd expected until) p s"
  unfolding write_all_def read_valid_def
  by (intro conjI) (rule while_fuel, rule write_step_uses read_step_uses, rule assms)+

section \<open>The statistics server\<close>

lemma shrinks_peer [shrink]: "shrinks (peer_at i)" "shrinks (modify (with_peer_at i f))" "shrinks stop_server"
  by (auto simp: peer_at_def with_peer_at_def stop_server_def modify_def consumes_def)

lemma uses_checked: "uses checked" "uses now_ms"
proof -
  show "uses checked" unfolding checked_def by (rule uses_first [OF uses_pop]) (intro shrink)
  then show "uses now_ms" unfolding now_ms_def by (rule uses_first) (intro shrink)
qed

lemma uses_accept: "uses sys_accept"
  by (auto simp: sys_accept_def andthen_def pop_def consumes_def split: list.splits if_splits)

lemmas shrinks_server [shrink] = uses_checked [THEN shrinks_weaken] uses_accept [THEN shrinks_weaken]

lemma shrinks_reply [shrink]: "shrinks (disconnect_client i)" "shrinks (queue_reply i r)"
  unfolding queue_reply_def disconnect_client_def by (intro shrink)+

lemmas round_server [round] = uses_checked [THEN uses_first] uses_accept [THEN uses_first] shrinks_peer [THEN uses_later]
  shrinks_reply [THEN uses_later]

lemma round_option [round]:
  "consumes m S \<Longrightarrow> (\<And>y. consumes (g y) S) \<Longrightarrow> consumes (case r of None \<Rightarrow> m | Some y \<Rightarrow> g y) S"
  by (cases r) simp_all

lemma flush_step_uses: "consumes (flush_step rescan records i) isl"
  unfolding flush_step_def by (intro round shrink)

lemma shrinks_flush [shrink]: "shrinks (flush_reply rescan records i)"
  unfolding flush_reply_def by (rule shrinks_while, rule shrinks_weaken, rule flush_step_uses)

lemma shrinks_lines [shrink]: "shrinks (line_step rescan records i)"
  unfolding line_step_def by (intro shrink)

lemma server_read_uses: "consumes (IpcServer.read_step rescan records i) isl"
  unfolding IpcServer.read_step_def by (intro round shrink)

lemma shrinks_read [shrink]: "shrinks (read_requests rescan records i)"
  unfolding read_requests_def by (rule shrinks_while, rule shrinks_weaken, rule server_read_uses)

lemma accept_uses: "consumes accept_step isl"
  unfolding accept_step_def by (intro round shrink)

lemma shrinks_accept [shrink]: "shrinks accept_clients"
  unfolding accept_clients_def by (rule shrinks_while, rule shrinks_weaken, rule accept_uses)

lemma shrinks_event [shrink]: "shrinks (serve_event rescan records ev)"
  unfolding serve_event_def watch_client_def Let_def by (intro shrink)

lemma server_round_uses: "consumes (server_round rescan records flags) isl"
  unfolding server_round_def by (intro round shrink)


text \<open>
  \<^verbatim>\<open>read_requests\<close> goes through the lines it has without a call of its own; each line is answered, so a
  round takes at least the answer to a \<^verbatim>\<open>send\<close>. This needs the invariant of the connection.
\<close>

definition uses_from :: "('z io_state_scheme \<Rightarrow> bool) \<Rightarrow> ('z, 'a) io \<Rightarrow> ('a \<Rightarrow> bool) \<Rightarrow> bool" where
  "uses_from P m strict \<longleftrightarrow> (\<forall>s x s'. P s \<longrightarrow> m s = Inr (x, s') \<longrightarrow> strict x \<longrightarrow> length (script s') < length (script s))"

lemma uses_from_consumes: "consumes m S \<Longrightarrow> uses_from P m S"
  unfolding consumes_def uses_from_def by blast

lemma uses_from_none: "uses_from P m (\<lambda>_. False)"
  by (simp add: uses_from_def)

lemma uses_from_if: "uses_from P m S \<Longrightarrow> uses_from P m' S \<Longrightarrow> uses_from P (if b then m else m') S"
  by simp

lemma uses_from_later:
  assumes "valid P m R" "shrinks m" "\<And>x. uses_from (R x) (f x) S"
  shows "uses_from P (andthen m f) S"
  unfolding uses_from_def
proof (intro allI impI)
  fix s y s' assume "P s" "andthen m f s = Inr (y, s')" "S y"
  then obtain x t where m: "m s = Inr (x, t)" and f: "f x t = Inr (y, s')"
    by (auto simp: andthen_def split: sum.splits prod.splits)
  have "length (script t) \<le> length (script s)" using assms(2) m by (auto simp: consumes_def)
  moreover have "length (script s') < length (script t)"
    using assms(3) [of x] valid_result [OF assms(1) \<open>P s\<close> m] f \<open>S y\<close> by (auto simp: uses_from_def)
  ultimately show "length (script s') < length (script s)" by simp
qed

lemma uses_from_first:
  assumes "uses_from P m T" "\<And>x. shrinks (f x)" "\<And>x. \<not> T x \<Longrightarrow> uses_from (\<lambda>_. True) (f x) S" "shrinks m"
  shows "uses_from P (andthen m f) S"
  unfolding uses_from_def
proof (intro allI impI)
  fix s y s' assume "P s" "andthen m f s = Inr (y, s')" "S y"
  then obtain x t where m: "m s = Inr (x, t)" and f: "f x t = Inr (y, s')"
    by (auto simp: andthen_def split: sum.splits prod.splits)
  have le: "length (script t) \<le> length (script s)" "length (script s') \<le> length (script t)"
    using assms(2) [of x] assms(4) m f by (auto simp: consumes_def)
  show "length (script s') < length (script s)"
  proof (cases "T x")
    case True
    then show ?thesis using assms(1) \<open>P s\<close> m le by (fastforce simp: uses_from_def)
  next
    case False
    then show ?thesis using assms(3) f \<open>S y\<close> le by (fastforce simp: uses_from_def)
  qed
qed

lemma loop_fuel_from:
  assumes "uses_from I (body ()) isl" "\<And>s s' u. I s \<Longrightarrow> body () s = Inr (Inl u, s') \<Longrightarrow> I s'"
  shows "I s \<Longrightarrow> length (script s) < n \<Longrightarrow> n \<le> m \<Longrightarrow> loop_io m body () s = loop_io n body () s"
proof (induction n arbitrary: s m)
  case (Suc n)
  then obtain k where m: "m = Suc k" "n \<le> k" by (cases m) auto
  have "loop_io k body () t = loop_io n body () t" if "body () s = Inr (Inl (), t)" for t
  proof (rule Suc.IH)
    show "I t" using assms(2) Suc.prems(1) that .
    have "length (script t) < length (script s)" using assms(1) Suc.prems(1) that by (fastforce simp: uses_from_def)
    then show "length (script t) < n" using Suc.prems(2) by simp
  qed (rule m)
  then show ?case by (auto simp: m andthen_def split: sum.splits)
qed simp

definition owing :: "int set \<Rightarrow> nat \<Rightarrow> server \<Rightarrow> bool" where
  "owing B i s \<longleftrightarrow> connected B i s \<and> c_sent (peers s ! i) < length (c_output (peers s ! i))"

lemma queue_owing:
  assumes "connected B i s" "r \<noteq> []" "queue_reply i r s = Inr (True, s')"
  shows "owing B i s'"
proof -
  have "connected B i s'" using valid_result [OF queue_reply_valid assms(1,3)] by simp
  moreover have "c_sent (peers s' ! i) < length (c_output (peers s' ! i))"
    using assms(2,3) connected_slot [OF assms(1)] connected_length [OF assms(1)]
    by (cases r) (auto simp: queue_reply_def andthen_def peer_at_def unless_fault_def halt_def modify_def ret_def slot_ok_def
        split: if_splits sum.splits prod.splits)
  ultimately show ?thesis by (simp add: owing_def)
qed

lemma flush_owing: "uses_from (owing B i) (flush_reply rescan records i) (\<lambda>_. True)"
  unfolding uses_from_def
proof (intro allI impI)
  fix s x s' assume owing: "owing B i s" and flush: "flush_reply rescan records i s = Inr (x, s')"
  have i: "i < length (peers s)" using owing connected_length by (auto simp: owing_def)
  let ?c = "peers s ! i" and ?body = "\<lambda>_::unit. flush_step rescan records i"
  let ?send = "andthen (sys_send (length (c_output ?c) - c_sent ?c)) (\<lambda>n. case n of
         Inr k \<Rightarrow> if k > 0 then andthen (modify (with_peer_at i (\<lambda>c. c\<lparr>c_sent := c_sent c + k\<rparr>))) (\<lambda>_. ret (Inl ()))
                  else andthen (disconnect_client i) (\<lambda>_. ret (Inr False))
       | Inl e \<Rightarrow> if e = EINTR then ret (Inl ())
                  else if e = EAGAIN then ret (Inr True)
                  else andthen (disconnect_client i) (\<lambda>_. ret (Inr False)))"
  have step: "flush_step rescan records i s = ?send s"
    using owing i by (simp add: owing_def flush_step_def andthen_def peer_at_def)
  have "consumes ?send (\<lambda>_. True)" by (intro round shrink)
  moreover obtain r t where rt: "flush_step rescan records i s = Inr (r, t)"
    and rest: "(case r of Inl b \<Rightarrow> loop_io (length (script s)) ?body b | Inr y \<Rightarrow> ret y) t = Inr (x, s')"
    using flush by (auto simp: flush_reply_def while_io_def andthen_def split: sum.splits prod.splits)
  moreover have "shrinks (loop_io n ?body b)" for n b
    by (rule shrinks_loop, rule shrinks_weaken, rule flush_step_uses)
  then have "length (script s') \<le> length (script t)"
    using rest by (cases r) (auto simp: ret_def consumes_def)
  ultimately show "length (script s') < length (script s)" unfolding step consumes_def by fastforce
qed

lemma queue_valid_owing: "r \<noteq> [] \<Longrightarrow> valid (connected B i) (queue_reply i r) (\<lambda>ok s. ok \<longrightarrow> owing B i s)"
proof -
  assume r: "r \<noteq> []"
  have "ok \<longrightarrow> owing B i s'" if "connected B i s" "queue_reply i r s = Inr (ok, s')" for s ok s'
    using queue_owing [OF that(1) r] that(2) by (cases ok) auto
  moreover have "queue_reply i r s \<noteq> Inl Fault" if "connected B i s" for s
    using valid_no_fault [OF queue_reply_valid that] .
  ultimately show ?thesis unfolding valid_def by (fastforce split: sum.splits prod.splits)
qed

lemma owing_stats: "owing B i s \<Longrightarrow> owing B i (with_peer_at i (\<lambda>c. c\<lparr>c_stats := b\<rparr>) s)"
  using connected_slot [of B i s] connected_length [of B i s] connected_upd [of B i s "\<lambda>c. c\<lparr>c_stats := b\<rparr>"]
  by (auto simp: owing_def slot_ok_def)

lemma answer_owing:
  "valid (connected B i)
     (if line = ''STATS''
      then andthen (queue_reply i (''START'' @ [LF])) (\<lambda>ok. if \<not> ok then ret False
             else andthen (modify (with_peer_at i (\<lambda>c. c\<lparr>c_stats := True\<rparr>))) (\<lambda>_. ret True))
      else queue_reply i (reply_to line)) (\<lambda>ok s. ok \<longrightarrow> owing B i s)"
proof (rule valid_if)
  have "valid (\<lambda>s. ok \<longrightarrow> owing B i s) (if \<not> ok then ret False
      else andthen (modify (with_peer_at i (\<lambda>c. c\<lparr>c_stats := True\<rparr>))) (\<lambda>_. ret True)) (\<lambda>ok s. ok \<longrightarrow> owing B i s)" for ok
    using owing_stats by (cases ok) (auto simp: valid_def andthen_def modify_def ret_def)
  then show "valid (connected B i) (andthen (queue_reply i (''START'' @ [LF])) (\<lambda>ok. if \<not> ok then ret False
             else andthen (modify (with_peer_at i (\<lambda>c. c\<lparr>c_stats := True\<rparr>))) (\<lambda>_. ret True))) (\<lambda>ok s. ok \<longrightarrow> owing B i s)"
    by (intro valid_andthen [OF queue_valid_owing]) simp_all
qed (rule queue_valid_owing, simp add: reply_to_def)

lemma line_step_uses: "uses_from (connected B i) (line_step rescan records i) isl"
  unfolding line_step_def Let_def
proof (rule uses_from_later)
  show "valid (connected B i) (peer_at i) (\<lambda>_. connected B i)"
    using connected_length by (fastforce simp: valid_def peer_at_def)
  fix c :: slot
  let ?line = "takeWhile (\<lambda>ch. ch \<noteq> LF) (c_input c)"
  let ?quit = "andthen (queue_reply i (''BYE'' @ [LF])) (\<lambda>ok.
       if \<not> ok then ret (Inr (Some False)) else
       andthen (flush_reply rescan records i) (\<lambda>ok.
       if \<not> ok then ret (Inr (Some False)) else
       andthen stop_server (\<lambda>_. ret (Inr (Some True)))))"
  let ?answer = "andthen (if ?line = ''STATS''
                then andthen (queue_reply i (''START'' @ [LF])) (\<lambda>ok.
                       if \<not> ok then ret False
                       else andthen (modify (with_peer_at i (\<lambda>c. c\<lparr>c_stats := True\<rparr>))) (\<lambda>_. ret True))
                else queue_reply i (reply_to ?line)) (\<lambda>ok.
       if \<not> ok then ret (Inr (Some False)) else
       andthen (flush_reply rescan records i) (\<lambda>ok.
       if \<not> ok then ret (Inr (Some False)) else
       andthen (peer_at i) (\<lambda>c. if c_stats c then ret (Inr (Some True)) else ret (Inl ()))))"
  let ?cut = "modify (with_peer_at i (\<lambda>c. c\<lparr>c_input := drop (length ?line + 1) (c_input c)\<rparr>))"
  have quit: "uses_from (connected B i) ?quit isl"
    by (rule uses_from_consumes) (intro round shrink uses_later [OF shrinks_flush])
  have answer: "uses_from (connected B i) ?answer isl"
  proof (rule uses_from_later [OF answer_owing])
    fix ok
    have "uses_from (owing B i) (andthen (flush_reply rescan records i) (\<lambda>ok.
       if \<not> ok then ret (Inr (Some False)) else
       andthen (peer_at i) (\<lambda>c. if c_stats c then ret (Inr (Some True)) else ret (Inl ())))) isl"
      by (rule uses_from_first [OF flush_owing _ _ shrinks_flush]) (intro shrink, simp)
    then show "uses_from (\<lambda>s. ok \<longrightarrow> owing B i s) (if \<not> ok then ret (Inr (Some False)) else
       andthen (flush_reply rescan records i) (\<lambda>ok.
       if \<not> ok then ret (Inr (Some False)) else
       andthen (peer_at i) (\<lambda>c. if c_stats c then ret (Inr (Some True)) else ret (Inl ())))) isl"
      by (cases ok) (simp_all add: uses_from_consumes [OF consumes_done])
  qed (intro shrink)
  have "valid (connected B i) ?cut (\<lambda>_. connected B i)"
    using connected_slot by (fastforce simp: valid_def modify_def slot_ok_def intro!: connected_upd)
  then have "uses_from (connected B i) (andthen ?cut (\<lambda>_. if ?line = ''QUIT'' then ?quit else ?answer)) isl"
    by (rule uses_from_later) (intro shrink, rule uses_from_if [OF quit answer])
  then show "uses_from (connected B i) (if LF \<notin> set (c_input c) then ret (Inr None)
      else andthen ?cut (\<lambda>_. if ?line = ''QUIT'' then ?quit else ?answer)) isl"
    by (simp add: uses_from_consumes [OF consumes_done])
qed (intro shrink)

lemma lines_fuel_enough:
  assumes "length (script s) < n" "aggregate rescan records = Some stats" "IpcServer.connected B i s"
  shows "while_io (\<lambda>_. line_step rescan records i) () s = loop_io n (\<lambda>_. line_step rescan records i) () s"
proof -
  have keep: "connected B i t'" if "connected B i t" "line_step rescan records i t = Inr (Inl u, t')" for t t' u
    using valid_result [OF line_step_valid [OF assms(2)] that] by simp
  show ?thesis
    unfolding while_io_def
    by (rule loop_fuel_from [where I = "connected B i", OF line_step_uses keep assms(3), symmetric]) (use assms(1) in simp_all)
qed

text \<open>Fuel of the server. No loop of the statistics server is stopped by its fuel: with any fuel
  above the number of answers left the loops over \<^verbatim>\<open>send\<close>, \<^verbatim>\<open>recv\<close>, \<^verbatim>\<open>accept4\<close> and \<^verbatim>\<open>epoll_wait\<close> give the same
  result, and so does the loop over the lines already received, which makes no call of its own but
  answers every line, from each state in which the client is connected.\<close>

theorem server_fuel_enough:
  assumes "length (script s) < n" "aggregate rescan records = Some stats" "IpcServer.connected B i s"
  shows "flush_reply rescan records i s = loop_io n (\<lambda>_. flush_step rescan records i) () s \<and>
    read_requests rescan records i s = loop_io n (\<lambda>_. IpcServer.read_step rescan records i) () s \<and>
    accept_clients s = loop_io n (\<lambda>_. accept_step) () s \<and>
    while_io (\<lambda>_. server_round rescan records flags) () s = loop_io n (\<lambda>_. server_round rescan records flags) () s \<and>
    while_io (\<lambda>_. line_step rescan records i) () s = loop_io n (\<lambda>_. line_step rescan records i) () s"
  unfolding flush_reply_def read_requests_def accept_clients_def
  by (intro conjI while_fuel lines_fuel_enough [OF assms])
    (rule flush_step_uses server_read_uses accept_uses server_round_uses assms(1))+

text \<open>One client is connected and has sent a line.\<close>

definition one_line :: server where
  "one_line = \<lparr>script = [fine\<lparr>a_n := 5\<rparr>], interrupted = False, fds = {7},
     peers = free_slot\<lparr>c_fd := 7, c_input := ''PING'' @ [LF]\<rparr> # replicate (CLIENTS - 1) free_slot\<rparr>"

lemma one_line_connected: "IpcServer.connected {} 0 one_line"
proof -
  have slot: "peers one_line ! i = (if i = 0 then free_slot\<lparr>c_fd := 7, c_input := ''PING'' @ [LF]\<rparr> else free_slot)" if "i < CLIENTS" for i
    using that by (cases i) (auto simp: one_line_def)
  have len: "CLIENTS > 0" "length (peers one_line) = CLIENTS" and fds: "fds one_line = {7}" by (simp_all add: one_line_def CLIENTS_def)
  have "fd_inv {} CLIENTS (\<lambda>i. if i = 0 then 7 else -1) {7}" using len(1) by (auto simp: fd_inv_def)
  then have "fd_inv {} CLIENTS (\<lambda>i. c_fd (peers one_line ! i)) {7}"
    by (rule fd_inv_cong) (simp_all add: slot free_slot_def)
  moreover have "\<forall>i<CLIENTS. slot_ok (peers one_line ! i)" by (simp add: slot slot_ok_def free_slot_def CAPACITY_def)
  ultimately show ?thesis using len fds slot [of 0] by (simp add: connected_def serving_def)
qed

theorem server_fuel_enough_witness:
  "while_io (\<lambda>_. line_step False [] 0) () one_line = loop_io 2 (\<lambda>_. line_step False [] 0) () one_line"
proof -
  have "length (script one_line) < 2" by (simp add: one_line_def)
  moreover obtain stats where "aggregate False [] = Some stats" by (auto simp: aggregate_def aggregate_onepass_def)
  ultimately show ?thesis using server_fuel_enough one_line_connected by blast
qed

end
