(* ===== verification/Svc.thy ===== *)
theory Svc
  imports Prelude "HOL-Library.Multiset"
begin

text \<open>
  The request service of \<^verbatim>\<open>Week5/Assignment5/scheduling/src/svc.c\<close>: a receiver thread (\<^verbatim>\<open>main\<close>) that puts
  requests in a bounded queue, and a worker thread that takes one at a time, serves it and replies.
  Each step is one critical section under \<^verbatim>\<open>qlock\<close>, or what a thread does outside the lock, so that
  every interleaving of the two threads is a sequence of steps. With \<^verbatim>\<open>-i\<close> the two threads change the
  worker's priority by hand. Priorities are only compared, so they are integers here; the
  arrival counter is a word of 64 bits.
\<close>

definition QMAX :: nat where "QMAX = 256"
definition MAXCL :: nat where "MAXCL = 16"

record svc_req =
  r_id :: u64
  r_prio :: int
  r_work :: u32

record item =
  it_r :: svc_req
  it_fd :: int
  it_seq :: u64

record svc_rep =
  rep_id :: u64
  served_prio :: int
  rep_queued :: nat

record svc_options =
  inherit :: bool
  by_prio :: bool
  base_prio :: int

text \<open>
  \<open>serving\<close> is the request the worker holds between its two critical sections, with the reply it
  has started; \<open>clients\<close> are \<^verbatim>\<open>pf[1..nf-1]\<close>, \<open>scan\<close> is the index of the receiver's loop over them
  (\<open>None\<close> while it polls). \<open>accepted\<close> and \<open>replies\<close> record what went in and came out.
\<close>

record svc =
  queue :: "item list"
  qseq :: u64
  worker_prio :: int
  boosts :: u64
  served :: u64
  stopping :: bool
  serving :: "(item \<times> svc_rep) option"
  worker_done :: bool
  conns :: "int list"
  scan :: "nat option"
  accepted :: "item list"
  replies :: "(int \<times> svc_rep) list"

section \<open>The queue\<close>

definition queue_max_prio :: "item list \<Rightarrow> int" where
  "queue_max_prio q = fold (\<lambda>x m. if r_prio (it_r x) > m then r_prio (it_r x) else m) q 0"

definition better :: "bool \<Rightarrow> item \<Rightarrow> item \<Rightarrow> bool" where
  "better prio x y = (if prio then r_prio (it_r x) > r_prio (it_r y) \<or> r_prio (it_r x) = r_prio (it_r y) \<and> it_seq x < it_seq y
                      else it_seq x < it_seq y)"

definition pick :: "bool \<Rightarrow> item list \<Rightarrow> nat" where
  "pick prio q = fold (\<lambda>i best. if better prio (q ! i) (q ! best) then i else best) [1..<length q] 0"

text \<open>\<^verbatim>\<open>q[i] = q[--qn]\<close>.\<close>

definition remove_at :: "nat \<Rightarrow> item list \<Rightarrow> item list" where
  "remove_at i q = butlast (q[i := last q])"

text \<open>\<open>ok\<close>: whether \<^verbatim>\<open>pthread_setschedparam\<close> succeeds, if it is called.\<close>

definition set_worker_prio :: "bool \<Rightarrow> int \<Rightarrow> svc \<Rightarrow> svc" where
  "set_worker_prio ok p s =
     (if p = worker_prio s then s
      else if \<not> ok then s
      else s\<lparr>boosts := (if p > worker_prio s then boosts s + 1 else boosts s), worker_prio := p\<rparr>)"

section \<open>The worker\<close>

definition worker_idle :: "svc_options \<Rightarrow> bool \<Rightarrow> svc \<Rightarrow> svc" where
  "worker_idle opts ok s = (if inherit opts then set_worker_prio ok (base_prio opts) s else s)"

definition worker_take :: "svc_options \<Rightarrow> bool \<Rightarrow> svc \<Rightarrow> svc" where
  "worker_take opts ok s =
     (let i = pick (by_prio opts) (queue s);
          it = queue s ! i;
          s = s\<lparr>queue := remove_at i (queue s)\<rparr>;
          queued = length (queue s);
          s = (if inherit opts
               then let want = (if r_prio (it_r it) > queue_max_prio (queue s) then r_prio (it_r it) else queue_max_prio (queue s))
                    in set_worker_prio ok (if want > base_prio opts then want else base_prio opts) s
               else s)
      in s\<lparr>serving := Some (it, \<lparr>rep_id = r_id (it_r it), served_prio = worker_prio s, rep_queued = queued\<rparr>)\<rparr>)"

definition worker_reply :: "svc \<Rightarrow> svc" where
  "worker_reply s = (case serving s of
     None \<Rightarrow> s
   | Some (it, rep) \<Rightarrow> s\<lparr>replies := replies s @ [(it_fd it, rep)], served := served s + 1, serving := None\<rparr>)"

section \<open>The receiver\<close>

definition enqueue :: "svc_options \<Rightarrow> bool \<Rightarrow> svc_req \<Rightarrow> int \<Rightarrow> svc \<Rightarrow> svc" where
  "enqueue opts ok r fd s =
     (if length (queue s) < QMAX then
        let it = \<lparr>it_r = r, it_fd = fd, it_seq = qseq s\<rparr>;
            s = s\<lparr>queue := queue s @ [it], qseq := qseq s + 1, accepted := accepted s @ [it]\<rparr>
        in if inherit opts \<and> r_prio r > worker_prio s then set_worker_prio ok (r_prio r) s else s
      else s)"

text \<open>What \<^verbatim>\<open>recv\<close> gives for a client the poll has reported: the end or an error, nothing or a message of
  another size, or a request.\<close>

datatype received = Gone | Nothing | Got svc_req

definition accept_client :: "int option \<Rightarrow> svc \<Rightarrow> svc" where
  "accept_client c s =
     (case c of
        Some fd \<Rightarrow> if length (conns s) + 1 \<le> MAXCL \<and> 0 \<le> fd then s\<lparr>conns := conns s @ [fd]\<rparr> else s
      | None \<Rightarrow> s)"

text \<open>One poll: \<open>n\<close> events, a new client or none.\<close>

definition rx_poll :: "int \<Rightarrow> int option \<Rightarrow> svc \<Rightarrow> svc" where
  "rx_poll n c s = (if n \<le> 0 then s else (accept_client c s)\<lparr>scan := Some 0\<rparr>)"

text \<open>One round of the loop over the clients; \<open>None\<close> for one without an event.\<close>

definition rx_client :: "svc_options \<Rightarrow> bool \<Rightarrow> nat \<Rightarrow> received option \<Rightarrow> svc \<Rightarrow> svc" where
  "rx_client opts ok k got s =
     (case got of
        None \<Rightarrow> s\<lparr>scan := Some (k + 1)\<rparr>
      | Some Gone \<Rightarrow> s\<lparr>conns := butlast ((conns s)[k := last (conns s)]), scan := Some k\<rparr>
      | Some Nothing \<Rightarrow> s\<lparr>scan := Some (k + 1)\<rparr>
      | Some (Got r) \<Rightarrow> (enqueue opts ok r (conns s ! k) s)\<lparr>scan := Some (k + 1)\<rparr>)"

definition request_stop :: "svc \<Rightarrow> svc" where
  "request_stop s = s\<lparr>stopping := True\<rparr>"

section \<open>The two threads\<close>

definition start :: "svc_options \<Rightarrow> svc" where
  "start opts = \<lparr>queue = [], qseq = 0, worker_prio = base_prio opts, boosts = 0, served = 0, stopping = False, serving = None,
     worker_done = False, conns = [], scan = None, accepted = [], replies = []\<rparr>"

text \<open>\<open>fails\<close> says whether a change of the priority may fail in this run.\<close>

inductive svc_step :: "svc_options \<Rightarrow> bool \<Rightarrow> svc \<Rightarrow> svc \<Rightarrow> bool" for opts :: svc_options and fails :: bool where
  idle: "\<lbrakk>serving s = None; \<not> worker_done s; queue s = []; \<not> stopping s; ok \<or> fails\<rbrakk> \<Longrightarrow> svc_step opts fails s (worker_idle opts ok s)"
| take: "\<lbrakk>serving s = None; \<not> worker_done s; queue s \<noteq> []; ok \<or> fails\<rbrakk> \<Longrightarrow> svc_step opts fails s (worker_take opts ok s)"
| leave: "\<lbrakk>serving s = None; \<not> worker_done s; queue s = []; stopping s\<rbrakk> \<Longrightarrow> svc_step opts fails s (s\<lparr>worker_done := True\<rparr>)"
| reply: "serving s = Some x \<Longrightarrow> svc_step opts fails s (worker_reply s)"
| poll: "\<lbrakk>scan s = None; \<not> stopping s\<rbrakk> \<Longrightarrow> svc_step opts fails s (rx_poll n c s)"
| client: "\<lbrakk>scan s = Some k; k < length (conns s); ok \<or> fails\<rbrakk> \<Longrightarrow> svc_step opts fails s (rx_client opts ok k got s)"
| scanned: "\<lbrakk>scan s = Some k; \<not> k < length (conns s)\<rbrakk> \<Longrightarrow> svc_step opts fails s (s\<lparr>scan := None\<rparr>)"
| stop: "svc_step opts fails s (request_stop s)"

definition reachable :: "svc_options \<Rightarrow> bool \<Rightarrow> svc \<Rightarrow> bool" where
  "reachable opts fails s \<longleftrightarrow> (svc_step opts fails)\<^sup>*\<^sup>* (start opts) s"

inductive_cases svc_stepE: "svc_step opts fails s s'"

lemma reachable_start: "reachable opts fails (start opts)"
  by (simp add: reachable_def)

lemma reachable_step: "reachable opts fails s \<Longrightarrow> svc_step opts fails s s' \<Longrightarrow> reachable opts fails s'"
  unfolding reachable_def by (rule rtranclp.rtrancl_into_rtrancl)

lemma reachable_induct:
  assumes "reachable opts fails s" "P (start opts)" "\<And>s s'. svc_step opts fails s s' \<Longrightarrow> P s \<Longrightarrow> P s'"
  shows "P s"
  using assms(1) unfolding reachable_def by (induction rule: rtranclp_induct) (auto intro: assms)

section \<open>Lemmas on the queue\<close>

lemma fold_max_ge: "m \<le> fold (\<lambda>x m. if f x > m then f x else m) xs (m :: int)"
proof (induction xs arbitrary: m)
  case (Cons x xs)
  have "m \<le> (if f x > m then f x else m)" by simp
  also have "\<dots> \<le> fold (\<lambda>x m. if f x > m then f x else m) xs (if f x > m then f x else m)" by (rule Cons.IH)
  finally show ?case by simp
qed simp

lemma fold_max_mem: "x \<in> set xs \<Longrightarrow> f x \<le> fold (\<lambda>x m. if f x > m then f x else m) xs (m :: int)"
proof (induction xs arbitrary: m)
  case (Cons y ys)
  show ?case
  proof (cases "x = y")
    case True
    have "f y \<le> (if f y > m then f y else m)" by simp
    also have "\<dots> \<le> fold (\<lambda>x m. if f x > m then f x else m) ys (if f y > m then f y else m)" by (rule fold_max_ge)
    finally show ?thesis using True by simp
  next
    case False
    then show ?thesis using Cons by simp
  qed
qed simp

lemma queue_max_prio_ge: "x \<in> set q \<Longrightarrow> r_prio (it_r x) \<le> queue_max_prio q"
  unfolding queue_max_prio_def by (rule fold_max_mem)

text \<open>A strict order on the items of a queue: the loop finds an item that no other one beats.\<close>

lemma better_irrefl: "\<not> better p x x"
  by (simp add: better_def)

lemma better_trans: "better p x y \<Longrightarrow> better p y z \<Longrightarrow> better p x z"
  by (auto simp: better_def split: if_splits)

lemma better_negtrans: "\<not> better p x y \<Longrightarrow> \<not> better p y z \<Longrightarrow> \<not> better p x z"
  by (auto simp: better_def split: if_splits)

lemma pick_loop:
  "n \<le> length q \<Longrightarrow> 1 \<le> n \<Longrightarrow>
   fold (\<lambda>i best. if better p (q ! i) (q ! best) then i else best) [1..<n] 0 < n \<and>
   (\<forall>j<n. \<not> better p (q ! j) (q ! fold (\<lambda>i best. if better p (q ! i) (q ! best) then i else best) [1..<n] 0))"
proof (induction n)
  case (Suc n)
  show ?case
  proof (cases "n = 0")
    case True
    then show ?thesis by (simp add: better_irrefl)
  next
    case False
    then show ?thesis
      using Suc by (auto simp: less_Suc_eq better_irrefl dest: better_trans better_negtrans)
  qed
qed simp

lemma pick_less: "q \<noteq> [] \<Longrightarrow> pick p q < length q"
  unfolding pick_def using pick_loop [of "length q" q p] by (simp add: Suc_le_eq)

lemma pick_best: "x \<in> set q \<Longrightarrow> \<not> better p x (q ! pick p q)"
  unfolding pick_def using pick_loop [of "length q" q p] by (fastforce simp: in_set_conv_nth Suc_le_eq)

lemma mset_remove_at: "i < length q \<Longrightarrow> mset q = add_mset (q ! i) (mset (remove_at i q))"
proof -
  assume i: "i < length q"
  then obtain ys y where q: "q = ys @ [y]" by (cases q rule: rev_cases) auto
  show ?thesis
  proof (cases "i < length ys")
    case True
    then show ?thesis by (simp add: q remove_at_def list_update_append nth_append mset_update)
  next
    case False
    then have "i = length ys" using i q by simp
    then show ?thesis by (simp add: q remove_at_def)
  qed
qed

lemma set_remove_at: "i < length q \<Longrightarrow> set (remove_at i q) \<subseteq> set q"
  using mset_remove_at [of i q] by (metis insert_subset set_mset_add_mset_insert set_mset_mset subset_insertI)

lemma length_remove_at: "length (remove_at i q) = length q - 1"
  by (simp add: remove_at_def)

section \<open>Priorities\<close>

definition prio_inv :: "svc_options \<Rightarrow> svc \<Rightarrow> bool" where
  "prio_inv opts s \<longleftrightarrow> base_prio opts \<le> worker_prio s \<and> (\<forall>x\<in>set (queue s). r_prio (it_r x) \<le> worker_prio s) \<and>
     (\<forall>it rep. serving s = Some (it, rep) \<longrightarrow> r_prio (it_r it) \<le> served_prio rep \<and> served_prio rep \<le> worker_prio s)"

lemma set_worker_prio_simps [simp]:
  "worker_prio (set_worker_prio True p s) = p" "queue (set_worker_prio ok p s) = queue s"
  "serving (set_worker_prio ok p s) = serving s" "accepted (set_worker_prio ok p s) = accepted s"
  "replies (set_worker_prio ok p s) = replies s" "qseq (set_worker_prio ok p s) = qseq s"
  "conns (set_worker_prio ok p s) = conns s" "scan (set_worker_prio ok p s) = scan s"
  by (simp_all add: set_worker_prio_def)

lemma prio_inv_enqueue: "inherit opts \<Longrightarrow> prio_inv opts s \<Longrightarrow> prio_inv opts (enqueue opts True r fd s)"
  by (fastforce simp: prio_inv_def enqueue_def Let_def)

lemma prio_inv_take:
  assumes "inherit opts" "prio_inv opts s" "queue s \<noteq> []"
  shows "prio_inv opts (worker_take opts True s)"
  using assms set_remove_at [OF pick_less, OF assms(3)] queue_max_prio_ge
  by (fastforce simp: prio_inv_def worker_take_def Let_def)

lemma prio_inv_step: "svc_step opts False s s' \<Longrightarrow> inherit opts \<Longrightarrow> prio_inv opts s \<Longrightarrow> prio_inv opts s'"
proof (induction rule: svc_step.induct)
  case (client s k ok got)
  then show ?case
    using prio_inv_enqueue [of opts s _ "conns s ! k"]
    by (auto simp: rx_client_def prio_inv_def split: option.splits received.splits)
next
  case (take s ok)
  then show ?case using prio_inv_take [of opts s] by simp
qed (auto simp: prio_inv_def worker_idle_def worker_reply_def rx_poll_def accept_client_def request_stop_def
      split: option.splits)

text \<open>C11: with \<^verbatim>\<open>-i\<close>, and if the changes of the priority succeed, in every interleaving the worker runs at least
  at its own priority, at that of the request it is serving and at that of every request that waits. The kernel refuses
  priorities outside 1 to 99 and the service does not check those of the requests, so the condition excludes such requests.\<close>

theorem no_priority_inversion:
  assumes "reachable opts False s" "inherit opts"
  shows "base_prio opts \<le> worker_prio s \<and> (\<forall>x\<in>set (queue s). r_prio (it_r x) \<le> worker_prio s) \<and>
    (\<forall>it rep. serving s = Some (it, rep) \<longrightarrow> r_prio (it_r it) \<le> served_prio rep \<and> served_prio rep \<le> worker_prio s)"
proof -
  have "prio_inv opts s"
    by (rule reachable_induct [OF assms(1)], simp add: prio_inv_def start_def, rule prio_inv_step [OF _ assms(2)])
  then show ?thesis unfolding prio_inv_def .
qed

section \<open>Every request once, in order\<close>

text \<open>\<open>rest\<close> are the requests that wait, in the order of their arrival.\<close>

definition in_service :: "svc \<Rightarrow> item list" where
  "in_service s = (case serving s of None \<Rightarrow> [] | Some (it, rep) \<Rightarrow> [it])"

definition reply_of :: "item \<Rightarrow> int \<times> u64" where
  "reply_of x = (it_fd x, r_id (it_r x))"

definition handed :: "svc \<Rightarrow> (int \<times> u64) list" where
  "handed s = map (\<lambda>(fd, rep). (fd, rep_id rep)) (replies s) @ map reply_of (in_service s)"

definition bounds_inv :: "svc \<Rightarrow> bool" where
  "bounds_inv s \<longleftrightarrow> length (queue s) \<le> QMAX \<and> length (conns s) \<le> MAXCL \<and>
     mset (map reply_of (accepted s)) = mset (handed s) + mset (map reply_of (queue s)) \<and>
     (\<forall>it rep. serving s = Some (it, rep) \<longrightarrow> rep_id rep = r_id (it_r it))"

lemma bounds_enqueue: "bounds_inv s \<Longrightarrow> bounds_inv (enqueue opts ok r fd s)"
  by (auto simp: bounds_inv_def enqueue_def Let_def handed_def in_service_def split: option.splits)

lemma handed_take:
  assumes "serving s = None"
  shows "handed (worker_take opts ok s) = handed s @ [reply_of (queue s ! pick (by_prio opts) (queue s))]"
  using assms by (simp add: worker_take_def Let_def handed_def in_service_def)

lemma queue_take: "queue (worker_take opts ok s) = remove_at (pick (by_prio opts) (queue s)) (queue s)"
  by (simp add: worker_take_def Let_def)

lemma bounds_take:
  assumes "bounds_inv s" "serving s = None" "queue s \<noteq> []"
  shows "bounds_inv (worker_take opts ok s)"
proof -
  let ?i = "pick (by_prio opts) (queue s)"
  have m: "mset (queue s) = add_mset (queue s ! ?i) (mset (remove_at ?i (queue s)))"
    by (rule mset_remove_at [OF pick_less [OF assms(3)]])
  have "mset (map reply_of (queue s)) = add_mset (reply_of (queue s ! ?i)) (mset (map reply_of (remove_at ?i (queue s))))"
    unfolding mset_map m by simp
  then show ?thesis
    using assms(1) handed_take [OF assms(2)] queue_take [of opts ok s]
    by (auto simp: bounds_inv_def length_remove_at) (auto simp: worker_take_def Let_def)
qed

lemma bounds_reply:
  assumes "bounds_inv s" "serving s = Some x"
  shows "bounds_inv (worker_reply s)"
proof -
  obtain it rep where x: "x = (it, rep)" by (cases x)
  have "rep_id rep = r_id (it_r it)" using assms x by (simp add: bounds_inv_def)
  then have "handed (worker_reply s) = handed s"
    using assms(2) x by (simp add: handed_def worker_reply_def in_service_def reply_of_def)
  then show ?thesis using assms x by (simp add: bounds_inv_def) (simp add: worker_reply_def)
qed

lemma bounds_step: "svc_step opts fails s s' \<Longrightarrow> bounds_inv s \<Longrightarrow> bounds_inv s'"
proof (induction rule: svc_step.induct)
  case (client s k ok got)
  have "bounds_inv (enqueue opts ok r fd s)" for r fd using client by (simp add: bounds_enqueue)
  with client show ?case
    by (auto simp: rx_client_def bounds_inv_def handed_def in_service_def split: option.splits received.splits)
next
  case (poll s n c)
  then show ?case
    by (auto simp: rx_poll_def accept_client_def bounds_inv_def handed_def in_service_def split: option.splits)
next
  case (take s ok)
  then show ?case using bounds_take [of s opts ok] by blast
next
  case (reply s x)
  then show ?case using bounds_reply [of s x] by blast
qed (auto simp: bounds_inv_def worker_idle_def handed_def in_service_def request_stop_def)

text \<open>C12: in every interleaving, and whether or not changes of the priority succeed, the queue and the table of
  connections stay within their arrays, and the requests that were accepted are exactly those that
  were answered, the one in service and those that wait: none is lost or answered twice, and
  each answer is sent on the descriptor its request came from.\<close>

theorem each_request_once:
  assumes "reachable opts fails s"
  shows "length (queue s) \<le> QMAX \<and> length (conns s) \<le> MAXCL \<and>
    mset (map reply_of (accepted s)) = mset (handed s) + mset (map reply_of (queue s))"
proof -
  have "bounds_inv s"
    by (rule reachable_induct [OF assms], simp add: bounds_inv_def start_def handed_def in_service_def, rule bounds_step)
  then show ?thesis unfolding bounds_inv_def by blast
qed

text \<open>While the arrival counter has not wrapped, it numbers the requests; the first ones are those that were
  taken, in that order, and the others wait.\<close>

definition fifo_inv :: "svc \<Rightarrow> bool" where
  "fifo_inv s \<longleftrightarrow>
     qseq s = of_nat (length (accepted s)) \<and> (\<forall>j<length (accepted s). unat (it_seq (accepted s ! j)) = j) \<and>
     map reply_of (take (length (handed s)) (accepted s)) = handed s \<and>
     mset (drop (length (handed s)) (accepted s)) = mset (queue s) \<and>
     (\<forall>it rep. serving s = Some (it, rep) \<longrightarrow> rep_id rep = r_id (it_r it))"

lemma fifo_len: "fifo_inv s \<Longrightarrow> length (handed s) \<le> length (accepted s)"
  unfolding fifo_inv_def by (metis length_map length_take min.cobounded1)

lemma fifo_append:
  assumes inv: "fifo_inv s" and n: "length (accepted s) < 2 ^ 64" and seq: "it_seq x = qseq s"
  shows "fifo_inv (s\<lparr>queue := queue s @ [x], qseq := qseq s + 1, accepted := accepted s @ [x]\<rparr>)"
proof -
  have h: "handed (s\<lparr>queue := queue s @ [x], qseq := qseq s + 1, accepted := accepted s @ [x]\<rparr>) = handed s"
    by (simp add: handed_def in_service_def)
  have "unat (it_seq x) = length (accepted s)"
    using n inv seq by (simp add: unat_of_nat fifo_inv_def)
  then have num: "unat (it_seq ((accepted s @ [x]) ! j)) = j" if "j < Suc (length (accepted s))" for j
    using inv that by (cases "j = length (accepted s)") (auto simp: fifo_inv_def nth_append)
  show ?thesis
    unfolding fifo_inv_def h using fifo_len [OF inv] num inv
    by (simp add: fifo_inv_def)
qed

lemma fifo_cong:
  "fifo_inv s \<Longrightarrow> queue t = queue s \<Longrightarrow> qseq t = qseq s \<Longrightarrow> accepted t = accepted s \<Longrightarrow> serving t = serving s \<Longrightarrow>
   replies t = replies s \<Longrightarrow> fifo_inv t"
  by (simp add: fifo_inv_def handed_def in_service_def)

lemma fifo_enqueue:
  assumes "fifo_inv s" "length (accepted s) < 2 ^ 64"
  shows "fifo_inv (enqueue opts ok r fd s)"
  unfolding enqueue_def Let_def
  using assms fifo_append [OF assms, of "\<lparr>it_r = r, it_fd = fd, it_seq = qseq s\<rparr>"] by (auto elim: fifo_cong)

lemma fifo_take:
  assumes inv: "fifo_inv s" and idle: "serving s = None" and q: "queue s \<noteq> []" and p: "\<not> by_prio opts"
  shows "fifo_inv (worker_take opts ok s)"
proof -
  let ?n = "length (handed s)" and ?i = "pick (by_prio opts) (queue s)" and ?a = "accepted s"
  let ?x = "queue s ! ?i"
  have rest: "mset (drop ?n ?a) = mset (queue s)" and num: "\<And>j. j < length ?a \<Longrightarrow> unat (it_seq (?a ! j)) = j"
    using inv by (auto simp: fifo_inv_def)
  have n: "?n < length ?a" using rest q by (metis drop_eq_Nil linorder_not_less mset.simps(1) mset_zero_iff)
  have i: "?i < length (queue s)" by (rule pick_less [OF q])
  have "?x \<in> set (drop ?n ?a)" using i rest by (metis mset_eq_setD nth_mem)
  then obtain k where k: "?x = ?a ! (?n + k)" "?n + k < length ?a"
    by (auto simp: in_set_conv_nth) (metis add.commute less_diff_conv)
  have "?a ! ?n \<in> set (queue s)"
    using n rest by (metis Cons_nth_drop_Suc list.set_intros(1) mset_eq_setD)
  then have "\<not> better (by_prio opts) (?a ! ?n) ?x" by (rule pick_best)
  then have "\<not> ?n < ?n + k" using num [OF n] num [OF k(2)] k(1) p by (simp add: better_def word_less_nat_alt)
  then have x: "?x = ?a ! ?n" using k by simp
  have take: "take (Suc ?n) ?a = take ?n ?a @ [?x]" using n x by (simp add: take_Suc_conv_app_nth)
  have "add_mset ?x (mset (drop (Suc ?n) ?a)) = add_mset ?x (mset (remove_at ?i (queue s)))"
    using mset_remove_at [OF i] rest n x by (metis Cons_nth_drop_Suc mset.simps(2))
  then have drop: "mset (drop (Suc ?n) ?a) = mset (remove_at ?i (queue s))" by simp
  have same: "accepted (worker_take opts ok s) = ?a" "qseq (worker_take opts ok s) = qseq s"
      "serving (worker_take opts ok s) = Some (it, rep) \<Longrightarrow> rep_id rep = r_id (it_r it)" for it rep
    by (auto simp: worker_take_def Let_def)
  show ?thesis
    using inv same take drop unfolding fifo_inv_def handed_take [OF idle] queue_take by auto
qed

lemma fifo_reply: "fifo_inv s \<Longrightarrow> serving s = Some x \<Longrightarrow> fifo_inv (worker_reply s)"
proof -
  assume inv: "fifo_inv s" and x: "serving s = Some x"
  obtain it rep where x': "x = (it, rep)" by (cases x)
  have "rep_id rep = r_id (it_r it)" using inv x x' by (simp add: fifo_inv_def)
  then have "handed (worker_reply s) = handed s"
    using x x' by (simp add: handed_def worker_reply_def in_service_def reply_of_def)
  then show ?thesis using inv x x' unfolding fifo_inv_def by (simp add: worker_reply_def)
qed

lemma accepted_grows: "svc_step opts fails s s' \<Longrightarrow> length (accepted s) \<le> length (accepted s')"
  by (induction rule: svc_step.induct)
    (auto simp: worker_idle_def worker_take_def worker_reply_def rx_poll_def accept_client_def rx_client_def enqueue_def request_stop_def
      Let_def split: option.splits received.splits)

lemma fifo_step:
  "svc_step opts fails s s' \<Longrightarrow> \<not> by_prio opts \<Longrightarrow> fifo_inv s \<Longrightarrow> length (accepted s') \<le> 2 ^ 64 \<Longrightarrow> fifo_inv s'"
proof (induction rule: svc_step.induct)
  case (take s ok)
  then show ?case using fifo_take [of s opts ok] by blast
next
  case (reply s x)
  then show ?case using fifo_reply [of s x] by blast
next
  case (client s k ok got)
  show ?case
  proof (cases "\<exists>r. got = Some (Got r)")
    case True
    then obtain r where got: "got = Some (Got r)" by blast
    let ?t = "enqueue opts ok r (conns s ! k) s"
    have "fifo_inv ?t"
    proof (cases "length (accepted s) < 2 ^ 64")
      case False
      then have "\<not> length (queue s) < QMAX"
        using client.prems(3) got by (auto simp: rx_client_def enqueue_def Let_def split: if_splits)
      then show ?thesis using client.prems(2) by (simp add: enqueue_def)
    qed (use client.prems(2) fifo_enqueue in blast)
    then show ?thesis using got by (auto simp: rx_client_def intro: fifo_cong)
  next
    case False
    then show ?thesis
      using client.prems(2) by (auto simp: rx_client_def split: option.splits received.splits intro: fifo_cong)
  qed
qed (auto simp: worker_idle_def rx_poll_def accept_client_def request_stop_def split: option.splits elim!: fifo_cong)

lemma reachable_fifo:
  assumes "reachable opts fails s" "\<not> by_prio opts" "length (accepted s) \<le> 2 ^ 64"
  shows "fifo_inv s"
proof -
  have "length (accepted s) \<le> 2 ^ 64 \<longrightarrow> fifo_inv s"
  proof (rule reachable_induct [OF assms(1)])
    show "length (accepted (start opts)) \<le> 2 ^ 64 \<longrightarrow> fifo_inv (start opts)"
      by (simp add: fifo_inv_def start_def handed_def in_service_def)
    fix s s' assume st: "svc_step opts fails s s'" and IH: "length (accepted s) \<le> 2 ^ 64 \<longrightarrow> fifo_inv s"
    show "length (accepted s') \<le> 2 ^ 64 \<longrightarrow> fifo_inv s'"
      using accepted_grows [OF st] IH fifo_step [OF st assms(2)] by linarith
  qed
  then show ?thesis using assms(3) by simp
qed

text \<open>C24: without the priority order, requests are taken in the order they arrived: the answers and the request
  in service are, in this order, the first requests that were accepted (up to \<open>2\<^sup>6\<^sup>4\<close> of them).\<close>

theorem served_in_order:
  assumes "reachable opts fails s" "\<not> by_prio opts" "length (accepted s) \<le> 2 ^ 64"
  shows "map reply_of (accepted s) = handed s @ map reply_of (drop (length (handed s)) (accepted s))"
  using reachable_fifo [OF assms] unfolding fifo_inv_def by (metis append_take_drop_id map_append)

section \<open>A run\<close>

text \<open>A client sends two requests; the second, more urgent one arrives while the first is being served.\<close>

definition two_opts :: svc_options where
  "two_opts = \<lparr>inherit = True, by_prio = False, base_prio = 10\<rparr>"

definition first_req :: svc_req where "first_req = \<lparr>r_id = 1, r_prio = 30, r_work = 5\<rparr>"
definition second_req :: svc_req where "second_req = \<lparr>r_id = 2, r_prio = 40, r_work = 5\<rparr>"

definition one_waiting :: svc where
  "one_waiting = rx_client two_opts True 0 (Some (Got first_req)) (rx_poll 1 (Some 7) (start two_opts))"

definition one_served :: svc where
  "one_served = rx_poll 1 None (worker_take two_opts True (one_waiting\<lparr>scan := None\<rparr>))"

definition two_requests :: svc where
  "two_requests = rx_client two_opts True 0 (Some (Got second_req)) one_served"

lemmas run_defs = two_opts_def first_req_def second_req_def start_def rx_poll_def accept_client_def MAXCL_def QMAX_def rx_client_def
  enqueue_def set_worker_prio_def worker_take_def pick_def queue_max_prio_def remove_at_def Let_def

definition item1 :: item where "item1 = \<lparr>it_r = first_req, it_fd = 7, it_seq = 0\<rparr>"
definition item2 :: item where "item2 = \<lparr>it_r = second_req, it_fd = 7, it_seq = 1\<rparr>"

definition rep1 :: svc_rep where "rep1 = \<lparr>rep_id = 1, served_prio = 30, rep_queued = 0\<rparr>"

lemma one_waiting_eq: "one_waiting = \<lparr>queue = [item1], qseq = 1, worker_prio = 30, boosts = 1, served = 0, stopping = False,
    serving = None, worker_done = False, conns = [7], scan = Some 1, accepted = [item1], replies = []\<rparr>"
  by (simp add: one_waiting_def item1_def run_defs)

lemma one_served_eq: "one_served = \<lparr>queue = [], qseq = 1, worker_prio = 30, boosts = 1, served = 0, stopping = False,
    serving = Some (item1, rep1), worker_done = False, conns = [7], scan = Some 0, accepted = [item1], replies = []\<rparr>"
  unfolding one_served_def one_waiting_eq by (simp add: item1_def rep1_def run_defs)

lemma two_requests_eq: "two_requests = \<lparr>queue = [item2], qseq = 2, worker_prio = 40, boosts = 2, served = 0, stopping = False,
    serving = Some (item1, rep1), worker_done = False, conns = [7], scan = Some 1, accepted = [item1, item2], replies = []\<rparr>"
  unfolding two_requests_def one_served_eq by (simp add: item1_def item2_def rep1_def run_defs)

lemma two_requests_reachable: "reachable two_opts False two_requests"
proof -
  let ?S = "svc_step two_opts False"
  have poll1: "?S (start two_opts) (rx_poll 1 (Some 7) (start two_opts))"
    by (rule svc_step.poll) (simp_all add: start_def)
  have got1: "?S (rx_poll 1 (Some 7) (start two_opts)) one_waiting"
    unfolding one_waiting_def by (rule svc_step.client) (simp_all add: run_defs)
  have rest1: "?S one_waiting (one_waiting\<lparr>scan := None\<rparr>)"
    by (rule svc_step.scanned [where k = 1]) (simp_all add: one_waiting_eq)
  have take1: "?S (one_waiting\<lparr>scan := None\<rparr>) (worker_take two_opts True (one_waiting\<lparr>scan := None\<rparr>))"
    by (rule svc_step.take) (simp_all add: one_waiting_eq)
  have poll2: "?S (worker_take two_opts True (one_waiting\<lparr>scan := None\<rparr>)) one_served"
    unfolding one_served_def by (rule svc_step.poll) (simp_all add: one_waiting_eq worker_take_def set_worker_prio_def Let_def)
  have got2: "?S one_served two_requests"
    unfolding two_requests_def by (rule svc_step.client) (simp_all add: one_served_eq)
  show ?thesis
    by (rule reachable_step [OF _ got2], rule reachable_step [OF _ poll2], rule reachable_step [OF _ take1],
        rule reachable_step [OF _ rest1], rule reachable_step [OF _ got1], rule reachable_step [OF reachable_start poll1])
qed

theorem no_priority_inversion_witness: "base_prio two_opts \<le> worker_prio two_requests \<and> worker_prio two_requests = 40"
  using no_priority_inversion [OF two_requests_reachable] by (simp add: two_opts_def two_requests_eq)

theorem each_request_once_witness: "length (queue two_requests) \<le> 256 \<and> queue two_requests = [item2]"
  using each_request_once [OF two_requests_reachable] by (simp add: QMAX_def two_requests_eq)

theorem served_in_order_witness: "map reply_of (accepted two_requests) = [(7, 1)] @ [(7, 2)] \<and> handed two_requests = [(7, 1)]"
proof -
  have h: "handed two_requests = [(7, 1)]"
    by (simp add: two_requests_eq handed_def in_service_def reply_of_def item1_def first_req_def)
  have "length (accepted two_requests) \<le> 2 ^ 64" "\<not> by_prio two_opts" by (simp_all add: two_requests_eq two_opts_def)
  from served_in_order [OF two_requests_reachable this(2,1)] h show ?thesis
    by (simp add: two_requests_eq reply_of_def item2_def second_req_def)
qed

end
