(* ===== verification/Bq.thy ===== *)
theory Bq
  imports Prelude
begin

text \<open>
  The ring buffer of \<^verbatim>\<open>Week6/Assignment6/concurrency/src/bq.c\<close> as it stands: initialisation, the two
  operations on the ring and the deadline of a timed wait. The blocking operations of that file are stubs
  for the students and are not modelled. Positions are \<^verbatim>\<open>int\<close> in C and stay between 0 and the
  capacity; an access outside the buffer makes the result \<open>None\<close>.
\<close>

record bq_item =
  bi_id :: u64
  bi_kind :: int
  bi_ptr :: nat

record bq =
  buf :: "bq_item list"
  cap :: nat
  head :: nat
  tail :: nat
  bcount :: nat
  closed_flag :: bool
  flags :: nat
  n_put_waits :: u64
  n_get_waits :: u64

definition zero_item :: bq_item where
  "zero_item = \<lparr>bi_id = 0, bi_kind = 0, bi_ptr = 0\<rparr>"

text \<open>\<open>alloc\<close>: whether \<^verbatim>\<open>calloc\<close> succeeds. \<open>None\<close> is the return value -1.\<close>

definition bq_init :: "bool \<Rightarrow> int \<Rightarrow> nat \<Rightarrow> bq option" where
  "bq_init alloc capacity fl =
     (if capacity < 1 then None
      else if \<not> alloc then None
      else Some \<lparr>buf = replicate (nat capacity) zero_item, cap = nat capacity, head = 0, tail = 0, bcount = 0, closed_flag = False,
        flags = fl, n_put_waits = 0, n_get_waits = 0\<rparr>)"

definition push_item :: "bq_item \<Rightarrow> bq \<Rightarrow> bq option" where
  "push_item item q =
     (if tail q < length (buf q) \<and> cap q \<noteq> 0
      then Some (q\<lparr>buf := (buf q)[tail q := item], tail := (tail q + 1) mod cap q, bcount := bcount q + 1\<rparr>)
      else None)"

definition pop_item :: "bq \<Rightarrow> (bq_item \<times> bq) option" where
  "pop_item q =
     (if head q < length (buf q) \<and> cap q \<noteq> 0
      then Some (buf q ! head q, q\<lparr>head := (head q + 1) mod cap q, bcount := bcount q - 1\<rparr>)
      else None)"

text \<open>A time is its seconds and nanoseconds; the division and the remainder are those of C.\<close>

definition deadline_after_ms :: "int \<times> int \<Rightarrow> nat \<Rightarrow> int \<times> int" where
  "deadline_after_ms now ms = (case now of (sec, nsec) \<Rightarrow>
     let sec = sec + int (ms div 1000);
         nsec = nsec + int (ms mod 1000) * 1000000
     in if nsec \<ge> 1000000000 then (sec + 1, nsec - 1000000000) else (sec, nsec))"

section \<open>The contract of a bounded queue\<close>

primrec push_all :: "('a \<Rightarrow> 'q \<Rightarrow> 'q option) \<Rightarrow> 'a list \<Rightarrow> 'q \<Rightarrow> 'q option" where
  "push_all push [] q = Some q"
| "push_all push (x # xs) q = Option.bind (push x q) (push_all push xs)"

primrec pop_many :: "('q \<Rightarrow> ('a \<times> 'q) option) \<Rightarrow> nat \<Rightarrow> 'q \<Rightarrow> ('a list \<times> 'q) option" where
  "pop_many pop 0 q = Some ([], q)"
| "pop_many pop (Suc n) q = Option.bind (pop q) (\<lambda>(x, q'). map_option (\<lambda>(xs, q''). (x # xs, q'')) (pop_many pop n q'))"

text \<open>What a producer and a consumer rely on: a list of at most \<open>room q\<close> more elements.\<close>

locale bounded_fifo =
  fixes inv :: "'q \<Rightarrow> bool" and content :: "'q \<Rightarrow> 'a list" and limit :: "'q \<Rightarrow> nat"
    and push :: "'a \<Rightarrow> 'q \<Rightarrow> 'q option" and pop :: "'q \<Rightarrow> ('a \<times> 'q) option"
  assumes push_ok: "inv q \<Longrightarrow> length (content q) < limit q \<Longrightarrow>
      \<exists>q'. push x q = Some q' \<and> inv q' \<and> content q' = content q @ [x] \<and> limit q' = limit q"
    and pop_ok: "inv q \<Longrightarrow> content q = x # xs \<Longrightarrow>
      \<exists>q'. pop q = Some (x, q') \<and> inv q' \<and> content q' = xs \<and> limit q' = limit q"
begin

lemma push_all_ok:
  "inv q \<Longrightarrow> length (content q) + length xs \<le> limit q \<Longrightarrow>
   \<exists>q'. push_all push xs q = Some q' \<and> inv q' \<and> content q' = content q @ xs \<and> limit q' = limit q"
proof (induction xs arbitrary: q)
  case (Cons x xs)
  then obtain q1 where q1: "push x q = Some q1" "inv q1" "content q1 = content q @ [x]" "limit q1 = limit q"
    using push_ok [of q x] by fastforce
  then show ?case using Cons.IH [of q1] Cons.prems(2) by auto
qed simp

lemma pop_many_ok:
  "inv q \<Longrightarrow> n \<le> length (content q) \<Longrightarrow>
   \<exists>q'. pop_many pop n q = Some (take n (content q), q') \<and> inv q' \<and> content q' = drop n (content q) \<and> limit q' = limit q"
proof (induction n arbitrary: q)
  case (Suc n)
  then obtain x xs where c: "content q = x # xs" by (cases "content q") auto
  then obtain q1 where q1: "pop q = Some (x, q1)" "inv q1" "content q1 = xs" "limit q1 = limit q"
    using pop_ok [OF Suc.prems(1)] by blast
  then show ?case using Suc.IH [of q1] Suc.prems(2) c by auto
qed simp

text \<open>What goes in comes out, in order, and leaves the queue with what it held.\<close>

lemma first_in_first_out:
  assumes "inv q" "length (content q) + length xs \<le> limit q"
  shows "\<exists>q1 q2. push_all push xs q = Some q1 \<and> pop_many pop (length (content q)) q1 = Some (content q, q2) \<and> content q2 = xs \<and> inv q2"
proof -
  obtain q1 where q1: "push_all push xs q = Some q1" "inv q1" "content q1 = content q @ xs"
    using push_all_ok [OF assms] by blast
  then show ?thesis using pop_many_ok [OF q1(2), of "length (content q)"] by auto
qed

end

section \<open>The ring\<close>

definition ring_inv :: "bq \<Rightarrow> bool" where
  "ring_inv q \<longleftrightarrow> length (buf q) = cap q \<and> 0 < cap q \<and> head q < cap q \<and> bcount q \<le> cap q \<and>
     tail q = (head q + bcount q) mod cap q"

definition items :: "bq \<Rightarrow> bq_item list" where
  "items q = map (\<lambda>i. buf q ! ((head q + i) mod cap q)) [0..<bcount q]"

lemma length_items [simp]: "length (items q) = bcount q"
  by (simp add: items_def)

lemma add_mod_inj:
  assumes "i < n" "j < n" "((h + i) mod n :: nat) = (h + j) mod n"
  shows "i = j"
proof -
  have *: "a = b" if "a \<le> b" "b < n" "(h + a) mod n = (h + b) mod n" for a b
  proof -
    have "n dvd (h + b) - (h + a)" using that by (intro mod_eq_dvd_iff_nat [THEN iffD1]) auto
    then have "n dvd b - a" by simp
    then show ?thesis using that by (auto dest: dvd_imp_le)
  qed
  show ?thesis using * [of i j] * [of j i] assms by (cases "i \<le> j") auto
qed

lemma push_ring:
  assumes q: "ring_inv q" and room: "length (items q) < cap q"
  shows "\<exists>q'. push_item x q = Some q' \<and> ring_inv q' \<and> items q' = items q @ [x] \<and> cap q' = cap q"
proof -
  let ?t = "(head q + bcount q) mod cap q"
  have t: "tail q = ?t" "?t < cap q" and len: "length (buf q) = cap q" and n: "bcount q < cap q"
    using assms by (auto simp: ring_inv_def)
  have other: "(head q + i) mod cap q \<noteq> ?t" if "i < bcount q" for i
    using add_mod_inj [of i "cap q" "bcount q" "head q"] that n by auto
  let ?q = "q\<lparr>buf := (buf q)[tail q := x], tail := (tail q + 1) mod cap q, bcount := bcount q + 1\<rparr>"
  have "push_item x q = Some ?q" using t len q by (auto simp: push_item_def ring_inv_def)
  moreover have "ring_inv ?q" using q n t by (auto simp: ring_inv_def mod_Suc_eq)
  moreover have "items ?q = items q @ [x]"
    using other [THEN not_sym] t len by (auto simp: items_def)
  ultimately show ?thesis by auto
qed

lemma pop_ring:
  assumes q: "ring_inv q" and c: "items q = x # xs"
  shows "\<exists>q'. pop_item q = Some (x, q') \<and> ring_inv q' \<and> items q' = xs \<and> cap q' = cap q"
proof -
  have n: "bcount q = Suc (length xs)" using c length_items [of q] by simp
  let ?q = "q\<lparr>head := (head q + 1) mod cap q, bcount := bcount q - 1\<rparr>"
  have x: "x = buf q ! head q" and xs: "xs = map (\<lambda>i. buf q ! ((head q + Suc i) mod cap q)) [0..<length xs]"
  proof -
    have "items q = map (\<lambda>i. buf q ! ((head q + i) mod cap q)) (0 # map Suc [0..<length xs])"
      unfolding items_def n by (subst upt_conv_Cons) (auto simp: map_Suc_upt)
    then show "x = buf q ! head q" "xs = map (\<lambda>i. buf q ! ((head q + Suc i) mod cap q)) [0..<length xs]"
      using c q by (auto simp: ring_inv_def comp_def)
  qed
  have "pop_item q = Some (x, ?q)" using q x by (auto simp: pop_item_def ring_inv_def)
  moreover have "ring_inv ?q" using q n by (auto simp: ring_inv_def mod_simps)
  moreover have "items ?q = xs"
    using n by (subst xs) (simp add: items_def mod_simps)
  ultimately show ?thesis by auto
qed

interpretation ring: bounded_fifo ring_inv items cap push_item pop_item
  by unfold_locales (use push_ring pop_ring in auto)

lemma init_ring: "bq_init alloc capacity fl = Some q \<Longrightarrow> ring_inv q \<and> items q = [] \<and> int (cap q) = capacity"
  by (auto simp: bq_init_def ring_inv_def items_def split: if_splits)

text \<open>C25: a queue that \<^verbatim>\<open>bq_init\<close> set up holds as many items as its capacity says: pushed one after the other they
  stay inside the buffer, and they are popped in the same order; a further push then still finds
  its place after the ring has wrapped.\<close>

theorem ring_is_fifo:
  assumes "bq_init alloc capacity fl = Some q" "int (length xs) \<le> capacity"
  shows "\<exists>q1 q2. push_all push_item xs q = Some q1 \<and> pop_many pop_item (length xs) q1 = Some (xs, q2) \<and> ring_inv q2 \<and> items q2 = [] \<and>
    (\<forall>ys. length ys \<le> cap q \<longrightarrow> (\<exists>q3. push_all push_item ys q2 = Some q3 \<and> items q3 = ys))"
proof -
  have q: "ring_inv q" "items q = []" "length xs \<le> cap q" using init_ring [OF assms(1)] assms(2) by auto
  obtain q1 where q1: "push_all push_item xs q = Some q1" "ring_inv q1" "items q1 = xs" "cap q1 = cap q"
    using ring.push_all_ok [OF q(1), of xs] q by auto
  obtain q2 where q2: "pop_many pop_item (length xs) q1 = Some (xs, q2)" "ring_inv q2" "items q2 = []" "cap q2 = cap q"
    using ring.pop_many_ok [OF q1(2), of "length xs"] q1 by auto
  have "\<exists>q3. push_all push_item ys q2 = Some q3 \<and> items q3 = ys" if "length ys \<le> cap q" for ys
    using ring.push_all_ok [OF q2(2), of ys] that q2 by auto
  then show ?thesis using q1 q2 by blast
qed

text \<open>The deadline is a proper time, exactly that many milliseconds after the present one.\<close>

theorem deadline_exact:
  assumes "0 \<le> nsec" "nsec < 1000000000" "deadline_after_ms (sec, nsec) ms = (sec', nsec')"
  shows "0 \<le> nsec' \<and> nsec' < 1000000000 \<and> sec' * 1000000000 + nsec' = sec * 1000000000 + nsec + int ms * 1000000"
proof -
  have "int ms = int (ms div 1000) * 1000 + int (ms mod 1000)"
    by (metis div_mult_mod_eq of_nat_add of_nat_mult of_nat_numeral)
  moreover have "int (ms mod 1000) < 1000" by simp
  ultimately show ?thesis
    using assms by (auto simp: deadline_after_ms_def Let_def split: if_splits)
qed

theorem ring_is_fifo_witness:
  "\<exists>q q1 q2. bq_init True 2 0 = Some q \<and> push_all push_item [zero_item, zero_item\<lparr>bi_id := 5\<rparr>] q = Some q1 \<and>
     pop_many pop_item 2 q1 = Some ([zero_item, zero_item\<lparr>bi_id := 5\<rparr>], q2) \<and> items q2 = []"
proof -
  obtain q where q: "bq_init True 2 0 = Some q" by (simp add: bq_init_def)
  then show ?thesis
    using ring_is_fifo [OF q, of "[zero_item, zero_item\<lparr>bi_id := 5\<rparr>]"] by (auto simp: numeral_2_eq_2)
qed

theorem deadline_exact_witness: "deadline_after_ms (7, 999999999) 1001 = (9, 999999) \<and> (0::int) \<le> 999999"
proof -
  have d: "deadline_after_ms (7, 999999999) 1001 = (9, 999999)" by (simp add: deadline_after_ms_def)
  from deadline_exact [OF _ _ d] show ?thesis using d by simp
qed

end
