(* ===== verification/Bqtest.thy ===== *)
theory Bqtest
  imports Bq
begin

unbundle bit_operations_syntax

text \<open>
  The stress test of \<^verbatim>\<open>Week6/Assignment6/concurrency/src/bqtest.c\<close>: what producers put, what each consumer
  checks, and the verdict of \<^verbatim>\<open>run_stress\<close>. The queue under test is not part of the model: its behaviour
  is the sequence of the values its \<^verbatim>\<open>bq_get\<close> returns to the consumers, in the order in which these use
  the shared array \<^verbatim>\<open>seen\<close>. The completion tickets, which do not take part in the verdict, are left out.
\<close>

definition MAX_THREADS :: nat where "MAX_THREADS = 64"

record stress_cfg =
  producers :: nat
  consumers :: nat
  st_items :: nat
  capacity :: int
  st_flags :: nat

text \<open>What \<^verbatim>\<open>bq_get\<close> returned: \<^verbatim>\<open>BQ_CLOSED\<close>, another value that is not \<^verbatim>\<open>BQ_OK\<close>, or an item with its id.\<close>

datatype got = Closed | Failed | Item u64

record cons_result =
  received :: nat
  garbage :: nat
  duplicate :: nat
  order_violation :: nat
  early_closed :: nat

record consumer_state =
  result :: cons_result
  last_seq :: "int list"
  left :: bool

section \<open>Producers\<close>

definition make_id :: "nat \<Rightarrow> nat \<Rightarrow> u64" where
  "make_id p seq = push_bit 32 (of_nat p) OR of_nat seq"

text \<open>The items producer \<open>p\<close> enqueues; \<open>ok seq\<close> says whether \<^verbatim>\<open>bq_put\<close> returned \<^verbatim>\<open>BQ_OK\<close>.\<close>

definition producer :: "stress_cfg \<Rightarrow> (nat \<Rightarrow> bool) \<Rightarrow> nat \<Rightarrow> u64 list" where
  "producer cfg ok p = map (make_id p) (takeWhile ok [0..<st_items cfg])"

section \<open>Consumers\<close>

definition no_result :: cons_result where
  "no_result = \<lparr>received = 0, garbage = 0, duplicate = 0, order_violation = 0, early_closed = 0\<rparr>"

definition new_consumer :: consumer_state where
  "new_consumer = \<lparr>result = no_result, last_seq = replicate MAX_THREADS (-1), left = False\<rparr>"

definition producer_of :: "u64 \<Rightarrow> nat" where "producer_of i = unat (drop_bit 32 i)"
definition seq_of :: "u64 \<Rightarrow> nat" where "seq_of i = unat (i AND 0xffffffff)"

text \<open>One round of a consumer; \<open>closing\<close> is \<^verbatim>\<open>close_called\<close>. An access outside an array makes the result \<open>None\<close>.\<close>

definition consume :: "stress_cfg \<Rightarrow> got \<Rightarrow> bool \<Rightarrow> bool list \<times> consumer_state \<Rightarrow> (bool list \<times> consumer_state) option" where
  "consume cfg g closing sk = (case sk of (seen, k) \<Rightarrow>
     let r = result k in
     (case g of
        Closed \<Rightarrow> Some (seen, k\<lparr>result := (if \<not> closing then r\<lparr>early_closed := early_closed r + 1\<rparr> else r), left := True\<rparr>)
      | Failed \<Rightarrow> Some (seen, k\<lparr>result := r\<lparr>garbage := garbage r + 1\<rparr>, left := True\<rparr>)
      | Item i \<Rightarrow>
          let p = producer_of i; seq = seq_of i in
          if p \<ge> producers cfg \<or> seq \<ge> st_items cfg then Some (seen, k\<lparr>result := r\<lparr>garbage := garbage r + 1\<rparr>\<rparr>)
          else let n = p * st_items cfg + seq in
            if n < length seen \<and> p < length (last_seq k) then
              Some (seen[n := True],
                k\<lparr>result := r\<lparr>received := received r + 1, duplicate := duplicate r + (if seen ! n then 1 else 0),
                    order_violation := order_violation r + (if int seq \<le> last_seq k ! p then 1 else 0)\<rparr>,
                  last_seq := (last_seq k)[p := int seq]\<rparr>)
            else None))"

type_synonym event = "nat \<times> got \<times> bool"

text \<open>A consumer that has left its loop takes nothing any more.\<close>

definition stress_event :: "stress_cfg \<Rightarrow> event \<Rightarrow> bool list \<times> consumer_state list \<Rightarrow> (bool list \<times> consumer_state list) option" where
  "stress_event cfg ev s = (case (ev, s) of ((c, g, closing), (seen, ks)) \<Rightarrow>
     if c < length ks \<and> \<not> left (ks ! c)
     then map_option (\<lambda>(seen', k). (seen', ks[c := k])) (consume cfg g closing (seen, ks ! c))
     else Some s)"

fun stress_events :: "stress_cfg \<Rightarrow> event list \<Rightarrow> bool list \<times> consumer_state list \<Rightarrow> (bool list \<times> consumer_state list) option" where
  "stress_events cfg [] s = Some s"
| "stress_events cfg (ev # evs) s = Option.bind (stress_event cfg ev s) (stress_events cfg evs)"

definition sum_of :: "(cons_result \<Rightarrow> nat) \<Rightarrow> consumer_state list \<Rightarrow> nat" where
  "sum_of f ks = sum_list (map (\<lambda>k. f (result k)) ks)"

definition unique_seen :: "bool list \<Rightarrow> nat" where
  "unique_seen seen = length (filter (\<lambda>b. b) seen)"

definition verdict :: "stress_cfg \<Rightarrow> bool list \<times> consumer_state list \<Rightarrow> bool" where
  "verdict cfg s = (case s of (seen, ks) \<Rightarrow>
     let total = producers cfg * st_items cfg;
         unique = unique_seen seen;
         lost = int total - int unique
     in lost = 0 \<and> sum_of duplicate ks = 0 \<and> sum_of garbage ks = 0 \<and> sum_of order_violation ks = 0 \<and> sum_of early_closed ks = 0)"

definition run_stress :: "stress_cfg \<Rightarrow> bool \<Rightarrow> event list \<Rightarrow> nat option" where
  "run_stress cfg alloc evs =
     (if producers cfg > MAX_THREADS \<or> consumers cfg > MAX_THREADS then Some 2
      else if \<not> alloc \<or> bq_init alloc (capacity cfg) (st_flags cfg) = None then Some 2
      else map_option (\<lambda>s. if verdict cfg s then 0 else 1)
        (stress_events cfg evs (replicate (producers cfg * st_items cfg) False, replicate (consumers cfg) new_consumer)))"

section \<open>Ids\<close>

lemma nat_bit_low:
  assumes "bit (m :: nat) n" "m < 4294967296"
  shows "n < 32"
proof -
  have "take_bit 32 m = m" using assms(2) by (simp add: take_bit_nat_eq_self_iff)
  then have "bit (take_bit 32 m) n" using assms(1) by simp
  then show ?thesis unfolding bit_take_bit_iff by blast
qed

lemma producer_of_make:
  assumes "p < 2 ^ 32" "seq < 2 ^ 32"
  shows "producer_of (make_id p seq) = p"
proof -
  have "drop_bit 32 (make_id p seq) = (of_nat p :: u64)"
    by (rule bit_word_eqI) (use assms in \<open>auto simp: make_id_def bit_simps dest: nat_bit_low\<close>)
  moreover have "unat (of_nat p :: u64) = p" using assms by (simp add: unat_of_nat)
  ultimately show ?thesis by (simp add: producer_of_def)
qed

lemma seq_of_make:
  assumes "seq < 2 ^ 32"
  shows "seq_of (make_id p seq) = seq"
proof -
  have m: "(0xffffffff :: u64) = mask 32" by (simp add: mask_eq_exp_minus_1)
  have "make_id p seq AND 0xffffffff = (of_nat seq :: u64)"
    unfolding m by (rule bit_word_eqI) (use assms in \<open>auto simp: make_id_def bit_simps dest: nat_bit_low\<close>)
  moreover have "unat (of_nat seq :: u64) = seq" using assms by (simp add: unat_of_nat)
  ultimately show ?thesis by (simp add: seq_of_def)
qed

lemma make_of: "make_id (producer_of i) (seq_of i) = i"
proof -
  have m: "(0xffffffff :: u64) = mask 32" by (simp add: mask_eq_exp_minus_1)
  show ?thesis
    unfolding make_id_def producer_of_def seq_of_def m
    by (simp add: bit_eq_iff) (auto simp: bit_simps)
qed

section \<open>What the consumers saw\<close>

text \<open>The events that reach a consumer: those after its last \<^verbatim>\<open>bq_get\<close> cannot happen.\<close>

fun taken :: "nat \<Rightarrow> nat set \<Rightarrow> event list \<Rightarrow> event list" where
  "taken n gone [] = []"
| "taken n gone ((c, g, b) # evs) =
     (if c < n \<and> c \<notin> gone
      then (c, g, b) # taken n (case g of Item _ \<Rightarrow> gone | _ \<Rightarrow> insert c gone) evs
      else taken n gone evs)"

definition ids_of :: "event list \<Rightarrow> u64 list" where
  "ids_of evs = concat (map (\<lambda>(c, g, b). case g of Item i \<Rightarrow> [i] | _ \<Rightarrow> []) evs)"

definition ids_by :: "nat \<Rightarrow> event list \<Rightarrow> u64 list" where
  "ids_by c evs = ids_of (filter (\<lambda>ev. fst ev = c) evs)"

definition valid_id :: "stress_cfg \<Rightarrow> u64 \<Rightarrow> bool" where
  "valid_id cfg i \<longleftrightarrow> producer_of i < producers cfg \<and> seq_of i < st_items cfg"

definition seqs_by :: "stress_cfg \<Rightarrow> nat \<Rightarrow> nat \<Rightarrow> event list \<Rightarrow> nat list" where
  "seqs_by cfg c p evs = map seq_of (filter (\<lambda>i. valid_id cfg i \<and> producer_of i = p) (ids_by c evs))"

definition place :: "stress_cfg \<Rightarrow> u64 \<Rightarrow> nat" where
  "place cfg i = producer_of i * st_items cfg + seq_of i"

lemma ids_snoc [simp]:
  "ids_of [] = []" "ids_of (xs @ [(c, Item i, b)]) = ids_of xs @ [i]" "ids_of (xs @ [(c, Closed, b)]) = ids_of xs"
  "ids_of (xs @ [(c, Failed, b)]) = ids_of xs"
  by (simp_all add: ids_of_def)

lemma ids_by_snoc [simp]:
  "ids_by c [] = []" "ids_by c (xs @ [(c', Item i, b)]) = (if c = c' then ids_by c xs @ [i] else ids_by c xs)"
  "ids_by c (xs @ [(c', Closed, b)]) = ids_by c xs" "ids_by c (xs @ [(c', Failed, b)]) = ids_by c xs"
  by (auto simp: ids_by_def)

lemma seqs_by_snoc [simp]:
  "seqs_by cfg c p [] = []"
  "seqs_by cfg c p (xs @ [(c', Item i, b)]) =
     (if c = c' \<and> valid_id cfg i \<and> producer_of i = p then seqs_by cfg c p xs @ [seq_of i] else seqs_by cfg c p xs)"
  "seqs_by cfg c p (xs @ [(c', Closed, b)]) = seqs_by cfg c p xs" "seqs_by cfg c p (xs @ [(c', Failed, b)]) = seqs_by cfg c p xs"
  by (auto simp: seqs_by_def)

lemma place_less: "valid_id cfg i \<Longrightarrow> place cfg i < producers cfg * st_items cfg"
proof -
  assume "valid_id cfg i"
  then have "producer_of i * st_items cfg + seq_of i < Suc (producer_of i) * st_items cfg" "Suc (producer_of i) \<le> producers cfg"
    by (auto simp: valid_id_def)
  then show ?thesis unfolding place_def by (meson mult_le_mono1 order_less_le_trans)
qed

lemma place_parts: "valid_id cfg i \<Longrightarrow> place cfg i div st_items cfg = producer_of i \<and> place cfg i mod st_items cfg = seq_of i"
  by (auto simp: valid_id_def place_def)

lemma place_inj: "valid_id cfg i \<Longrightarrow> valid_id cfg j \<Longrightarrow> place cfg i = place cfg j \<Longrightarrow> i = j"
  by (metis make_of place_parts)

text \<open>The counters say what happened so far.\<close>

definition sorted_last :: "nat list \<Rightarrow> int \<Rightarrow> bool" where
  "sorted_last ss l \<longleftrightarrow> l = (if ss = [] then -1 else int (last ss))"

definition stress_inv :: "stress_cfg \<Rightarrow> nat set \<Rightarrow> event list \<Rightarrow> bool list \<times> consumer_state list \<Rightarrow> bool" where
  "stress_inv cfg gone xs s \<longleftrightarrow> (case s of (seen, ks) \<Rightarrow>
     length seen = producers cfg * st_items cfg \<and> length ks = consumers cfg \<and>
     (\<forall>c<consumers cfg. length (last_seq (ks ! c)) = MAX_THREADS \<and> (left (ks ! c) \<longleftrightarrow> c \<in> gone)) \<and>
     (\<forall>n<producers cfg * st_items cfg. seen ! n \<longleftrightarrow> n \<in> place cfg ` {i \<in> set (ids_of xs). valid_id cfg i}) \<and>
     (\<forall>c<consumers cfg. \<forall>p<producers cfg. sorted_last (seqs_by cfg c p xs) (last_seq (ks ! c) ! p)))"

definition counts_inv :: "stress_cfg \<Rightarrow> event list \<Rightarrow> consumer_state list \<Rightarrow> bool" where
  "counts_inv cfg xs ks \<longleftrightarrow>
     (sum_of duplicate ks = 0 \<longleftrightarrow> distinct (filter (valid_id cfg) (ids_of xs))) \<and>
     (sum_of garbage ks = 0 \<longleftrightarrow> (\<forall>ev\<in>set xs. fst (snd ev) \<noteq> Failed) \<and> (\<forall>i\<in>set (ids_of xs). valid_id cfg i)) \<and>
     (sum_of early_closed ks = 0 \<longleftrightarrow> (\<forall>ev\<in>set xs. fst (snd ev) = Closed \<longrightarrow> snd (snd ev))) \<and>
     (sum_of order_violation ks = 0 \<longleftrightarrow> (\<forall>c<consumers cfg. \<forall>p<producers cfg. sorted_wrt (<) (seqs_by cfg c p xs)))"

lemma sum_of_update: "c < length ks \<Longrightarrow> sum_of f (ks[c := k]) + f (result (ks ! c)) = sum_of f ks + f (result k)"
proof -
  assume c: "c < length ks"
  have "f (result (ks ! c)) \<le> sum_of f ks"
    unfolding sum_of_def using c by (intro member_le_sum_list) (auto intro!: image_eqI)
  then show ?thesis
    using c sum_list_update [of c "map (\<lambda>k. f (result k)) ks" "f (result k)"] by (simp add: sum_of_def map_update)
qed

definition leavers :: "nat \<Rightarrow> got \<Rightarrow> nat set \<Rightarrow> nat set" where
  "leavers c g gone = (case g of Item _ \<Rightarrow> gone | _ \<Rightarrow> insert c gone)"

definition step_ok :: "stress_cfg \<Rightarrow> nat set \<Rightarrow> event list \<Rightarrow> event \<Rightarrow> bool list \<Rightarrow> consumer_state list \<Rightarrow> bool" where
  "step_ok cfg gone xs ev seen ks \<longleftrightarrow> (case ev of (c, g, b) \<Rightarrow>
     \<exists>seen' k. consume cfg g b (seen, ks ! c) = Some (seen', k) \<and>
       stress_inv cfg (leavers c g gone) (xs @ [ev]) (seen', ks[c := k]) \<and> counts_inv cfg (xs @ [ev]) (ks[c := k]))"

lemma sum_of_same: "c < length ks \<Longrightarrow> f (result k) = f (result (ks ! c)) \<Longrightarrow> sum_of f (ks[c := k]) = sum_of f ks"
  using sum_of_update [of c ks f k] by simp

lemma sum_of_more: "c < length ks \<Longrightarrow> f (result k) = f (result (ks ! c)) + n \<Longrightarrow> sum_of f (ks[c := k]) = sum_of f ks + n"
  using sum_of_update [of c ks f k] by simp

lemma step_closed:
  assumes inv: "stress_inv cfg gone xs (seen, ks)" and cnt: "counts_inv cfg xs ks" and c: "c < consumers cfg"
  shows "step_ok cfg gone xs (c, Closed, b) seen ks"
proof -
  let ?k = "(ks ! c)\<lparr>result := (if \<not> b then (result (ks ! c))\<lparr>early_closed := early_closed (result (ks ! c)) + 1\<rparr> else result (ks ! c)), left := True\<rparr>"
  have len: "c < length ks" using inv c by (simp add: stress_inv_def)
  have sums: "sum_of duplicate (ks[c := ?k]) = sum_of duplicate ks" "sum_of garbage (ks[c := ?k]) = sum_of garbage ks"
    "sum_of order_violation (ks[c := ?k]) = sum_of order_violation ks" by (rule sum_of_same [OF len], simp)+
  have early: "sum_of early_closed (ks[c := ?k]) = sum_of early_closed ks + (if b then 0 else 1)"
    by (rule sum_of_more [OF len]) simp
  have "stress_inv cfg (insert c gone) (xs @ [(c, Closed, b)]) (seen, ks[c := ?k])"
    using inv c by (auto simp: stress_inv_def nth_list_update)
  moreover have "counts_inv cfg (xs @ [(c, Closed, b)]) (ks[c := ?k])"
    using cnt unfolding counts_inv_def sums early by auto
  ultimately show ?thesis by (simp add: step_ok_def consume_def leavers_def Let_def)
qed

lemma step_failed:
  assumes inv: "stress_inv cfg gone xs (seen, ks)" and cnt: "counts_inv cfg xs ks" and c: "c < consumers cfg"
  shows "step_ok cfg gone xs (c, Failed, b) seen ks"
proof -
  let ?k = "(ks ! c)\<lparr>result := (result (ks ! c))\<lparr>garbage := garbage (result (ks ! c)) + 1\<rparr>, left := True\<rparr>"
  have len: "c < length ks" using inv c by (simp add: stress_inv_def)
  have sums: "sum_of duplicate (ks[c := ?k]) = sum_of duplicate ks" "sum_of early_closed (ks[c := ?k]) = sum_of early_closed ks"
    "sum_of order_violation (ks[c := ?k]) = sum_of order_violation ks" by (rule sum_of_same [OF len], simp)+
  have bad: "sum_of garbage (ks[c := ?k]) = sum_of garbage ks + 1" by (rule sum_of_more [OF len]) simp
  have "stress_inv cfg (insert c gone) (xs @ [(c, Failed, b)]) (seen, ks[c := ?k])"
    using inv c by (auto simp: stress_inv_def nth_list_update)
  moreover have "counts_inv cfg (xs @ [(c, Failed, b)]) (ks[c := ?k])"
    using cnt unfolding counts_inv_def sums bad by auto
  ultimately show ?thesis by (simp add: step_ok_def consume_def leavers_def Let_def)
qed

lemma step_foreign:
  assumes inv: "stress_inv cfg gone xs (seen, ks)" and cnt: "counts_inv cfg xs ks" and c: "c < consumers cfg"
    and i: "\<not> valid_id cfg i"
  shows "step_ok cfg gone xs (c, Item i, b) seen ks"
proof -
  let ?k = "(ks ! c)\<lparr>result := (result (ks ! c))\<lparr>garbage := garbage (result (ks ! c)) + 1\<rparr>\<rparr>"
  have len: "c < length ks" using inv c by (simp add: stress_inv_def)
  have sums: "sum_of duplicate (ks[c := ?k]) = sum_of duplicate ks" "sum_of early_closed (ks[c := ?k]) = sum_of early_closed ks"
    "sum_of order_violation (ks[c := ?k]) = sum_of order_violation ks" by (rule sum_of_same [OF len], simp)+
  have bad: "sum_of garbage (ks[c := ?k]) = sum_of garbage ks + 1" by (rule sum_of_more [OF len]) simp
  have set: "{j \<in> set (ids_of (xs @ [(c, Item i, b)])). valid_id cfg j} = {j \<in> set (ids_of xs). valid_id cfg j}" using i by auto
  have "stress_inv cfg gone (xs @ [(c, Item i, b)]) (seen, ks[c := ?k])"
    using inv c i unfolding stress_inv_def set prod.case by (auto simp: nth_list_update)
  moreover have "counts_inv cfg (xs @ [(c, Item i, b)]) (ks[c := ?k])"
    using cnt i unfolding counts_inv_def sums bad by auto
  moreover have "consume cfg (Item i) b (seen, ks ! c) = Some (seen, ?k)"
    using i by (auto simp: consume_def valid_id_def Let_def)
  ultimately show ?thesis by (auto simp: step_ok_def leavers_def)
qed

lemma sorted_snoc: "sorted_wrt (<) (xs @ [x :: nat]) \<longleftrightarrow> sorted_wrt (<) xs \<and> (xs = [] \<or> last xs < x)"
  by (cases xs rule: rev_cases) (auto simp: sorted_wrt_append intro: less_trans)

lemma step_item:
  assumes inv: "stress_inv cfg gone xs (seen, ks)" and cnt: "counts_inv cfg xs ks" and c: "c < consumers cfg"
    and i: "valid_id cfg i" and P: "producers cfg \<le> MAX_THREADS"
  shows "step_ok cfg gone xs (c, Item i, b) seen ks"
proof -
  let ?p = "producer_of i" and ?s = "seq_of i" and ?n = "place cfg i" and ?xs = "xs @ [(c, Item i, b)]"
  let ?late = "int ?s \<le> last_seq (ks ! c) ! ?p"
  let ?r = "result (ks ! c)"
  let ?k = "(ks ! c)\<lparr>result := ?r\<lparr>received := received ?r + 1, duplicate := duplicate ?r + (if seen ! ?n then 1 else 0),
        order_violation := order_violation ?r + (if ?late then 1 else 0)\<rparr>, last_seq := (last_seq (ks ! c))[?p := int ?s]\<rparr>"
  have len: "c < length ks" "length seen = producers cfg * st_items cfg" "length (last_seq (ks ! c)) = MAX_THREADS"
    using inv c by (auto simp: stress_inv_def)
  have p: "?p < producers cfg" and n: "?n < length seen" using i place_less [OF i] len by (auto simp: valid_id_def)
  have cons: "consume cfg (Item i) b (seen, ks ! c) = Some (seen[?n := True], ?k)"
    using i n p P len by (auto simp: consume_def valid_id_def place_def Let_def)
  have early: "sum_of early_closed (ks[c := ?k]) = sum_of early_closed ks" and gar: "sum_of garbage (ks[c := ?k]) = sum_of garbage ks"
    by (rule sum_of_same [OF len(1)], simp)+
  have dup: "sum_of duplicate (ks[c := ?k]) = sum_of duplicate ks + (if seen ! ?n then 1 else 0)"
    and ov: "sum_of order_violation (ks[c := ?k]) = sum_of order_violation ks + (if ?late then 1 else 0)"
    by (rule sum_of_more [OF len(1)], simp)+
  have seen: "seen ! ?n \<longleftrightarrow> i \<in> set (ids_of xs)"
    using inv n len(2) i place_inj [of cfg i] by (auto simp: stress_inv_def)
  have set: "{j \<in> set (ids_of ?xs). valid_id cfg j} = insert i {j \<in> set (ids_of xs). valid_id cfg j}" using i by auto
  have sl: "sorted_last (seqs_by cfg c ?p xs) (last_seq (ks ! c) ! ?p)" using inv c p by (simp add: stress_inv_def)
  have sinv: "stress_inv cfg gone ?xs (seen[?n := True], ks[c := ?k])"
    using inv c i p P len n unfolding stress_inv_def set prod.case image_insert
    by (auto simp: nth_list_update sorted_last_def)
  have order: "sorted_wrt (<) (seqs_by cfg c ?p xs @ [?s]) \<longleftrightarrow> sorted_wrt (<) (seqs_by cfg c ?p xs) \<and> \<not> ?late"
    using sl by (auto simp: sorted_last_def sorted_snoc)
  have "counts_inv cfg ?xs (ks[c := ?k])"
    unfolding counts_inv_def early gar dup ov
  proof (intro conjI)
    show "(sum_of duplicate ks + (if seen ! ?n then 1 else 0) = 0) = distinct (filter (valid_id cfg) (ids_of ?xs))"
      using cnt i seen by (auto simp: counts_inv_def)
    show "(sum_of garbage ks = 0) = ((\<forall>ev\<in>set ?xs. fst (snd ev) \<noteq> Failed) \<and> (\<forall>i\<in>set (ids_of ?xs). valid_id cfg i))"
      using cnt i by (auto simp: counts_inv_def)
    show "(sum_of early_closed ks = 0) = (\<forall>ev\<in>set ?xs. fst (snd ev) = Closed \<longrightarrow> snd (snd ev))"
      using cnt by (auto simp: counts_inv_def)
    have "(sum_of order_violation ks = 0) = (\<forall>c<consumers cfg. \<forall>p<producers cfg. sorted_wrt (<) (seqs_by cfg c p xs))"
      using cnt by (simp add: counts_inv_def)
    then show "(sum_of order_violation ks + (if ?late then 1 else 0) = 0) =
        (\<forall>c<consumers cfg. \<forall>p<producers cfg. sorted_wrt (<) (seqs_by cfg c p ?xs))"
      using order c p i by (auto split: if_splits)
  qed
  then show ?thesis using cons sinv by (auto simp: step_ok_def leavers_def)
qed

lemma stress_events_inv:
  assumes P: "producers cfg \<le> MAX_THREADS"
  shows "stress_inv cfg gone xs s \<Longrightarrow> counts_inv cfg xs (snd s) \<Longrightarrow>
    \<exists>s' gone'. stress_events cfg evs s = Some s' \<and> stress_inv cfg gone' (xs @ taken (consumers cfg) gone evs) s' \<and>
      counts_inv cfg (xs @ taken (consumers cfg) gone evs) (snd s')"
proof (induction evs arbitrary: xs s gone)
  case (Cons ev evs)
  obtain c g b where ev: "ev = (c, g, b)" by (cases ev)
  obtain seen ks where s: "s = (seen, ks)" by (cases s)
  have inv: "stress_inv cfg gone xs (seen, ks)" and cnt: "counts_inv cfg xs ks" using Cons.prems s by auto
  have len: "length ks = consumers cfg" using inv by (simp add: stress_inv_def)
  show ?case
  proof (cases "c < consumers cfg \<and> c \<notin> gone")
    case True
    have "step_ok cfg gone xs ev seen ks"
      unfolding ev using step_closed [OF inv cnt] step_failed [OF inv cnt] step_foreign [OF inv cnt] step_item [OF inv cnt _ _ P] True
      by (cases g) blast+
    then obtain seen' k where k: "consume cfg g b (seen, ks ! c) = Some (seen', k)"
        "stress_inv cfg (leavers c g gone) (xs @ [ev]) (seen', ks[c := k])" "counts_inv cfg (xs @ [ev]) (ks[c := k])"
      by (auto simp: step_ok_def ev)
    have "\<not> left (ks ! c)" using inv True by (simp add: stress_inv_def)
    then have "stress_event cfg ev s = Some (seen', ks[c := k])" using True k(1) len by (simp add: stress_event_def ev s)
    moreover have "taken (consumers cfg) gone (ev # evs) = ev # taken (consumers cfg) (leavers c g gone) evs"
      using True by (simp add: ev leavers_def)
    ultimately show ?thesis using Cons.IH [OF k(2)] k(3) by simp
  next
    case False
    then have "stress_event cfg ev s = Some s" using inv len by (auto simp: stress_event_def ev s stress_inv_def)
    moreover have "taken (consumers cfg) gone (ev # evs) = taken (consumers cfg) gone evs" using False by (auto simp: ev)
    ultimately show ?thesis using Cons.IH [OF Cons.prems] by simp
  qed
qed auto

lemma sum_of_replicate: "f no_result = 0 \<Longrightarrow> sum_of f (replicate n new_consumer) = 0"
  by (simp add: sum_of_def new_consumer_def)

lemma start_inv:
  assumes "producers cfg \<le> MAX_THREADS"
  shows "stress_inv cfg {} [] (replicate (producers cfg * st_items cfg) False, replicate (consumers cfg) new_consumer) \<and>
    counts_inv cfg [] (replicate (consumers cfg) new_consumer)"
  using assms by (simp add: stress_inv_def counts_inv_def sum_of_replicate no_result_def sorted_last_def) (simp add: new_consumer_def)

lemma length_filter_all: "length (filter P xs) = length xs \<longleftrightarrow> (\<forall>x\<in>set xs. P x)"
  by (metis filter_True length_filter_less order_less_irrefl)

text \<open>Nothing is lost if every place was seen.\<close>

lemma all_seen:
  assumes inv: "stress_inv cfg gone xs (seen, ks)" and valid: "\<forall>i\<in>set (ids_of xs). valid_id cfg i" and N: "st_items cfg \<le> 2 ^ 32" "producers cfg \<le> MAX_THREADS"
  shows "int (producers cfg * st_items cfg) - int (length (filter (\<lambda>b. b) seen)) = 0 \<longleftrightarrow>
    set (ids_of xs) = (\<Union>p<producers cfg. set (producer cfg (\<lambda>_. True) p))"
proof -
  let ?all = "\<Union>p<producers cfg. set (producer cfg (\<lambda>_. True) p)"
  have len: "length seen = producers cfg * st_items cfg" using inv by (simp add: stress_inv_def)
  have ids: "?all = {i. valid_id cfg i}"
  proof (intro set_eqI iffI)
    fix i assume "i \<in> ?all"
    then obtain p q where "p < producers cfg" "q < st_items cfg" "i = make_id p q"
      by (auto simp: producer_def dest!: set_takeWhileD)
    then show "i \<in> {i. valid_id cfg i}"
      using N by (simp add: valid_id_def producer_of_make seq_of_make MAX_THREADS_def)
  next
    fix i assume "i \<in> {i. valid_id cfg i}"
    then show "i \<in> ?all"
      using make_of [of i] by (auto simp: producer_def valid_id_def takeWhile_eq_all_conv [THEN iffD2] intro!: bexI [of _ "producer_of i"] image_eqI)
  qed
  have "length (filter (\<lambda>b. b) seen) \<le> length seen" by simp
  then have "int (producers cfg * st_items cfg) - int (length (filter (\<lambda>b. b) seen)) = 0 \<longleftrightarrow> length (filter (\<lambda>b. b) seen) = length seen"
    using len by (metis eq_iff_diff_eq_0 of_nat_eq_iff)
  also have "\<dots> \<longleftrightarrow> (\<forall>n<length seen. seen ! n)"
    by (simp add: length_filter_all all_set_conv_all_nth)
  also have "\<dots> \<longleftrightarrow> (\<forall>n<producers cfg * st_items cfg. n \<in> place cfg ` set (ids_of xs))"
    using inv valid len by (fastforce simp: stress_inv_def)
  also have "\<dots> \<longleftrightarrow> set (ids_of xs) = {i. valid_id cfg i}"
  proof
    assume all: "\<forall>n<producers cfg * st_items cfg. n \<in> place cfg ` set (ids_of xs)"
    have "i \<in> set (ids_of xs)" if v: "valid_id cfg i" for i
    proof -
      obtain j where "j \<in> set (ids_of xs)" "place cfg i = place cfg j" using all place_less [OF v] by blast
      then show ?thesis using place_inj [OF v] valid by blast
    qed
    then show "set (ids_of xs) = {i. valid_id cfg i}" using valid by blast
  next
    assume all: "set (ids_of xs) = {i. valid_id cfg i}"
    show "\<forall>n<producers cfg * st_items cfg. n \<in> place cfg ` set (ids_of xs)"
    proof (intro allI impI)
      fix n assume n: "n < producers cfg * st_items cfg"
      let ?i = "make_id (n div st_items cfg) (n mod st_items cfg)"
      have "0 < st_items cfg" using n by (cases "st_items cfg") auto
      then have b: "n div st_items cfg < producers cfg" "n mod st_items cfg < st_items cfg"
        using n by (auto simp: less_mult_imp_div_less mult.commute)
      then have p: "producer_of ?i = n div st_items cfg" "seq_of ?i = n mod st_items cfg"
        using N by (auto simp: producer_of_make seq_of_make MAX_THREADS_def)
      then have "valid_id cfg ?i" "place cfg ?i = n" using b by (auto simp: valid_id_def place_def)
      then show "n \<in> place cfg ` set (ids_of xs)" unfolding all by (metis image_eqI mem_Collect_eq)
    qed
  qed
  finally show ?thesis unfolding ids .
qed

definition delivered_well :: "stress_cfg \<Rightarrow> event list \<Rightarrow> bool" where
  "delivered_well cfg xs \<longleftrightarrow>
     distinct (ids_of xs) \<and> set (ids_of xs) = (\<Union>p<producers cfg. set (producer cfg (\<lambda>_. True) p)) \<and>
     (\<forall>ev\<in>set xs. fst (snd ev) \<noteq> Failed \<and> (fst (snd ev) = Closed \<longrightarrow> snd (snd ev))) \<and>
     (\<forall>c<consumers cfg. \<forall>p<producers cfg. sorted_wrt (<) (map seq_of (filter (\<lambda>i. producer_of i = p) (ids_by c xs))))"

lemma ids_by_subset: "set (ids_by c xs) \<subseteq> set (ids_of xs)"
  by (auto simp: ids_by_def ids_of_def)

lemma verdict_well:
  assumes inv: "stress_inv cfg gone xs (seen, ks)" and cnt: "counts_inv cfg xs ks" and N: "st_items cfg \<le> 2 ^ 32" "producers cfg \<le> MAX_THREADS"
  shows "verdict cfg (seen, ks) \<longleftrightarrow> delivered_well cfg xs"
proof (cases "\<forall>i\<in>set (ids_of xs). valid_id cfg i")
  case True
  have "filter (valid_id cfg) (ids_of xs) = ids_of xs" using True by simp
  moreover have "seqs_by cfg c p xs = map seq_of (filter (\<lambda>i. producer_of i = p) (ids_by c xs))" for c p
    using True ids_by_subset [of c xs] unfolding seqs_by_def by (intro arg_cong [of _ _ "map seq_of"] filter_cong) auto
  ultimately show ?thesis
    using all_seen [OF inv True N] cnt True unfolding verdict_def unique_seen_def delivered_well_def counts_inv_def Let_def prod.case by auto
next
  case False
  then have "\<not> verdict cfg (seen, ks)" using cnt by (auto simp: verdict_def counts_inv_def Let_def)
  moreover have "\<not> set (ids_of xs) = (\<Union>p<producers cfg. set (producer cfg (\<lambda>_. True) p))"
  proof
    assume e: "set (ids_of xs) = (\<Union>p<producers cfg. set (producer cfg (\<lambda>_. True) p))"
    obtain i where i: "i \<in> set (ids_of xs)" "\<not> valid_id cfg i" using False by blast
    obtain p q where "p < producers cfg" "q < st_items cfg" "i = make_id p q"
      using i(1) unfolding e by (auto simp: producer_def dest!: set_takeWhileD)
    then show False using i(2) N by (simp add: valid_id_def producer_of_make seq_of_make MAX_THREADS_def)
  qed
  ultimately show ?thesis by (auto simp: delivered_well_def)
qed

text \<open>the stress test stays inside its arrays, and it passes exactly if the queue delivered every item of every
  producer once, nothing else, no error, each consumer saw the items of each producer in the order
  they were put, and no consumer was told that the queue is closed before \<^verbatim>\<open>bq_close\<close> was called.\<close>

theorem stress_verdict:
  assumes "producers cfg \<le> MAX_THREADS" "consumers cfg \<le> MAX_THREADS" "1 \<le> capacity cfg" "st_items cfg \<le> 2 ^ 31"
  shows "run_stress cfg True evs \<noteq> None \<and>
    (run_stress cfg True evs = Some 0 \<longleftrightarrow> delivered_well cfg (taken (consumers cfg) {} evs))"
proof -
  let ?s = "(replicate (producers cfg * st_items cfg) False, replicate (consumers cfg) new_consumer)"
  have st: "stress_inv cfg {} [] ?s" "counts_inv cfg [] (snd ?s)" using start_inv [OF assms(1)] by auto
  obtain s' gone' where s': "stress_events cfg evs ?s = Some s'" "stress_inv cfg gone' (taken (consumers cfg) {} evs) s'"
      "counts_inv cfg (taken (consumers cfg) {} evs) (snd s')"
    using stress_events_inv [OF assms(1) st, of evs] by auto
  have "verdict cfg s' \<longleftrightarrow> delivered_well cfg (taken (consumers cfg) {} evs)"
    using verdict_well [of cfg gone' _ "fst s'" "snd s'"] s' assms by simp
  moreover have "run_stress cfg True evs = Some (if verdict cfg s' then 0 else 1)"
    using assms s'(1) by (simp add: run_stress_def bq_init_def)
  ultimately show ?thesis by simp
qed

definition small_cfg :: stress_cfg where
  "small_cfg = \<lparr>producers = 1, consumers = 2, st_items = 2, capacity = 4, st_flags = 0\<rparr>"

theorem stress_verdict_witness:
  "run_stress small_cfg True [(0, Item 1, False), (1, Item 0, False), (0, Closed, True), (1, Closed, True)] = Some 0 \<and>
   delivered_well small_cfg [(0, Item 1, False), (1, Item 0, False), (0, Closed, True), (1, Closed, True)]"
proof -
  have "run_stress small_cfg True [(0, Item 1, False), (1, Item 0, False), (0, Closed, True), (1, Closed, True)] = Some 0"
    by (simp add: run_stress_def small_cfg_def MAX_THREADS_def bq_init_def stress_event_def consume_def new_consumer_def no_result_def
        producer_of_def seq_of_def verdict_def unique_seen_def sum_of_def Let_def numeral_2_eq_2)
  moreover have "producers small_cfg \<le> MAX_THREADS" "consumers small_cfg \<le> MAX_THREADS" "1 \<le> capacity small_cfg" "st_items small_cfg \<le> 2 ^ 31"
    by (simp_all add: small_cfg_def MAX_THREADS_def)
  ultimately show ?thesis
    using stress_verdict [of small_cfg "[(0, Item 1, False), (1, Item 0, False), (0, Closed, True), (1, Closed, True)]"]
    by (simp add: small_cfg_def)
qed

end
