(* ===== verification/Album.thy ===== *)
theory Album
  imports Text Prelude "HOL-Library.AList" "HOL-Library.Multiset"
begin

text \<open>
  The album of the album service (\<^verbatim>\<open>Week6/Assignment6/concurrency/src/album.c\<close>) and the threads that
  share it in lock mode (\<^verbatim>\<open>albumsvc.c\<close>): scanner workers, the UI thread and the saver. The heap is a list
  of the live strings with their addresses; what \<^verbatim>\<open>malloc\<close> answers is given by the environment. A
  function is \<open>None\<close> when it reads or frees a string that is not live or leaves an array. The threads
  are interleaved with one step per critical section of \<^verbatim>\<open>album_lock\<close>.
\<close>

section \<open>The heap of strings\<close>

type_synonym store = "(nat \<times> string) list"

abbreviation live :: "store \<Rightarrow> nat set" where
  "live st \<equiv> fst ` set st"

definition strdup :: "nat option \<Rightarrow> string \<Rightarrow> store \<Rightarrow> nat option \<times> store" where
  "strdup p str st = (case p of None \<Rightarrow> (None, st) | Some a \<Rightarrow> (Some a, (a, str) # st))"

definition free_string :: "nat option \<Rightarrow> store \<Rightarrow> store option" where
  "free_string p st = (case p of
     None \<Rightarrow> Some st
   | Some a \<Rightarrow> if a \<in> live st then Some (AList.delete a st) else None)"

definition read_string :: "nat option \<Rightarrow> store \<Rightarrow> string option" where
  "read_string p st = (case p of None \<Rightarrow> None | Some a \<Rightarrow> map_of st a)"

section \<open>The album\<close>

definition ALBUM_ITEMS :: nat where "ALBUM_ITEMS = 256"

definition TAB :: char where "TAB = CHR 0x09"

record album_item =
  it_id :: nat
  it_title :: "nat option"
  it_rating :: nat
  it_version :: u64

record album =
  al_items :: "album_item list"
  al_updates :: u64

record album_update =
  u_index :: nat
  u_title :: "nat option"
  u_rating :: nat

text \<open>\<^verbatim>\<open>snprintf\<close> into the buffer of 48 bytes both functions use.\<close>

definition title_text :: "string \<Rightarrow> string" where
  "title_text str = take 47 str"

definition init_item :: "nat option \<Rightarrow> nat \<Rightarrow> album_item list \<times> store \<Rightarrow> album_item list \<times> store" where
  "init_item p i r = (case strdup p (title_text (''track-'' @ pad 3 i)) (snd r) of
     (t, st) \<Rightarrow> (fst r @ [\<lparr>it_id = i, it_title = t, it_rating = 3, it_version = 0\<rparr>], st))"

definition album_init :: "(nat \<Rightarrow> nat option) \<Rightarrow> store \<Rightarrow> album \<times> store" where
  "album_init answers st = (case fold (\<lambda>i. init_item (answers i) i) [0..<ALBUM_ITEMS] ([], st) of
     (items, st') \<Rightarrow> (\<lparr>al_items = items, al_updates = 0\<rparr>, st'))"

fun free_items :: "album_item list \<Rightarrow> store \<Rightarrow> (album_item list \<times> store) option" where
  "free_items [] st = Some ([], st)"
| "free_items (it # its) st = (case free_string (it_title it) st of
     None \<Rightarrow> None
   | Some st' \<Rightarrow> (case free_items its st' of
       None \<Rightarrow> None
     | Some (its', st'') \<Rightarrow> Some (it\<lparr>it_title := None\<rparr> # its', st'')))"

definition album_free :: "album \<Rightarrow> store \<Rightarrow> (album \<times> store) option" where
  "album_free a st = map_option (\<lambda>(its, st'). (a\<lparr>al_items := its\<rparr>, st')) (free_items (al_items a) st)"

text \<open>The album takes the title of the update.\<close>

definition album_apply :: "album \<Rightarrow> album_update \<Rightarrow> store \<Rightarrow> (album \<times> album_update \<times> store) option" where
  "album_apply a u st =
     (if u_index u < length (al_items a) then
        let it = al_items a ! u_index u in
        (case free_string (it_title it) st of
           None \<Rightarrow> None
         | Some st' \<Rightarrow> Some
             (a\<lparr>al_items := (al_items a)[u_index u :=
                 it\<lparr>it_title := u_title u, it_rating := u_rating u, it_version := it_version it + 1\<rparr>],
               al_updates := al_updates a + 1\<rparr>, u\<lparr>u_title := None\<rparr>, st'))
      else None)"

fun draw_items :: "album_item list \<Rightarrow> store \<Rightarrow> u64 \<Rightarrow> u64 option" where
  "draw_items [] st acc = Some acc"
| "draw_items (it # its) st acc = (case read_string (it_title it) st of
     None \<Rightarrow> None
   | Some str \<Rightarrow> draw_items its st (acc * 31 + of_nat (it_rating it) + it_version it + of_nat (length str)))"

definition album_draw :: "album \<Rightarrow> store \<Rightarrow> u64 option" where
  "album_draw a st = draw_items (al_items a) st (al_updates a)"

text \<open>\<open>r1\<close>, \<open>r2\<close>, \<open>r3\<close> are the values of \<^verbatim>\<open>rand_r\<close>; \<open>ok\<close> whether \<^verbatim>\<open>malloc\<close> of the update itself succeeds.\<close>

definition update_make :: "nat \<Rightarrow> nat \<Rightarrow> nat \<Rightarrow> bool \<Rightarrow> nat option \<Rightarrow> store \<Rightarrow> album_update option \<times> store" where
  "update_make r1 r2 r3 ok p st =
     (if \<not> ok then (None, st) else
      let i = r1 mod ALBUM_ITEMS in
      (case strdup p (title_text (''track-'' @ pad 3 i @ ''-rev'' @ dec (r3 mod 100000))) st of
         (t, st') \<Rightarrow> (Some \<lparr>u_index = i, u_title = t, u_rating = 1 + r2 mod 5\<rparr>, st')))"

definition update_free :: "album_update option \<Rightarrow> store \<Rightarrow> store option" where
  "update_free u st = (case u of None \<Rightarrow> Some st | Some v \<Rightarrow> free_string (u_title v) st)"

section \<open>Saving\<close>

definition save_line :: "album_item \<Rightarrow> string \<Rightarrow> string" where
  "save_line it str = dec (it_id it) @ [TAB] @ dec (it_rating it) @ [TAB] @ dec (unat (it_version it)) @ [TAB] @ str @ [LF]"

text \<open>
  The loop of \<^verbatim>\<open>snprintf(buf + len, cap - len, ...)\<close>: \<open>buf\<close> is what has been stored, \<open>len\<close> the sum of
  what \<^verbatim>\<open>snprintf\<close> returned, the length the whole text would have. A \<open>len\<close> beyond \<open>cap\<close> is an access
  outside the buffer. \<^verbatim>\<open>write\<close> takes \<open>len\<close> bytes: after a text that was cut, the terminating zero too.
\<close>

fun save_loop :: "album_item list \<Rightarrow> store \<Rightarrow> nat \<Rightarrow> string \<Rightarrow> nat \<Rightarrow> string option" where
  "save_loop [] st cap buf len = (if len > cap then None else Some (take len (buf @ [CHR 0x00])))"
| "save_loop (it # its) st cap buf len =
     (if len > cap then None else
      case read_string (it_title it) st of
        None \<Rightarrow> None
      | Some str \<Rightarrow> let l = save_line it str in
          save_loop its st cap (buf @ take (cap - len - 1) l) (len + length l))"

definition album_save :: "album \<Rightarrow> store \<Rightarrow> bool \<Rightarrow> bool \<Rightarrow> int \<Rightarrow> (int \<times> string option) option" where
  "album_save a st alloc opened wrote =
     (if \<not> alloc then Some (-1, None) else
      case save_loop (al_items a) st (ALBUM_ITEMS * 96) [] 0 of
        None \<Rightarrow> None
      | Some data \<Rightarrow> if opened then Some (wrote, Some data) else Some (-1, None))"

section \<open>The threads in lock mode\<close>

text \<open>
  Where a worker is in its loop: about to make an update, about to apply it under \<^verbatim>\<open>album_lock\<close>, about
  to free it, or returned.
\<close>

datatype scanner = Scanning | Made album_update | Applied album_update | Returned

record service =
  sv_store :: store
  sv_album :: album
  sv_workers :: "scanner list"
  sv_sent :: nat
  sv_checksum :: u64
  sv_saved :: "string list"
  sv_crashed :: bool

definition service_start :: "nat \<Rightarrow> (nat \<Rightarrow> nat option) \<Rightarrow> service" where
  "service_start n answers = (case album_init answers [] of
     (a, st) \<Rightarrow> \<lparr>sv_store = st, sv_album = a, sv_workers = replicate n Scanning, sv_sent = 0,
       sv_checksum = 0, sv_saved = [], sv_crashed = False\<rparr>)"

definition crash :: "service \<Rightarrow> service" where
  "crash s = s\<lparr>sv_crashed := True\<rparr>"

text \<open>The steps of worker \<open>i\<close>, of the UI thread and of the saver, as functions of the answers of the system.\<close>

definition worker_make :: "nat \<Rightarrow> nat \<times> nat \<times> nat \<Rightarrow> bool \<Rightarrow> nat option \<Rightarrow> service \<Rightarrow> service" where
  "worker_make i r ok p s = (case r of (r1, r2, r3) \<Rightarrow> (case update_make r1 r2 r3 ok p (sv_store s) of
       (None, st) \<Rightarrow> s\<lparr>sv_store := st\<rparr>
     | (Some u, st) \<Rightarrow> s\<lparr>sv_store := st, sv_workers := (sv_workers s)[i := Made u]\<rparr>))"

definition worker_apply :: "nat \<Rightarrow> album_update \<Rightarrow> service \<Rightarrow> service" where
  "worker_apply i u s = (case album_apply (sv_album s) u (sv_store s) of
     None \<Rightarrow> crash s
   | Some (a, u', st) \<Rightarrow> s\<lparr>sv_album := a, sv_store := st, sv_workers := (sv_workers s)[i := Applied u']\<rparr>)"

definition worker_free :: "nat \<Rightarrow> album_update \<Rightarrow> service \<Rightarrow> service" where
  "worker_free i u s = (case update_free (Some u) (sv_store s) of
     None \<Rightarrow> crash s
   | Some st \<Rightarrow> s\<lparr>sv_store := st, sv_sent := sv_sent s + 1, sv_workers := (sv_workers s)[i := Scanning]\<rparr>)"

definition ui_draw :: "service \<Rightarrow> service" where
  "ui_draw s = (case album_draw (sv_album s) (sv_store s) of
     None \<Rightarrow> crash s
   | Some v \<Rightarrow> s\<lparr>sv_checksum := sv_checksum s + v\<rparr>)"

definition saver_save :: "bool \<Rightarrow> bool \<Rightarrow> int \<Rightarrow> service \<Rightarrow> service" where
  "saver_save alloc opened wrote s = (case album_save (sv_album s) (sv_store s) alloc opened wrote of
     None \<Rightarrow> crash s
   | Some (r, None) \<Rightarrow> s
   | Some (r, Some data) \<Rightarrow> s\<lparr>sv_saved := sv_saved s @ [data]\<rparr>)"

text \<open>
  \<open>oom\<close> says whether \<^verbatim>\<open>strdup\<close> may fail. An address that is answered is of no live string.
\<close>

inductive astep :: "bool \<Rightarrow> service \<Rightarrow> service \<Rightarrow> bool" for oom where
  make: "i < length (sv_workers s) \<Longrightarrow> sv_workers s ! i = Scanning \<Longrightarrow>
     (case p of None \<Rightarrow> oom | Some a \<Rightarrow> a \<notin> live (sv_store s)) \<Longrightarrow> astep oom s (worker_make i r ok p s)"
| apply_update: "i < length (sv_workers s) \<Longrightarrow> sv_workers s ! i = Made u \<Longrightarrow> astep oom s (worker_apply i u s)"
| release: "i < length (sv_workers s) \<Longrightarrow> sv_workers s ! i = Applied u \<Longrightarrow> astep oom s (worker_free i u s)"
| return: "i < length (sv_workers s) \<Longrightarrow> sv_workers s ! i = Scanning \<Longrightarrow>
     astep oom s (s\<lparr>sv_workers := (sv_workers s)[i := Returned]\<rparr>)"
| draw: "astep oom s (ui_draw s)"
| save: "astep oom s (saver_save alloc opened wrote s)"

inductive areach :: "bool \<Rightarrow> service \<Rightarrow> service \<Rightarrow> bool" for oom s0 where
  start: "areach oom s0 s0"
| more: "areach oom s0 s \<Longrightarrow> astep oom s s' \<Longrightarrow> areach oom s0 s'"

section \<open>Ownership\<close>

text \<open>Every live string has exactly one owner: an item of the album or the update a worker holds.\<close>

definition addr :: "nat option \<Rightarrow> nat list" where
  "addr p = (case p of None \<Rightarrow> [] | Some a \<Rightarrow> [a])"

definition pend :: "scanner \<Rightarrow> nat list" where
  "pend w = (case w of Made u \<Rightarrow> addr (u_title u) | Applied u \<Rightarrow> addr (u_title u) | _ \<Rightarrow> [])"

abbreviation owns :: "album_item \<Rightarrow> nat list" where
  "owns it \<equiv> addr (it_title it)"

definition owned :: "service \<Rightarrow> nat list" where
  "owned s = concat (map owns (al_items (sv_album s))) @ concat (map pend (sv_workers s))"

definition heap_ok :: "store \<Rightarrow> nat multiset \<Rightarrow> bool" where
  "heap_ok st owners \<longleftrightarrow> distinct (map fst st) \<and> mset (map fst st) = owners"

definition string_ok :: "string \<Rightarrow> bool" where
  "string_ok str \<longleftrightarrow> length str \<le> 47 \<and> TAB \<notin> set str \<and> LF \<notin> set str"

definition item_ok :: "album_item \<Rightarrow> bool" where
  "item_ok it \<longleftrightarrow> it_title it \<noteq> None \<and> it_rating it \<le> 5"

definition worker_ok :: "scanner \<Rightarrow> bool" where
  "worker_ok w = (case w of
     Made u \<Rightarrow> u_index u < ALBUM_ITEMS \<and> u_title u \<noteq> None \<and> u_rating u \<le> 5
   | Applied u \<Rightarrow> u_title u = None
   | _ \<Rightarrow> True)"

definition album_inv :: "service \<Rightarrow> bool" where
  "album_inv s \<longleftrightarrow> heap_ok (sv_store s) (mset (owned s)) \<and> (\<forall>(a, str)\<in>set (sv_store s). string_ok str) \<and>
     map it_id (al_items (sv_album s)) = [0..<ALBUM_ITEMS] \<and> (\<forall>it\<in>set (al_items (sv_album s)). item_ok it) \<and>
     (\<forall>w\<in>set (sv_workers s). worker_ok w) \<and> \<not> sv_crashed s"

lemma addr_simps [simp]: "addr None = []" "addr (Some a) = [a]"
  by (simp_all add: addr_def)

lemma pend_simps [simp]: "pend Scanning = []" "pend Returned = []" "pend (Made u) = addr (u_title u)" "pend (Applied u) = addr (u_title u)"
  by (simp_all add: pend_def)

lemma mset_concat_update:
  "i < length xs \<Longrightarrow> mset (concat (map f (xs[i := y]))) + mset (f (xs ! i)) = mset (concat (map f xs)) + mset (f y)"
  by (induction xs arbitrary: i) (auto split: nat.splits)

lemma mset_move: "A' + old = A + new \<Longrightarrow> W' + new = W \<Longrightarrow> A + W = A' + W' + (old :: 'a multiset)"
  by (metis add.assoc add.commute)

lemma mset_concat_member: "x \<in> set xs \<Longrightarrow> mset (f x) \<subseteq># mset (concat (map f xs))"
  by (induction xs) (auto intro: subset_mset.add_increasing)

lemma delete_mset: "distinct (map fst st) \<Longrightarrow> a \<in> live st \<Longrightarrow> mset (map fst st) = add_mset a (mset (map fst (AList.delete a st)))"
proof (induction st)
  case (Cons e st)
  have "AList.delete a st = st" if "a \<notin> live st" using that by (simp add: delete_idem)
  with Cons show ?case by auto
qed simp

lemma heap_strdup: "heap_ok st m \<Longrightarrow> a \<notin> live st \<Longrightarrow> heap_ok ((a, str) # st) (add_mset a m)"
  by (auto simp: heap_ok_def)

lemma heap_free:
  assumes "heap_ok st (m + mset (addr p))"
  obtains st' where "free_string p st = Some st'" "heap_ok st' m" "set st' \<subseteq> set st"
proof (cases p)
  case None
  then show ?thesis using assms that by (auto simp: free_string_def)
next
  case (Some a)
  then have "a \<in># mset (map fst st)" using assms by (simp add: heap_ok_def)
  then have live: "a \<in> live st" by simp
  have "heap_ok (AList.delete a st) m"
    using assms Some delete_mset [OF _ live] by (auto simp: heap_ok_def distinct_delete)
  moreover have "set (AList.delete a st) \<subseteq> set st" by (auto simp: AList.delete_eq)
  ultimately show ?thesis using that Some live by (simp add: free_string_def)
qed

lemma heap_read: "heap_ok st m \<Longrightarrow> p \<noteq> None \<Longrightarrow> set (addr p) \<subseteq> set_mset m \<Longrightarrow> \<exists>str. read_string p st = Some str \<and> (the p, str) \<in> set st"
proof -
  assume a: "heap_ok st m" "p \<noteq> None" "set (addr p) \<subseteq> set_mset m"
  then obtain q where p: "p = Some q" "q \<in># mset (map fst st)" by (auto simp: heap_ok_def)
  then have "q \<in> live st" by simp
  then obtain str where "map_of st q = Some str" by (metis map_of_eq_None_iff not_None_eq)
  then show ?thesis using p map_of_SomeD by (fastforce simp: read_string_def)
qed

section \<open>The operations keep the ownership\<close>

lemma is_digit_not: "is_digit TAB = False" "is_digit LF = False"
  by (simp_all add: is_digit_def TAB_def LF_def)

lemma string_ok_digits: "(\<And>c. c \<in> set str \<Longrightarrow> c \<in> set ''track-rev'' \<or> is_digit c) \<Longrightarrow> string_ok (title_text str)"
proof -
  assume *: "\<And>c. c \<in> set str \<Longrightarrow> c \<in> set ''track-rev'' \<or> is_digit c"
  have "TAB \<notin> set ''track-rev''" "LF \<notin> set ''track-rev''" by (simp_all add: TAB_def LF_def)
  then have "TAB \<notin> set str" "LF \<notin> set str" using * is_digit_not by blast+
  then show ?thesis by (auto simp: string_ok_def title_text_def dest: in_set_takeD)
qed

lemma titles_ok: "string_ok (title_text (''track-'' @ pad 3 i))" "string_ok (title_text (''track-'' @ pad 3 i @ ''-rev'' @ dec n))"
  by (rule string_ok_digits, auto dest: pad_digits dec_digits)+

lemma album_invD:
  assumes "album_inv s"
  shows "heap_ok (sv_store s) (mset (owned s))" "\<And>a str. (a, str) \<in> set (sv_store s) \<Longrightarrow> string_ok str"
    "map it_id (al_items (sv_album s)) = [0..<ALBUM_ITEMS]" "\<And>it. it \<in> set (al_items (sv_album s)) \<Longrightarrow> item_ok it"
    "\<And>w. w \<in> set (sv_workers s) \<Longrightarrow> worker_ok w" "\<not> sv_crashed s"
  using assms unfolding album_inv_def by auto

lemma album_length: "album_inv s \<Longrightarrow> length (al_items (sv_album s)) = ALBUM_ITEMS"
  using album_invD(3) length_map length_upt by (metis diff_zero)

lemma workers_update:
  assumes "i < length ws" "\<forall>w\<in>set ws. worker_ok w" "worker_ok w"
  shows "\<forall>w\<in>set (ws[i := w]). worker_ok w"
  using assms set_update_subset_insert [of ws i w] by blast

lemma make_keeps:
  assumes inv: "album_inv s" and i: "i < length (sv_workers s)" "sv_workers s ! i = Scanning"
    and p: "case p of None \<Rightarrow> False | Some a \<Rightarrow> a \<notin> live (sv_store s)"
  shows "album_inv (worker_make i r ok p s)"
proof -
  obtain a where a: "p = Some a" "a \<notin> live (sv_store s)" using p by (cases p) auto
  obtain r1 r2 r3 where r: "r = (r1, r2, r3)" by (cases r)
  show ?thesis
  proof (cases ok)
    case True
    let ?str = "title_text (''track-'' @ pad 3 (r1 mod ALBUM_ITEMS) @ ''-rev'' @ dec (r3 mod 100000))"
    let ?u = "\<lparr>u_index = r1 mod ALBUM_ITEMS, u_title = Some a, u_rating = 1 + r2 mod 5\<rparr>"
    let ?s = "s\<lparr>sv_store := (a, ?str) # sv_store s, sv_workers := (sv_workers s)[i := Made ?u]\<rparr>"
    have s: "worker_make i r ok p s = ?s"
      using True by (simp add: worker_make_def update_make_def r a strdup_def Let_def)
    have "mset (owned ?s) = add_mset a (mset (owned s))"
      using mset_concat_update [of i "sv_workers s" pend "Made ?u"] i by (simp add: owned_def)
    then have "heap_ok (sv_store ?s) (mset (owned ?s))"
      using heap_strdup [OF album_invD(1) [OF inv] a(2)] by simp
    moreover have "r2 mod 5 < 5" "r1 mod ALBUM_ITEMS < ALBUM_ITEMS" by (simp_all add: ALBUM_ITEMS_def)
    then have "1 + r2 mod 5 \<le> 5" "r1 mod ALBUM_ITEMS < ALBUM_ITEMS" by linarith+
    then have u: "worker_ok (Made ?u)" by (simp only: worker_ok_def scanner.case album_update.simps option.distinct not_False_eq_True simp_thms)
    have "\<forall>w\<in>set ((sv_workers s)[i := Made ?u]). worker_ok w"
      by (rule workers_update [OF i(1) _ u]) (use album_invD(5) [OF inv] in blast)
    ultimately show ?thesis unfolding s album_inv_def using album_invD [OF inv] titles_ok(2) by auto
  next
    case False
    then show ?thesis using inv by (simp add: worker_make_def update_make_def r album_inv_def owned_def)
  qed
qed

lemma apply_keeps:
  assumes inv: "album_inv s" and i: "i < length (sv_workers s)" "sv_workers s ! i = Made u"
  shows "album_inv (worker_apply i u s)"
proof -
  let ?its = "al_items (sv_album s)" and ?k = "u_index u"
  have u: "?k < ALBUM_ITEMS" "u_title u \<noteq> None" "u_rating u \<le> 5"
    using album_invD(5) [OF inv] i nth_mem by (fastforce simp: worker_ok_def)+
  then have k: "?k < length ?its" using album_length [OF inv] by simp
  let ?it = "?its ! ?k"
  let ?it' = "?it\<lparr>it_title := u_title u, it_rating := u_rating u, it_version := it_version ?it + 1\<rparr>"
  let ?a = "(sv_album s)\<lparr>al_items := ?its[?k := ?it'], al_updates := al_updates (sv_album s) + 1\<rparr>"
  let ?s = "\<lambda>st. s\<lparr>sv_album := ?a, sv_store := st, sv_workers := (sv_workers s)[i := Applied (u\<lparr>u_title := None\<rparr>)]\<rparr>"
  have items: "mset (concat (map owns (?its[?k := ?it']))) + mset (owns ?it) = mset (concat (map owns ?its)) + mset (addr (u_title u))"
    using mset_concat_update [OF k, of owns ?it'] by simp
  have held: "mset (concat (map pend ((sv_workers s)[i := Applied (u\<lparr>u_title := None\<rparr>)]))) + mset (addr (u_title u)) =
      mset (concat (map pend (sv_workers s)))"
    using mset_concat_update [OF i(1), of pend "Applied (u\<lparr>u_title := None\<rparr>)"] i(2) by simp
  have own: "mset (owned s) = mset (owned (?s st)) + mset (owns ?it)" for st
    using mset_move [OF items held] by (simp add: owned_def)
  obtain st' where st': "free_string (it_title ?it) (sv_store s) = Some st'" "heap_ok st' (mset (owned (?s [])))" "set st' \<subseteq> set (sv_store s)"
    using heap_free album_invD(1) [OF inv] own [of "[]"] by metis
  have s: "worker_apply i u s = ?s st'" using k st'(1) by (simp add: worker_apply_def album_apply_def Let_def)
  have "owned (?s st') = owned (?s [])" by (simp add: owned_def)
  moreover have "map it_id (?its[?k := ?it']) = [0..<ALBUM_ITEMS]"
    using album_invD(3) [OF inv] k by (simp add: map_update) (metis length_map list_update_id nth_map)
  moreover have "\<forall>it\<in>set (?its[?k := ?it']). item_ok it"
    using album_invD(4) [OF inv] u set_update_subset_insert [of ?its ?k ?it'] by (auto simp: item_ok_def)
  moreover have "\<forall>w\<in>set ((sv_workers s)[i := Applied (u\<lparr>u_title := None\<rparr>)]). worker_ok w"
    using inv i(1) by (intro workers_update) (auto simp: album_inv_def worker_ok_def)
  ultimately show ?thesis
    unfolding s album_inv_def using st'(2,3) album_invD(2,6) [OF inv] by auto
qed

lemma release_keeps:
  assumes inv: "album_inv s" and i: "i < length (sv_workers s)" "sv_workers s ! i = Applied u"
  shows "album_inv (worker_free i u s)"
proof -
  have u: "u_title u = None" using album_invD(5) [OF inv] i nth_mem by (fastforce simp: worker_ok_def)
  let ?s = "s\<lparr>sv_sent := sv_sent s + 1, sv_workers := (sv_workers s)[i := Scanning]\<rparr>"
  have s: "worker_free i u s = ?s" using u by (simp add: worker_free_def update_free_def free_string_def)
  have "mset (owned ?s) = mset (owned s)"
    using mset_concat_update [OF i(1), of pend Scanning] i(2) u by (simp add: owned_def)
  moreover have "\<forall>w\<in>set ((sv_workers s)[i := Scanning]). worker_ok w"
    using inv i(1) by (intro workers_update) (auto simp: album_inv_def worker_ok_def)
  ultimately show ?thesis unfolding s using inv by (simp add: album_inv_def)
qed

lemma return_keeps:
  assumes inv: "album_inv s" and i: "i < length (sv_workers s)" "sv_workers s ! i = Scanning"
  shows "album_inv (s\<lparr>sv_workers := (sv_workers s)[i := Returned]\<rparr>)"
proof -
  have "mset (owned (s\<lparr>sv_workers := (sv_workers s)[i := Returned]\<rparr>)) = mset (owned s)"
    using mset_concat_update [OF i(1), of pend Returned] i(2) by (simp add: owned_def)
  moreover have "\<forall>w\<in>set ((sv_workers s)[i := Returned]). worker_ok w"
    using inv i(1) by (intro workers_update) (auto simp: album_inv_def worker_ok_def)
  ultimately show ?thesis using inv by (simp add: album_inv_def)
qed

text \<open>Every title of the album can be read.\<close>

lemma title_readable:
  assumes inv: "album_inv s" and it: "it \<in> set (al_items (sv_album s))"
  obtains str where "read_string (it_title it) (sv_store s) = Some str" "string_ok str"
proof -
  have "set (owns it) \<subseteq> set (owned s)" using it by (auto simp: owned_def)
  moreover have "it_title it \<noteq> None" using album_invD(4) [OF inv it] by (simp add: item_ok_def)
  ultimately show ?thesis
    using heap_read [OF album_invD(1) [OF inv], of "it_title it"] album_invD(2) [OF inv] that by auto
qed

lemma draw_some: "(\<And>it. it \<in> set its \<Longrightarrow> read_string (it_title it) st \<noteq> None) \<Longrightarrow> draw_items its st acc \<noteq> None"
  by (induction its arbitrary: acc) (auto split: option.splits)

lemma draw_keeps: "album_inv s \<Longrightarrow> album_inv (ui_draw s)"
proof -
  assume inv: "album_inv s"
  have "album_draw (sv_album s) (sv_store s) \<noteq> None"
    unfolding album_draw_def using title_readable [OF inv] by (intro draw_some) (metis option.distinct(1))
  then show ?thesis using inv by (auto simp: ui_draw_def album_inv_def owned_def)
qed

section \<open>The saved file\<close>

text \<open>What an album prints as, when no buffer is in the way.\<close>

definition album_text :: "album_item list \<Rightarrow> store \<Rightarrow> string" where
  "album_text its st = concat (map (\<lambda>it. save_line it (the (read_string (it_title it) st))) its)"

lemma save_line_length:
  assumes "it_id it < 1000" "it_rating it \<le> 5" "length str \<le> 47"
  shows "length (save_line it str) \<le> 75"
proof -
  have "unat (it_version it) < 10 ^ 20" using unsigned_less [of "it_version it", where 'a = nat] by simp
  then have "length (dec (unat (it_version it))) \<le> 20" by (intro length_dec) simp_all
  moreover have "length (dec (it_id it)) \<le> 3" "length (dec (it_rating it)) \<le> 1"
    using assms by (intro length_dec; simp)+
  ultimately show ?thesis using assms(3) by (simp add: save_line_def)
qed

lemma save_loop_text:
  assumes "\<And>it. it \<in> set its \<Longrightarrow> \<exists>str. read_string (it_title it) st = Some str \<and> length (save_line it str) \<le> 75"
    and "length buf + 75 * length its < cap"
  shows "save_loop its st cap buf (length buf) = Some (buf @ album_text its st)"
  using assms
proof (induction its arbitrary: buf)
  case Nil
  then show ?case by (simp add: album_text_def)
next
  case (Cons it its)
  obtain str where str: "read_string (it_title it) st = Some str" "length (save_line it str) \<le> 75"
    using Cons.prems(1) [of it] by auto
  have "take (cap - length buf - 1) (save_line it str) = save_line it str" using str(2) Cons.prems(2) by simp
  moreover have "save_loop its st cap (buf @ save_line it str) (length (buf @ save_line it str)) = Some ((buf @ save_line it str) @ album_text its st)"
    by (rule Cons.IH) (use Cons.prems str(2) in auto)
  ultimately show ?case using Cons.prems(2) str(1) by (simp add: album_text_def Let_def)
qed

lemma save_data:
  assumes inv: "album_inv s"
  shows "save_loop (al_items (sv_album s)) (sv_store s) (ALBUM_ITEMS * 96) [] 0 =
    Some (album_text (al_items (sv_album s)) (sv_store s))"
proof -
  let ?its = "al_items (sv_album s)"
  have "\<exists>str. read_string (it_title it) (sv_store s) = Some str \<and> length (save_line it str) \<le> 75" if it: "it \<in> set ?its" for it
  proof -
    obtain str where str: "read_string (it_title it) (sv_store s) = Some str" "string_ok str"
      using title_readable [OF inv it] .
    have "it_id it \<in> set [0..<ALBUM_ITEMS]" using it album_invD(3) [OF inv] by (metis image_eqI set_map)
    then have "it_id it < 1000" by (simp add: ALBUM_ITEMS_def)
    then show ?thesis
      using str album_invD(4) [OF inv it] save_line_length [of it str] by (auto simp: item_ok_def string_ok_def)
  qed
  then show ?thesis
    using save_loop_text [of ?its "sv_store s" "[]" "ALBUM_ITEMS * 96"] album_length [OF inv] by (simp add: ALBUM_ITEMS_def)
qed

lemma save_keeps: "album_inv s \<Longrightarrow> album_inv (saver_save alloc opened wrote s)"
  using save_data [of s] by (auto simp: saver_save_def album_save_def album_inv_def owned_def)

lemma astep_keeps: "astep False s s' \<Longrightarrow> album_inv s \<Longrightarrow> album_inv s'"
  by (induction rule: astep.induct) (auto intro: make_keeps apply_keeps release_keeps return_keeps draw_keeps save_keeps)

section \<open>From start to end\<close>

text \<open>At the start \<^verbatim>\<open>strdup\<close> succeeds for every title, each time with another address.\<close>

definition fresh_titles :: "(nat \<Rightarrow> nat option) \<Rightarrow> bool" where
  "fresh_titles answers \<longleftrightarrow> distinct (map answers [0..<ALBUM_ITEMS]) \<and> None \<notin> set (map answers [0..<ALBUM_ITEMS])"

lemma init_item_some:
  "init_item (Some a) i (its, st) =
    (its @ [\<lparr>it_id = i, it_title = Some a, it_rating = 3, it_version = 0\<rparr>], (a, title_text (''track-'' @ pad 3 i)) # st)"
  by (simp add: init_item_def strdup_def)

lemma init_fold:
  assumes "distinct (map answers [0..<n])" "None \<notin> set (map answers [0..<n])"
    and "fold (\<lambda>i. init_item (answers i) i) [0..<n] ([], []) = (items, st)"
  shows "map it_id items = [0..<n] \<and> (\<forall>it\<in>set items. item_ok it) \<and> heap_ok st (mset (concat (map owns items))) \<and>
    (\<forall>(a, str)\<in>set st. string_ok str) \<and> live st = the ` answers ` {..<n}"
  using assms
proof (induction n arbitrary: items st)
  case 0
  then show ?case by (simp add: heap_ok_def)
next
  case (Suc n)
  obtain its st0 where r: "fold (\<lambda>i. init_item (answers i) i) [0..<n] ([], []) = (its, st0)" by fastforce
  obtain a where a: "answers n = Some a" using Suc.prems(2) by (cases "answers n") auto
  have IH: "map it_id its = [0..<n] \<and> (\<forall>it\<in>set its. item_ok it) \<and> heap_ok st0 (mset (concat (map owns its))) \<and>
    (\<forall>(a, str)\<in>set st0. string_ok str) \<and> live st0 = the ` answers ` {..<n}"
    using Suc.prems(1,2) r by (intro Suc.IH) auto
  have "a \<notin> the ` answers ` {..<n}"
  proof
    assume "a \<in> the ` answers ` {..<n}"
    then obtain j where j: "j < n" "a = the (answers j)" by auto
    then have "answers j = Some a" using Suc.prems(2) by (cases "answers j") force+
    moreover have "answers n \<notin> answers ` {0..<n}" using Suc.prems(1) by simp
    ultimately show False using a j(1) by (metis atLeastLessThan_iff imageI zero_le)
  qed
  then have new: "a \<notin> live st0" using IH by simp
  have "items = its @ [\<lparr>it_id = n, it_title = Some a, it_rating = 3, it_version = 0\<rparr>]"
      "st = (a, title_text (''track-'' @ pad 3 n)) # st0"
    using Suc.prems(3) r init_item_some [of a n its st0] by (simp_all add: a)
  then show ?case
    using IH heap_strdup [OF _ new] titles_ok(1) [of n] a
    by (auto simp: item_ok_def lessThan_Suc simp del: pad.simps)
qed

lemma album_start_inv:
  assumes "fresh_titles answers"
  shows "album_inv (service_start n answers)" "live (sv_store (service_start n answers)) = the ` answers ` {..<ALBUM_ITEMS}"
    "sv_workers (service_start n answers) = replicate n Scanning"
proof -
  obtain its st where r: "fold (\<lambda>i. init_item (answers i) i) [0..<ALBUM_ITEMS] ([], []) = (its, st)" by fastforce
  note init = init_fold [OF _ _ r]
  have pend: "concat (map pend (replicate n Scanning)) = []" by (induction n) auto
  show "album_inv (service_start n answers)"
    using init assms pend by (auto simp: service_start_def album_init_def r fresh_titles_def album_inv_def owned_def worker_ok_def)
  show "live (sv_store (service_start n answers)) = the ` answers ` {..<ALBUM_ITEMS}"
    using init assms by (auto simp: service_start_def album_init_def r fresh_titles_def)
  show "sv_workers (service_start n answers) = replicate n Scanning"
    by (simp add: service_start_def album_init_def r)
qed

lemma areach_inv: "areach False s0 s \<Longrightarrow> album_inv s0 \<Longrightarrow> album_inv s"
  by (induction rule: areach.induct) (auto intro: astep_keeps)

lemma free_items_all:
  "heap_ok st (m + mset (concat (map owns its))) \<Longrightarrow> \<exists>its' st'. free_items its st = Some (its', st') \<and> heap_ok st' m"
proof (induction its arbitrary: st)
  case (Cons it its)
  have "heap_ok st ((m + mset (concat (map owns its))) + mset (owns it))" using Cons.prems by (simp add: ac_simps)
  then obtain st1 where "free_string (it_title it) st = Some st1" "heap_ok st1 (m + mset (concat (map owns its)))"
    by (rule heap_free)
  then show ?case using Cons.IH by fastforce
qed simp

text \<open>C13: The album in lock mode. In every interleaving of any number of scanner workers with the UI thread
  and the saver, no thread reads or frees a title that has been freed and none leaves an array; and when the
  workers have returned, \<^verbatim>\<open>album_free\<close> leaves no string behind: nothing is lost and nothing freed twice.
  It is assumed that \<^verbatim>\<open>strdup\<close> does not fail.\<close>

theorem album_no_leak:
  assumes "fresh_titles answers" "areach False (service_start n answers) s"
  shows "\<not> sv_crashed s \<and> ((\<forall>w\<in>set (sv_workers s). w = Returned) \<longrightarrow>
    (\<exists>a. album_free (sv_album s) (sv_store s) = Some (a, [])))"
proof (intro conjI impI)
  have inv: "album_inv s" by (rule areach_inv [OF assms(2) album_start_inv(1) [OF assms(1)]])
  then show "\<not> sv_crashed s" by (rule album_invD)
  assume returned: "\<forall>w\<in>set (sv_workers s). w = Returned"
  then have none: "concat (map pend (sv_workers s)) = []" by auto
  have "heap_ok (sv_store s) ({#} + mset (concat (map owns (al_items (sv_album s)))))"
    using album_invD(1) [OF inv] unfolding owned_def none by simp
  from free_items_all [OF this] show "\<exists>a. album_free (sv_album s) (sv_store s) = Some (a, [])"
    by (auto simp: album_free_def heap_ok_def)
qed

section \<open>Reading a saved file\<close>

fun fields :: "char \<Rightarrow> string \<Rightarrow> string list" where
  "fields c [] = [[]]"
| "fields c (x # xs) = (if x = c then [] # fields c xs else (case fields c xs of f # fs \<Rightarrow> (x # f) # fs))"

definition read_save :: "string \<Rightarrow> (nat \<times> nat \<times> nat \<times> string) list" where
  "read_save str = map (\<lambda>l. case fields TAB l of [a, b, c, d] \<Rightarrow> (num a, num b, num c, d)) (butlast (fields LF str))"

lemma fields_not_Nil [simp]: "fields c xs \<noteq> []"
  by (induction xs) (auto split: list.splits)

lemma fields_one: "c \<notin> set xs \<Longrightarrow> fields c xs = [xs]"
  by (induction xs) auto

lemma fields_sep: "c \<notin> set xs \<Longrightarrow> fields c (xs @ c # ys) = xs # fields c ys"
  by (induction xs) auto

lemma dec_no_sep: "TAB \<notin> set (dec n)" "LF \<notin> set (dec n)"
  using dec_digits is_digit_not by blast+

lemma TAB_LF [simp]: "TAB \<noteq> LF" "LF \<noteq> TAB"
  by (simp_all add: TAB_def LF_def)

definition item_row :: "album_item \<Rightarrow> string \<Rightarrow> nat \<times> nat \<times> nat \<times> string" where
  "item_row it str = (it_id it, it_rating it, unat (it_version it), str)"

lemma read_save_append:
  assumes "string_ok str"
  shows "read_save (save_line it str @ rest) = item_row it str # read_save rest"
proof -
  let ?l = "dec (it_id it) @ TAB # dec (it_rating it) @ TAB # dec (unat (it_version it)) @ TAB # str"
  have "LF \<notin> set ?l" using assms dec_no_sep by (auto simp: string_ok_def)
  then have "fields LF (save_line it str @ rest) = ?l # fields LF rest"
    using fields_sep [of LF ?l rest] by (simp add: save_line_def)
  moreover have "fields TAB ?l = [dec (it_id it), dec (it_rating it), dec (unat (it_version it)), str]"
    using assms dec_no_sep(1) by (simp add: fields_sep fields_one string_ok_def)
  ultimately show ?thesis by (simp add: read_save_def item_row_def)
qed

lemma read_album_text:
  "(\<And>it. it \<in> set its \<Longrightarrow> \<exists>str. read_string (it_title it) st = Some str \<and> string_ok str) \<Longrightarrow>
   read_save (album_text its st) = map (\<lambda>it. item_row it (the (read_string (it_title it) st))) its"
proof (induction its)
  case Nil
  then show ?case by (simp add: album_text_def read_save_def)
next
  case (Cons it its)
  obtain str where "read_string (it_title it) st = Some str" "string_ok str" using Cons.prems by auto
  then show ?case using Cons read_save_append by (auto simp: album_text_def)
qed

text \<open>C23: What a save writes. In every reachable state the serialisation stays inside its buffer and is not
  cut off; what is handed to \<^verbatim>\<open>write\<close> reads back, line by line, as the number, rating, version and title of
  every item of the album, in order.\<close>

theorem album_save_exact:
  assumes "fresh_titles answers" "areach False (service_start n answers) s"
  shows "\<exists>data. album_save (sv_album s) (sv_store s) True True wrote = Some (wrote, Some data) \<and>
    read_save data = map (\<lambda>it. item_row it (the (read_string (it_title it) (sv_store s)))) (al_items (sv_album s)) \<and>
    length (al_items (sv_album s)) = ALBUM_ITEMS"
proof -
  have inv: "album_inv s" by (rule areach_inv [OF assms(2) album_start_inv(1) [OF assms(1)]])
  have "read_save (album_text (al_items (sv_album s)) (sv_store s)) =
      map (\<lambda>it. item_row it (the (read_string (it_title it) (sv_store s)))) (al_items (sv_album s))"
    using title_readable [OF inv] by (intro read_album_text) metis
  then show ?thesis using save_data [OF inv] album_length [OF inv] by (simp add: album_save_def)
qed

section \<open>A run, and a run without memory\<close>

definition solo :: service where
  "solo = service_start 1 Some"

lemma fresh_Some: "fresh_titles Some"
  by (auto simp: fresh_titles_def distinct_map)

text \<open>One worker makes an update at a new address and applies it.\<close>

lemma one_update:
  obtains s where "areach False solo s" "sv_workers s = [Scanning]" "sv_sent s = 1"
proof -
  let ?s0 = "solo"
  let ?str = "title_text (''track-'' @ pad 3 (5 mod ALBUM_ITEMS) @ ''-rev'' @ dec (7 mod 100000))"
  let ?u = "\<lparr>u_index = 5 mod ALBUM_ITEMS, u_title = Some 1000, u_rating = 1 + 0 mod 5\<rparr>"
  let ?s1 = "worker_make 0 (5, 0, 7) True (Some 1000) ?s0"
  have new: "(1000 :: nat) \<notin> live (sv_store ?s0)"
    using album_start_inv(2) [OF fresh_Some, of 1, folded solo_def] by (auto simp: ALBUM_ITEMS_def)
  have w0: "sv_workers ?s0 = [Scanning]" using album_start_inv(3) [OF fresh_Some, of 1, folded solo_def] by simp
  have sent0: "sv_sent ?s0 = 0" by (simp add: solo_def service_start_def split: prod.splits)
  have s1: "?s1 = ?s0\<lparr>sv_store := (1000, ?str) # sv_store ?s0, sv_workers := [Made ?u]\<rparr>"
    using w0 by (simp add: worker_make_def update_make_def strdup_def Let_def)
  have step1: "astep False ?s0 ?s1" by (rule astep.make) (use w0 new in simp_all)
  then have inv1: "album_inv ?s1" by (rule astep_keeps) (rule album_start_inv(1) [OF fresh_Some, of 1, folded solo_def])
  have step2: "astep False ?s1 (worker_apply 0 ?u ?s1)" by (rule astep.apply_update) (simp_all add: s1)
  then have "album_inv (worker_apply 0 ?u ?s1)" by (rule astep_keeps) (rule inv1)
  then obtain a u' st where ap: "album_apply (sv_album ?s1) ?u (sv_store ?s1) = Some (a, u', st)"
    by (cases "album_apply (sv_album ?s1) ?u (sv_store ?s1)") (auto simp: worker_apply_def crash_def album_inv_def)
  then have u': "u_title u' = None" by (auto simp: album_apply_def Let_def split: if_splits option.splits)
  let ?s2 = "?s1\<lparr>sv_album := a, sv_store := st, sv_workers := [Applied u']\<rparr>"
  have s2: "worker_apply 0 ?u ?s1 = ?s2" using ap by (simp add: worker_apply_def s1)
  have step3: "astep False ?s2 (worker_free 0 u' ?s2)" by (rule astep.release) simp_all
  have s3: "worker_free 0 u' ?s2 = ?s2\<lparr>sv_sent := 1, sv_workers := [Scanning]\<rparr>"
    using u' sent0 by (simp add: worker_free_def update_free_def free_string_def s1)
  have "areach False ?s0 (worker_free 0 u' ?s2)"
    using step1 step2 step3 unfolding s2 by (meson areach.intros)
  then show ?thesis using that unfolding s3 by simp
qed

theorem album_no_leak_witness:
  "\<exists>s a. areach False solo s \<and> sv_sent s = 1 \<and> sv_workers s = [Returned] \<and> \<not> sv_crashed s \<and>
     album_free (sv_album s) (sv_store s) = Some (a, [])"
proof -
  obtain s where s: "areach False solo s" "sv_workers s = [Scanning]" "sv_sent s = 1" by (rule one_update)
  let ?s = "s\<lparr>sv_workers := [Returned]\<rparr>"
  have "astep False s (s\<lparr>sv_workers := (sv_workers s)[0 := Returned]\<rparr>)" by (rule astep.return) (use s in simp_all)
  then have reach: "areach False solo ?s" using s by (auto intro: areach.more)
  from album_no_leak [OF fresh_Some reach [unfolded solo_def]] reach show ?thesis using s(3) by fastforce
qed

theorem album_save_exact_witness:
  "\<exists>(s :: service) data. sv_sent s = 1 \<and> album_save (sv_album s) (sv_store s) True True 7 = Some (7, Some data) \<and> length (read_save data) = 256"
proof -
  obtain s where s: "areach False solo s" "sv_sent s = 1" using one_update by metis
  from album_save_exact [OF fresh_Some s(1) [unfolded solo_def], of 7] obtain data
    where "album_save (sv_album s) (sv_store s) True True 7 = Some (7, Some data)" "length (read_save data) = 256"
    by (auto simp: ALBUM_ITEMS_def)
  then show ?thesis using s(2) by blast
qed

text \<open>Without memory for a title. \<^verbatim>\<open>update_make\<close> does not look at what \<^verbatim>\<open>strdup\<close> returned: when it fails
  once, the album takes over a null pointer for a title, and the next time it is drawn \<^verbatim>\<open>strlen\<close> reads it.\<close>

theorem album_oom_crash: "\<exists>s. areach True solo s \<and> sv_crashed s"
proof -
  let ?s0 = "solo"
  let ?u = "\<lparr>u_index = 0, u_title = None, u_rating = 1\<rparr>"
  let ?s1 = "worker_make 0 (0, 0, 0) True None ?s0"
  have w0: "sv_workers ?s0 = [Scanning]" using album_start_inv(3) [OF fresh_Some, of 1, folded solo_def] by simp
  note inv = album_start_inv(1) [OF fresh_Some, of 1, folded solo_def]
  have s1: "?s1 = ?s0\<lparr>sv_workers := [Made ?u]\<rparr>"
    using w0 by (simp add: worker_make_def update_make_def strdup_def Let_def)
  have step1: "astep True ?s0 ?s1" by (rule astep.make) (use w0 in simp_all)
  have step2: "astep True ?s1 (worker_apply 0 ?u ?s1)" by (rule astep.apply_update) (simp_all add: s1)
  have len: "0 < length (al_items (sv_album ?s0))" using album_length [OF inv] by (simp add: ALBUM_ITEMS_def)
  obtain it its where items: "al_items (sv_album ?s0) = it # its" using len by (cases "al_items (sv_album ?s0)") auto
  obtain str where "read_string (it_title it) (sv_store ?s0) = Some str" using title_readable [OF inv, of it] items by auto
  then obtain p where p: "it_title it = Some p" "map_of (sv_store ?s0) p = Some str"
    by (auto simp: read_string_def split: option.splits)
  from map_of_SomeD [OF p(2)] have "p \<in> live (sv_store ?s0)" by force
  then obtain st where "free_string (it_title it) (sv_store ?s0) = Some st" using p(1) by (simp add: free_string_def)
  then obtain s2 where s2: "worker_apply 0 ?u ?s1 = s2" "album_draw (sv_album s2) (sv_store s2) = None"
    by (simp add: worker_apply_def s1 album_apply_def items Let_def album_draw_def read_string_def)
  have step3: "astep True s2 (ui_draw s2)" by (rule astep.draw)
  have "areach True ?s0 (ui_draw s2)" using step1 step2 step3 unfolding s2(1) by (meson areach.intros)
  moreover have "sv_crashed (ui_draw s2)" using s2(2) by (simp add: ui_draw_def crash_def)
  ultimately show ?thesis by blast
qed

end
