(* ===== verification/Usched.thy ===== *)
theory Usched
  imports LogStats
begin

text \<open>
  The provided parts of the user-space scheduler \<^verbatim>\<open>Week4/Assignment4/cpu_scheduling/usched.c\<close> and of its
  header \<^verbatim>\<open>work.h\<close>: the options, the job file, the division of a job into blocks, the expected number of
  blocks and the serial check of the results. The queue, the worker loop and \<^verbatim>\<open>work_block\<close> are left to the
  students. The counts are \<^verbatim>\<open>uint64_t\<close> in C and bounded by the limits of the job file, far below
  the width, so they are natural numbers here; the sums are words and wrap.
\<close>

section \<open>Records and their serial aggregation\<close>

definition FILTER_RESIDUE :: nat where "FILTER_RESIDUE = 3"
definition INPUT_RECORDS :: nat where "INPUT_RECORDS = 16777216"
definition JOB_BASE_BLOCK_RECORDS :: nat where "JOB_BASE_BLOCK_RECORDS = 65536"

fun fill_from :: "u64 \<Rightarrow> nat \<Rightarrow> u32 list" where
  "fill_from x 0 = []"
| "fill_from x (Suc n) = (let x = x * 6364136223846793005 + 1442695040888963407 in ucast (drop_bit 32 x) # fill_from x n)"

definition fill_records :: "nat \<Rightarrow> u32 list" where
  "fill_records n = fill_from 0x9E3779B97F4A7C15 n"

definition transform :: "u32 \<Rightarrow> u32" where
  "transform v = v * 2654435761 + 12345"

definition keep :: "u32 \<Rightarrow> nat \<Rightarrow> bool" where
  "keep v d \<longleftrightarrow> unat (v mod 7) = d mod 7"

definition add_kept :: "nat \<Rightarrow> u32 \<Rightarrow> u64 \<times> u64 \<Rightarrow> u64 \<times> u64" where
  "add_kept d r sc = (let v = transform r in if keep v d then (fst sc + ucast v, snd sc + 1) else sc)"

definition reference_aggregate :: "nat \<Rightarrow> u32 list \<Rightarrow> u64 \<times> u64" where
  "reference_aggregate d xs = fold (add_kept d) xs (0, 0)"

section \<open>Options and the job file\<close>

record sched_options =
  so_policy :: int
  so_quantum :: int
  so_block_kb :: int
  so_workers :: int
  so_jobfile :: "string option"
  so_csv :: string

definition default_options :: sched_options where
  "default_options = \<lparr>so_policy = 1, so_quantum = 20, so_block_kb = 256, so_workers = 1, so_jobfile = None, so_csv = ''usched.csv''\<rparr>"

text \<open>\<open>None\<close>: the program ends with status 1. \<open>atoi\<close> is the one of the library.\<close>

definition sched_option :: "(string \<Rightarrow> int) \<Rightarrow> char \<times> string \<Rightarrow> sched_options \<Rightarrow> sched_options option" where
  "sched_option atoi oa c =
     (let (opt, optarg) = oa in
      if opt = CHR ''p'' then Some (c\<lparr>so_policy := (if optarg = ''fifo'' then 0 else if optarg = ''rr'' then 1 else if optarg = ''wrr'' then 2 else - 1)\<rparr>)
      else if opt = CHR ''q'' then Some (c\<lparr>so_quantum := atoi optarg\<rparr>)
      else if opt = CHR ''b'' then Some (c\<lparr>so_block_kb := atoi optarg\<rparr>)
      else if opt = CHR ''w'' then Some (c\<lparr>so_workers := atoi optarg\<rparr>)
      else if opt = CHR ''j'' then Some (c\<lparr>so_jobfile := Some optarg\<rparr>)
      else if opt = CHR ''n'' then (if optarg \<noteq> ''64'' then None else Some c)
      else if opt = CHR ''o'' then Some (c\<lparr>so_csv := optarg\<rparr>)
      else None)"

fun sched_options_of :: "(string \<Rightarrow> int) \<Rightarrow> (char \<times> string) list \<Rightarrow> sched_options \<Rightarrow> sched_options option" where
  "sched_options_of atoi [] c = Some c"
| "sched_options_of atoi (oa # rest) c = Option.bind (sched_option atoi oa c) (sched_options_of atoi rest)"

definition parse_sched :: "(string \<Rightarrow> int) \<Rightarrow> (char \<times> string) list \<Rightarrow> string list \<Rightarrow> sched_options option" where
  "parse_sched atoi opts args =
     (case sched_options_of atoi opts default_options of
        None \<Rightarrow> None
      | Some c \<Rightarrow>
          if so_jobfile c = None \<or> so_policy c < 0 \<or> so_workers c < 1 \<or> so_workers c > 16 \<or> so_quantum c < 1 \<or> so_quantum c > 10000 \<or>
             so_block_kb c < 4 \<or> so_block_kb c > 65536 \<or> args \<noteq> []
          then None else Some c)"

definition MAX_JOBS :: nat where "MAX_JOBS = 256"

record job =
  j_name :: string
  j_arrival :: nat
  j_weight :: nat
  j_base :: nat
  j_total :: nat
  j_length :: nat
  j_done :: nat
  j_blocks :: nat
  j_sum :: u64
  j_kept :: u64
  j_first :: nat
  j_finished :: bool
  j_completion :: nat

definition name_char :: "char \<Rightarrow> bool" where
  "name_char ch \<longleftrightarrow> ch \<in> set ''abcdefghijklmnopqrstuvwxyzABCDEFGHIJKLMNOPQRSTUVWXYZ0123456789_-.''"

text \<open>\<^verbatim>\<open>sscanf(q, "%llu %llu %llu %31s %c", ...) == 4\<close>.\<close>

definition scan_job :: "string \<Rightarrow> (nat \<times> nat \<times> nat \<times> string) option" where
  "scan_job q =
     Option.bind (scan_u 64 q) (\<lambda>(arr, s).
     Option.bind (scan_u 64 s) (\<lambda>(len, s).
     Option.bind (scan_u 64 s) (\<lambda>(w, s).
     let s = dropWhile is_space s;
         name = take 31 (takeWhile (\<lambda>ch. \<not> is_space ch) s);
         rest = drop (length name) s
     in if name = [] \<or> dropWhile is_space rest \<noteq> [] then None else Some (arr, len, w, name))))"

definition TAB :: char where "TAB = CHR 0x09"

definition new_job :: "nat \<Rightarrow> nat \<Rightarrow> nat \<Rightarrow> string \<Rightarrow> job" where
  "new_job arr len w name = \<lparr>j_name = name, j_arrival = arr * 1000000, j_weight = w, j_base = len, j_total = len * JOB_BASE_BLOCK_RECORDS,
     j_length = 0, j_done = 0, j_blocks = 0, j_sum = 0, j_kept = 0,
     j_first = 0, j_finished = False, j_completion = 0\<rparr>"

text \<open>One line; \<open>None\<close> is the return with status 1.\<close>

definition job_line :: "string \<Rightarrow> job list \<Rightarrow> job list option" where
  "job_line line jobs =
     (let q = dropWhile (\<lambda>ch. ch = CHR '' '' \<or> ch = TAB) line in
      if q = [] \<or> hd q = CHR ''#'' \<or> hd q = LF then Some jobs
      else if hd q = CHR ''-'' then None
      else case scan_job q of
        None \<Rightarrow> None
      | Some (arr, len, w, name) \<Rightarrow>
          if length jobs = MAX_JOBS \<or> len = 0 \<or> len > 1000000 \<or> w = 0 \<or> w > 10000 \<or> arr > 86400000 \<or> \<not> list_all name_char name then None
          else if list_ex (\<lambda>j. j_name j = name) jobs then None
          else Some (jobs @ [new_job arr len w name]))"

fun job_lines :: "string list \<Rightarrow> job list \<Rightarrow> job list option" where
  "job_lines [] jobs = Some jobs"
| "job_lines (line # rest) jobs = Option.bind (job_line line jobs) (job_lines rest)"

definition ceil_div :: "nat \<Rightarrow> nat \<Rightarrow> nat" where
  "ceil_div a b = (a + b - 1) div b"

definition expected_length :: "nat \<Rightarrow> nat \<Rightarrow> nat \<Rightarrow> nat" where
  "expected_length nrec block n = (n div nrec) * ceil_div nrec block + ceil_div (n mod nrec) block"

text \<open>The sort is by arrival only; jobs that arrive together may come in any order in C.\<close>

definition load_jobs :: "nat \<Rightarrow> nat \<Rightarrow> string list option \<Rightarrow> bool \<Rightarrow> job list option" where
  "load_jobs nrec block file read_error =
     (case file of
        None \<Rightarrow> None
      | Some lines \<Rightarrow> (case job_lines lines [] of
          None \<Rightarrow> None
        | Some jobs \<Rightarrow>
            if read_error \<or> jobs = [] then None
            else Some (map (\<lambda>j. j\<lparr>j_length := expected_length nrec block (j_total j)\<rparr>) (sort_key j_arrival jobs))))"

section \<open>Blocks\<close>

text \<open>The offset in the input and the number of records of the next block.\<close>

definition job_block_span :: "nat \<Rightarrow> nat \<Rightarrow> job \<Rightarrow> nat \<times> nat" where
  "job_block_span nrec block j =
     (if j_done j \<ge> j_total j then (0, 0)
      else let off = j_done j mod nrec;
               rest = j_total j - j_done j;
               n = (if block < nrec - off then block else nrec - off)
        in (off, if rest < n then rest else n))"

section \<open>The final check\<close>

definition job_complete :: "job \<Rightarrow> bool" where
  "job_complete j \<longleftrightarrow> \<not> (\<not> j_finished j \<or> j_done j \<noteq> j_total j \<or> j_blocks j \<noteq> j_length j \<or> j_first j = 0 \<or> j_completion j = 0)"

definition job_matches :: "u32 list \<Rightarrow> job \<Rightarrow> bool" where
  "job_matches input j =
     (let nrec = length input;
          (full_sum, full_count) = reference_aggregate FILTER_RESIDUE input;
          (tail_sum, tail_count) = reference_aggregate FILTER_RESIDUE (take (j_total j mod nrec) input);
          ref_sum = of_nat (j_total j div nrec) * full_sum + tail_sum;
          ref_count = of_nat (j_total j div nrec) * full_count + tail_count
      in \<not> (j_sum j \<noteq> ref_sum \<or> j_kept j \<noteq> ref_count))"

section \<open>A job block by block\<close>

text \<open>
  The worker is not written in the repository. This is its contract, what the comment on it prescribes: block by block until
  no records are left, then the job is marked as finished; \<open>first\<close> and \<open>completed\<close> are the times of the first start and of the end. \<open>work\<close> stands for
  \<^verbatim>\<open>work_block\<close>, which is given the records of the block and adds to the sum and the count. The order of the turns
  of different jobs does not matter for one job.
\<close>

definition do_block :: "nat \<Rightarrow> (u32 list \<Rightarrow> u64 \<times> u64 \<Rightarrow> u64 \<times> u64) \<Rightarrow> u32 list \<Rightarrow> job \<Rightarrow> job" where
  "do_block block work input j =
     (let (off, n) = job_block_span (length input) block j;
          (s, c) = work (take n (drop off input)) (j_sum j, j_kept j)
      in j\<lparr>j_done := j_done j + n, j_blocks := j_blocks j + 1, j_sum := s, j_kept := c\<rparr>)"

lemma j_done_do_block [simp]: "j_done (do_block block work input j) = j_done j + snd (job_block_span (length input) block j)"
  "j_total (do_block block work input j) = j_total j" "j_length (do_block block work input j) = j_length j"
  "j_blocks (do_block block work input j) = j_blocks j + 1"
  by (simp_all add: do_block_def split_def Let_def)

function run_job :: "nat \<Rightarrow> (u32 list \<Rightarrow> u64 \<times> u64 \<Rightarrow> u64 \<times> u64) \<Rightarrow> u32 list \<Rightarrow> job \<Rightarrow> job" where
  "run_job block work input j =
     (if snd (job_block_span (length input) block j) = 0 then j else run_job block work input (do_block block work input j))"
  by pat_completeness auto
termination
  by (relation "measure (\<lambda>(block, work, input, j). j_total j - j_done j)") (auto simp: job_block_span_def Let_def split: if_splits)

declare run_job.simps [simp del]

definition schedule_job :: "nat \<Rightarrow> nat \<Rightarrow> nat \<Rightarrow> (u32 list \<Rightarrow> u64 \<times> u64 \<Rightarrow> u64 \<times> u64) \<Rightarrow> u32 list \<Rightarrow> job \<Rightarrow> job" where
  "schedule_job first completed block work input j =
     (run_job block work input (j\<lparr>j_first := first\<rparr>))\<lparr>j_finished := True, j_completion := completed\<rparr>"

lemma run_job_first: "j_first (run_job block work input j) = j_first j"
proof (induction block work input j rule: run_job.induct)
  case (1 block work input j)
  show ?case
    by (subst run_job.simps) (use 1 in \<open>simp add: do_block_def split_def Let_def\<close>)
qed

text \<open>Blocks and passes: after \<open>k\<close> records the number of blocks is determined.\<close>

lemma ceil_div_step:
  assumes "0 < n" "n \<le> b"
  shows "ceil_div (k * b + n) b = Suc k"
  unfolding ceil_div_def by (rule div_nat_eqI) (use assms in \<open>simp_all add: algebra_simps\<close>)

lemma ceil_div_0: "ceil_div 0 b = 0"
  by (cases b) (auto simp: ceil_div_def)

lemma ceil_div_mult: "0 < b \<Longrightarrow> ceil_div (k * b) b = k"
  unfolding ceil_div_def by (rule div_nat_eqI) (simp_all add: algebra_simps)

lemma block_count:
  assumes P: "0 < P" and B: "0 < B" and off: "d mod P = k * B" and n: "0 < n" "n \<le> B" "d mod P + n \<le> P"
  shows "expected_length P B (d + n) = expected_length P B d + 1"
proof (cases "d mod P + n = P")
  case True
  have "d + n = Suc (d div P) * P" using True by (metis add.commute add.left_commute div_mult_mod_eq mult_Suc)
  then have "(d + n) div P = Suc (d div P)" "(d + n) mod P = 0" using P by simp_all
  moreover have "ceil_div P B = Suc k" using ceil_div_step [OF n(1,2), of k] True off by simp
  ultimately show ?thesis using off B by (simp add: expected_length_def ceil_div_0 ceil_div_mult)
next
  case False
  then have lt: "d mod P + n < P" using n by simp
  obtain q r where qr: "d = q * P + r" "d div P = q" "d mod P = r" by (metis div_mult_mod_eq)
  have r: "r + n < P" using lt qr(3) by simp
  have "(d + n) div P = q" by (rule div_nat_eqI) (use qr(1) r in \<open>simp_all add: algebra_simps\<close>)
  moreover have "(d + n) mod P = r + n" using qr(1) r by (metis add.assoc mod_less mod_mult_self3)
  ultimately have "(d + n) div P = d div P" "(d + n) mod P = d mod P + n" using qr(2,3) by simp_all
  then show ?thesis using off B ceil_div_step [OF n(1,2), of k] by (simp add: expected_length_def ceil_div_mult)
qed

text \<open>Between two blocks the position in the input is a multiple of the block size, until the job is done.\<close>

definition block_inv :: "nat \<Rightarrow> nat \<Rightarrow> job \<Rightarrow> bool" where
  "block_inv P B j \<longleftrightarrow> j_done j \<le> j_total j \<and> j_blocks j = expected_length P B (j_done j) \<and>
     (j_done j < j_total j \<longrightarrow> (\<exists>k. j_done j mod P = k * B))"

lemma span_props:
  assumes "0 < P" "0 < B" "j_done j < j_total j"
  obtains n where "job_block_span P B j = (j_done j mod P, n)" "0 < n" "n \<le> B" "j_done j mod P + n \<le> P" "j_done j + n \<le> j_total j"
    "j_done j + n < j_total j \<Longrightarrow> n = B \<or> j_done j mod P + n = P"
proof -
  have off: "j_done j mod P < P" using assms(1) by simp
  define n where "n = min (j_total j - j_done j) (min B (P - j_done j mod P))"
  have "job_block_span P B j = (j_done j mod P, n)"
    using assms(3) by (simp add: job_block_span_def Let_def n_def min_def)
  moreover have "0 < n" "n \<le> B" "j_done j mod P + n \<le> P" "j_done j + n \<le> j_total j"
    using assms off by (simp_all add: n_def)
  moreover have "j_done j + n < j_total j \<Longrightarrow> n = B \<or> j_done j mod P + n = P"
    using off assms(3) by (simp add: n_def min_def split: if_splits)
  ultimately show ?thesis by (rule that)
qed

lemma block_inv_step:
  assumes P: "0 < length input" and B: "0 < B" and inv: "block_inv (length input) B j" and more: "j_done j < j_total j"
  shows "block_inv (length input) B (do_block B work input j)"
proof -
  let ?P = "length input" and ?d = "j_done j"
  obtain n where n: "job_block_span ?P B j = (?d mod ?P, n)" "0 < n" "n \<le> B" "?d mod ?P + n \<le> ?P" "?d + n \<le> j_total j"
    "?d + n < j_total j \<Longrightarrow> n = B \<or> ?d mod ?P + n = ?P" using span_props [OF P B more] by blast
  obtain k where k: "?d mod ?P = k * B" using inv more by (auto simp: block_inv_def)
  have "\<exists>k. (?d + n) mod ?P = k * B" if "?d + n < j_total j"
  proof (cases "?d mod ?P + n = ?P")
    case True
    then have "(?d + n) mod ?P = 0" by (metis mod_add_left_eq mod_self)
    then show ?thesis by (intro exI [of _ 0]) simp
  next
    case False
    then have "(?d + n) mod ?P = ?d mod ?P + n" using n(4) by (metis le_neq_implies_less mod_add_left_eq mod_less)
    moreover have "n = B" using n(6) [OF that] False by simp
    ultimately show ?thesis using k by (intro exI [of _ "Suc k"]) simp
  qed
  then show ?thesis
    using inv n(1,5) block_count [OF P B k n(2,3,4)] by (simp add: block_inv_def)
qed

text \<open>The records of a job: the input over and over.\<close>

definition records_between :: "u32 list \<Rightarrow> nat \<Rightarrow> nat \<Rightarrow> u32 list" where
  "records_between input a b = map (\<lambda>i. input ! (i mod length input)) [a..<b]"

lemma block_records:
  assumes "d mod length input + n \<le> length input"
  shows "take n (drop (d mod length input) input) = records_between input d (d + n)"
proof (rule nth_equalityI)
  let ?P = "length input"
  show "length (take n (drop (d mod ?P) input)) = length (records_between input d (d + n))"
    using assms by (simp add: records_between_def)
  fix i assume "i < length (take n (drop (d mod ?P) input))"
  then have i: "i < n" "d mod ?P + i < ?P" using assms by auto
  then have "(d + i) mod ?P = d mod ?P + i" by (metis mod_add_left_eq mod_less)
  then show "take n (drop (d mod ?P) input) ! i = records_between input d (d + n) ! i"
    using i assms by (simp add: records_between_def)
qed

definition plus2 :: "u64 \<times> u64 \<Rightarrow> u64 \<times> u64 \<Rightarrow> u64 \<times> u64" where
  "plus2 x y = (fst x + fst y, snd x + snd y)"

lemma add_kept_plus2: "fold (add_kept d) xs (plus2 a b) = plus2 a (fold (add_kept d) xs b)"
proof (induction xs arbitrary: b)
  case (Cons x xs)
  have "add_kept d x (plus2 a b) = plus2 a (add_kept d x b)" by (simp add: add_kept_def plus2_def Let_def add.assoc)
  then show ?case using Cons by simp
qed simp

lemma aggregate_append: "reference_aggregate d (xs @ ys) = plus2 (reference_aggregate d xs) (reference_aggregate d ys)"
  using add_kept_plus2 [of d ys "fold (add_kept d) xs (0, 0)" "(0, 0)"] by (simp add: reference_aggregate_def plus2_def)

definition sums_inv :: "u32 list \<Rightarrow> job \<Rightarrow> bool" where
  "sums_inv input j \<longleftrightarrow> (j_sum j, j_kept j) = reference_aggregate FILTER_RESIDUE (records_between input 0 (j_done j))"

text \<open>The contract of \<^verbatim>\<open>work_block\<close>, from its comment.\<close>

definition work_contract :: "(u32 list \<Rightarrow> u64 \<times> u64 \<Rightarrow> u64 \<times> u64) \<Rightarrow> bool" where
  "work_contract work \<longleftrightarrow> (\<forall>xs sc. work xs sc = plus2 sc (reference_aggregate FILTER_RESIDUE xs))"

lemma sums_inv_step:
  assumes P: "0 < length input" and B: "0 < B" and inv: "sums_inv input j" and more: "j_done j < j_total j" and work: "work_contract work"
  shows "sums_inv input (do_block B work input j)"
proof -
  let ?P = "length input" and ?d = "j_done j"
  obtain n where n: "job_block_span ?P B j = (?d mod ?P, n)" "?d mod ?P + n \<le> ?P" using span_props [OF P B more] by blast
  have "records_between input 0 (?d + n) = records_between input 0 ?d @ records_between input ?d (?d + n)"
    unfolding records_between_def map_append [symmetric] by (subst upt_add_eq_append) simp_all
  then have "reference_aggregate FILTER_RESIDUE (records_between input 0 (?d + n)) =
      plus2 (j_sum j, j_kept j) (reference_aggregate FILTER_RESIDUE (take n (drop (?d mod ?P) input)))"
    using inv by (simp add: aggregate_append sums_inv_def block_records [OF n(2)])
  then show ?thesis using work n(1) by (auto simp: sums_inv_def do_block_def work_contract_def Let_def split: prod.splits)
qed

lemma run_job_invs:
  assumes P: "0 < length input" and B: "0 < B" and work: "work_contract work"
    and "block_inv (length input) B j" "sums_inv input j"
  shows "block_inv (length input) B (run_job B work input j) \<and> sums_inv input (run_job B work input j) \<and>
    j_done (run_job B work input j) = j_total j \<and> j_total (run_job B work input j) = j_total j \<and> j_length (run_job B work input j) = j_length j"
  using assms
proof (induction B work input j rule: run_job.induct)
  case (1 B work input j)
  show ?case
  proof (cases "j_done j < j_total j")
    case True
    obtain n where n: "job_block_span (length input) B j = (j_done j mod length input, n)" "0 < n"
      using span_props [OF "1.prems"(1,2) True] by blast
    have run: "run_job B work input j = run_job B work input (do_block B work input j)"
      by (subst run_job.simps) (use n in simp)
    have more: "snd (job_block_span (length input) B j) \<noteq> 0" using n by simp
    show ?thesis
      using "1.IH" [OF more "1.prems"(1,2,3) block_inv_step [OF "1.prems"(1,2,4) True] sums_inv_step [OF "1.prems"(1,2,5) True "1.prems"(3)]] run
      by simp
  next
    case False
    then have fin: "j_done j = j_total j" using "1.prems"(4) by (simp add: block_inv_def)
    have "run_job B work input j = j" by (subst run_job.simps) (simp add: job_block_span_def fin)
    then show ?thesis using "1.prems" fin by simp
  qed
qed

lemma records_pass: "records_between input 0 (length input + m) = input @ records_between input 0 m"
proof (rule nth_equalityI)
  fix i assume "i < length (records_between input 0 (length input + m))"
  then show "records_between input 0 (length input + m) ! i = (input @ records_between input 0 m) ! i"
    by (auto simp: records_between_def nth_append le_mod_geq)
qed (simp add: records_between_def)

lemma records_full:
  assumes "0 < length input"
  shows "reference_aggregate d (records_between input 0 (q * length input + r)) =
    plus2 (of_nat q * fst (reference_aggregate d input), of_nat q * snd (reference_aggregate d input))
      (reference_aggregate d (records_between input 0 r))"
proof (induction q)
  case 0
  then show ?case by (simp add: plus2_def)
next
  case (Suc q)
  have "Suc q * length input + r = length input + (q * length input + r)" by simp
  then have "records_between input 0 (Suc q * length input + r) = input @ records_between input 0 (q * length input + r)"
    by (simp only: records_pass)
  then show ?case
    using Suc by (simp add: aggregate_append plus2_def algebra_simps)
qed

definition fresh_job :: "job \<Rightarrow> bool" where
  "fresh_job j \<longleftrightarrow> j_done j = 0 \<and> j_blocks j = 0 \<and> j_sum j = 0 \<and> j_kept j = 0"

lemma job_line_fresh: "job_line line jobs = Some jobs' \<Longrightarrow> list_all fresh_job jobs \<Longrightarrow> list_all fresh_job jobs'"
  by (auto simp: job_line_def Let_def new_job_def fresh_job_def split: if_splits option.splits prod.splits)

lemma job_lines_fresh: "job_lines lines jobs = Some jobs' \<Longrightarrow> list_all fresh_job jobs \<Longrightarrow> list_all fresh_job jobs'"
proof (induction lines arbitrary: jobs)
  case (Cons line rest)
  then show ?case by (auto simp: bind_eq_Some_conv dest: job_line_fresh)
qed simp

lemma load_jobs_fresh:
  assumes "load_jobs nrec block (Some file) e = Some jobs" "j \<in> set jobs"
  shows "fresh_job j \<and> j_length j = expected_length nrec block (j_total j)"
proof -
  obtain js where js: "job_lines file [] = Some js" "jobs = map (\<lambda>j. j\<lparr>j_length := expected_length nrec block (j_total j)\<rparr>) (sort_key j_arrival js)"
    using assms(1) by (auto simp: load_jobs_def split: option.splits if_splits)
  have "list_all fresh_job js" using job_lines_fresh [OF js(1)] by simp
  then show ?thesis using assms(2) js(2) by (auto simp: list_all_iff fresh_job_def)
qed

text \<open>C29: a job of the job file that is run block by block, with a \<^verbatim>\<open>work_block\<close> that does what its comment asks
  for and times that are not zero, ends after exactly the number of blocks that the program expects, and its sum and count are
  those of the final check: the check fails no correct scheduler.\<close>

theorem job_run_checks:
  assumes "load_jobs (length input) block (Some file) e = Some jobs" "j \<in> set jobs" "0 < length input" "0 < block" "work_contract work"
    and "0 < first" "0 < completed"
  shows "job_complete (schedule_job first completed block work input j) \<and> job_matches input (schedule_job first completed block work input j)"
proof -
  let ?P = "length input" and ?j = "j\<lparr>j_first := first\<rparr>"
  let ?r = "run_job block work input ?j"
  have fresh: "fresh_job j" "j_length j = expected_length ?P block (j_total j)"
    using load_jobs_fresh [OF assms(1,2)] by simp_all
  have "block_inv ?P block ?j" using fresh(1) by (auto simp: block_inv_def fresh_job_def expected_length_def ceil_div_0 intro: exI [of _ 0])
  moreover have "sums_inv input ?j"
    using fresh(1) by (simp add: sums_inv_def fresh_job_def records_between_def reference_aggregate_def)
  ultimately have r: "block_inv ?P block ?r" "sums_inv input ?r" "j_done ?r = j_total j" "j_total ?r = j_total j" "j_length ?r = j_length j"
    using run_job_invs [OF assms(3,4,5)] by simp_all
  have "records_between input 0 (j_total j mod ?P) = take (j_total j mod ?P) input"
    using block_records [of 0 input "j_total j mod ?P"] assms(3) by (simp add: less_imp_le)
  then have "(j_sum ?r, j_kept ?r) = plus2 (of_nat (j_total j div ?P) * fst (reference_aggregate FILTER_RESIDUE input),
        of_nat (j_total j div ?P) * snd (reference_aggregate FILTER_RESIDUE input))
      (reference_aggregate FILTER_RESIDUE (take (j_total j mod ?P) input))"
    using r(2,3) records_full [OF assms(3), of FILTER_RESIDUE "j_total j div ?P" "j_total j mod ?P"] by (simp add: sums_inv_def)
  then have "job_matches input (schedule_job first completed block work input j)"
    using r(4) by (simp add: job_matches_def schedule_job_def plus2_def Let_def split_def)
  moreover have "j_first ?r = first" by (simp add: run_job_first)
  then have "job_complete (schedule_job first completed block work input j)"
    using r fresh(2) assms(6,7) by (simp add: job_complete_def schedule_job_def block_inv_def)
  ultimately show ?thesis by simp
qed

definition one_job :: job where
  "one_job = (new_job 0 1 100 ''a'')\<lparr>j_length := 32768\<rparr>"

lemma one_job_file:
  "load_jobs 2 2 (Some [''0 1 100 a'' @ [LF]]) False = Some [one_job]"
proof -
  have "scan_job (''0 1 100 a'' @ [LF]) = Some (0, 1, 100, ''a'')"
    by (simp add: scan_job_def scan_u_def strtoull_def Let_def is_space_def is_digit_def num_def digit_val_def ULLONG_MAX_def LF_def)
  then show ?thesis
    by (simp add: load_jobs_def job_line_def Let_def LF_def TAB_def name_char_def MAX_JOBS_def expected_length_def ceil_div_def
        new_job_def JOB_BASE_BLOCK_RECORDS_def one_job_def)
qed

theorem job_run_checks_witness:
  "job_complete (schedule_job 5 9 2 (\<lambda>xs sc. plus2 sc (reference_aggregate FILTER_RESIDUE xs)) [7, 8] one_job) \<and> j_total one_job = 65536"
proof -
  have "work_contract (\<lambda>xs sc. plus2 sc (reference_aggregate FILTER_RESIDUE xs))" by (simp add: work_contract_def)
  moreover have "load_jobs (length [7 :: u32, 8]) 2 (Some [''0 1 100 a'' @ [LF]]) False = Some [one_job]"
    using one_job_file by (simp add: numeral_2_eq_2)
  ultimately show ?thesis
    using job_run_checks [of "[7, 8]" 2 "[''0 1 100 a'' @ [LF]]" False "[one_job]" one_job _ 5 9]
    by (simp add: one_job_def new_job_def JOB_BASE_BLOCK_RECORDS_def)
qed

end
