(* ===== verification/Frames.thy ===== *)
theory Frames
  imports Prelude
begin

text \<open>
  Two loops that draw a frame per period: the UI thread of the album service
  (\<^verbatim>\<open>Week6/Assignment6/concurrency/src/albumsvc.c\<close>, \<^verbatim>\<open>ui_main\<close>) and the frame loop of
  \<^verbatim>\<open>Week5/Assignment5/scheduling/src/frameloop.c\<close>. The clocks are arguments: every reading the code makes is a
  value of its own. Times are nanoseconds that do not reach \<open>2^64\<close>, so they are natural numbers.
\<close>

section \<open>The UI thread of the album service\<close>

definition MAX_FRAMES :: nat where "MAX_FRAMES = 100000"
definition MAX_SAVES :: nat where "MAX_SAVES = 10000"

record ui_cfg =
  u_seconds :: nat
  u_frame_us :: nat

text \<open>The measurements; \<open>next_frame\<close> is \<^verbatim>\<open>k\<close>. Each list is the used part of an array.\<close>

record ui =
  frame_late_us :: "nat list"
  ui_call_us :: "nat list"
  misses :: nat
  skipped :: nat
  next_frame :: nat

definition ui_start :: ui where
  "ui_start = \<lparr>frame_late_us = [], ui_call_us = [], misses = 0, skipped = 0, next_frame = 0\<rparr>"

definition u_period :: "ui_cfg \<Rightarrow> nat" where "u_period c = u_frame_us c * 1000"

text \<open>One frame, with the readings of the clock before and after the lock and at its end.\<close>

definition ui_frame :: "ui_cfg \<Rightarrow> nat \<Rightarrow> nat \<times> nat \<times> nat \<Rightarrow> ui \<Rightarrow> ui" where
  "ui_frame c s0 clocks s =
     (let (t0, t1, ek) = clocks; period = u_period c; k = next_frame s;
          sk = s0 + k * period;
          next = k + 1;
          next = (if ek > s0 + next * period then (ek - s0) div period + 1 else next)
      in s\<lparr>frame_late_us := frame_late_us s @ [(ek - sk) div 1000], ui_call_us := ui_call_us s @ [(t1 - t0) div 1000],
           misses := misses s + (if ek > sk + period then 1 else 0), skipped := skipped s + (next - (k + 1)), next_frame := next\<rparr>)"

definition ui_done :: "ui_cfg \<Rightarrow> nat \<Rightarrow> ui \<Rightarrow> bool" where
  "ui_done c s0 s \<longleftrightarrow> \<not> length (frame_late_us s) < MAX_FRAMES \<or> s0 + next_frame s * u_period c \<ge> s0 + u_seconds c * 1000000000"

text \<open>The loop, as far as the readings go.\<close>

fun ui_loop :: "ui_cfg \<Rightarrow> nat \<Rightarrow> (nat \<times> nat \<times> nat) list \<Rightarrow> ui \<Rightarrow> ui" where
  "ui_loop c s0 [] s = s"
| "ui_loop c s0 (x # xs) s = (if ui_done c s0 s then s else ui_loop c s0 xs (ui_frame c s0 x s))"

text \<open>The saver's records, and the column \<^verbatim>\<open>miss\<close> of the CSV file.\<close>

definition record_time :: "nat list \<Rightarrow> nat \<Rightarrow> nat \<Rightarrow> nat list" where
  "record_time xs start_ns end_ns = (if length xs < MAX_SAVES then xs @ [(end_ns - start_ns) div 1000] else xs)"

definition csv_miss :: "ui_cfg \<Rightarrow> ui \<Rightarrow> bool list" where
  "csv_miss c s = map (\<lambda>late. late > u_frame_us c) (frame_late_us s)"

definition ui_inv :: "ui_cfg \<Rightarrow> nat \<Rightarrow> ui \<Rightarrow> bool" where
  "ui_inv c s0 s \<longleftrightarrow> length (frame_late_us s) + skipped s = next_frame s \<and> misses s \<le> skipped s \<and>
     length (frame_late_us s) \<le> MAX_FRAMES \<and> length (ui_call_us s) = length (frame_late_us s)"

lemma next_start:
  assumes "0 < P" "ek > s0 + Suc k * P"
  shows "Suc k < (ek - s0) div P + 1" and "ek < s0 + ((ek - s0) div P + 1) * P"
proof -
  have "Suc k * P \<le> ek - s0" using assms(2) by simp
  then have "Suc k \<le> (ek - s0) div P" using assms(1) by (simp add: less_eq_div_iff_mult_less_eq)
  then show "Suc k < (ek - s0) div P + 1" by simp
  have "ek - s0 < ((ek - s0) div P + 1) * P" using assms(1) by (metis Suc_eq_plus1 dividend_less_times_div mult.commute mult_Suc_right)
  then show "ek < s0 + ((ek - s0) div P + 1) * P" using assms(2) by linarith
qed


lemma ui_frame_inv:
  assumes "0 < u_frame_us c" "ui_inv c s0 s" "\<not> ui_done c s0 s"
  shows "ui_inv c s0 (ui_frame c s0 x s) \<and> snd (snd x) \<le> s0 + next_frame (ui_frame c s0 x s) * u_period c"
proof -
  obtain t0 t1 ek where x: "x = (t0, t1, ek)" by (cases x)
  let ?P = "u_period c" and ?k = "next_frame s"
  have P: "0 < ?P" using assms(1) by (simp add: u_period_def)
  show ?thesis
  proof (cases "ek > s0 + Suc ?k * ?P")
    case True
    then show ?thesis
      using assms(2,3) next_start [OF P True] by (auto simp: ui_frame_def x Let_def ui_inv_def ui_done_def)
  next
    case False
    then show ?thesis
      using assms(2,3) by (auto simp: ui_frame_def x Let_def ui_inv_def ui_done_def)
  qed
qed

text \<open>C30: the arrays of the measurements do not overflow, every scheduled start up to the present one was drawn
  or counted as skipped, and a frame that missed its time skips at least one start.\<close>

theorem ui_frames_accounted:
  assumes "0 < u_frame_us c"
  shows "length (frame_late_us (ui_loop c s0 xs ui_start)) + skipped (ui_loop c s0 xs ui_start) = next_frame (ui_loop c s0 xs ui_start) \<and>
    misses (ui_loop c s0 xs ui_start) \<le> skipped (ui_loop c s0 xs ui_start) \<and>
    length (frame_late_us (ui_loop c s0 xs ui_start)) \<le> MAX_FRAMES"
proof -
  have "ui_inv c s0 (ui_loop c s0 xs s)" if "ui_inv c s0 s" for s
    using that ui_frame_inv [OF assms] by (induction xs arbitrary: s) auto
  from this [of ui_start] show ?thesis by (simp add: ui_inv_def ui_start_def)
qed

text \<open>The CSV file and the printed total disagree on a frame that is late by less than a microsecond.\<close>

lemma csv_miss_differs:
  "let s = ui_loop \<lparr>u_seconds = 10, u_frame_us = 16667\<rparr> 0 [(0, 0, 16667001)] ui_start in misses s = 1 \<and> csv_miss \<lparr>u_seconds = 10, u_frame_us = 16667\<rparr> s = [False]"
  by (simp add: ui_done_def ui_start_def ui_frame_def u_period_def csv_miss_def MAX_FRAMES_def Let_def)

section \<open>The frame loop\<close>

definition CHUNK_NS :: nat where "CHUNK_NS = 100000"

datatype frame_status = ST_OK | ST_DROP | ST_CUT

datatype guard = G_none | G_signal | G_budget

record frame =
  f_id :: nat
  f_start :: nat
  f_end :: nat
  f_cpu :: nat
  f_target :: nat
  f_done :: nat
  f_status :: frame_status
  f_sig :: nat
  f_miss :: bool

text \<open>
  The work of a frame: \<open>i\<close> counts its chunks, \<open>over i\<close> is \<^verbatim>\<open>g_overrun\<close> and \<open>cpu i\<close> the CPU clock of the thread
  at the \<open>i\<close>-th check. The result is the status, the work done and the number of chunks.
\<close>

function frame_work :: "guard \<Rightarrow> nat \<Rightarrow> nat \<Rightarrow> nat \<Rightarrow> (nat \<Rightarrow> bool) \<Rightarrow> (nat \<Rightarrow> nat) \<Rightarrow> nat \<Rightarrow> nat \<Rightarrow> frame_status \<times> nat \<times> nat" where
  "frame_work g target budget c0 over cpu i d =
     (if d < target then
        let step = (if target - d < CHUNK_NS then target - d else CHUNK_NS) in
        if g = G_signal \<and> over i then (ST_DROP, d, i)
        else if g = G_budget \<and> cpu i - c0 + step > budget * 1000 then (ST_CUT, d, i)
        else frame_work g target budget c0 over cpu (i + 1) (d + step)
      else (ST_OK, d, i))"
  by pat_completeness auto
termination
  by (relation "measure (\<lambda>(g, target, budget, c0, over, cpu, i, d). target - d)") (auto simp: CHUNK_NS_def)

declare frame_work.simps [simp del]

text \<open>The target of frame \<open>f\<close>; \<open>None\<close> is the division by zero.\<close>

definition frame_target :: "nat \<Rightarrow> nat \<Rightarrow> nat \<Rightarrow> nat \<Rightarrow> nat option" where
  "frame_target spike_every spike work f =
     (if spike_every = 0 then None else Some ((if f mod spike_every = spike_every - 1 then spike else work) * 1000))"

text \<open>The next release without a deadline reservation; the clock is read twice.\<close>

definition next_release :: "nat \<Rightarrow> nat \<Rightarrow> nat \<Rightarrow> nat \<Rightarrow> nat" where
  "next_release P release now1 now2 =
     (let r = release + P in if now1 > r + P then r + ((now2 - r) div P) * P else r)"

definition finish_frame :: "nat \<Rightarrow> nat \<Rightarrow> nat \<Rightarrow> frame_status \<times> nat \<times> nat \<Rightarrow> nat \<Rightarrow> frame \<Rightarrow> frame" where
  "finish_frame release P end_ns result cpu_ns x =
     (case result of (st, d, i) \<Rightarrow>
        x\<lparr>f_status := st, f_done := d, f_end := end_ns, f_cpu := cpu_ns, f_miss := end_ns > release + P\<rparr>)"

record totals_of_frames =
  n_miss :: nat
  n_drop :: nat
  n_cut :: nat
  n_sig :: nat
  n_want :: nat
  n_got :: nat

definition frame_totals :: "frame list \<Rightarrow> totals_of_frames" where
  "frame_totals fr = \<lparr>n_miss = length (filter f_miss fr), n_drop = length (filter (\<lambda>x. f_status x = ST_DROP) fr),
     n_cut = length (filter (\<lambda>x. f_status x = ST_CUT) fr), n_sig = sum_list (map f_sig fr), n_want = sum_list (map f_target fr),
     n_got = sum_list (map f_done fr)\<rparr>"

definition pct_u64 :: "nat list \<Rightarrow> nat \<Rightarrow> nat" where
  "pct_u64 v p =
     (if v = [] then 0
      else let i = (length v * p) div 100 in sort v ! (if i \<ge> length v then length v - 1 else i))"

lemma pct_in:
  assumes "v \<noteq> []"
  shows "pct_u64 v p \<in> set v"
proof -
  have "(if length v * p div 100 \<ge> length v then length v - 1 else length v * p div 100) < length (sort v)" using assms by auto
  then have "pct_u64 v p \<in> set (sort v)" unfolding pct_u64_def Let_def if_not_P [OF assms] by (rule nth_mem)
  then show ?thesis by simp
qed

definition chunk :: "nat \<Rightarrow> nat \<Rightarrow> nat" where
  "chunk target i = (if target - i * CHUNK_NS < CHUNK_NS then target - i * CHUNK_NS else CHUNK_NS)"

text \<open>The rounds of the loop, starting with \<open>i\<close> whole chunks done.\<close>

lemma frame_work_cases:
  assumes "frame_work g target budget c0 over cpu i d = (st, d', i')"
  obtains (finished) "\<not> d < target" "st = ST_OK" "d' = d" "i' = i"
    | (dropped) "d < target" "g = G_signal" "over i" "st = ST_DROP" "d' = d" "i' = i"
    | (cut) "d < target" "g = G_budget" "st = ST_CUT" "d' = d" "i' = i"
    | (more) step where "d < target" "step = (if target - d < CHUNK_NS then target - d else CHUNK_NS)"
        "\<not> (g = G_signal \<and> over i)" "\<not> (g = G_budget \<and> cpu i - c0 + step > budget * 1000)"
        "frame_work g target budget c0 over cpu (i + 1) (d + step) = (st, d', i')"
proof (cases "d < target")
  case False
  have "frame_work g target budget c0 over cpu i d = (ST_OK, d, i)"
    by (subst frame_work.simps) (simp only: False if_False)
  then show ?thesis using assms finished False by simp
next
  case True
  define step where "step = (if target - d < CHUNK_NS then target - d else CHUNK_NS)"
  have eq: "frame_work g target budget c0 over cpu i d =
     (if g = G_signal \<and> over i then (ST_DROP, d, i)
      else if g = G_budget \<and> cpu i - c0 + step > budget * 1000 then (ST_CUT, d, i)
      else frame_work g target budget c0 over cpu (i + 1) (d + step))"
    using True by (subst frame_work.simps) (simp only: if_True Let_def step_def)
  show ?thesis
  proof (cases "g = G_signal \<and> over i")
    case drop: True
    have "frame_work g target budget c0 over cpu i d = (ST_DROP, d, i)" unfolding eq if_P [OF drop] ..
    from trans [OF this [symmetric] assms] have "st = ST_DROP" "d' = d" "i' = i" by simp_all
    then show ?thesis using drop True by (intro dropped) blast+
  next
    case nodrop: False
    show ?thesis
    proof (cases "g = G_budget \<and> cpu i - c0 + step > budget * 1000")
      case over: True
      have "frame_work g target budget c0 over cpu i d = (ST_CUT, d, i)" unfolding eq if_not_P [OF nodrop] if_P [OF over] ..
      from trans [OF this [symmetric] assms] have "st = ST_CUT" "d' = d" "i' = i" by simp_all
      then show ?thesis using over True by (intro cut) blast+
    next
      case nocut: False
      have "frame_work g target budget c0 over cpu i d = frame_work g target budget c0 over cpu (i + 1) (d + step)"
        unfolding eq if_not_P [OF nodrop] if_not_P [OF nocut] ..
      then have "frame_work g target budget c0 over cpu (i + 1) (d + step) = (st, d', i')" using assms by (rule subst)
      then show ?thesis using more [OF True step_def nodrop nocut] by blast
    qed
  qed
qed

lemma frame_work_result:
  "frame_work g target budget c0 over cpu i d = (st, d', i') \<Longrightarrow> d \<le> target \<Longrightarrow>
   d' \<le> target \<and> (st = ST_OK \<longleftrightarrow> d' = target) \<and> (st = ST_DROP \<longrightarrow> g = G_signal) \<and> (st = ST_CUT \<longrightarrow> g = G_budget)"
proof (induction "target - d" arbitrary: d i rule: less_induct)
  case less
  from less.prems(1) show ?case
  proof (cases rule: frame_work_cases)
    case (more step)
    have "step > 0" "d + step \<le> target" using more(1,2) by (auto simp: CHUNK_NS_def)
    then show ?thesis using less.hyps [of "d + step" "i + 1"] more(1,5) by auto
  qed (use less.prems(2) in auto)
qed

lemma frame_work_budget:
  assumes burn: "\<And>k. cpu (Suc k) \<le> cpu k + chunk target k + slack"
  shows "frame_work G_budget target budget c0 over cpu i d = (st, d', i') \<Longrightarrow> d < target \<Longrightarrow> d = i * CHUNK_NS \<Longrightarrow> j < i' \<Longrightarrow> i \<le> j \<Longrightarrow>
    cpu (Suc j) - c0 \<le> budget * 1000 + slack"
proof (induction "target - d" arbitrary: d i rule: less_induct)
  case less
  from less.prems(1) show ?case
  proof (cases rule: frame_work_cases)
    case (more step)
    have pos: "step > 0" "d + step \<le> target" using more(1,2) by (auto simp: CHUNK_NS_def)
    have step: "step = chunk target i" using more(2) less.prems(3) by (simp add: chunk_def)
    show ?thesis
    proof (cases "j = i")
      case True
      have "cpu i - c0 + step \<le> budget * 1000" using more(4) by simp
      then have "step \<le> budget * 1000" "cpu i - c0 \<le> budget * 1000 - step" by linarith+
      then have "cpu i + step \<le> budget * 1000 + c0" by (simp add: le_diff_conv)
      then have "cpu (Suc i) \<le> budget * 1000 + slack + c0" using burn [of i] step by linarith
      then show ?thesis using True by (simp add: le_diff_conv)
    next
      case False
      then have j: "Suc i \<le> j" using less.prems(5) by simp
      show ?thesis
      proof (cases "d + step < target")
        case True
        then have "step = CHUNK_NS" using more(2) by (auto split: if_splits)
        then show ?thesis
          using less.hyps [of "d + step" "i + 1"] more(1,5) pos True j less.prems(3,4) by simp
      next
        case fin: False
        have "i' = i + 1" using more(5)
          by (rule frame_work_cases) (use fin in auto)
        then show ?thesis using less.prems(4) j by simp
      qed
    qed
  qed (use less.prems in auto)
qed

text \<open>a frame does no more work than its target and is reported complete exactly if it did all of it; with
  \<^verbatim>\<open>-g budget\<close>, if burning a chunk costs at most \<open>slack\<close> more CPU time than the chunk, the frame never uses
  more CPU time than its budget and one \<open>slack\<close>.\<close>

theorem budget_kept:
  assumes "frame_work G_budget target budget (cpu 0) over cpu 0 0 = (st, d, n)" "\<And>k. cpu (Suc k) \<le> cpu k + chunk target k + slack"
  shows "d \<le> target \<and> (st = ST_OK \<longleftrightarrow> d = target) \<and> st \<noteq> ST_DROP \<and> cpu n - cpu 0 \<le> budget * 1000 + slack"
proof -
  have r: "d \<le> target \<and> (st = ST_OK \<longleftrightarrow> d = target) \<and> st \<noteq> ST_DROP"
    using frame_work_result [OF assms(1)] by auto
  have "cpu n - cpu 0 \<le> budget * 1000 + slack"
  proof (cases n)
    case (Suc j)
    have "0 < target"
      using assms(1) Suc by (cases "0 < target") (auto simp: frame_work.simps [of _ 0])
    then show ?thesis using frame_work_budget [OF assms(2) assms(1), of j] Suc by simp
  qed simp
  then show ?thesis using r by simp
qed

theorem budget_kept_witness:
  "frame_work G_budget 150000 1 0 (\<lambda>_. False) (\<lambda>k. k * 100000) 0 0 = (ST_CUT, 0, 0) \<and> (0 :: nat) * 100000 - 0 \<le> 1 * 1000 + 0"
proof -
  have w: "frame_work G_budget 150000 1 ((\<lambda>k. k * 100000) 0) (\<lambda>_. False) (\<lambda>k. k * 100000) 0 0 = (ST_CUT, 0, 0)"
    by (subst frame_work.simps) (simp add: CHUNK_NS_def)
  have "(\<lambda>k. k * 100000) (Suc k) \<le> (\<lambda>k. k * 100000) k + chunk 150000 k + 100000" for k by simp
  from budget_kept [OF w this] w show ?thesis by simp
qed

text \<open>the releases keep their phase, at least a period apart, and when the loop has fallen behind the next one
  is at most one period behind the clock.\<close>

theorem release_schedule:
  assumes "0 < P" "now1 \<le> now2"
  shows "P dvd (next_release P r now1 now2 - r) \<and> r + P \<le> next_release P r now1 now2 \<and> now1 \<le> next_release P r now1 now2 + P \<and>
    next_release P r now1 now2 \<le> max (r + P) now2"
proof (cases "now1 > r + P + P")
  case True
  let ?q = "(now2 - (r + P)) div P"
  have rest: "now2 - (r + P) = ?q * P + (now2 - (r + P)) mod P" "(now2 - (r + P)) mod P < P" using assms(1) by simp_all
  have n: "next_release P r now1 now2 = r + P + ?q * P" using True by (simp add: next_release_def Let_def)
  have "P dvd P + ?q * P" by simp
  moreover have "r + P + ?q * P \<le> now2" "now2 < r + P + ?q * P + P" using rest True assms(2) by linarith+
  ultimately show ?thesis unfolding n using assms(2) by (simp add: le_max_iff_disj)
next
  case False
  then show ?thesis by (simp add: next_release_def Let_def)
qed

theorem release_schedule_witness: "next_release 10 0 35 36 = 30 \<and> (10::nat) dvd 30"
proof -
  have n: "next_release 10 0 35 36 = 30" by (simp add: next_release_def)
  have "(0::nat) < 10" "(35::nat) \<le> 36" by simp_all
  from release_schedule [OF this, of 0] n show ?thesis by simp
qed

theorem ui_frames_accounted_witness:
  "skipped (ui_loop \<lparr>u_seconds = 10, u_frame_us = 16667\<rparr> 0 [(0, 0, 40000000)] ui_start) = 2 \<and> MAX_FRAMES = 100000 \<and>
   length (frame_late_us (ui_loop \<lparr>u_seconds = 10, u_frame_us = 16667\<rparr> 0 [(0, 0, 40000000)] ui_start)) \<le> MAX_FRAMES"
proof -
  have "0 < u_frame_us \<lparr>u_seconds = 10, u_frame_us = 16667\<rparr>" by simp
  from ui_frames_accounted [OF this, of 0 "[(0, 0, 40000000)]"] show ?thesis
    by (simp add: ui_done_def ui_start_def ui_frame_def u_period_def MAX_FRAMES_def Let_def)
qed

end
