(* ===== verification/Cpumgr.thy ===== *)
theory Cpumgr
  imports LoadgenLine
begin

text \<open>
  The provided parts of the CPU manager (\<^verbatim>\<open>Week4/Assignment4/cpu_scheduling/cpumgr.c\<close>): the command line with
  its timed events, reading a file and a field of \<^verbatim>\<open>cpu.stat\<close>, and the termination of a child process. What
  the system answers is an argument; the calls a function makes are part of its result where their order
  matters.
\<close>

section \<open>The command line\<close>

definition MAX_EVENTS :: nat where "MAX_EVENTS = 32"

record mgr_event =
  e_sec :: int
  e_key :: string
  e_value :: string

record mgr =
  m_weight :: "string option"
  m_max :: string
  m_cpuset :: "string option"
  m_bgweight :: "string option"
  m_logfile :: "string option"
  m_events :: "mgr_event list"

definition mgr_start :: mgr where
  "mgr_start = \<lparr>m_weight = None, m_max = [], m_cpuset = None, m_bgweight = None, m_logfile = None, m_events = []\<rparr>"

datatype mgr_error = BadAt | AtRange | Usage | MissingCommand

definition lower :: "char \<Rightarrow> bool" where
  "lower c \<longleftrightarrow> 97 \<le> (of_char c :: nat) \<and> (of_char c :: nat) \<le> 122"

text \<open>\<^verbatim>\<open>sscanf(spec, "%d:%7[a-z]", &sec, key)\<close> when both fields are read.\<close>

definition scan_at :: "string \<Rightarrow> (int \<times> string) option" where
  "scan_at spec = (case scan_int spec of
     None \<Rightarrow> None
   | Some (sec, rest) \<Rightarrow>
       if rest = [] \<or> hd rest \<noteq> CHR '':'' then None
       else let key = take 7 (takeWhile lower (tl rest)) in if key = [] then None else Some (sec, key))"

text \<open>The value is what follows the first equals sign, cut off to 63 bytes; for \<^verbatim>\<open>max\<close> with its comma replaced.\<close>

definition at_value :: "string \<Rightarrow> string \<Rightarrow> string" where
  "at_value key spec =
     (let v = take 63 (tl (dropWhile (\<lambda>c. c \<noteq> CHR ''='') spec))
      in if key = ''max'' then map (\<lambda>c. if c = CHR '','' then CHR '' '' else c) v else v)"

definition parse_at :: "string \<Rightarrow> mgr_error + mgr_event" where
  "parse_at spec = (case scan_at spec of
     None \<Rightarrow> Inl BadAt
   | Some (sec, key) \<Rightarrow>
       if CHR ''='' \<notin> set spec then Inl BadAt
       else if sec < 1 \<or> key \<noteq> ''weight'' \<and> key \<noteq> ''max'' \<and> key \<noteq> ''cpuset'' then Inl AtRange
       else Inr \<lparr>e_sec = sec, e_key = key, e_value = at_value key spec\<rparr>)"

text \<open>One option: the new settings and how many of the arguments after it belong to it.\<close>

definition parse_option :: "mgr \<Rightarrow> string \<Rightarrow> string list \<Rightarrow> mgr_error + mgr \<times> nat" where
  "parse_option m a rest =
     (if a = ''--weight'' \<and> 1 \<le> length rest then Inr (m\<lparr>m_weight := Some (hd rest)\<rparr>, 1)
      else if a = ''--max'' \<and> 2 \<le> length rest then Inr (m\<lparr>m_max := take 63 (rest ! 0 @ '' '' @ rest ! 1)\<rparr>, 2)
      else if a = ''--cpuset'' \<and> 1 \<le> length rest then Inr (m\<lparr>m_cpuset := Some (hd rest)\<rparr>, 1)
      else if a = ''--bg'' \<and> 1 \<le> length rest then Inr (m\<lparr>m_bgweight := Some (hd rest)\<rparr>, 1)
      else if a = ''--log'' \<and> 1 \<le> length rest then Inr (m\<lparr>m_logfile := Some (hd rest)\<rparr>, 1)
      else if a = ''--at'' \<and> 1 \<le> length rest \<and> length (m_events m) < MAX_EVENTS then
        (case parse_at (hd rest) of
           Inl e \<Rightarrow> Inl e
         | Inr ev \<Rightarrow> Inr (m\<lparr>m_events := m_events m @ [ev]\<rparr>, 1))
      else Inl Usage)"

text \<open>The loop over the arguments stops at \<^verbatim>\<open>--\<close>; what is left is returned.\<close>

function parse_mgr :: "mgr \<Rightarrow> string list \<Rightarrow> mgr_error + mgr \<times> string list" where
  "parse_mgr m [] = Inr (m, [])"
| "parse_mgr m (a # rest) =
     (if a = ''--'' then Inr (m, a # rest)
      else case parse_option m a rest of
        Inl e \<Rightarrow> Inl e
      | Inr (m', k) \<Rightarrow> parse_mgr m' (drop k rest))"
  by pat_completeness auto

termination by (relation "measure (\<lambda>(m, args). length args)") auto

text \<open>\<^verbatim>\<open>if (i >= argc - 1)\<close>: there must be an argument after \<^verbatim>\<open>--\<close>.\<close>

definition parse_main :: "string list \<Rightarrow> mgr_error + mgr \<times> string list" where
  "parse_main args = (case parse_mgr mgr_start args of
     Inl e \<Rightarrow> Inl e
   | Inr (m, rest) \<Rightarrow> if length rest \<le> 1 then Inl MissingCommand else Inr (m, tl rest))"

definition event_fine :: "mgr_event \<Rightarrow> bool" where
  "event_fine e \<longleftrightarrow> 1 \<le> e_sec e \<and> e_sec e < 2 ^ 31 \<and> e_key e \<in> {''weight'', ''max'', ''cpuset''} \<and> length (e_value e) \<le> 63 \<and>
     (e_key e = ''max'' \<longrightarrow> CHR '','' \<notin> set (e_value e))"

lemma scan_at_range: "scan_at spec = Some (sec, key) \<Longrightarrow> sec < 2 ^ 31"
  by (auto simp: scan_at_def Let_def split: option.splits if_splits dest: scan_int_range)

lemma parse_at_fine: "parse_at spec = Inr e \<Longrightarrow> event_fine e"
  using scan_at_range [of spec]
  by (auto simp: parse_at_def event_fine_def at_value_def Let_def split: option.splits if_splits prod.splits)

definition mgr_fine :: "mgr \<Rightarrow> bool" where
  "mgr_fine m \<longleftrightarrow> list_all event_fine (m_events m) \<and> length (m_events m) \<le> MAX_EVENTS \<and> length (m_max m) \<le> 63"

lemma parse_option_fine: "parse_option m a rest = Inr (m', k) \<Longrightarrow> mgr_fine m \<Longrightarrow> mgr_fine m'"
  by (auto simp: parse_option_def mgr_fine_def parse_at_fine split: if_splits sum.splits)

lemma parse_mgr_fine:
  "parse_mgr m args = Inr (m', rest) \<Longrightarrow> mgr_fine m \<Longrightarrow>
   mgr_fine m' \<and> (\<exists>opts. args = opts @ rest) \<and> (rest = [] \<or> hd rest = ''--'')"
proof (induction m args rule: parse_mgr.induct)
  case (1 m)
  then show ?case by simp
next
  case (2 m a rs)
  show ?case
  proof (cases "a = ''--''")
    case True
    then show ?thesis using "2.prems" by auto
  next
    case False
    then obtain m1 k where o: "parse_option m a rs = Inr (m1, k)"
      using "2.prems"(1) by (cases "parse_option m a rs") auto
    then have "mgr_fine m' \<and> (\<exists>opts. drop k rs = opts @ rest) \<and> (rest = [] \<or> hd rest = ''--'')"
      using "2.IH" [OF False o refl] "2.prems" parse_option_fine [OF o] False by simp
    moreover have "a # rs = (a # take k rs) @ drop k rs" by simp
    ultimately show ?thesis by (metis append_assoc)
  qed
qed

text \<open>C38: An accepted command line. At most 32 events are stored, each at least one second and less than \<open>2 ^ 31\<close> seconds after the start, for
  one of the three settings, with a value that fits its buffer, and \<^verbatim>\<open>max\<close> without a comma; there is a command
  and it is what follows \<^verbatim>\<open>--\<close>.\<close>

theorem parse_main_sound:
  assumes "parse_main args = Inr (m, cmd)"
  shows "mgr_fine m \<and> cmd \<noteq> [] \<and> (\<exists>opts. args = opts @ ''--'' # cmd)"
proof -
  obtain rest where p: "parse_mgr mgr_start args = Inr (m, rest)" and rest: "2 \<le> length rest" "cmd = tl rest"
    using assms by (auto simp: parse_main_def split: sum.splits if_splits)
  have "mgr_fine mgr_start" by (simp add: mgr_fine_def mgr_start_def)
  from parse_mgr_fine [OF p this] rest show ?thesis
    by (cases rest) (auto simp: Suc_le_eq)
qed

text \<open>A command line with an event.\<close>

definition one_event :: "string list" where
  "one_event = [''--at'', ''5:max=20000,100000'', ''--'', ''sleep'', ''9'']"

lemma one_event_parsed:
  "parse_main one_event = Inr (mgr_start\<lparr>m_events := [\<lparr>e_sec = 5, e_key = ''max'', e_value = ''20000 100000''\<rparr>]\<rparr>, [''sleep'', ''9''])"
  by (simp add: parse_main_def one_event_def parse_option_def mgr_start_def MAX_EVENTS_def parse_at_def scan_at_def scan_int_def scan_ld_def LONG_MAX_def as_int_def scan_d_def
      is_space_def is_digit_def lower_def num_def digit_val_def at_value_def Let_def)

theorem parse_main_sound_witness:
  "\<exists>m. parse_main one_event = Inr (m, [''sleep'', ''9'']) \<and> map e_value (m_events m) = [''20000 100000''] \<and> mgr_fine m"
  using parse_main_sound [OF one_event_parsed] one_event_parsed by simp

section \<open>Files\<close>

text \<open>
  \<^verbatim>\<open>write_file\<close> and \<^verbatim>\<open>read_file\<close> return the C result; \<open>answer\<close> is what \<^verbatim>\<open>write\<close> returns, or what \<^verbatim>\<open>read\<close> delivers,
  \<open>None\<close> for an error. The buffer is as \<^verbatim>\<open>read_file\<close> leaves it, up to its terminating zero.
\<close>

definition write_file :: "bool \<Rightarrow> int \<Rightarrow> string \<Rightarrow> int" where
  "write_file opened answer s = (if \<not> opened then -1 else if answer = int (length s) then 0 else -1)"

definition read_file :: "bool \<Rightarrow> string option \<Rightarrow> nat \<Rightarrow> int \<times> string" where
  "read_file opened answer len =
     (if \<not> opened then (-1, []) else
      case answer of
        None \<Rightarrow> (-1, [])
      | Some data \<Rightarrow> (0, takeWhile (\<lambda>c. c \<noteq> CHR 0x00) (rev (dropWhile (\<lambda>c. c = LF) (rev (take (len - 1) data))))))"

text \<open>\<^verbatim>\<open>strstr\<close>: the text from the first occurrence on.\<close>

fun strstr :: "string \<Rightarrow> string \<Rightarrow> string option" where
  "strstr hay needle =
     (if take (length needle) hay = needle then Some hay
      else case hay of [] \<Rightarrow> None | c # cs \<Rightarrow> strstr cs needle)"

declare strstr.simps [simp del]

definition stat_field :: "bool \<Rightarrow> string option \<Rightarrow> string \<Rightarrow> nat" where
  "stat_field opened answer field = (case read_file opened answer 1024 of (rc, buf) \<Rightarrow>
     if rc \<noteq> 0 then 2 ^ 64 - 1
     else case strstr buf field of
       None \<Rightarrow> 2 ^ 64 - 1
     | Some p \<Rightarrow> fst (strtoull (drop (length field) p)))"

text \<open>The file as the kernel writes it: a line for each field.\<close>

definition cpu_stat :: "(string \<times> nat) list \<Rightarrow> string" where
  "cpu_stat fs = concat (map (\<lambda>(k, v). k @ '' '' @ dec v @ [LF]) fs)"

lemma strstr_skip: "take (length needle) (c # cs) \<noteq> needle \<Longrightarrow> strstr (c # cs) needle = strstr cs needle"
  by (subst strstr.simps) simp

lemma strstr_found: "take (length needle) hay = needle \<Longrightarrow> strstr hay needle = Some hay"
  by (subst strstr.simps) simp

lemma strstr_skip_all: "needle \<noteq> [] \<Longrightarrow> hd needle \<notin> set xs \<Longrightarrow> strstr (xs @ ys) needle = strstr ys needle"
proof (induction xs)
  case (Cons c cs)
  then have "take (length needle) (c # cs @ ys) \<noteq> needle" by (cases needle) auto
  then show ?case using Cons by (simp add: strstr_skip)
qed simp

lemma strstr_skip_dec: "needle \<noteq> [] \<Longrightarrow> \<not> is_digit (hd needle) \<Longrightarrow> strstr (dec v @ ys) needle = strstr ys needle"
  using dec_digits strstr_skip_all by blast

lemma strtoull_dec:
  assumes "v \<le> ULLONG_MAX" "ys = [] \<or> hd ys = LF"
  shows "strtoull (CHR '' '' # dec v @ ys) = (v, ys, False)"
proof -
  obtain d ds where d: "dec v = d # ds" by (cases "dec v") auto
  have di: "is_digit d" using dec_digits [of d v] d by simp
  then have nd: "\<not> is_space d" "d \<noteq> CHR ''-''" "d \<noteq> CHR ''+''" by (auto simp: is_digit_def is_space_def)
  have "dropWhile is_space (CHR '' '' # dec v @ ys) = dec v @ ys" using d nd by (simp add: is_space_def [of "CHR '' ''"])
  moreover have "takeWhile is_digit (dec v @ ys) = dec v" "dropWhile is_digit (dec v @ ys) = ys"
    using dec_digits [of _ v] assms(2) by (cases ys; auto simp: takeWhile_append dropWhile_append is_digit_def LF_def)+
  moreover have "hd (dec v @ ys) = d" using d by simp
  ultimately show ?thesis using assms(1) nd by (simp add: strtoull_def Let_def)
qed

lemma read_file_line:
  assumes "CHR 0x00 \<notin> set x" "last x \<noteq> LF" "x \<noteq> []" "length x < 1023"
  shows "read_file True (Some (x @ [LF])) 1024 = (0, x)"
proof -
  obtain y c where y: "x = y @ [c]" using assms(3) by (cases x rule: rev_cases) auto
  have "takeWhile (\<lambda>c. c \<noteq> CHR 0x00) x = x" unfolding takeWhile_eq_all_conv using assms(1) by blast
  then show ?thesis using assms(2,4) y by (simp add: read_file_def)
qed

text \<open>The names of the fields, as the kernel orders them.\<close>

definition stat_fields :: "string list" where
  "stat_fields = [''usage_usec'', ''user_usec'', ''system_usec'', ''nr_periods'', ''nr_throttled'', ''throttled_usec'', ''nr_bursts'', ''burst_usec'']"

definition stat_text :: "nat \<Rightarrow> nat \<Rightarrow> nat \<Rightarrow> nat \<Rightarrow> nat \<Rightarrow> nat \<Rightarrow> nat \<Rightarrow> nat \<Rightarrow> string" where
  "stat_text a b c d e f g h = ''usage_usec '' @ dec a @ LF # ''user_usec '' @ dec b @ LF # ''system_usec '' @ dec c @ LF #
     ''nr_periods '' @ dec d @ LF # ''nr_throttled '' @ dec e @ LF # ''throttled_usec '' @ dec f @ LF #
     ''nr_bursts '' @ dec g @ LF # ''burst_usec '' @ dec h"

lemma digit_no_letter: "c \<in> set (dec v) \<Longrightarrow> c \<noteq> CHR 0x00 \<and> c \<noteq> LF"
  using dec_digits [of c v] by (auto simp: is_digit_def LF_def)

lemma read_stat_text:
  assumes "\<forall>v \<in> {a, b, c, d, e, f, g, h}. v \<le> ULLONG_MAX"
  shows "read_file True (Some (stat_text a b c d e f g h @ [LF])) 1024 = (0, stat_text a b c d e f g h)"
proof (rule read_file_line)
  have l: "length (dec v) \<le> 20" if "v \<le> ULLONG_MAX" for v
    using that by (intro length_dec) (simp_all add: ULLONG_MAX_def)
  show "CHR 0x00 \<notin> set (stat_text a b c d e f g h)" using digit_no_letter by (auto simp: stat_text_def LF_def)
  have "last (dec h) \<noteq> LF" using digit_no_letter [of "last (dec h)" h] by simp
  then show "last (stat_text a b c d e f g h) \<noteq> LF" by (simp add: stat_text_def)
  show "stat_text a b c d e f g h \<noteq> []" by (simp add: stat_text_def)
  show "length (stat_text a b c d e f g h) < 1023"
    using l [of a] l [of b] l [of c] l [of d] l [of e] l [of f] l [of g] l [of h] assms by (simp add: stat_text_def)
qed

lemma stat_field_read: "strstr (stat_text a b c d e f g h) k = Some (k @ CHR '' '' # dec v @ ys) \<Longrightarrow> ys = [] \<or> hd ys = LF \<Longrightarrow>
   \<forall>v \<in> {v, a, b, c, d, e, f, g, h}. v \<le> ULLONG_MAX \<Longrightarrow> stat_field True (Some (stat_text a b c d e f g h @ [LF])) k = v"
  using read_stat_text [of a b c d e f g h] strtoull_dec [of v ys] by (simp add: stat_field_def)

lemmas strstr_simps = strstr_skip strstr_found strstr_skip_dec is_digit_def LF_def stat_text_def

lemma cpu_stat_text: "cpu_stat (zip stat_fields [a, b, c, d, e, f, g, h]) = stat_text a b c d e f g h @ [LF]"
  by (simp add: cpu_stat_def stat_fields_def stat_text_def)

lemma stat_found:
  assumes "(k, v) \<in> set (zip stat_fields [a, b, c, d, e, f, g, h])"
  shows "\<exists>ys. strstr (stat_text a b c d e f g h) k = Some (k @ CHR '' '' # dec v @ ys) \<and> (ys = [] \<or> hd ys = LF)"
  using assms unfolding stat_fields_def by (simp only: zip_Cons_Cons zip_Nil list.set insert_iff empty_iff prod.inject simp_thms) (elim disjE conjE; simp add: strstr_simps)

text \<open>On the \<^verbatim>\<open>cpu.stat\<close> the kernel writes, with its eight fields and any values of 64 bits, \<^verbatim>\<open>stat_field\<close> returns
  the value of the field that is asked for: the file fits the buffer, and a field whose name occurs in another
  name is not confused with it.\<close>

theorem stat_field_exact:
  assumes "length vs = 8" "\<forall>v \<in> set vs. v < 2 ^ 64" "(k, v) \<in> set (zip stat_fields vs)"
  shows "stat_field True (Some (cpu_stat (zip stat_fields vs))) k = v"
proof -
  obtain a b c d e f g h where vs: "vs = [a, b, c, d, e, f, g, h]"
    using assms(1) by (auto simp: length_Suc_conv numeral_eq_Suc)
  have "v \<in> set vs" using assms(3) set_zip_rightD by metis
  then have le: "\<forall>x \<in> {v, a, b, c, d, e, f, g, h}. x \<le> ULLONG_MAX" using assms(2) by (auto simp: vs ULLONG_MAX_def)
  obtain ys where "strstr (stat_text a b c d e f g h) k = Some (k @ CHR '' '' # dec v @ ys)" "ys = [] \<or> hd ys = LF"
    using stat_found [OF assms(3) [unfolded vs]] by blast
  from stat_field_read [OF this le] show ?thesis by (simp only: vs cpu_stat_text)
qed

theorem stat_field_exact_witness:
  "stat_field True (Some (cpu_stat (zip stat_fields [1, 2, 3, 4, 5, 6, 7, 8]))) ''throttled_usec'' = 6"
  using stat_field_exact [of "[1, 2, 3, 4, 5, 6, 7, 8]" "''throttled_usec''" 6] by (simp add: stat_fields_def)

section \<open>Ending a child\<close>

text \<open>
  What \<^verbatim>\<open>waitpid\<close> of the child answers: the child is reaped, it still runs, it is not a child any more, the
  call was interrupted, or another error. \<open>w i\<close> is the answer to the \<open>i\<close>-th call.
\<close>

datatype wait_answer = Reaped | Running | NoChild | Interrupted | WaitFailed
datatype kill_answer = Sent | NoProcess | KillFailed
datatype mgr_signal = SIGTERM | SIGKILL
datatype child_call = Signal int mgr_signal | Waited wait_answer

definition gone :: "wait_answer \<Rightarrow> bool" where
  "gone a \<longleftrightarrow> a = Reaped \<or> a = NoChild"

text \<open>The polling loop: how it ends and the number of calls; \<open>Running\<close> after the last means that it timed out.\<close>

fun poll_child :: "nat \<Rightarrow> nat \<Rightarrow> (nat \<Rightarrow> wait_answer) \<Rightarrow> wait_answer \<times> nat" where
  "poll_child 0 i w = (Running, i)"
| "poll_child (Suc n) i w =
     (if gone (w i) \<or> w i = WaitFailed then (w i, i + 1) else poll_child n (i + 1) w)"

text \<open>The blocking loop is repeated while it is interrupted, at most \<open>fuel\<close> times.\<close>

fun final_wait :: "nat \<Rightarrow> nat \<Rightarrow> (nat \<Rightarrow> wait_answer) \<Rightarrow> nat option" where
  "final_wait 0 i w = None"
| "final_wait (Suc n) i w = (if w i = Interrupted then final_wait n (i + 1) w else Some i)"

text \<open>The result of the function, the pid it leaves, and its calls.\<close>

definition terminate_child :: "nat \<Rightarrow> int \<Rightarrow> kill_answer \<Rightarrow> kill_answer \<Rightarrow> (nat \<Rightarrow> wait_answer) \<Rightarrow> (int \<times> int \<times> child_call list) option" where
  "terminate_child fuel pid term kil w =
     (if pid \<le> 0 then Some (0, pid, []) else
      let t = [Signal pid SIGTERM] in
      if term = KillFailed then Some (-1, pid, t) else
      case poll_child 100 0 w of (a, n) \<Rightarrow>
        let polled = t @ map (\<lambda>i. Waited (w i)) [0..<n] in
        if gone a then Some (0, -1, polled)
        else if a = WaitFailed then Some (-1, pid, polled)
        else let k = polled @ [Signal pid SIGKILL] in
          if kil = KillFailed then Some (-1, pid, k) else
          case final_wait fuel n w of
            None \<Rightarrow> None
          | Some m \<Rightarrow> let calls = k @ map (\<lambda>i. Waited (w i)) [n..<m + 1] in
              if gone (w m) then Some (0, -1, calls) else Some (-1, pid, calls))"

lemma poll_child_result:
  "poll_child n i w = (a, m) \<Longrightarrow>
     (if gone a \<or> a = WaitFailed then i < m \<and> m \<le> i + n \<and> a = w (m - 1) \<and> (\<forall>j. i \<le> j \<longrightarrow> j < m - 1 \<longrightarrow> \<not> gone (w j))
      else a = Running \<and> m = i + n \<and> (\<forall>j. i \<le> j \<longrightarrow> j < m \<longrightarrow> \<not> gone (w j)))"
proof (induction n i w rule: poll_child.induct)
  case (1 i w)
  then show ?case by (auto simp: gone_def)
next
  case (2 n i w)
  show ?case
  proof (cases "gone (w i) \<or> w i = WaitFailed")
    case True
    then show ?thesis using "2.prems" by auto
  next
    case False
    then have r: "poll_child n (i + 1) w = (a, m)" using "2.prems" by simp
    have first: "\<forall>j. i + 1 \<le> j \<longrightarrow> j < k \<longrightarrow> \<not> gone (w j) \<Longrightarrow> \<forall>j. i \<le> j \<longrightarrow> j < k \<longrightarrow> \<not> gone (w j)" for k
      using False by (metis Suc_eq_plus1 Suc_leI le_neq_implies_less)
    note IH = "2.IH" [OF False r]
    show ?thesis
    proof (cases "gone a \<or> a = WaitFailed")
      case True
      then have "i + 1 < m" "m \<le> i + 1 + n" "a = w (m - 1)" "\<forall>j. i + 1 \<le> j \<longrightarrow> j < m - 1 \<longrightarrow> \<not> gone (w j)" using IH by simp_all
      then show ?thesis using True first [of "m - 1"] by simp
    next
      case False
      then have "a = Running" "m = i + 1 + n" "\<forall>j. i + 1 \<le> j \<longrightarrow> j < m \<longrightarrow> \<not> gone (w j)" using IH by simp_all
      then show ?thesis using False first [of m] by simp
    qed
  qed
qed

lemma final_wait_result: "final_wait n i w = Some m \<Longrightarrow> i \<le> m \<and> w m \<noteq> Interrupted \<and> (\<forall>j. i \<le> j \<longrightarrow> j < m \<longrightarrow> w j = Interrupted)"
proof (induction n i w rule: final_wait.induct)
  case (2 n i w)
  show ?case
  proof (cases "w i = Interrupted")
    case True
    then have "final_wait n (i + 1) w = Some m" using "2.prems" by simp
    from "2.IH" [OF True this] True show ?thesis by (metis Suc_eq_plus1 Suc_leD not_less_eq_eq order_antisym)
  next
    case False
    then show ?thesis using "2.prems" by auto
  qed
qed simp

lemma final_wait_ends: "w m \<noteq> Interrupted \<Longrightarrow> i \<le> m \<Longrightarrow> m < i + n \<Longrightarrow> final_wait n i w \<noteq> None"
proof (induction n i w rule: final_wait.induct)
  case (2 n i w)
  then show ?case by (cases "i = m") (auto simp: Suc_le_eq)
qed simp

text \<open>C39: Ending a child. Signals go to this child only, and once a wait has found it gone no further signal is sent
  and no further wait is made, so that a process that got the same pid later is never hit. \<^verbatim>\<open>SIGKILL\<close> is sent only after
  100 polls none of which found it gone. Success means that there is no such child any more and that the
  pid was forgotten; on failure it is kept.\<close>

theorem terminate_child_sound:
  assumes "terminate_child fuel pid term kil w = Some (r, pid', calls)"
  shows "(\<forall>p s. Signal p s \<in> set calls \<longrightarrow> p = pid \<and> 0 < pid) \<and>
    (\<forall>a. Waited a \<in> set (butlast calls) \<longrightarrow> \<not> gone a) \<and>
    (\<forall>p. Signal p SIGKILL \<in> set calls \<longrightarrow>
       (\<exists>zs. calls = Signal pid SIGTERM # map (\<lambda>i. Waited (w i)) [0..<100] @ Signal pid SIGKILL # zs)) \<and>
    (if r = 0 then pid \<le> 0 \<and> pid' = pid \<and> calls = [] \<or> pid' = -1 \<and> (\<exists>a. gone a \<and> last calls = Waited a)
     else r = -1 \<and> pid' = pid)"
proof (cases "pid \<le> 0 \<or> term = KillFailed")
  case True
  then show ?thesis using assms by (auto simp: terminate_child_def Let_def split: if_splits)
next
  case False
  obtain a n where p: "poll_child 100 0 w = (a, n)" by fastforce
  note pr = poll_child_result [OF p]
  show ?thesis
  proof (cases "gone a \<or> a = WaitFailed")
    case True
    then have n: "0 < n" "a = w (n - 1)" "\<forall>j < n - 1. \<not> gone (w j)" using pr by auto
    then have up: "[0..<n] = [0..<n - 1] @ [n - 1]" by (metis upt_Suc_append Suc_pred' zero_le)
    have "calls = Signal pid SIGTERM # map (\<lambda>i. Waited (w i)) [0..<n - 1] @ [Waited a]"
      "r = (if gone a then 0 else -1)" "pid' = (if gone a then -1 else pid)"
      using assms False True p n up by (auto simp: terminate_child_def Let_def gone_def split: if_splits)
    then show ?thesis using False n True by (auto simp: butlast_append)
  next
    case quiet: False
    then have n: "a = Running" "n = 100" "\<forall>j < 100. \<not> gone (w j)" using pr by auto
    let ?t = "Signal pid SIGTERM # map (\<lambda>i. Waited (w i)) [0..<100]"
    show ?thesis
    proof (cases "kil = KillFailed")
      case True
      then have "calls = ?t @ [Signal pid SIGKILL]" "r = -1" "pid' = pid"
        using assms False p n by (auto simp: terminate_child_def Let_def gone_def)
      then show ?thesis using False n by (auto simp: butlast_append)
    next
      case False' : False
      then obtain m where m: "final_wait fuel 100 w = Some m"
        using assms False p n by (auto simp: terminate_child_def Let_def gone_def split: option.splits)
      note f = final_wait_result [OF m]
      then have up: "[100..<m + 1] = [100..<m] @ [m]" by simp
      have c: "calls = ?t @ Signal pid SIGKILL # map (\<lambda>i. Waited (w i)) [100..<m] @ [Waited (w m)]"
        "r = (if gone (w m) then 0 else -1)" "pid' = (if gone (w m) then -1 else pid)"
        using assms False False' p n m up by (auto simp: terminate_child_def Let_def gone_def split: if_splits)
      have "\<forall>j. 100 \<le> j \<longrightarrow> j < m \<longrightarrow> \<not> gone (w j)" using f by (simp add: gone_def)
      then show ?thesis using False n c by (auto simp: butlast_append)
    qed
  qed
qed

text \<open>A child that ignores \<^verbatim>\<open>SIGTERM\<close>; the wait after \<^verbatim>\<open>SIGKILL\<close> is interrupted once.\<close>

definition stubborn :: "nat \<Rightarrow> wait_answer" where
  "stubborn i = (if i < 100 then Running else if i = 100 then Interrupted else Reaped)"

lemma poll_stubborn: "i + n \<le> 100 \<Longrightarrow> poll_child n i stubborn = (Running, i + n)"
  by (induction n arbitrary: i) (auto simp: stubborn_def gone_def)

lemma final_stubborn: "final_wait 2 100 stubborn = Some 101"
  by (simp add: stubborn_def numeral_2_eq_2)

lemma gone_stubborn: "gone (stubborn 101)"
  by (simp add: stubborn_def gone_def)

lemma stubborn_run:
  "terminate_child 2 7 Sent Sent stubborn =
   Some (0, -1, [Signal 7 SIGTERM] @ map (\<lambda>i. Waited (stubborn i)) [0..<100] @ Signal 7 SIGKILL # map (\<lambda>i. Waited (stubborn i)) [100..<102])"
  using gone_stubborn by (simp add: terminate_child_def poll_stubborn [of 0 100, simplified] final_stubborn gone_def)

theorem terminate_child_sound_witness:
  "\<exists>calls. terminate_child 2 7 Sent Sent stubborn = Some (0, -1, calls) \<and>
     (\<forall>a. Waited a \<in> set (butlast calls) \<longrightarrow> \<not> gone a) \<and> (\<exists>a. gone a \<and> last calls = Waited a)"
  using terminate_child_sound [OF stubborn_run] stubborn_run by auto

text \<open>It returns as soon as one wait after the polls is not interrupted.\<close>

lemma terminate_child_returns:
  assumes "w m \<noteq> Interrupted" "100 \<le> m" "m < 100 + fuel"
  shows "terminate_child fuel pid term kil w \<noteq> None"
proof -
  obtain a n where p: "poll_child 100 0 w = (a, n)" by fastforce
  show ?thesis
  proof (cases "gone a \<or> a = WaitFailed")
    case True
    then show ?thesis using p by (auto simp: terminate_child_def Let_def)
  next
    case False
    then have "n = 100" using poll_child_result [OF p] by auto
    then show ?thesis using p False final_wait_ends [of w m 100 fuel] assms
      by (auto simp: terminate_child_def Let_def split: option.splits)
  qed
qed

end
