(* ===== verification/Mtrace.thy ===== *)
theory Mtrace
  imports Prelude Text
begin

text \<open>
  The allocator wrapper of the memory tracer (\<^verbatim>\<open>Week7/Assignment7/virtual_memory/level2/support.c\<close>): the
  bootstrap arena that serves allocations while \<^verbatim>\<open>dlsym\<close> runs, the resolution of the four functions of
  the C library by exactly one thread, and the traced calls, each with its event under the mutex
  \<^verbatim>\<open>stats\<close>. Addresses are natural numbers and 0 is the null pointer; \<open>base\<close> is the address of the arena.
  The first part is sequential, the second a step relation with any number of threads.
\<close>

section \<open>The arena\<close>

definition BOOT_CAP :: nat where "BOOT_CAP = 1024 * 1024"
definition ALIGN :: nat where "ALIGN = 16"

text \<open>\<open>blocks\<close> and \<open>boots\<close> are not in the code: the blocks returned so far, with their offset and requested
  size, and the number of reservations.\<close>

record arena =
  used :: u64
  mem :: "nat \<Rightarrow> u8"
  blocks :: "(nat \<times> nat) list"
  boots :: nat

definition arena_start :: arena where
  "arena_start = \<lparr>used = 0, mem = (\<lambda>_. 0), blocks = [], boots = 0\<rparr>"

definition is_boot :: "nat \<Rightarrow> nat \<Rightarrow> bool" where
  "is_boot base p \<longleftrightarrow> base + ALIGN \<le> p \<and> p < base + BOOT_CAP"

text \<open>\<^verbatim>\<open>memcpy\<close> of a \<^verbatim>\<open>size_t\<close>, least significant byte first.\<close>

definition store_size :: "nat \<Rightarrow> nat \<Rightarrow> (nat \<Rightarrow> u8) \<Rightarrow> nat \<Rightarrow> u8" where
  "store_size n at m k = (if at \<le> k \<and> k < at + 8 then of_nat (n div 256 ^ (k - at)) else m k)"

definition load_size :: "nat \<Rightarrow> (nat \<Rightarrow> u8) \<Rightarrow> nat" where
  "load_size at m = (\<Sum>i<8. unat (m (at + i)) * 256 ^ i)"

definition span :: "nat \<Rightarrow> nat" where
  "span n = (ALIGN + (if n \<noteq> 0 then n else 1) + ALIGN - 1) div ALIGN * ALIGN"

text \<open>The result is the offset of the block in the arena; the pointer is \<open>base + offset + ALIGN\<close>.\<close>

definition boot :: "nat \<Rightarrow> arena \<Rightarrow> nat option \<times> arena" where
  "boot n a =
     (if n > BOOT_CAP - ALIGN - ALIGN then (None, a) else
      let offset = unat (used a); a' = a\<lparr>used := used a + of_nat (span n), boots := boots a + 1\<rparr> in
      if offset > BOOT_CAP \<or> span n > BOOT_CAP - offset then (None, a')
      else (Some offset, a'\<lparr>mem := store_size n offset (mem a), blocks := blocks a @ [(offset, n)]\<rparr>))"

text \<open>\<^verbatim>\<open>memcpy(q, p, len)\<close> between offsets.\<close>

definition copy_bytes :: "nat \<Rightarrow> nat \<Rightarrow> nat \<Rightarrow> (nat \<Rightarrow> u8) \<Rightarrow> nat \<Rightarrow> u8" where
  "copy_bytes q p len m k = (if q \<le> k \<and> k < q + len then m (p + (k - q)) else m k)"

definition boot_resize :: "nat \<Rightarrow> nat \<Rightarrow> arena \<Rightarrow> nat option \<times> arena" where
  "boot_resize p n a =
     (if n = 0 then (None, a) else
      let old = load_size (p - ALIGN) (mem a) in
      case boot n a of
        (None, a') \<Rightarrow> (None, a')
      | (Some q, a') \<Rightarrow> (Some q, a'\<lparr>mem := copy_bytes (q + ALIGN) p (min old n) (mem a')\<rparr>))"

text \<open>\<^verbatim>\<open>calloc\<close> while the functions are being resolved.\<close>

definition boot_calloc :: "nat \<Rightarrow> nat \<Rightarrow> arena \<Rightarrow> nat option \<times> arena" where
  "boot_calloc n s a =
     (if s \<noteq> 0 \<and> n > (2 ^ 64 - 1) div s then (None, a) else
      case boot (n * s) a of
        (None, a') \<Rightarrow> (None, a')
      | (Some q, a') \<Rightarrow> (Some q, a'\<lparr>mem := (\<lambda>k. if q + ALIGN \<le> k \<and> k < q + ALIGN + n * s then 0 else mem a' k)\<rparr>))"

text \<open>The program writes a byte of a block it was given.\<close>

definition store_byte :: "nat \<times> nat \<Rightarrow> nat \<Rightarrow> u8 \<Rightarrow> arena \<Rightarrow> arena" where
  "store_byte blk i b a = a\<lparr>mem := (mem a)(fst blk + ALIGN + i := b)\<rparr>"

section \<open>Blocks stay apart\<close>

definition arena_inv :: "arena \<Rightarrow> bool" where
  "arena_inv a \<longleftrightarrow> unat (used a) \<le> boots a * 2 ^ 20 \<and>
     (\<forall>(o1, n)\<in>set (blocks a). ALIGN dvd o1 \<and> o1 + span n \<le> BOOT_CAP \<and> o1 + span n \<le> unat (used a) \<and> load_size o1 (mem a) = n) \<and>
     sorted_wrt (\<lambda>(o1, n1) (o2, n2). o1 + span n1 \<le> o2) (blocks a) \<and> ALIGN dvd unat (used a)"

lemma ALIGN_16 [simp]: "ALIGN = 16"
  by (simp add: ALIGN_def)

lemma span_bounds: "n + 16 \<le> span n" "17 \<le> span n" "span n \<le> n + 32" "16 dvd span n" "span n \<le> n + 31 \<or> n = 0"
  unfolding span_def by (cases "n = 0"; simp; linarith?)+

lemma load_store: "n < 2 ^ 64 \<Longrightarrow> load_size at (store_size n at m) = n"
proof -
  assume n: "n < 2 ^ 64"
  have bytes: "(\<Sum>i<k. (n div 256 ^ i mod 256) * 256 ^ i) = n mod 256 ^ k" for k :: nat
  proof (induction k)
    case (Suc k)
    have "n mod 256 ^ Suc k = 256 ^ k * (n div 256 ^ k mod 256) + n mod 256 ^ k"
      using mod_mult2_eq [of n "256 ^ k" 256] by (simp add: mult.commute)
    with Suc show ?case by simp
  qed simp
  have "load_size at (store_size n at m) = (\<Sum>i<8. (n div 256 ^ i mod 256) * 256 ^ i)"
    unfolding load_size_def by (rule sum.cong) (auto simp: store_size_def unat_of_nat)
  also have "\<dots> = n mod 256 ^ 8" by (rule bytes)
  finally show ?thesis using n by simp
qed

lemma load_agree: "(\<And>k. at \<le> k \<Longrightarrow> k < at + 8 \<Longrightarrow> m' k = m k) \<Longrightarrow> load_size at m' = load_size at m"
  unfolding load_size_def by (intro sum.cong) auto

lemma blocks_apart:
  assumes "sorted_wrt (\<lambda>(o1, n1) (o2, n2). o1 + span n1 \<le> o2) bs" "(o1, n1) \<in> set bs" "(o2, n2) \<in> set bs" "(o1, n1) \<noteq> (o2, n2)"
  shows "o1 + span n1 \<le> o2 \<or> o2 + span n2 \<le> o1"
  using assms by (induction bs) auto

lemma data_write:
  assumes inv: "arena_inv a" and blk: "(o1, n1) \<in> set (blocks a)"
    and m: "\<And>k. m' k \<noteq> mem a k \<Longrightarrow> o1 + 16 \<le> k \<and> k < o1 + 16 + n1"
  shows "arena_inv (a\<lparr>mem := m'\<rparr>)"
proof -
  have "load_size o2 m' = load_size o2 (mem a)" if b2: "(o2, n2) \<in> set (blocks a)" for o2 n2
  proof (rule load_agree)
    fix k assume k: "o2 \<le> k" "k < o2 + 8"
    have "o1 + span n1 \<le> o2 \<or> o2 + span n2 \<le> o1 \<or> o1 = o2"
      using blocks_apart [OF _ blk b2] inv by (auto simp: arena_inv_def)
    then show "m' k = mem a k" using m [of k] k span_bounds(1) [of n1] span_bounds(2) [of n2] by fastforce
  qed
  then show ?thesis using inv by (fastforce simp: arena_inv_def)
qed

lemma boot_keeps:
  assumes inv: "arena_inv a" and few: "boots a < 2 ^ 43"
  shows "arena_inv (snd (boot n a))"
proof (cases "n > BOOT_CAP - ALIGN - ALIGN")
  case True
  then show ?thesis using inv by (simp add: boot_def)
next
  case False
  let ?o = "unat (used a)"
  have n: "n + 32 \<le> 2 ^ 20" using False by (simp add: BOOT_CAP_def)
  then have sp: "span n \<le> 2 ^ 20" using span_bounds(5) [of n] by (cases "n = 0") (auto simp: span_def)
  have u: "?o \<le> boots a * 2 ^ 20" using inv by (simp add: arena_inv_def)
  have "boots a * 2 ^ 20 \<le> 2 ^ 43 * (2 ^ 20 :: nat)" using few by (intro mult_le_mono1) simp
  then have nowrap: "?o + span n < 2 ^ 64" using u sp by simp
  have used': "unat (used a + of_nat (span n)) = ?o + span n"
    using nowrap sp by (subst unat_word_ariths) (simp add: unat_of_nat)
  let ?a' = "a\<lparr>used := used a + of_nat (span n), boots := boots a + 1\<rparr>"
  have inv': "arena_inv ?a'"
    using inv used' u sp span_bounds(4) [of n] by (fastforce simp: arena_inv_def)
  show ?thesis
  proof (cases "?o > BOOT_CAP \<or> span n > BOOT_CAP - ?o")
    case True
    then show ?thesis using False inv' by (simp add: boot_def Let_def)
  next
    case room: False
    have keep: "load_size o2 (store_size n ?o (mem a)) = load_size o2 (mem a)" if "o2 + span n2 \<le> ?o" for o2 n2
      by (rule load_agree) (use that span_bounds(2) [of n2] in \<open>auto simp: store_size_def\<close>)
    have "arena_inv (?a'\<lparr>mem := store_size n ?o (mem a), blocks := blocks a @ [(?o, n)]\<rparr>)"
      using inv inv' used' room keep n load_store [of n ?o "mem a"]
      by (fastforce simp: arena_inv_def sorted_wrt_append)
    then show ?thesis using False room by (simp add: boot_def Let_def)
  qed
qed

lemma boot_result:
  assumes "boot n a = (r, a')"
  shows "case r of None \<Rightarrow> blocks a' = blocks a \<and> mem a' = mem a
    | Some o1 \<Rightarrow> blocks a' = blocks a @ [(o1, n)] \<and> mem a' = store_size n o1 (mem a) \<and> o1 = unat (used a)"
  using assms by (auto simp: boot_def Let_def split: if_splits)

lemma store_keeps: "arena_inv a \<Longrightarrow> blk \<in> set (blocks a) \<Longrightarrow> i < snd blk \<Longrightarrow> arena_inv (store_byte blk i b a)"
  unfolding store_byte_def by (rule data_write [of _ "fst blk" "snd blk"]) (auto split: if_splits)

lemma resize_keeps:
  assumes "arena_inv a" "boots a < 2 ^ 43"
  shows "arena_inv (snd (boot_resize p n a))"
proof (cases "boot n a")
  case (Pair r a')
  have inv: "arena_inv a'" using boot_keeps [OF assms, of n] Pair by simp
  show ?thesis
  proof (cases r)
    case None
    then show ?thesis using assms(1) inv Pair by (simp add: boot_resize_def Let_def)
  next
    case (Some q)
    then have "(q, n) \<in> set (blocks a')" using boot_result [OF Pair] by simp
    then have "arena_inv (a'\<lparr>mem := copy_bytes (q + ALIGN) p (min old n) (mem a')\<rparr>)" for old
      by (rule data_write [OF inv]) (auto simp: copy_bytes_def split: if_splits)
    then show ?thesis using assms(1) Some Pair by (simp add: boot_resize_def Let_def)
  qed
qed

lemma calloc_keeps:
  assumes "arena_inv a" "boots a < 2 ^ 43"
  shows "arena_inv (snd (boot_calloc n s a))"
proof (cases "boot (n * s) a")
  case (Pair r a')
  have inv: "arena_inv a'" using boot_keeps [OF assms, of "n * s"] Pair by simp
  show ?thesis
  proof (cases r)
    case None
    then show ?thesis using assms(1) inv Pair by (simp add: boot_calloc_def)
  next
    case (Some q)
    then have "(q, n * s) \<in> set (blocks a')" using boot_result [OF Pair] by simp
    then have "arena_inv (a'\<lparr>mem := (\<lambda>k. if q + ALIGN \<le> k \<and> k < q + ALIGN + n * s then 0 else mem a' k)\<rparr>)"
      by (rule data_write [OF inv]) (auto split: if_splits)
    then show ?thesis using assms(1) Some Pair by (simp add: boot_calloc_def)
  qed
qed

text \<open>What \<^verbatim>\<open>boot_resize\<close> returns: a block of the new size with the bytes of the old one up to the smaller
  size; the old block is as it was.\<close>

lemma resize_copies:
  assumes inv: "arena_inv a" and few: "boots a < 2 ^ 43" and blk: "(o1, n1) \<in> set (blocks a)"
    and r: "boot_resize (o1 + ALIGN) n a = (Some q, a')"
  shows "(q, n) \<in> set (blocks a')" "i < min n1 n \<Longrightarrow> mem a' (q + ALIGN + i) = mem a (o1 + ALIGN + i)"
    "i < n1 \<Longrightarrow> mem a' (o1 + ALIGN + i) = mem a (o1 + ALIGN + i)"
proof -
  obtain a1 where b: "boot n a = (Some q, a1)" "n \<noteq> 0"
    and a': "a' = a1\<lparr>mem := copy_bytes (q + ALIGN) (o1 + ALIGN) (min n1 n) (mem a1)\<rparr>"
    using r inv blk by (auto simp: boot_resize_def Let_def arena_inv_def split: if_splits prod.splits option.splits)
  note res = boot_result [OF b(1), simplified]
  show "(q, n) \<in> set (blocks a')" using res a' by simp
  have below: "o1 + 16 + n1 \<le> q" using inv blk res span_bounds(1) [of n1] by (fastforce simp: arena_inv_def)
  have old: "mem a1 (o1 + 16 + i) = mem a (o1 + 16 + i)" if "i < n1" for i
    using that below res by (simp add: store_size_def)
  show "i < min n1 n \<Longrightarrow> mem a' (q + ALIGN + i) = mem a (o1 + ALIGN + i)"
    using old [of i] by (simp add: a' copy_bytes_def)
  show "i < n1 \<Longrightarrow> mem a' (o1 + ALIGN + i) = mem a (o1 + ALIGN + i)"
    using old [of i] below by (simp add: a' copy_bytes_def)
qed

section \<open>Printing without an allocator\<close>

text \<open>\<^verbatim>\<open>mt_number\<close>: the buffer is filled from its end; \<open>n\<close> is the number of bytes left before what is written.\<close>

fun number_loop :: "nat \<Rightarrow> nat \<Rightarrow> string \<Rightarrow> string option" where
  "number_loop n v written =
     (if n = 0 then None
      else let written' = digit (v mod 10) # written in
        if v div 10 = 0 then Some written' else number_loop (n - 1) (v div 10) written')"

definition mt_number :: "u64 \<Rightarrow> string option" where
  "mt_number v = number_loop 31 (unat v) []"

declare number_loop.simps [simp del]

lemma number_loop_dec: "length (dec v) \<le> n \<Longrightarrow> number_loop n v written = Some (dec v @ written)"
proof (induction n v written rule: number_loop.induct)
  case (1 n v written)
  have n: "n \<noteq> 0" using "1.prems" by (metis dec_not_Nil le_zero_eq length_0_conv)
  show ?case
  proof (cases "v < 10")
    case True
    then show ?thesis using n by (subst number_loop.simps, subst dec.simps) (simp add: Let_def)
  next
    case False
    then have v: "v div 10 \<noteq> 0" by simp
    have d: "dec v = dec (v div 10) @ [digit (v mod 10)]" using False by (subst dec.simps) simp
    then have "length (dec (v div 10)) \<le> n - 1" using "1.prems" n by simp
    with "1.IH" [OF n refl v] have "number_loop (n - 1) (v div 10) (digit (v mod 10) # written) = Some (dec (v div 10) @ digit (v mod 10) # written)"
      by simp
    then show ?thesis using n v d by (subst number_loop.simps) (simp add: Let_def)
  qed
qed

text \<open>The buffer is large enough for every number.\<close>

lemma mt_number_dec: "mt_number v = Some (dec (unat v))"
proof -
  have "unat v < 10 ^ 20" using unsigned_less [of v, where 'a = nat] by simp
  then have "length (dec (unat v)) \<le> 20" by (rule length_dec) simp
  then show ?thesis unfolding mt_number_def by (subst number_loop_dec) simp_all
qed

section \<open>Calls, events and threads\<close>

datatype alloc_call = Malloc nat | Calloc nat nat | Free nat | Realloc nat nat

datatype mt_op = MT_MALLOC | MT_CALLOC | MT_REALLOC | MT_FREE

record mt_event =
  ev_op :: mt_op
  ev_old :: nat
  ev_result :: nat
  ev_requested :: nat
  ev_overflow :: bool

definition calloc_overflow :: "nat \<Rightarrow> nat \<Rightarrow> bool" where
  "calloc_overflow n s \<longleftrightarrow> s \<noteq> 0 \<and> n > (2 ^ 64 - 1) div s"

text \<open>The arguments of \<^verbatim>\<open>mt_event\<close> for a call with result \<open>r\<close>.\<close>

fun event_of :: "alloc_call \<Rightarrow> nat \<Rightarrow> mt_event" where
  "event_of (Malloc n) r = \<lparr>ev_op = MT_MALLOC, ev_old = 0, ev_result = r, ev_requested = n, ev_overflow = False\<rparr>"
| "event_of (Calloc n s) r = \<lparr>ev_op = MT_CALLOC, ev_old = 0, ev_result = r,
     ev_requested = (if calloc_overflow n s then 0 else n * s), ev_overflow = calloc_overflow n s\<rparr>"
| "event_of (Free p) r = \<lparr>ev_op = MT_FREE, ev_old = p, ev_result = 0, ev_requested = 0, ev_overflow = False\<rparr>"
| "event_of (Realloc p n) r = \<lparr>ev_op = MT_REALLOC, ev_old = p, ev_result = r, ev_requested = n, ev_overflow = False\<rparr>"

fun arg :: "alloc_call \<Rightarrow> nat" where
  "arg (Free p) = p"
| "arg (Realloc p n) = p"
| "arg _ = 0"

text \<open>
  Where a thread is: outside, before \<^verbatim>\<open>resolve\<close>, resolving the four functions, waiting for another
  thread to resolve them, past \<^verbatim>\<open>resolve\<close>, holding \<^verbatim>\<open>stats\<close> before and after the call of the library.
\<close>

datatype pc = Idle | Enter alloc_call | Winner alloc_call | Spin alloc_call | Ready alloc_call | Locked alloc_call | Called alloc_call nat

record tracer =
  boot_arena :: arena
  rstate :: nat
  resolved :: nat
  pcs :: "nat \<Rightarrow> pc"
  stats_owner :: "nat option"
  events :: "mt_event list"
  heap :: "nat set"
  held :: "nat set"
  inner :: "nat set"

definition tracer_start :: tracer where
  "tracer_start = \<lparr>boot_arena = arena_start, rstate = 0, resolved = 0, pcs = (\<lambda>_. Idle), stats_owner = None,
     events = [], heap = {}, held = {}, inner = {}\<rparr>"

text \<open>
  What the C library does, as it is documented: \<open>h\<close> and \<open>h'\<close> are the addresses of its live blocks before
  and after. \<^verbatim>\<open>realloc\<close> of glibc to size 0 frees.
\<close>

fun libc :: "nat \<Rightarrow> alloc_call \<Rightarrow> nat \<Rightarrow> nat set \<Rightarrow> nat set \<Rightarrow> bool" where
  "libc base (Malloc n) r h h' \<longleftrightarrow>
     (r = 0 \<and> h' = h \<or> r \<noteq> 0 \<and> r \<notin> h \<and> \<not> (base \<le> r \<and> r < base + BOOT_CAP) \<and> h' = insert r h)"
| "libc base (Calloc n s) r h h' \<longleftrightarrow>
     (r = 0 \<and> h' = h \<or> r \<noteq> 0 \<and> r \<notin> h \<and> \<not> calloc_overflow n s \<and> \<not> (base \<le> r \<and> r < base + BOOT_CAP) \<and> h' = insert r h)"
| "libc base (Free p) r h h' \<longleftrightarrow> r = 0 \<and> h' = h - {p}"
| "libc base (Realloc p n) r h h' \<longleftrightarrow>
     (if p \<noteq> 0 \<and> n = 0 then r = 0 \<and> h' = h - {p}
      else r = 0 \<and> h' = h \<or>
        r \<noteq> 0 \<and> r \<notin> h - {p} \<and> \<not> (base \<le> r \<and> r < base + BOOT_CAP) \<and> h' = insert r (h - {p}))"

definition boot_pointers :: "nat \<Rightarrow> arena \<Rightarrow> nat set" where
  "boot_pointers base a = (\<lambda>(o1, n). base + o1 + ALIGN) ` set (blocks a)"

text \<open>A correct program frees or resizes null, a block of the arena, or a block of the library it still holds. Blocks of functions
  that are not traced, such as \<^verbatim>\<open>aligned_alloc\<close>, are not part of this model.\<close>

definition permitted :: "nat \<Rightarrow> alloc_call \<Rightarrow> tracer \<Rightarrow> bool" where
  "permitted base c s \<longleftrightarrow> arg c = 0 \<or> arg c \<in> boot_pointers base (boot_arena s) \<or> arg c \<in> held s"

text \<open>A call that is served from the arena while the functions are being resolved, by the resolving thread.\<close>

fun nested_call :: "nat \<Rightarrow> alloc_call \<Rightarrow> arena \<Rightarrow> arena" where
  "nested_call base (Malloc n) a = snd (boot n a)"
| "nested_call base (Calloc n s) a = snd (boot_calloc n s a)"
| "nested_call base (Free p) a = a"
| "nested_call base (Realloc p n) a = (if p \<noteq> 0 then snd (boot_resize (p - base) n a) else snd (boot n a))"

definition given_back :: "alloc_call \<Rightarrow> nat \<Rightarrow> nat set" where
  "given_back c r = (if r \<noteq> 0 then {r} else case c of Realloc p n \<Rightarrow> if n \<noteq> 0 then {p} - {0} else {} | _ \<Rightarrow> {})"

inductive mstep :: "nat \<Rightarrow> tracer \<Rightarrow> tracer \<Rightarrow> bool" for base where
  enter: "pcs s t = Idle \<Longrightarrow> permitted base c s \<Longrightarrow>
     mstep base s (s\<lparr>pcs := (pcs s)(t := Enter c), held := held s - {arg c}\<rparr>)"
| free_boot: "pcs s t = Enter (Free p) \<Longrightarrow> is_boot base p \<Longrightarrow> mstep base s (s\<lparr>pcs := (pcs s)(t := Idle)\<rparr>)"
| realloc_boot: "pcs s t = Enter (Realloc p n) \<Longrightarrow> is_boot base p \<Longrightarrow>
     mstep base s (s\<lparr>pcs := (pcs s)(t := Idle), boot_arena := snd (boot_resize (p - base) n (boot_arena s))\<rparr>)"
| known: "pcs s t = Enter c \<Longrightarrow> \<not> is_boot base (arg c) \<Longrightarrow> rstate s = 2 \<Longrightarrow>
     mstep base s (s\<lparr>pcs := (pcs s)(t := Ready c)\<rparr>)"
| win: "pcs s t = Enter c \<Longrightarrow> \<not> is_boot base (arg c) \<Longrightarrow> rstate s = 0 \<Longrightarrow>
     mstep base s (s\<lparr>pcs := (pcs s)(t := Winner c), rstate := 1\<rparr>)"
| lose: "pcs s t = Enter c \<Longrightarrow> \<not> is_boot base (arg c) \<Longrightarrow> rstate s \<noteq> 0 \<Longrightarrow>
     mstep base s (s\<lparr>pcs := (pcs s)(t := Spin c)\<rparr>)"
| go: "pcs s t = Spin c \<Longrightarrow> rstate s = 2 \<Longrightarrow> mstep base s (s\<lparr>pcs := (pcs s)(t := Ready c)\<rparr>)"
| dlsym: "pcs s t = Winner c \<Longrightarrow> resolved s < 4 \<Longrightarrow> mstep base s (s\<lparr>resolved := resolved s + 1\<rparr>)"
| nested: "pcs s t = Winner c \<Longrightarrow> permitted base c' s \<Longrightarrow>
     mstep base s (s\<lparr>boot_arena := nested_call base c' (boot_arena s)\<rparr>)"
| publish: "pcs s t = Winner c \<Longrightarrow> resolved s = 4 \<Longrightarrow>
     mstep base s (s\<lparr>pcs := (pcs s)(t := Ready c), rstate := 2\<rparr>)"
| lock_stats: "pcs s t = Ready c \<Longrightarrow> stats_owner s = None \<Longrightarrow>
     mstep base s (s\<lparr>pcs := (pcs s)(t := Locked c), stats_owner := Some t\<rparr>)"
| real: "pcs s t = Locked c \<Longrightarrow> libc base c r (heap s) h' \<Longrightarrow>
     mstep base s (s\<lparr>pcs := (pcs s)(t := Called c r), heap := h'\<rparr>)"
| trace: "pcs s t = Called c r \<Longrightarrow>
     mstep base s (s\<lparr>pcs := (pcs s)(t := Idle), events := events s @ [event_of c r], stats_owner := None,
       held := held s \<union> given_back c r\<rparr>)"
| inner_alloc: "rstate s = 2 \<Longrightarrow> libc base (Malloc n) r (heap s) h' \<Longrightarrow>
     mstep base s (s\<lparr>heap := h', inner := inner s \<union> ({r} - {0})\<rparr>)"
| inner_free: "rstate s = 2 \<Longrightarrow> p \<in> inner s \<Longrightarrow>
     mstep base s (s\<lparr>heap := heap s - {p}, inner := inner s - {p}\<rparr>)"
| user_store: "blk \<in> set (blocks (boot_arena s)) \<Longrightarrow> i < snd blk \<Longrightarrow>
     mstep base s (s\<lparr>boot_arena := store_byte blk i b (boot_arena s)\<rparr>)"

inductive mreach :: "nat \<Rightarrow> tracer \<Rightarrow> bool" for base where
  start: "mreach base tracer_start"
| more: "mreach base s \<Longrightarrow> mstep base s s' \<Longrightarrow> mreach base s'"

section \<open>The log of events\<close>

text \<open>
  The set of live addresses a reader of the events computes: the addresses that were returned and not
  freed since. \<open>log_ok\<close>: no event contradicts the set.
\<close>

fun replay_event :: "mt_event \<Rightarrow> nat set \<Rightarrow> nat set" where
  "replay_event e h = (case ev_op e of
     MT_FREE \<Rightarrow> h - {ev_old e}
   | MT_REALLOC \<Rightarrow> if ev_old e \<noteq> 0 \<and> ev_requested e = 0 then h - {ev_old e}
       else if ev_result e = 0 then h else insert (ev_result e) (h - {ev_old e})
   | _ \<Rightarrow> if ev_result e = 0 then h else insert (ev_result e) h)"

fun event_ok :: "mt_event \<Rightarrow> nat set \<Rightarrow> bool" where
  "event_ok e h = (case ev_op e of
     MT_FREE \<Rightarrow> ev_old e = 0 \<or> ev_old e \<in> h
   | MT_REALLOC \<Rightarrow> (ev_old e = 0 \<or> ev_old e \<in> h) \<and> (ev_result e = 0 \<or> ev_result e \<notin> h - {ev_old e})
   | _ \<Rightarrow> ev_result e = 0 \<or> ev_result e \<notin> h)"

definition replay :: "mt_event list \<Rightarrow> nat set" where
  "replay es = fold replay_event es {}"

definition log_ok :: "mt_event list \<Rightarrow> bool" where
  "log_ok es \<longleftrightarrow> (\<forall>i<length es. event_ok (es ! i) (replay (take i es)))"

section \<open>Invariants\<close>

fun is_winner :: "pc \<Rightarrow> bool" where
  "is_winner (Winner c) = True"
| "is_winner _ = False"

definition winners :: "(nat \<Rightarrow> pc) \<Rightarrow> nat set" where
  "winners f = {t. is_winner (f t)}"

fun phase_ok :: "nat \<Rightarrow> pc \<Rightarrow> bool" where
  "phase_ok r (Spin c) \<longleftrightarrow> r \<noteq> 0"
| "phase_ok r (Ready c) \<longleftrightarrow> r = 2"
| "phase_ok r (Locked c) \<longleftrightarrow> r = 2"
| "phase_ok r (Called c x) \<longleftrightarrow> r = 2"
| "phase_ok r _ \<longleftrightarrow> True"

definition resolution :: "tracer \<Rightarrow> bool" where
  "resolution s \<longleftrightarrow> rstate s \<le> 2 \<and> resolved s \<le> 4 \<and> (rstate s = 0 \<longrightarrow> resolved s = 0) \<and> (rstate s = 2 \<longrightarrow> resolved s = 4) \<and>
     (if rstate s = 1 then \<exists>t. winners (pcs s) = {t} else winners (pcs s) = {}) \<and> (rstate s \<noteq> 2 \<longrightarrow> heap s = {}) \<and>
     (\<forall>t. phase_ok (rstate s) (pcs s t))"

fun arg_ok :: "nat \<Rightarrow> pc \<Rightarrow> bool" where
  "arg_ok base (Winner c) \<longleftrightarrow> \<not> is_boot base (arg c)"
| "arg_ok base (Spin c) \<longleftrightarrow> \<not> is_boot base (arg c)"
| "arg_ok base (Ready c) \<longleftrightarrow> \<not> is_boot base (arg c)"
| "arg_ok base (Locked c) \<longleftrightarrow> \<not> is_boot base (arg c)"
| "arg_ok base _ \<longleftrightarrow> True"

fun holds_stats :: "pc \<Rightarrow> bool" where
  "holds_stats (Locked c) = True"
| "holds_stats (Called c r) = True"
| "holds_stats _ = False"

definition locking :: "nat \<Rightarrow> tracer \<Rightarrow> bool" where
  "locking base s \<longleftrightarrow> (\<forall>t. arg_ok base (pcs s t)) \<and> (\<forall>t. holds_stats (pcs s t) \<longrightarrow> stats_owner s = Some t)"

fun flight :: "nat \<Rightarrow> pc \<Rightarrow> nat set" where
  "flight base Idle = {}"
| "flight base (Called c r) = given_back c r"
| "flight base (Enter c) = (if is_boot base (arg c) then {} else {arg c} - {0})"
| "flight base (Winner c) = {arg c} - {0}"
| "flight base (Spin c) = {arg c} - {0}"
| "flight base (Ready c) = {arg c} - {0}"
| "flight base (Locked c) = {arg c} - {0}"

text \<open>The flight of each thread, \<open>held\<close> and \<open>inner\<close> are disjoint parts of the heap of the library.\<close>

definition owners :: "(nat \<Rightarrow> nat set) \<Rightarrow> nat set \<Rightarrow> nat set \<Rightarrow> nat set \<Rightarrow> bool" where
  "owners F hs ins hp \<longleftrightarrow>
     (\<forall>p t. p \<in> F t \<longrightarrow> p \<in> hp \<and> p \<notin> hs \<and> p \<notin> ins \<and> (\<forall>u. p \<in> F u \<longrightarrow> u = t)) \<and>
     (\<forall>p. p \<in> hs \<longrightarrow> p \<in> hp \<and> p \<notin> ins) \<and> (\<forall>p. p \<in> ins \<longrightarrow> p \<in> hp)"

definition ownership :: "nat \<Rightarrow> tracer \<Rightarrow> bool" where
  "ownership base s \<longleftrightarrow> owners (\<lambda>t. flight base (pcs s t)) (held s) (inner s) (heap s) \<and>
     (\<forall>p\<in>heap s. p \<noteq> 0 \<and> \<not> (base \<le> p \<and> p < base + BOOT_CAP))"

definition log_inv :: "tracer \<Rightarrow> bool" where
  "log_inv s \<longleftrightarrow> log_ok (events s) \<and>
     (\<forall>t c r. pcs s t = Called c r \<longrightarrow>
        replay_event (event_of c r) (replay (events s)) = heap s - inner s \<and> event_ok (event_of c r) (replay (events s))) \<and>
     ((\<forall>t c r. pcs s t \<noteq> Called c r) \<longrightarrow> replay (events s) = heap s - inner s)"

lemma winners_upd:
  "winners (f(t := p)) = (if is_winner p then insert t (winners f) else winners f - {t})"
  by (auto simp: winners_def)

lemma not_winner: "\<not> is_winner (f t) \<Longrightarrow> winners f - {t} = winners f"
  by (auto simp: winners_def)

lemma phase_mono: "phase_ok r p \<Longrightarrow> r \<le> r' \<Longrightarrow> r' \<le> 2 \<Longrightarrow> phase_ok r' p"
  by (cases p) auto

lemma winner_state:
  assumes "resolution s" "pcs s t = Winner c"
  shows "rstate s = 1" "winners (pcs s) = {t}"
proof -
  have t: "t \<in> winners (pcs s)" using assms(2) by (simp add: winners_def)
  have w: "if rstate s = 1 then \<exists>t. winners (pcs s) = {t} else winners (pcs s) = {}"
    using assms(1) unfolding resolution_def by blast
  then show "rstate s = 1" using t by (metis empty_iff)
  then show "winners (pcs s) = {t}" using t w by auto
qed

lemma resolution_keeps: "mstep base s s' \<Longrightarrow> resolution s \<Longrightarrow> resolution s'"
proof (induction rule: mstep.induct)
  case (publish s t c)
  note w = winner_state [OF publish.prems publish.hyps(1)]
  from publish w show ?case by (auto simp: resolution_def winners_upd intro: phase_mono)
next
  case (win s t c)
  then show ?case by (auto simp: resolution_def winners_upd intro: phase_mono)
next
  case (dlsym s t c)
  note w = winner_state [OF dlsym.prems dlsym.hyps(1)]
  from dlsym w show ?case by (simp add: resolution_def)
next
  case (known s t c)
  then show ?case by (simp add: resolution_def winners_upd not_winner)
next
  case (lose s t c)
  then show ?case by (auto simp: resolution_def winners_upd not_winner)
next
  case (go s t c)
  then show ?case by (simp add: resolution_def winners_upd not_winner)
next
  case (real s t c r h')
  moreover have "phase_ok (rstate s) (pcs s t)" using real.prems by (simp add: resolution_def)
  ultimately show ?case by (simp add: resolution_def winners_upd not_winner)
next
  case (lock_stats s t c)
  moreover have "phase_ok (rstate s) (pcs s t)" using lock_stats.prems by (simp add: resolution_def)
  ultimately show ?case by (simp add: resolution_def winners_upd not_winner)
qed (auto simp: resolution_def winners_upd not_winner)

lemma one_holder: "locking base s \<Longrightarrow> holds_stats (pcs s t) \<Longrightarrow> holds_stats (pcs s u) \<Longrightarrow> t = u"
  unfolding locking_def by (metis option.inject)

lemma locking_keeps: "mstep base s s' \<Longrightarrow> locking base s \<Longrightarrow> locking base s'"
proof (induction rule: mstep.induct)
  case (real s t c r h')
  then have "stats_owner s = Some t" by (metis holds_stats.simps(1) locking_def)
  then show ?case using real by (simp add: locking_def)
next
  case (trace s t c r)
  then have "\<not> holds_stats (pcs s u)" if "u \<noteq> t" for u
    using one_holder [OF trace.prems, of t u] that by auto
  then show ?case using trace by (simp add: locking_def)
next
  case (lock_stats s t c)
  moreover have "arg_ok base (pcs s t)" using lock_stats.prems by (simp add: locking_def)
  moreover have "\<not> holds_stats (pcs s u)" for u using lock_stats by (auto simp: locking_def)
  ultimately show ?case by (simp add: locking_def)
next
  case (go s t c)
  moreover have "arg_ok base (pcs s t)" using go.prems by (simp add: locking_def)
  ultimately show ?case by (simp add: locking_def)
next
  case (publish s t c)
  moreover have "arg_ok base (pcs s t)" using publish.prems by (simp add: locking_def)
  ultimately show ?case by (simp add: locking_def)
qed (simp_all add: locking_def)

lemma owners_shrink: "owners F hs ins hp \<Longrightarrow> X \<subseteq> F t \<Longrightarrow> owners (F(t := X)) hs ins hp"
  unfolding owners_def fun_upd_apply by (auto split: if_splits)

lemma owners_enter: "owners F hs ins hp \<Longrightarrow> X \<subseteq> {p} \<inter> hs \<Longrightarrow> owners (F(t := X)) (hs - {p}) ins hp"
  unfolding owners_def fun_upd_apply by (auto split: if_splits)

lemma owners_leave: "owners F hs ins hp \<Longrightarrow> owners (F(t := {})) (hs \<union> F t) ins hp"
  unfolding owners_def fun_upd_apply by (auto split: if_splits)

lemma owners_libc:
  assumes "owners F hs ins hp" "Y \<subseteq> F t" "X \<inter> (hp - Y) = {}"
  shows "owners (F(t := X)) hs ins (X \<union> (hp - Y))"
proof -
  have k: "p \<in> F t" if "p \<in> X" "p \<in> hp" for p using that assms(2,3) by blast
  show ?thesis
    using assms(1,2) unfolding owners_def fun_upd_apply by (auto split: if_splits; blast dest: k)
qed

lemma owners_inner: "owners F hs ins hp \<Longrightarrow> X \<inter> hp = {} \<Longrightarrow> owners F hs (ins \<union> X) (X \<union> hp)"
  unfolding owners_def by auto

lemma owners_inner_free: "owners F hs ins hp \<Longrightarrow> p \<in> ins \<Longrightarrow> owners F hs (ins - {p}) (hp - {p})"
  unfolding owners_def by auto

lemma flight_upd: "(\<lambda>u. flight base ((f(t := p)) u)) = (\<lambda>u. flight base (f u))(t := flight base p)"
  by (simp add: fun_eq_iff)

lemma boot_pointer_is_boot: "arena_inv a \<Longrightarrow> p \<in> boot_pointers base a \<Longrightarrow> is_boot base p"
proof -
  assume inv: "arena_inv a" and "p \<in> boot_pointers base a"
  then obtain o1 n where b: "(o1, n) \<in> set (blocks a)" "p = base + o1 + ALIGN" by (auto simp: boot_pointers_def)
  then have "o1 + span n \<le> BOOT_CAP" using inv by (auto simp: arena_inv_def)
  then show "is_boot base p" using b(2) span_bounds(2) [of n] by (simp add: is_boot_def)
qed

lemma heap_not_boot: "ownership base s \<Longrightarrow> p \<in> heap s \<Longrightarrow> \<not> is_boot base p"
  by (auto simp: ownership_def is_boot_def)

lemma libc_heap:
  "libc base c r h h' \<Longrightarrow> {arg c} - {0} \<subseteq> h \<Longrightarrow> (\<And>p. p \<in> h \<Longrightarrow> p \<noteq> 0 \<and> \<not> (base \<le> p \<and> p < base + BOOT_CAP)) \<Longrightarrow>
   h' = given_back c r \<union> (h - ({arg c} - {0})) \<and> given_back c r \<inter> (h - ({arg c} - {0})) = {} \<and>
   (\<forall>p\<in>given_back c r. p \<noteq> 0 \<and> \<not> (base \<le> p \<and> p < base + BOOT_CAP))"
  by (cases c) (auto simp: given_back_def split: if_splits)

lemma ownership_keeps:
  "mstep base s s' \<Longrightarrow> ownership base s \<Longrightarrow> locking base s \<Longrightarrow> arena_inv (boot_arena s) \<Longrightarrow> ownership base s'"
proof (induction rule: mstep.induct)
  case (enter s t c)
  have "flight base (Enter c) \<subseteq> {arg c} \<inter> held s"
    using enter.hyps(2) boot_pointer_is_boot [OF enter.prems(3)] by (auto simp: permitted_def split: if_splits)
  moreover have "owners (\<lambda>t. flight base (pcs s t)) (held s) (inner s) (heap s)" using enter.prems(1) by (simp add: ownership_def)
  ultimately have "owners ((\<lambda>t. flight base (pcs s t))(t := flight base (Enter c))) (held s - {arg c}) (inner s) (heap s)"
    by (intro owners_enter)
  then show ?case using enter.prems(1) by (simp add: ownership_def flight_upd del: flight.simps fun_upd_apply)
next
  case (real s t c r h')
  let ?Y = "{arg c} - {0}"
  have own: "owners (\<lambda>t. flight base (pcs s t)) (held s) (inner s) (heap s)"
    and out: "\<And>p. p \<in> heap s \<Longrightarrow> p \<noteq> 0 \<and> \<not> (base \<le> p \<and> p < base + BOOT_CAP)" using real.prems(1) by (simp_all add: ownership_def)
  have Y: "?Y \<subseteq> flight base (pcs s t)" using real.hyps(1) by simp
  then have "?Y \<subseteq> heap s" using own unfolding owners_def by auto
  from libc_heap [OF real.hyps(2) this] out
  have h': "h' = given_back c r \<union> (heap s - ?Y)" "given_back c r \<inter> (heap s - ?Y) = {}"
    "\<forall>p\<in>given_back c r. p \<noteq> 0 \<and> \<not> (base \<le> p \<and> p < base + BOOT_CAP)" by blast+
  from owners_libc [OF own Y h'(2)] show ?case
    using h' out by (auto simp: ownership_def flight_upd simp del: fun_upd_apply)
next
  case (trace s t c r)
  then show ?case
    using owners_leave [of "\<lambda>t. flight base (pcs s t)" "held s" "inner s" "heap s" t]
    unfolding ownership_def by (simp add: flight_upd del: fun_upd_apply)
next
  case (inner_alloc s n r h')
  then show ?case
    using owners_inner [of "\<lambda>t. flight base (pcs s t)" "held s" "inner s" "heap s" "{r} - {0}"]
    unfolding ownership_def by auto
next
  case (inner_free s p)
  then show ?case using owners_inner_free unfolding ownership_def by auto
qed (auto simp: ownership_def flight_upd simp del: fun_upd_apply intro!: owners_shrink)

section \<open>The log follows the heap\<close>

declare replay_event.simps [simp del] event_ok.simps [simp del]

lemma replay_snoc: "replay (es @ [e]) = replay_event e (replay es)"
  by (simp add: replay_def)

lemma log_ok_snoc: "log_ok (es @ [e]) \<longleftrightarrow> log_ok es \<and> event_ok e (replay es)"
  unfolding log_ok_def by (auto simp: nth_append less_Suc_eq)

text \<open>What one call of the library does to the heap is what its event says.\<close>

lemma replay_real:
  assumes "libc base c r h h'" "0 \<notin> h" "ins \<subseteq> h" "arg c \<notin> ins" "arg c = 0 \<or> arg c \<in> h"
  shows "replay_event (event_of c r) (h - ins) = h' - ins \<and> event_ok (event_of c r) (h - ins)"
proof (cases c)
  case (Realloc p n)
  show ?thesis
  proof (cases "p \<noteq> 0 \<and> n = 0")
    case True
    then show ?thesis using assms Realloc by (auto simp: replay_event.simps event_ok.simps)
  next
    case False
    then show ?thesis using assms Realloc by (auto simp: replay_event.simps event_ok.simps split: if_splits)
  qed
qed (use assms in \<open>auto simp: replay_event.simps event_ok.simps\<close>)

lemma called_upd:
  "(\<forall>c r. f t \<noteq> Called c r) \<Longrightarrow> (\<forall>c r. p \<noteq> Called c r) \<Longrightarrow> (f(t := p)) u = Called c r \<longleftrightarrow> f u = Called c r"
  by auto

lemma log_keeps:
  assumes "mstep base s s'" "ownership base s" "locking base s" "log_inv s"
  shows "log_inv s'"
  using assms
proof (induction rule: mstep.induct)
  case (real s t c r h')
  have own: "owners (\<lambda>t. flight base (pcs s t)) (held s) (inner s) (heap s)" "0 \<notin> heap s"
    using real.prems(1) by (auto simp: ownership_def)
  have "{arg c} - {0} \<subseteq> flight base (pcs s t)" using real.hyps(1) by simp
  then have "arg c = 0 \<or> arg c \<in> heap s" "arg c \<notin> inner s" "inner s \<subseteq> heap s"
    using own unfolding owners_def by (cases "arg c = 0", auto)
  then have r: "replay_event (event_of c r) (heap s - inner s) = h' - inner s" "event_ok (event_of c r) (heap s - inner s)"
    using replay_real [OF real.hyps(2)] own by blast+
  have none: "\<not> holds_stats (pcs s u)" if "u \<noteq> t" for u
    using one_holder [OF real.prems(2), of u t] real.hyps(1) that by auto
  then have "pcs s u \<noteq> Called d x" for u d x using real.hyps(1) by (cases "u = t") fastforce+
  then have "replay (events s) = heap s - inner s" using real.prems(3) by (simp add: log_inv_def)
  moreover have "((pcs s)(t := Called c r)) u = Called d x \<longleftrightarrow> u = t \<and> d = c \<and> x = r" for u d x
    using none [of u] by (cases "u = t") auto
  ultimately show ?case using r real.prems(3) by (simp add: log_inv_def)
next
  case (trace s t c r)
  have "pcs s u \<noteq> Called d x" if "u \<noteq> t" for u d x
    using one_holder [OF trace.prems(2), of u t] trace.hyps(1) that by auto
  then show ?case using trace by (simp add: log_inv_def log_ok_snoc replay_snoc)
next
  case (inner_alloc s n r h')
  have "inner s \<subseteq> heap s" using inner_alloc.prems(1) by (auto simp: ownership_def owners_def)
  then have "h' - (inner s \<union> ({r} - {0})) = heap s - inner s" using inner_alloc.hyps(2) by auto
  then show ?case using inner_alloc.prems(3) by (simp add: log_inv_def)
next
  case (inner_free s p)
  then have "heap s - {p} - (inner s - {p}) = heap s - inner s" by auto
  then show ?case using inner_free.prems(3) by (simp add: log_inv_def)
qed (simp_all add: log_inv_def called_upd del: fun_upd_apply)

section \<open>Every run\<close>

definition tracer_inv :: "nat \<Rightarrow> tracer \<Rightarrow> bool" where
  "tracer_inv base s \<longleftrightarrow> resolution s \<and> locking base s \<and> ownership base s \<and> log_inv s \<and> arena_inv (boot_arena s)"

lemma tracer_start_inv: "tracer_inv base tracer_start"
  by (simp add: tracer_inv_def tracer_start_def resolution_def winners_def locking_def ownership_def owners_def log_inv_def log_ok_def
      replay_def arena_inv_def arena_start_def)

text \<open>An operation of the arena reserves space once, or leaves the arena alone.\<close>

lemma boots_boot: "boot n a = (r, a') \<Longrightarrow> boots a' = boots a + 1 \<or> r = None \<and> a' = a"
  by (auto simp: boot_def Let_def split: if_splits)

lemma boots_resize: "boots (snd (boot_resize p n a)) = boots a + 1 \<or> snd (boot_resize p n a) = a"
proof (cases "boot n a")
  case (Pair r a')
  with boots_boot [OF Pair] show ?thesis by (auto simp: boot_resize_def Let_def split: option.splits)
qed

lemma boots_calloc: "boots (snd (boot_calloc n s a)) = boots a + 1 \<or> snd (boot_calloc n s a) = a"
proof (cases "boot (n * s) a")
  case (Pair r a')
  with boots_boot [OF Pair] show ?thesis by (auto simp: boot_calloc_def split: option.splits)
qed

lemma boots_nested: "boots (nested_call base c a) = boots a + 1 \<or> nested_call base c a = a"
proof -
  have "boots (snd (boot n a)) = boots a + 1 \<or> snd (boot n a) = a" for n using boots_boot [of n a] by (cases "boot n a") auto
  then show ?thesis using boots_resize boots_calloc by (cases c) auto
qed

lemma boots_mono: "mstep base s s' \<Longrightarrow> boots (boot_arena s) \<le> boots (boot_arena s')"
proof (induction rule: mstep.induct)
  case (realloc_boot s t p n)
  then show ?case using boots_resize [of "p - base" n "boot_arena s"] by auto
next
  case (nested s t c c')
  then show ?case using boots_nested [of base c' "boot_arena s"] by auto
qed (auto simp: store_byte_def)

lemma arena_keeps:
  "mstep base s s' \<Longrightarrow> arena_inv (boot_arena s) \<Longrightarrow> boots (boot_arena s') \<le> 2 ^ 43 \<Longrightarrow> arena_inv (boot_arena s')"
proof (induction rule: mstep.induct)
  case (realloc_boot s t p n)
  have "boots (boot_arena s) < 2 ^ 43 \<or> snd (boot_resize (p - base) n (boot_arena s)) = boot_arena s"
    using boots_resize [of "p - base" n "boot_arena s"] realloc_boot.prems(2) by auto
  then show ?case using resize_keeps realloc_boot.prems(1) by auto
next
  case (nested s t c c')
  have "boots (boot_arena s) < 2 ^ 43 \<or> nested_call base c' (boot_arena s) = boot_arena s"
    using boots_nested [of base c' "boot_arena s"] nested.prems(2) by auto
  moreover have "arena_inv (nested_call base c' (boot_arena s))" if "boots (boot_arena s) < 2 ^ 43"
    using boot_keeps resize_keeps calloc_keeps nested.prems(1) that by (cases c') auto
  ultimately show ?case using nested.prems(1) by auto
next
  case (user_store blk s i b)
  then show ?case using store_keeps [of "boot_arena s" blk i b] by simp
qed auto

lemma tracer_reach_inv: "mreach base s \<Longrightarrow> boots (boot_arena s) \<le> 2 ^ 43 \<Longrightarrow> tracer_inv base s"
proof (induction rule: mreach.induct)
  case start
  show ?case by (rule tracer_start_inv)
next
  case (more s s')
  then have inv: "tracer_inv base s" using boots_mono [OF more.hyps(2)] by simp
  then show ?case
    using resolution_keeps [OF more.hyps(2)] locking_keeps [OF more.hyps(2)] ownership_keeps [OF more.hyps(2)]
      log_keeps [OF more.hyps(2)] arena_keeps [OF more.hyps(2) _ more.prems]
    by (simp add: tracer_inv_def)
qed

text \<open>C14: The events under \<^verbatim>\<open>stats\<close>. In every interleaving of any number of threads, whatever the C library
  answers within its contract, no event contradicts those before it: no address is reported as allocated
  while it is live in the log and none as freed while it is not. Whenever no thread is between its call and
  its event, the live addresses computed from the events are exactly the live blocks of the traced calls. The program is one
  whose blocks all come from the four traced functions (\<open>permitted\<close>): a block of \<^verbatim>\<open>aligned_alloc\<close> or \<^verbatim>\<open>strdup\<close> inside the library, which the
  wrappers do not see, and which may reach \<^verbatim>\<open>free\<close>, is outside of this theorem.\<close>

theorem event_log_exact:
  assumes "mreach base s" "boots (boot_arena s) \<le> 2 ^ 43"
  shows "log_ok (events s) \<and> ((\<forall>t c r. pcs s t \<noteq> Called c r) \<longrightarrow> replay (events s) = heap s - inner s)"
  using tracer_reach_inv [OF assms] by (simp add: tracer_inv_def log_inv_def)

text \<open>C15: The two allocators stay apart. A thread about to call the C library does so only after all four
  functions have been resolved, by one thread, and passes null or a live block of the library, never a block
  of the arena; and the blocks of the arena are aligned, lie inside it without overlap, are recognised by
  \<^verbatim>\<open>is_boot\<close>, and their headers still hold their sizes, whatever the program writes into them (for fewer
  than \<open>2 ^ 43\<close> reservations, before the counter could wrap around).\<close>

theorem allocators_apart:
  assumes "mreach base s" "boots (boot_arena s) \<le> 2 ^ 43"
  shows "(\<forall>t c. pcs s t = Locked c \<longrightarrow> resolved s = 4 \<and> (arg c = 0 \<or> arg c \<in> heap s) \<and> \<not> is_boot base (arg c)) \<and>
    (\<forall>t u c d. pcs s t = Winner c \<longrightarrow> pcs s u = Winner d \<longrightarrow> t = u) \<and>
    (\<forall>(o1, n)\<in>set (blocks (boot_arena s)). is_boot base (base + o1 + ALIGN) \<and> ALIGN dvd o1 \<and> o1 + ALIGN + n \<le> BOOT_CAP \<and>
       load_size o1 (mem (boot_arena s)) = n) \<and>
    sorted_wrt (\<lambda>(o1, n1) (o2, n2). o1 + ALIGN + n1 \<le> o2) (blocks (boot_arena s))"
proof (intro conjI)
  have inv: "tracer_inv base s" using tracer_reach_inv [OF assms] .
  show "\<forall>t c. pcs s t = Locked c \<longrightarrow> resolved s = 4 \<and> (arg c = 0 \<or> arg c \<in> heap s) \<and> \<not> is_boot base (arg c)"
  proof (intro allI impI)
    fix t c assume t: "pcs s t = Locked c"
    have "phase_ok (rstate s) (pcs s t)" "arg_ok base (pcs s t)"
      using inv by (auto simp: tracer_inv_def resolution_def locking_def)
    moreover have "{arg c} - {0} \<subseteq> heap s"
      using inv t by (auto simp: tracer_inv_def ownership_def owners_def) (metis Diff_iff empty_iff flight.simps(7) insert_iff)
    ultimately show "resolved s = 4 \<and> (arg c = 0 \<or> arg c \<in> heap s) \<and> \<not> is_boot base (arg c)"
      using t inv by (auto simp: tracer_inv_def resolution_def)
  qed
  have "resolution s" using inv by (simp add: tracer_inv_def)
  from winner_state(2) [OF this] show "\<forall>t u c d. pcs s t = Winner c \<longrightarrow> pcs s u = Winner d \<longrightarrow> t = u"
    by (metis singleton_inject)
  have arena: "arena_inv (boot_arena s)" using inv by (simp add: tracer_inv_def)
  show "\<forall>(o1, n)\<in>set (blocks (boot_arena s)). is_boot base (base + o1 + ALIGN) \<and> ALIGN dvd o1 \<and> o1 + ALIGN + n \<le> BOOT_CAP \<and>
       load_size o1 (mem (boot_arena s)) = n"
  proof clarify
    fix o1 n assume b: "(o1, n) \<in> set (blocks (boot_arena s))"
    then have "base + o1 + ALIGN \<in> boot_pointers base (boot_arena s)" by (force simp: boot_pointers_def)
    then have "is_boot base (base + o1 + ALIGN)" by (rule boot_pointer_is_boot [OF arena])
    then show "is_boot base (base + o1 + ALIGN) \<and> ALIGN dvd o1 \<and> o1 + ALIGN + n \<le> BOOT_CAP \<and> load_size o1 (mem (boot_arena s)) = n"
      using arena b span_bounds(1) [of n] by (fastforce simp: arena_inv_def)
  qed
  show "sorted_wrt (\<lambda>(o1, n1) (o2, n2). o1 + ALIGN + n1 \<le> o2) (blocks (boot_arena s))"
  proof (rule sorted_wrt_mono_rel)
    show "sorted_wrt (\<lambda>(o1, n1) (o2, n2). o1 + span n1 \<le> o2) (blocks (boot_arena s))" using arena by (simp add: arena_inv_def)
    show "(case x of (o1, n1) \<Rightarrow> \<lambda>(o2, n2). o1 + ALIGN + n1 \<le> o2) y" if "(case x of (o1, n1) \<Rightarrow> \<lambda>(o2, n2). o1 + span n1 \<le> o2) y" for x y
      using that span_bounds(1) [of "snd x"] by (auto split: prod.splits)
  qed
qed

section \<open>A run\<close>

text \<open>The first call of a program: while the functions are being resolved 10 bytes come from the arena.\<close>

definition solo_state :: "nat \<Rightarrow> nat \<Rightarrow> pc \<Rightarrow> arena \<Rightarrow> nat option \<Rightarrow> tracer" where
  "solo_state r k p a own = \<lparr>boot_arena = a, rstate = r, resolved = k, pcs = (\<lambda>_. Idle)(0 := p), stats_owner = own,
     events = [], heap = {}, held = {}, inner = {}\<rparr>"

lemma alone_step:
  assumes "mreach base (solo_state r k p a own)"
  shows "p = Idle \<Longrightarrow> mreach base (solo_state r k (Enter (Malloc n)) a own)"
    "p = Enter (Malloc n) \<Longrightarrow> r = 0 \<Longrightarrow> 0 < base \<Longrightarrow> mreach base (solo_state 1 k (Winner (Malloc n)) a own)"
    "p = Winner (Malloc n) \<Longrightarrow> mreach base (solo_state r k p (snd (boot m a)) own)"
    "p = Winner (Malloc n) \<Longrightarrow> k < 4 \<Longrightarrow> mreach base (solo_state r (k + 1) p a own)"
    "p = Winner (Malloc n) \<Longrightarrow> k = 4 \<Longrightarrow> mreach base (solo_state 2 k (Ready (Malloc n)) a own)"
    "p = Ready (Malloc n) \<Longrightarrow> own = None \<Longrightarrow> mreach base (solo_state r k (Locked (Malloc n)) a (Some 0))"
proof -
  note more = mreach.more [OF assms]
  show "p = Idle \<Longrightarrow> mreach base (solo_state r k (Enter (Malloc n)) a own)"
    using more [OF mstep.enter [where t = 0 and c = "Malloc n"]] by (simp add: solo_state_def permitted_def)
  show "p = Enter (Malloc n) \<Longrightarrow> r = 0 \<Longrightarrow> 0 < base \<Longrightarrow> mreach base (solo_state 1 k (Winner (Malloc n)) a own)"
    using more [OF mstep.win [where t = 0 and c = "Malloc n"]] by (simp add: solo_state_def is_boot_def)
  show "p = Winner (Malloc n) \<Longrightarrow> mreach base (solo_state r k p (snd (boot m a)) own)"
    using more [OF mstep.nested [where t = 0 and c = "Malloc n" and c' = "Malloc m"]] by (simp add: solo_state_def permitted_def)
  show "p = Winner (Malloc n) \<Longrightarrow> k < 4 \<Longrightarrow> mreach base (solo_state r (k + 1) p a own)"
    using more [OF mstep.dlsym [where t = 0 and c = "Malloc n"]] by (simp add: solo_state_def)
  show "p = Winner (Malloc n) \<Longrightarrow> k = 4 \<Longrightarrow> mreach base (solo_state 2 k (Ready (Malloc n)) a own)"
    using more [OF mstep.publish [where t = 0 and c = "Malloc n"]] by (simp add: solo_state_def)
  show "p = Ready (Malloc n) \<Longrightarrow> own = None \<Longrightarrow> mreach base (solo_state r k (Locked (Malloc n)) a (Some 0))"
    using more [OF mstep.lock_stats [where t = 0 and c = "Malloc n"]] by (simp add: solo_state_def)
qed

definition first_state :: tracer where
  "first_state = solo_state 2 4 (Locked (Malloc 7)) (snd (boot 10 arena_start)) (Some 0)"

lemma first_call: "mreach 4096 first_state"
proof -
  let ?a = "snd (boot 10 arena_start)" and ?w = "Winner (Malloc 7)"
  have "mreach 4096 (solo_state 0 0 Idle arena_start None)"
    using mreach.start [of 4096] by (simp add: solo_state_def tracer_start_def fun_upd_idem)
  then have "mreach 4096 (solo_state 0 0 (Enter (Malloc 7)) arena_start None)" by (rule alone_step(1)) simp
  then have "mreach 4096 (solo_state 1 0 ?w arena_start None)" by (rule alone_step(2)) simp_all
  then have "mreach 4096 (solo_state 1 0 ?w ?a None)" by (rule alone_step(3)) simp
  then have "mreach 4096 (solo_state 1 (0 + 1) ?w ?a None)" by (rule alone_step(4)) simp_all
  then have "mreach 4096 (solo_state 1 (0 + 1 + 1) ?w ?a None)" by (rule alone_step(4)) simp_all
  then have "mreach 4096 (solo_state 1 (0 + 1 + 1 + 1) ?w ?a None)" by (rule alone_step(4)) simp_all
  then have "mreach 4096 (solo_state 1 (0 + 1 + 1 + 1 + 1) ?w ?a None)" by (rule alone_step(4)) simp_all
  then have "mreach 4096 (solo_state 2 (0 + 1 + 1 + 1 + 1) (Ready (Malloc 7)) ?a None)" by (rule alone_step(5)) simp_all
  then have "mreach 4096 (solo_state 2 (0 + 1 + 1 + 1 + 1) (Locked (Malloc 7)) ?a (Some 0))" by (rule alone_step(6)) simp_all
  then show ?thesis by (simp add: first_state_def eval_nat_numeral)
qed

lemma first_state_simps:
  "pcs first_state = (\<lambda>_. Idle)(0 := Locked (Malloc 7))" "blocks (boot_arena first_state) = [(0, 10)]" "boots (boot_arena first_state) = 1"
  "events first_state = []" "heap first_state = {}" "inner first_state = {}" "held first_state = {}"
  by (simp_all add: first_state_def solo_state_def arena_start_def boot_def BOOT_CAP_def span_def Let_def)

theorem allocators_apart_witness:
  "pcs first_state 0 = Locked (Malloc 7) \<and> resolved first_state = 4 \<and> load_size 0 (mem (boot_arena first_state)) = 10 \<and>
   is_boot 4096 (4096 + 0 + ALIGN)"
proof -
  have "boots (boot_arena first_state) \<le> 2 ^ 43" by (simp add: first_state_simps)
  note apart = allocators_apart [OF first_call this]
  have "pcs first_state 0 = Locked (Malloc 7)" "(0, 10) \<in> set (blocks (boot_arena first_state))" by (simp_all add: first_state_simps)
  moreover from this apart have "resolved first_state = 4" by blast
  moreover have "is_boot 4096 (4096 + 0 + ALIGN) \<and> load_size 0 (mem (boot_arena first_state)) = 10"
    using apart calculation(2) by fast
  ultimately show ?thesis by blast
qed

theorem event_log_exact_witness:
  "\<exists>s :: tracer. mreach 4096 s \<and> map ev_op (events s) = [MT_MALLOC] \<and> log_ok (events s) \<and> replay (events s) = {2000000}"
proof -
  let ?s1 = "first_state\<lparr>pcs := (pcs first_state)(0 := Called (Malloc 7) 2000000), heap := {2000000}\<rparr>"
  let ?s2 = "?s1\<lparr>pcs := (pcs ?s1)(0 := Idle), events := events ?s1 @ [event_of (Malloc 7) 2000000], stats_owner := None,
       held := held ?s1 \<union> given_back (Malloc 7) 2000000\<rparr>"
  have "mreach 4096 ?s1"
    by (rule mreach.more [OF first_call], rule mstep.real [of first_state 0 "Malloc 7"]) (simp_all add: first_state_simps BOOT_CAP_def)
  then have reach: "mreach 4096 ?s2" by (rule mreach.more, intro mstep.trace) simp
  have "boots (boot_arena ?s2) \<le> 2 ^ 43" by (simp add: first_state_simps)
  from event_log_exact [OF reach this] have log: "log_ok (events ?s2)" "replay (events ?s2) = {2000000}"
    by (simp_all add: first_state_simps)
  have "map ev_op (events ?s2) = [MT_MALLOC]" by (simp add: first_state_simps)
  with reach log show ?thesis by (intro exI [of _ ?s2] conjI)
qed

end
