(* ===== verification/Mcs.thy ===== *)
theory Mcs
  imports Main
begin

text \<open>
  The locks of \<^verbatim>\<open>Week6/Lab6/src/lockbench.c\<close>: the spinlock on one word, the MCS queue lock and the mutex,
  with one step for every atomic access of a thread, sequentially consistent. A thread is its index, and so is
  its node. The queue of the MCS lock exists only in the nodes; \<open>queued_as\<close> says which list they represent.
\<close>

section \<open>The locks\<close>

datatype bench_mode = SPIN | MCS | MUTEX | ADAPTIVE

text \<open>Where a thread is in \<^verbatim>\<open>lock\<close> or \<^verbatim>\<open>unlock\<close>; \<open>McsLink p\<close>: with \<^verbatim>\<open>prev\<close> = \<open>p\<close>, \<open>McsPass n\<close>: with \<^verbatim>\<open>next\<close> = \<open>n\<close>.\<close>

datatype lock_pc = Outside | Holding
  | SpinSwap | SpinLook | SpinStore
  | McsNext | McsWait | McsSwap | McsLink nat | McsSpin
  | McsLoad | McsCas | McsRespin | McsPass nat
  | MutexLock | MutexUnlock

record bench_locks =
  word :: nat
  nxt :: "nat \<Rightarrow> nat option"
  wait_flag :: "nat \<Rightarrow> bool"
  mcs_tail :: "nat option"
  mutex :: "nat option"
  at :: "nat \<Rightarrow> lock_pc"

definition locks_start :: bench_locks where
  "locks_start = \<lparr>word = 0, nxt = (\<lambda>_. None), wait_flag = (\<lambda>_. False), mcs_tail = None, mutex = None, at = (\<lambda>_. Outside)\<rparr>"

definition goto :: "nat \<Rightarrow> lock_pc \<Rightarrow> bench_locks \<Rightarrow> bench_locks" where
  "goto i p s = s\<lparr>at := (at s)(i := p)\<rparr>"

text \<open>The calls \<^verbatim>\<open>lock(m, id)\<close> and \<^verbatim>\<open>unlock(m, id)\<close>.\<close>

fun lock_entry :: "bench_mode \<Rightarrow> lock_pc" where
  "lock_entry SPIN = SpinSwap"
| "lock_entry MCS = McsNext"
| "lock_entry MUTEX = MutexLock"
| "lock_entry ADAPTIVE = MutexLock"

fun unlock_entry :: "bench_mode \<Rightarrow> lock_pc" where
  "unlock_entry SPIN = SpinStore"
| "unlock_entry MCS = McsLoad"
| "unlock_entry MUTEX = MutexUnlock"
| "unlock_entry ADAPTIVE = MutexUnlock"

definition enter_lock :: "bench_mode \<Rightarrow> nat \<Rightarrow> bench_locks \<Rightarrow> bench_locks" where
  "enter_lock m i s = goto i (lock_entry m) s"

definition leave_lock :: "bench_mode \<Rightarrow> nat \<Rightarrow> bench_locks \<Rightarrow> bench_locks" where
  "leave_lock m i s = goto i (unlock_entry m) s"

text \<open>
  One step of thread \<open>i\<close> inside \<^verbatim>\<open>lock\<close> or \<^verbatim>\<open>unlock\<close>; \<open>None\<close>: it is in neither, or it sleeps because the mutex is taken.
\<close>

fun pc_step :: "lock_pc \<Rightarrow> nat \<Rightarrow> bench_locks \<Rightarrow> bench_locks option" where
  "pc_step SpinSwap i s = Some (goto i (if word s \<noteq> 0 then SpinLook else Holding) (s\<lparr>word := 1\<rparr>))"
| "pc_step SpinLook i s = Some (goto i (if word s \<noteq> 0 then SpinLook else SpinSwap) s)"
| "pc_step SpinStore i s = Some (goto i Outside (s\<lparr>word := 0\<rparr>))"
| "pc_step McsNext i s = Some (goto i McsWait (s\<lparr>nxt := (nxt s)(i := None)\<rparr>))"
| "pc_step McsWait i s = Some (goto i McsSwap (s\<lparr>wait_flag := (wait_flag s)(i := True)\<rparr>))"
| "pc_step McsSwap i s = Some (goto i (case mcs_tail s of None \<Rightarrow> Holding | Some p \<Rightarrow> McsLink p) (s\<lparr>mcs_tail := Some i\<rparr>))"
| "pc_step (McsLink p) i s = Some (goto i McsSpin (s\<lparr>nxt := (nxt s)(p := Some i)\<rparr>))"
| "pc_step McsSpin i s = Some (goto i (if wait_flag s i then McsSpin else Holding) s)"
| "pc_step McsLoad i s = Some (goto i (case nxt s i of None \<Rightarrow> McsCas | Some n \<Rightarrow> McsPass n) s)"
| "pc_step McsCas i s =
     Some (if mcs_tail s = Some i then goto i Outside (s\<lparr>mcs_tail := None\<rparr>) else goto i McsRespin s)"
| "pc_step McsRespin i s = Some (goto i (case nxt s i of None \<Rightarrow> McsRespin | Some n \<Rightarrow> McsPass n) s)"
| "pc_step (McsPass n) i s = Some (goto i Outside (s\<lparr>wait_flag := (wait_flag s)(n := False)\<rparr>))"
| "pc_step MutexLock i s = (if mutex s = None then Some (goto i Holding (s\<lparr>mutex := Some i\<rparr>)) else None)"
| "pc_step MutexUnlock i s = Some (goto i Outside (s\<lparr>mutex := None\<rparr>))"
| "pc_step Outside i s = None"
| "pc_step Holding i s = None"

definition run_lock :: "nat \<Rightarrow> bench_locks \<Rightarrow> bench_locks option" where
  "run_lock i s = pc_step (at s i) i s"

text \<open>All steps of the threads: calls and steps inside them, for threads that use the lock as \<^verbatim>\<open>worker\<close> does.\<close>

inductive lock_step :: "bench_mode \<Rightarrow> bench_locks \<Rightarrow> bench_locks \<Rightarrow> bool" for m where
  call_lock: "at s i = Outside \<Longrightarrow> lock_step m s (enter_lock m i s)"
| call_unlock: "at s i = Holding \<Longrightarrow> lock_step m s (leave_lock m i s)"
| inside: "run_lock i s = Some s' \<Longrightarrow> lock_step m s s'"

lemma goto_simps [simp]:
  "at (goto i p s) = (at s)(i := p)" "word (goto i p s) = word s" "nxt (goto i p s) = nxt s"
  "wait_flag (goto i p s) = wait_flag s" "mcs_tail (goto i p s) = mcs_tail s" "mutex (goto i p s) = mutex s"
  by (simp_all add: goto_def)

section \<open>The queue of the MCS lock\<close>

text \<open>
  \<open>behind s p r\<close>: the threads of \<open>r\<close> wait one after the other behind \<open>p\<close>: each either still has to write itself
  into the node of the one before it or has done so and waits for its flag.
\<close>

fun behind :: "bench_locks \<Rightarrow> nat \<Rightarrow> nat list \<Rightarrow> bool" where
  "behind s p [] \<longleftrightarrow> nxt s p = None"
| "behind s p (i # r) \<longleftrightarrow> wait_flag s i \<and>
     (at s i = McsLink p \<and> nxt s p = None \<or> at s i = McsSpin \<and> nxt s p = Some i) \<and> behind s i r"

text \<open>The head of the queue has the lock, is giving it back, or has been told that it has it.\<close>

definition head_fine :: "bench_locks \<Rightarrow> nat \<Rightarrow> nat list \<Rightarrow> bool" where
  "head_fine s h r \<longleftrightarrow> (case at s h of
     Holding \<Rightarrow> True
   | McsSpin \<Rightarrow> \<not> wait_flag s h
   | McsLoad \<Rightarrow> True
   | McsCas \<Rightarrow> True
   | McsRespin \<Rightarrow> r \<noteq> []
   | McsPass n \<Rightarrow> r \<noteq> [] \<and> n = hd r \<and> nxt s h = Some n
   | _ \<Rightarrow> False)"

fun in_queue :: "lock_pc \<Rightarrow> bool" where
  "in_queue (McsLink p) = True"
| "in_queue McsSpin = True"
| "in_queue Holding = True"
| "in_queue McsLoad = True"
| "in_queue McsCas = True"
| "in_queue McsRespin = True"
| "in_queue (McsPass n) = True"
| "in_queue _ = False"

fun mcs_pc :: "lock_pc \<Rightarrow> bool" where
  "mcs_pc McsNext = True"
| "mcs_pc McsWait = True"
| "mcs_pc McsSwap = True"
| "mcs_pc Outside = True"
| "mcs_pc p = in_queue p"

definition joining_ok :: "bench_locks \<Rightarrow> nat \<Rightarrow> bool" where
  "joining_ok s i \<longleftrightarrow> (at s i = McsWait \<longrightarrow> nxt s i = None) \<and> (at s i = McsSwap \<longrightarrow> nxt s i = None \<and> wait_flag s i)"

definition queued_as :: "bench_locks \<Rightarrow> nat list \<Rightarrow> bool" where
  "queued_as s q \<longleftrightarrow> distinct q \<and> (\<forall>i. i \<in> set q \<longleftrightarrow> in_queue (at s i)) \<and> (\<forall>i. mcs_pc (at s i) \<and> joining_ok s i) \<and>
     mcs_tail s = (if q = [] then None else Some (last q)) \<and>
     (case q of [] \<Rightarrow> True | h # r \<Rightarrow> head_fine s h r \<and> behind s h r)"

lemma behind_cong:
  "behind s p r \<Longrightarrow> (\<And>i. i \<in> set (p # r) \<Longrightarrow> nxt s' i = nxt s i) \<Longrightarrow>
   (\<And>i. i \<in> set r \<Longrightarrow> at s' i = at s i \<and> wait_flag s' i = wait_flag s i) \<Longrightarrow> behind s' p r"
  by (induction r arbitrary: p) auto

text \<open>A thread that joins at the end.\<close>

lemma behind_snoc:
  "behind s p r \<Longrightarrow> i \<notin> set (p # r) \<Longrightarrow> distinct (p # r) \<Longrightarrow> nxt s i = None \<Longrightarrow> wait_flag s i \<Longrightarrow>
   at s' = (at s)(i := McsLink (last (p # r))) \<Longrightarrow> nxt s' = nxt s \<Longrightarrow> wait_flag s' = wait_flag s \<Longrightarrow> behind s' p (r @ [i])"
  by (induction r arbitrary: p) auto

lemma behind_link_pred: "behind s p r \<Longrightarrow> i \<in> set r \<Longrightarrow> at s i = McsLink j \<Longrightarrow> j \<in> set (p # r)"
  by (induction r arbitrary: p) auto

text \<open>A thread that writes itself into the node of its predecessor.\<close>

lemma behind_link:
  "behind s p r \<Longrightarrow> i \<in> set r \<Longrightarrow> at s i = McsLink j \<Longrightarrow> distinct (p # r) \<Longrightarrow>
   at s' = (at s)(i := McsSpin) \<Longrightarrow> nxt s' = (nxt s)(j := Some i) \<Longrightarrow> wait_flag s' = wait_flag s \<Longrightarrow> behind s' p r"
proof (induction r arbitrary: p)
  case (Cons k r)
  show ?case
  proof (cases "k = i")
    case True
    then have j: "j = p" using Cons.prems by auto
    have "behind s' k r" by (rule behind_cong [of s]) (use Cons.prems True j in auto)
    then show ?thesis using Cons.prems True j by auto
  next
    case False
    then have m: "i \<in> set r" using Cons.prems by auto
    then have "behind s' k r" using Cons by auto
    moreover have "j \<in> set (k # r)" using Cons.prems(1,3) m behind_link_pred [of s k r i j] by simp
    ultimately show ?thesis using Cons.prems False by auto
  qed
qed simp

lemma queued_asI:
  "distinct q \<Longrightarrow> (\<And>j. j \<in> set q \<longleftrightarrow> in_queue (at s j)) \<Longrightarrow> (\<And>j. mcs_pc (at s j)) \<Longrightarrow> (\<And>j. joining_ok s j) \<Longrightarrow>
   mcs_tail s = (if q = [] then None else Some (last q)) \<Longrightarrow>
   (case q of [] \<Rightarrow> True | h # r \<Rightarrow> head_fine s h r \<and> behind s h r) \<Longrightarrow> queued_as s q"
  by (simp add: queued_as_def)

lemma queued_asD:
  assumes "queued_as s q"
  shows "distinct q" "\<And>j. j \<in> set q \<longleftrightarrow> in_queue (at s j)" "\<And>j. mcs_pc (at s j)" "\<And>j. joining_ok s j"
    "mcs_tail s = (if q = [] then None else Some (last q))"
    "case q of [] \<Rightarrow> True | h # r \<Rightarrow> head_fine s h r \<and> behind s h r"
  using assms by (simp_all add: queued_as_def)

lemma in_queue_mcs: "in_queue p \<Longrightarrow> mcs_pc p"
  by (cases p) auto

lemma queued_start: "queued_as locks_start []"
  by (simp add: queued_as_def locks_start_def joining_ok_def)

lemma queued_not_in: "queued_as s q \<Longrightarrow> \<not> in_queue (at s i) \<Longrightarrow> i \<notin> set q"
  by (simp add: queued_as_def)

text \<open>A thread outside the queue changes only its own node.\<close>

lemma queued_outsider:
  assumes q: "queued_as s q" and i: "i \<notin> set q" "\<not> in_queue p" "mcs_pc p"
    and s': "at s' = (at s)(i := p)" "\<And>j. j \<noteq> i \<Longrightarrow> nxt s' j = nxt s j" "\<And>j. j \<noteq> i \<Longrightarrow> wait_flag s' j = wait_flag s j"
      "mcs_tail s' = mcs_tail s" "joining_ok s' i"
  shows "queued_as s' q"
proof -
  have "joining_ok s' j" for j
  proof (cases "j = i")
    case False
    with queued_asD(4) [OF q, of j] s'(1) s'(2,3) [of j] show ?thesis by (simp add: joining_ok_def)
  qed (use s'(5) in simp)
  moreover have "case q of [] \<Rightarrow> True | h # r \<Rightarrow> head_fine s' h r \<and> behind s' h r"
  proof (cases q)
    case (Cons h r)
    then have "head_fine s h r" "behind s h r" "i \<noteq> h" "i \<notin> set r" using q i by (auto simp: queued_as_def)
    moreover have "behind s' h r"
    proof (rule behind_cong [OF \<open>behind s h r\<close>])
      show "nxt s' j = nxt s j" if "j \<in> set (h # r)" for j
        using that \<open>i \<noteq> h\<close> \<open>i \<notin> set r\<close> by (intro s'(2)) auto
      show "at s' j = at s j \<and> wait_flag s' j = wait_flag s j" if "j \<in> set r" for j
      proof -
        have "j \<noteq> i" using that \<open>i \<notin> set r\<close> by blast
        then show ?thesis using s'(1) s'(3) [of j] by simp
      qed
    qed
    moreover have "head_fine s' h r = head_fine s h r"
      unfolding head_fine_def using s'(1) s'(2,3) [of h] \<open>i \<noteq> h\<close> by (simp cong: lock_pc.case_cong)
    ultimately show ?thesis using Cons \<open>head_fine s h r\<close> by simp
  qed simp
  moreover have "j \<in> set q \<longleftrightarrow> in_queue (at s' j)" "mcs_pc (at s' j)" for j
    using queued_asD(2,3) [OF q, of j] i s'(1) by (cases "j = i"; simp)+
  ultimately show ?thesis using queued_asD(1,5) [OF q] s'(4) by (intro queued_asI) auto
qed

text \<open>A step of the head that does not change the shared state.\<close>

lemma queued_head:
  assumes q: "queued_as s (h # r)" and p: "in_queue p"
    and s': "at s' = (at s)(h := p)" "nxt s' = nxt s" "wait_flag s' = wait_flag s" "mcs_tail s' = mcs_tail s" "head_fine s' h r"
  shows "queued_as s' (h # r)"
proof -
  have "mcs_pc p" using p by (cases p) auto
  moreover have "joining_ok s' j" for j using q s' p by (cases "j = h") (auto simp: queued_as_def joining_ok_def)
  moreover have "behind s' h r" by (rule behind_cong [of s]) (use q s' in \<open>auto simp: queued_as_def\<close>)
  moreover have "j \<in> set (h # r) \<longleftrightarrow> in_queue (at s' j)" "mcs_pc (at s' j)" for j
    using queued_asD(2,3) [OF q, of j] p s'(1) in_queue_mcs by (cases "j = h"; simp)+
  ultimately show ?thesis using queued_asD(1,5) [OF q] s'(4,5) by (intro queued_asI) auto
qed

text \<open>The head leaves; the next one, if any, has been told.\<close>

lemma queued_leave:
  assumes q: "queued_as s (h # r)"
    and s': "at s' = (at s)(h := Outside)" "nxt s' = nxt s"
      "wait_flag s' = (if r = [] then wait_flag s else (wait_flag s)(hd r := False))" "mcs_tail s' = (if r = [] then None else mcs_tail s)"
    and r: "r \<noteq> [] \<Longrightarrow> at s (hd r) = McsSpin"
  shows "queued_as s' r"
proof -
  have d: "distinct (h # r)" "behind s h r" using q by (auto simp: queued_as_def)
  have "joining_ok s' j" for j
    using q s' r by (cases r) (auto simp: queued_as_def joining_ok_def)
  moreover have "case r of [] \<Rightarrow> True | k # t \<Rightarrow> head_fine s' k t \<and> behind s' k t"
  proof (cases r)
    case (Cons k t)
    have "behind s' k t" by (rule behind_cong [of s]) (use d s' Cons in auto)
    then show ?thesis using Cons d s' r by (auto simp: head_fine_def)
  qed simp
  moreover have "j \<in> set r \<longleftrightarrow> in_queue (at s' j)" "mcs_pc (at s' j)" for j
    using queued_asD(2,3) [OF q, of j] s'(1) d by (cases "j = h"; simp)+
  moreover have "mcs_tail s' = (if r = [] then None else Some (last r))" using queued_asD(5) [OF q] s'(4) by simp
  ultimately show ?thesis using d by (intro queued_asI) auto
qed

lemma queued_join:
  assumes q: "queued_as s q" and i: "at s i = McsSwap"
    and s': "at s' = (at s)(i := case mcs_tail s of None \<Rightarrow> Holding | Some p \<Rightarrow> McsLink p)" "nxt s' = nxt s"
      "wait_flag s' = wait_flag s" "mcs_tail s' = Some i"
  shows "queued_as s' (q @ [i])"
proof -
  have n: "i \<notin> set q" using queued_not_in [OF q] i by simp
  have j: "nxt s i = None" "wait_flag s i" using q i by (auto simp: queued_as_def joining_ok_def)
  have "joining_ok s' k \<and> mcs_pc (at s' k)" for k using q s'
    by (cases "k = i") (auto simp: queued_as_def joining_ok_def split: option.splits)
  moreover have "case q @ [i] of [] \<Rightarrow> True | h # r \<Rightarrow> head_fine s' h r \<and> behind s' h r"
  proof (cases q)
    case Nil
    then show ?thesis using q s' j by (simp add: queued_as_def head_fine_def)
  next
    case (Cons h r)
    have "at s' = (at s)(i := McsLink (last (h # r)))" using q s' Cons by (simp add: queued_as_def)
    then have "behind s' h (r @ [i])" by - (rule behind_snoc [of s], use q s' j n Cons in \<open>auto simp: queued_as_def\<close>)
    then show ?thesis using q s' n Cons by (auto simp: queued_as_def head_fine_def split: lock_pc.splits)
  qed
  moreover have "j \<in> set (q @ [i]) \<longleftrightarrow> in_queue (at s' j)" for j
    using queued_asD(2) [OF q, of j] s'(1) by (cases "j = i") (auto split: option.splits)
  ultimately show ?thesis using queued_asD(1) [OF q] s'(4) n by (intro queued_asI) auto
qed

lemma queued_link:
  assumes q: "queued_as s q" and i: "at s i = McsLink p"
    and s': "at s' = (at s)(i := McsSpin)" "nxt s' = (nxt s)(p := Some i)" "wait_flag s' = wait_flag s" "mcs_tail s' = mcs_tail s"
  shows "queued_as s' q"
proof -
  have "i \<in> set q" using q i by (simp add: queued_as_def)
  then obtain h r where hr: "q = h # r" by (cases q) auto
  have f: "head_fine s h r" "behind s h r" "distinct (h # r)" using q hr by (auto simp: queued_as_def)
  have ih: "i \<noteq> h" using f(1) i by (auto simp: head_fine_def)
  then have ir: "i \<in> set r" using \<open>i \<in> set q\<close> hr by simp
  have b: "behind s' h r" by (rule behind_link [OF f(2) ir i f(3) s'(1-3)])
  have p: "p \<in> set q" using behind_link_pred [OF f(2) ir i] hr by simp
  then have "in_queue (at s p)" using q by (simp add: queued_as_def)
  then have "joining_ok s' k" for k using q s'
    by (cases "k = p") (auto simp: queued_as_def joining_ok_def)
  moreover have "head_fine s' h r"
    using f ih s' i ir by (cases r) (auto simp: head_fine_def split: lock_pc.splits dest: behind_link_pred)
  moreover have "j \<in> set q \<longleftrightarrow> in_queue (at s' j)" "mcs_pc (at s' j)" for j
    using queued_asD(2,3) [OF q, of j] s'(1) \<open>i \<in> set q\<close> by (cases "j = i"; simp)+
  ultimately show ?thesis using queued_asD(1,5) [OF q] s'(4) b hr by (intro queued_asI) auto
qed

text \<open>
  What a step does to the queue: a thread joins at the end when it has exchanged the tail, and the head leaves when it has
  removed itself or told the next one.
\<close>

definition queue_step :: "nat list \<Rightarrow> nat list \<Rightarrow> bool" where
  "queue_step q q' \<longleftrightarrow> q' = q \<or> (\<exists>i. i \<notin> set q \<and> q' = q @ [i]) \<or> (\<exists>h. q = h # q')"

lemma queued_holder: "queued_as s q \<Longrightarrow> at s i \<in> {Holding, McsLoad, McsCas, McsRespin} \<union> range McsPass \<Longrightarrow> \<exists>r. q = i # r"
proof -
  assume q: "queued_as s q" and i: "at s i \<in> {Holding, McsLoad, McsCas, McsRespin} \<union> range McsPass"
  then have "i \<in> set q" by (auto simp: queued_as_def)
  then obtain h r where hr: "q = h # r" by (cases q) auto
  have "i \<notin> set r" if "behind s p r" for p
    using that i by (induction r arbitrary: p) auto
  moreover have "behind s h r" using q hr by (simp add: queued_as_def)
  ultimately have "i \<notin> set r" by blast
  then show ?thesis using hr \<open>i \<in> set q\<close> by simp
qed

text \<open>The thread that has been told is the head, and a waiting one with a flag that is cleared is the head.\<close>

lemma queued_told: "queued_as s q \<Longrightarrow> at s i = McsSpin \<Longrightarrow> \<not> wait_flag s i \<Longrightarrow> \<exists>r. q = i # r"
proof -
  assume q: "queued_as s q" and i: "at s i = McsSpin" "\<not> wait_flag s i"
  then have "i \<in> set q" by (auto simp: queued_as_def)
  then obtain h r where hr: "q = h # r" by (cases q) auto
  have "i \<notin> set r" if "behind s p r" for p
    using that i by (induction r arbitrary: p) auto
  moreover have "behind s h r" using q hr by (simp add: queued_as_def)
  ultimately have "i \<notin> set r" by blast
  then show ?thesis using hr \<open>i \<in> set q\<close> by simp
qed

lemma queued_run:
  assumes q: "queued_as s q" and r: "run_lock i s = Some s'"
  shows "\<exists>q'. queued_as s' q' \<and> queue_step q q'"
proof -
  note out = queued_outsider [OF q queued_not_in [OF q, of i]]
  have same: "queued_as s' q \<Longrightarrow> ?thesis" unfolding queue_step_def by blast
  have j: "joining_ok s i" "mcs_pc (at s i)" using q by (auto simp: queued_as_def)
  show ?thesis
  proof (cases "at s i")
    case McsNext
    then show ?thesis using r by (intro same out [of McsWait s']) (auto simp: run_lock_def joining_ok_def)
  next
    case McsWait
    then show ?thesis using r j by (intro same out [of McsSwap s']) (auto simp: run_lock_def joining_ok_def)
  next
    case McsSwap
    have "queued_as s' (q @ [i])"
      by (rule queued_join [OF q McsSwap]) (use r McsSwap in \<open>auto simp: run_lock_def\<close>)
    then show ?thesis using queued_not_in [OF q, of i] McsSwap by (auto simp: queue_step_def)
  next
    case (McsLink p)
    show ?thesis by (rule same, rule queued_link [OF q McsLink]) (use r McsLink in \<open>auto simp: run_lock_def\<close>)
  next
    case McsSpin
    show ?thesis
    proof (cases "wait_flag s i")
      case True
      have "queued_as (goto i McsSpin s) q"
        using q McsSpin by (simp add: goto_def fun_upd_idem)
      then show ?thesis using r McsSpin True by (intro same) (auto simp: run_lock_def)
    next
      case False
      obtain t where t: "q = i # t" using queued_told [OF q McsSpin False] by blast
      have "queued_as s' (i # t)"
        by (rule queued_head [of s _ _ Holding]) (use q t r McsSpin False in \<open>auto simp: run_lock_def head_fine_def\<close>)
      then show ?thesis using same t by simp
    qed
  next
    case McsLoad
    obtain t where t: "q = i # t" using queued_holder [OF q, of i] McsLoad by auto
    have b: "behind s i t" using q t by (simp add: queued_as_def)
    have "queued_as s' (i # t)"
      by (rule queued_head [of s _ _ "case nxt s i of None \<Rightarrow> McsCas | Some n \<Rightarrow> McsPass n"])
        (use q t r b McsLoad in \<open>cases t; auto simp: run_lock_def head_fine_def split: option.splits\<close>)+
    then show ?thesis using same t by simp
  next
    case McsCas
    obtain t where t: "q = i # t" using queued_holder [OF q, of i] McsCas by auto
    have tl: "mcs_tail s = Some (last q)" "distinct (i # t)" using queued_asD(1,5) [OF q] t by simp_all
    show ?thesis
    proof (cases t)
      case Nil
      have "queued_as s' []"
        by (rule queued_leave [of s i]) (use q t r McsCas tl Nil in \<open>auto simp: run_lock_def\<close>)
      then show ?thesis using t Nil by (auto simp: queue_step_def)
    next
      case (Cons k u)
      have "last q \<noteq> i" using t Cons tl by auto
      then have "queued_as s' (i # t)"
        using q t r McsCas tl(1) Cons by - (rule queued_head [of s i t McsRespin], auto simp: run_lock_def head_fine_def)
      then show ?thesis using same t by simp
    qed
  next
    case McsRespin
    obtain t where t: "q = i # t" using queued_holder [OF q, of i] McsRespin by auto
    have b: "behind s i t" "t \<noteq> []" using q t McsRespin by (auto simp: queued_as_def head_fine_def)
    have "queued_as s' (i # t)"
      by (rule queued_head [of s _ _ "case nxt s i of None \<Rightarrow> McsRespin | Some n \<Rightarrow> McsPass n"])
        (use q t r b McsRespin in \<open>cases t; auto simp: run_lock_def head_fine_def split: option.splits\<close>)+
    then show ?thesis using same t by simp
  next
    case (McsPass n)
    obtain t where t: "q = i # t" using queued_holder [OF q, of i] McsPass by auto
    have b: "behind s i t" "t \<noteq> []" "n = hd t" "nxt s i = Some n" using q t McsPass by (auto simp: queued_as_def head_fine_def)
    then have "at s n = McsSpin" by (cases t) auto
    then have "queued_as s' t"
      by - (rule queued_leave [of s i], use q t r McsPass b in \<open>auto simp: run_lock_def\<close>)
    then show ?thesis using t by (auto simp: queue_step_def)
  qed (use r j in \<open>auto simp: run_lock_def\<close>)
qed

lemma queued_step:
  assumes q: "queued_as s q" and st: "lock_step MCS s s'"
  shows "\<exists>q'. queued_as s' q' \<and> queue_step q q'"
  using st
proof cases
  case (call_lock i)
  have "queued_as s' q"
    by (rule queued_outsider [OF q queued_not_in [OF q, of i]]) (use call_lock in \<open>auto simp: enter_lock_def joining_ok_def\<close>)
  then show ?thesis by (auto simp: queue_step_def)
next
  case (call_unlock i)
  obtain t where t: "q = i # t" using queued_holder [OF q, of i] call_unlock by auto
  have "queued_as s' (i # t)"
    by (rule queued_head [of s _ _ McsLoad]) (use call_unlock q t in \<open>auto simp: leave_lock_def head_fine_def\<close>)
  then show ?thesis using t by (auto simp: queue_step_def)
next
  case (inside i)
  then show ?thesis using queued_run [OF q] by blast
qed

lemma queue_holder_head: "queued_as s q \<Longrightarrow> at s i = Holding \<Longrightarrow> q \<noteq> [] \<and> hd q = i"
  using queued_holder [of s q i] by auto

lemma mcs_queue_exists: "(lock_step MCS)\<^sup>*\<^sup>* locks_start s \<Longrightarrow> \<exists>q. queued_as s q"
proof (induction rule: rtranclp_induct)
  case base
  then show ?case using queued_start by blast
next
  case (step y z)
  then show ?case using queued_step by blast
qed

text \<open>C6: The MCS lock is a queue: the nodes always represent a list of threads, every step of any thread leaves it as it is,
  adds a thread at its end, or removes its head, and only the head ever has the lock. So at most one thread has it,
  and the threads get it in the order in which they exchanged the tail.\<close>

theorem mcs_refines_queue:
  assumes "(lock_step MCS)\<^sup>*\<^sup>* locks_start s"
  shows "\<exists>q. queued_as s q \<and> (\<forall>i. at s i = Holding \<longrightarrow> q \<noteq> [] \<and> hd q = i) \<and>
    (\<forall>s'. lock_step MCS s s' \<longrightarrow> (\<exists>q'. queued_as s' q' \<and> queue_step q q'))"
  using mcs_queue_exists [OF assms] queued_step queue_holder_head by blast

text \<open>Thread 0 has the lock and thread 1 waits behind it.\<close>

fun steps :: "nat list \<Rightarrow> bench_locks \<Rightarrow> bench_locks" where
  "steps [] s = s"
| "steps (i # is) s = steps is (case run_lock i s of None \<Rightarrow> (if at s i = Outside then enter_lock MCS i s else leave_lock MCS i s) | Some s' \<Rightarrow> s')"

lemma run_lock_inside: "at s i \<noteq> Outside \<Longrightarrow> at s i \<noteq> Holding \<Longrightarrow> at s i \<noteq> MutexLock \<Longrightarrow> run_lock i s \<noteq> None"
  by (cases "at s i") (auto simp: run_lock_def)

lemma steps_reach: "(lock_step MCS)\<^sup>*\<^sup>* locks_start s \<Longrightarrow> (lock_step MCS)\<^sup>*\<^sup>* locks_start (steps is s)"
proof (induction "is" arbitrary: s)
  case (Cons i r)
  obtain q where "queued_as s q" using mcs_queue_exists [OF Cons.prems] by blast
  then have "mcs_pc (at s i)" by (rule queued_asD(3))
  then have "at s i \<noteq> MutexLock" by auto
  have "lock_step MCS s (case run_lock i s of None \<Rightarrow> (if at s i = Outside then enter_lock MCS i s else leave_lock MCS i s) | Some s' \<Rightarrow> s')"
  proof (cases "at s i = Outside \<or> at s i = Holding")
    case True
    then have "run_lock i s = None" by (auto simp: run_lock_def)
    then show ?thesis using True by (auto intro: lock_step.intros)
  next
    case False
    then show ?thesis using run_lock_inside [of s i] \<open>at s i \<noteq> MutexLock\<close> by (auto intro: lock_step.inside)
  qed
  then show ?case using Cons.IH Cons.prems by (simp add: rtranclp.rtrancl_into_rtrancl)
qed simp

definition one_behind :: bench_locks where
  "one_behind = steps [0, 0, 1, 0, 1, 0, 1, 1, 1] locks_start"

lemma one_behind_state: "at one_behind 0 = Holding \<and> at one_behind 1 = McsSpin \<and> (\<forall>i. 1 < i \<longrightarrow> at one_behind i = Outside)"
  by (simp add: one_behind_def locks_start_def enter_lock_def run_lock_def)

lemma distinct_singleton: "distinct r \<Longrightarrow> set r = {x} \<Longrightarrow> r = [x]"
proof (cases r)
  case (Cons y t)
  assume "distinct r" "set r = {x}"
  then have "y = x" "x \<notin> set t" "set t \<subseteq> {x}" using Cons by auto
  then show ?thesis using Cons by (cases t) auto
qed simp

theorem mcs_refines_queue_witness:
  "\<exists>q. queued_as one_behind q \<and> q = [0, 1]"
proof -
  have "(lock_step MCS)\<^sup>*\<^sup>* locks_start one_behind" unfolding one_behind_def by (rule steps_reach) simp
  from mcs_refines_queue [OF this] obtain q where q: "queued_as one_behind q" "\<forall>i. at one_behind i = Holding \<longrightarrow> q \<noteq> [] \<and> hd q = i" by blast
  then have "q \<noteq> []" "hd q = 0" using one_behind_state by auto
  then obtain r where r: "q = 0 # r" by (cases q) auto
  have "set q = {0, 1}"
  proof (rule set_eqI)
    fix j :: nat
    consider "j = 0" | "j = 1" | "1 < j" by linarith
    then show "j \<in> set q \<longleftrightarrow> j \<in> {0, 1}" unfolding queued_asD(2) [OF q(1), of j] using one_behind_state by cases simp_all
  qed
  moreover have d: "distinct (0 # r)" using queued_asD(1) [OF q(1)] r by simp
  then have "0 \<notin> set r" by simp
  ultimately have "set r = {1}" using r by (metis Diff_insert_absorb list.simps(15) zero_neq_one empty_iff insert_iff)
  moreover have "distinct r" using d by simp
  ultimately have "r = [1]" by (rule distinct_singleton [rotated])
  then show ?thesis using q r by blast
qed

text \<open>The lock is never stuck: if any thread is in the queue, one of them has the lock or has a step that is not spinning.\<close>

lemma mcs_progress:
  assumes q: "queued_as s q" and "q \<noteq> []"
  shows "\<exists>i \<in> set q. at s i = Holding \<or> (\<exists>s'. run_lock i s = Some s' \<and> at s' i \<noteq> at s i)"
proof -
  obtain h r where hr: "q = h # r" using assms(2) by (cases q) auto
  have f: "head_fine s h r" "behind s h r" using q hr by (auto simp: queued_as_def)
  show ?thesis
  proof (cases "at s h = McsRespin \<and> nxt s h = None")
    case True
    then obtain k t where "r = k # t" "at s k = McsLink h" using f by (cases r) (auto simp: head_fine_def)
    then show ?thesis using hr by (intro bexI [of _ k]) (auto simp: run_lock_def)
  next
    case False
    then show ?thesis using f hr
      by (intro bexI [of _ h]) (auto simp: run_lock_def head_fine_def split: lock_pc.splits option.splits)
  qed
qed

end
