(* ===== verification/LockBench.thy ===== *)
theory LockBench
  imports Mcs
begin

text \<open>
  The workers of \<^verbatim>\<open>Week6/Lab6/src/lockbench.c\<close>. They are verified against an interface: the locale
  \<open>exclusive_lock\<close> says what a lock must promise, and the locks of all four modes are interpretations of it. A step
  of a worker is one access to the shared data, one step inside the lock, or a call of it.
\<close>

section \<open>The workers\<close>

text \<open>Where a worker is in its loop; what it has read into a register is part of it.\<close>

datatype bench_pc = Top | Acquiring | ReadCounter | WriteCounter int | ReadOwner | ReadHandoffs | WriteHandoffs int
  | WriteOwner | Leaving | Releasing | Ended

text \<open>The shared data, \<^verbatim>\<open>stop\<close>, and for each worker its place and its \<^verbatim>\<open>i\<close>. \<open>turns\<close> only records who incremented.\<close>

record 'l bench =
  lk :: 'l
  shared_counter :: int
  handoffs :: int
  last_owner :: int
  halted :: bool
  wat :: "nat \<Rightarrow> bench_pc"
  rounds :: "nat \<Rightarrow> nat"
  turns :: "nat list"

definition bench_start :: "'l \<Rightarrow> 'l bench" where
  "bench_start l = \<lparr>lk = l, shared_counter = 0, handoffs = 0, last_owner = -1, halted = False,
     wat = (\<lambda>_. Top), rounds = (\<lambda>_. 0), turns = []\<rparr>"

definition wgoto :: "nat \<Rightarrow> bench_pc \<Rightarrow> 'l bench \<Rightarrow> 'l bench" where
  "wgoto i p b = b\<lparr>wat := (wat b)(i := p)\<rparr>"

text \<open>
  The lock is given by its call \<open>enter\<close>, the call of \<^verbatim>\<open>unlock\<close> \<open>leave\<close>, the steps inside both \<open>run\<close>, and whether
  a thread has returned from \<^verbatim>\<open>lock\<close> (\<open>holding\<close>) or from \<^verbatim>\<open>unlock\<close> (\<open>outside\<close>).
\<close>

fun bench_worker ::
  "(nat \<Rightarrow> 'l \<Rightarrow> 'l) \<Rightarrow> (nat \<Rightarrow> 'l \<Rightarrow> 'l) \<Rightarrow> (nat \<Rightarrow> 'l \<Rightarrow> 'l option) \<Rightarrow> (nat \<Rightarrow> 'l \<Rightarrow> bool) \<Rightarrow> (nat \<Rightarrow> 'l \<Rightarrow> bool) \<Rightarrow>
   nat \<Rightarrow> nat \<Rightarrow> bench_pc \<Rightarrow> 'l bench \<Rightarrow> 'l bench option" where
  "bench_worker enter leave run outside holding n i Top b =
     Some (if rounds b i < n \<and> \<not> halted b then wgoto i Acquiring (b\<lparr>lk := enter i (lk b)\<rparr>) else wgoto i Ended b)"
| "bench_worker enter leave run outside holding n i Acquiring b =
     (if holding i (lk b) then Some (wgoto i ReadCounter b) else map_option (\<lambda>l. b\<lparr>lk := l\<rparr>) (run i (lk b)))"
| "bench_worker enter leave run outside holding n i ReadCounter b = Some (wgoto i (WriteCounter (shared_counter b)) b)"
| "bench_worker enter leave run outside holding n i (WriteCounter v) b =
     Some (wgoto i ReadOwner (b\<lparr>shared_counter := v + 1, turns := turns b @ [i]\<rparr>))"
| "bench_worker enter leave run outside holding n i ReadOwner b =
     Some (wgoto i (if last_owner b \<noteq> int i then ReadHandoffs else Leaving) b)"
| "bench_worker enter leave run outside holding n i ReadHandoffs b = Some (wgoto i (WriteHandoffs (handoffs b)) b)"
| "bench_worker enter leave run outside holding n i (WriteHandoffs v) b = Some (wgoto i WriteOwner (b\<lparr>handoffs := v + 1\<rparr>))"
| "bench_worker enter leave run outside holding n i WriteOwner b = Some (wgoto i Leaving (b\<lparr>last_owner := int i\<rparr>))"
| "bench_worker enter leave run outside holding n i Leaving b = Some (wgoto i Releasing (b\<lparr>lk := leave i (lk b)\<rparr>))"
| "bench_worker enter leave run outside holding n i Releasing b =
     (if outside i (lk b) then Some (wgoto i Top (b\<lparr>rounds := (rounds b)(i := rounds b i + 1)\<rparr>))
      else map_option (\<lambda>l. b\<lparr>lk := l\<rparr>) (run i (lk b)))"
| "bench_worker enter leave run outside holding n i Ended b = None"

text \<open>Any of the \<open>t\<close> workers makes a step, or \<^verbatim>\<open>main\<close> sets \<^verbatim>\<open>stop\<close>.\<close>

inductive bench_step for enter leave run outside holding and t n :: nat where
  bench_work: "i < t \<Longrightarrow> bench_worker enter leave run outside holding n i (wat b i) b = Some b' \<Longrightarrow>
     bench_step enter leave run outside holding t n b b'"
| bench_halt: "bench_step enter leave run outside holding t n b (b\<lparr>halted := True\<rparr>)"

text \<open>\<^verbatim>\<open>main\<close> adds the counts of the workers and prints an error if the counter is different.\<close>

definition bench_done :: "nat \<Rightarrow> 'l bench \<Rightarrow> int" where
  "bench_done t b = (\<Sum>i<t. int (rounds b i))"

definition bench_error :: "nat \<Rightarrow> 'l bench \<Rightarrow> bool" where
  "bench_error t b \<longleftrightarrow> shared_counter b \<noteq> bench_done t b"

text \<open>How often the owner changes in a list of owners, the first one being preceded by none.\<close>

fun changes :: "int \<Rightarrow> nat list \<Rightarrow> int" where
  "changes p [] = 0"
| "changes p (i # r) = (if p = int i then 0 else 1) + changes (int i) r"

fun last_turn :: "int \<Rightarrow> nat list \<Rightarrow> int" where
  "last_turn p [] = p"
| "last_turn p (i # r) = last_turn (int i) r"

lemma last_turn_snoc [simp]: "last_turn p (xs @ [i]) = int i"
  by (induction xs arbitrary: p) auto

lemma changes_snoc [simp]: "changes p (xs @ [i]) = changes p xs + (if last_turn p xs = int i then 0 else 1)"
  by (induction xs arbitrary: p) auto

lemma changes_le: "changes p xs \<le> int (length xs) \<and> 0 \<le> changes p xs"
proof (induction xs arbitrary: p)
  case (Cons i r)
  have "changes (int i) r \<le> int (length r) \<and> 0 \<le> changes (int i) r" by (rule Cons.IH)
  then show ?case by auto
qed simp

section \<open>What a lock promises\<close>

fun critical :: "bench_pc \<Rightarrow> bool" where
  "critical Top = False"
| "critical Acquiring = False"
| "critical Releasing = False"
| "critical Ended = False"
| "critical _ = True"

fun counted :: "bench_pc \<Rightarrow> bool" where
  "counted ReadOwner = True"
| "counted ReadHandoffs = True"
| "counted (WriteHandoffs v) = True"
| "counted WriteOwner = True"
| "counted Leaving = True"
| "counted Releasing = True"
| "counted _ = False"

text \<open>The handoffs and the last owner as the worker in its critical section finds them.\<close>

fun owner_ok :: "bench_pc \<Rightarrow> 'l bench \<Rightarrow> bool" where
  "owner_ok (WriteCounter v) b \<longleftrightarrow> v = shared_counter b \<and> handoffs b = changes (-1) (turns b) \<and> last_owner b = last_turn (-1) (turns b)"
| "owner_ok ReadOwner b \<longleftrightarrow> handoffs b = changes (-1) (butlast (turns b)) \<and> last_owner b = last_turn (-1) (butlast (turns b))"
| "owner_ok ReadHandoffs b \<longleftrightarrow> handoffs b + 1 = changes (-1) (turns b)"
| "owner_ok (WriteHandoffs v) b \<longleftrightarrow> v + 1 = changes (-1) (turns b)"
| "owner_ok WriteOwner b \<longleftrightarrow> handoffs b = changes (-1) (turns b)"
| "owner_ok _ b \<longleftrightarrow> handoffs b = changes (-1) (turns b) \<and> last_owner b = last_turn (-1) (turns b)"

locale exclusive_lock =
  fixes enter leave :: "nat \<Rightarrow> 'l \<Rightarrow> 'l" and run :: "nat \<Rightarrow> 'l \<Rightarrow> 'l option" and outside holding :: "nat \<Rightarrow> 'l \<Rightarrow> bool"
    and fine :: "'l \<Rightarrow> bool" and start :: 'l
  assumes start_fine: "fine start" "outside i start"
    and enter_fine: "fine l \<Longrightarrow> outside i l \<Longrightarrow> fine (enter i l)"
    and leave_fine: "fine l \<Longrightarrow> holding i l \<Longrightarrow> fine (leave i l)"
    and run_fine: "fine l \<Longrightarrow> run i l = Some l' \<Longrightarrow> fine l'"
    and others_enter: "j \<noteq> i \<Longrightarrow> outside j (enter i l) = outside j l" "j \<noteq> i \<Longrightarrow> holding j (enter i l) = holding j l"
    and others_leave: "j \<noteq> i \<Longrightarrow> outside j (leave i l) = outside j l" "j \<noteq> i \<Longrightarrow> holding j (leave i l) = holding j l"
    and others_run: "run i l = Some l' \<Longrightarrow> j \<noteq> i \<Longrightarrow> outside j l' = outside j l"
      "run i l = Some l' \<Longrightarrow> j \<noteq> i \<Longrightarrow> holding j l' = holding j l"
    and exclusive: "fine l \<Longrightarrow> holding i l \<Longrightarrow> holding j l \<Longrightarrow> i = j"
begin

abbreviation bstep :: "nat \<Rightarrow> nat \<Rightarrow> 'l bench \<Rightarrow> 'l bench \<Rightarrow> bool" where
  "bstep \<equiv> bench_step enter leave run outside holding"

definition thread_ok :: "nat \<Rightarrow> nat \<Rightarrow> 'l bench \<Rightarrow> nat \<Rightarrow> bool" where
  "thread_ok t n b i \<longleftrightarrow> (critical (wat b i) \<longrightarrow> holding i (lk b) \<and> owner_ok (wat b i) b) \<and>
     (wat b i \<in> {Top, Ended} \<longrightarrow> outside i (lk b)) \<and>
     (critical (wat b i) \<and> counted (wat b i) \<longrightarrow> turns b \<noteq> [] \<and> last (turns b) = i) \<and>
     (wat b i \<noteq> Top \<and> wat b i \<noteq> Ended \<longrightarrow> rounds b i < n) \<and>
     (wat b i = Ended \<longrightarrow> halted b \<or> rounds b i = n) \<and> rounds b i \<le> n \<and>
     rounds b i + (if counted (wat b i) then 1 else 0) = count_list (turns b) i"

definition bench_ok :: "nat \<Rightarrow> nat \<Rightarrow> 'l bench \<Rightarrow> bool" where
  "bench_ok t n b \<longleftrightarrow> fine (lk b) \<and> (\<forall>i. thread_ok t n b i) \<and> ((\<forall>i. \<not> critical (wat b i)) \<longrightarrow> owner_ok Top b) \<and>
     shared_counter b = int (length (turns b)) \<and> set (turns b) \<subseteq> {..<t}"

lemma bench_ok_start: "bench_ok t n (bench_start start)"
  by (simp add: bench_ok_def thread_ok_def bench_start_def start_fine)

lemma owner_ok_cong:
  "handoffs b' = handoffs b \<Longrightarrow> last_owner b' = last_owner b \<Longrightarrow> turns b' = turns b \<Longrightarrow> shared_counter b' = shared_counter b \<Longrightarrow>
   owner_ok p b' = owner_ok p b"
  by (cases p) auto

lemma alone: "bench_ok t n b \<Longrightarrow> holding i (lk b) \<Longrightarrow> critical (wat b j) \<Longrightarrow> i = j"
  using exclusive unfolding bench_ok_def thread_ok_def by blast

text \<open>A step of thread \<open>i\<close> and what it must keep: the shared data is written only by the one in its critical section.\<close>

lemma bench_okI:
  assumes ok: "bench_ok t n b" and fine: "fine (lk b')" and own: "thread_ok t n b' i"
    and frame: "\<And>j. j \<noteq> i \<Longrightarrow> wat b' j = wat b j \<and> rounds b' j = rounds b j \<and> outside j (lk b') = outside j (lk b) \<and>
      holding j (lk b') = holding j (lk b) \<and> count_list (turns b') j = count_list (turns b) j"
    and halted: "halted b' = halted b"
    and shared: "critical (wat b i) \<or>
      handoffs b' = handoffs b \<and> last_owner b' = last_owner b \<and> turns b' = turns b \<and> shared_counter b' = shared_counter b"
    and quiet: "critical (wat b' i) \<or> owner_ok Top b' \<or> (\<exists>j. j \<noteq> i \<and> critical (wat b j))"
    and counter: "shared_counter b' = int (length (turns b'))" "set (turns b') \<subseteq> {..<t}"
  shows "bench_ok t n b'"
proof -
  have "thread_ok t n b' j" for j
  proof (cases "j = i")
    case True
    then show ?thesis using own by simp
  next
    case False
    have j: "thread_ok t n b j" using ok by (simp add: bench_ok_def)
    note f = frame [OF False]
    show ?thesis
    proof (cases "critical (wat b j)")
      case True
      have "\<not> critical (wat b i)"
      proof
        assume "critical (wat b i)"
        then have "holding i (lk b)" using ok by (simp add: bench_ok_def thread_ok_def)
        from alone [OF ok this True] show False using False by simp
      qed
      then have "owner_ok (wat b j) b' = owner_ok (wat b j) b" "turns b' = turns b" using shared owner_ok_cong by blast+
      then show ?thesis using j f halted unfolding thread_ok_def by simp
    next
      case nc: False
      then show ?thesis using j f halted unfolding thread_ok_def by simp
    qed
  qed
  moreover have "owner_ok Top b'" if "\<forall>j. \<not> critical (wat b' j)"
  proof -
    have "\<not> critical (wat b j)" if "j \<noteq> i" for j using frame [OF that] \<open>\<forall>j. \<not> critical (wat b' j)\<close> by (metis)
    then show ?thesis using quiet that by blast
  qed
  ultimately show ?thesis using fine counter by (simp add: bench_ok_def)
qed

lemma worker_ok_step:
  assumes ok: "bench_ok t n b" and i: "i < t"
    and st: "bench_worker enter leave run outside holding n i (wat b i) b = Some b'"
  shows "bench_ok t n b'"
proof -
  have th: "thread_ok t n b i" and fi: "fine (lk b)" and co: "shared_counter b = int (length (turns b))" "set (turns b) \<subseteq> {..<t}"
    using ok by (auto simp: bench_ok_def)
  have qu: "owner_ok Top b \<or> (\<exists>j. j \<noteq> i \<and> critical (wat b j))" if "\<not> critical (wat b i)"
    using ok that unfolding bench_ok_def by metis
  note simps = thread_ok_def wgoto_def
  show ?thesis
  proof (cases "wat b i")
    case Top
    then have o: "outside i (lk b)" using th by (simp add: thread_ok_def)
    show ?thesis
      by (rule bench_okI [OF ok, of b' i])
        (use Top st th fi co o qu enter_fine [OF fi o] others_enter in \<open>auto simp: simps split: if_splits\<close>)
  next
    case Acquiring
    show ?thesis
    proof (cases "holding i (lk b)")
      case True
      have "owner_ok Top b" using qu alone [OF ok True] Acquiring by (metis critical.simps(2))
      then show ?thesis
        by - (rule bench_okI [OF ok, of b' i], use Acquiring st th fi co True in \<open>auto simp: simps\<close>)
    next
      case False
      then obtain l where l: "run i (lk b) = Some l" "b' = b\<lparr>lk := l\<rparr>" using st Acquiring by auto
      show ?thesis
        by (rule bench_okI [OF ok, of b' i])
          (use Acquiring l th fi co qu run_fine [OF fi l(1)] others_run [OF l(1)] in \<open>auto simp: simps\<close>)
    qed
  next
    case ReadCounter
    show ?thesis
      by (rule bench_okI [OF ok, of b' i]) (use ReadCounter st th fi co in \<open>auto simp: simps\<close>)
  next
    case (WriteCounter v)
    show ?thesis
      by (rule bench_okI [OF ok, of b' i]) (use WriteCounter st th fi co i in \<open>auto simp: simps\<close>)
  next
    case ReadOwner
    then have t: "turns b \<noteq> []" "last (turns b) = i" using th by (auto simp: thread_ok_def)
    then obtain xs where xs: "turns b = xs @ [i]" by (metis append_butlast_last_id)
    show ?thesis
      by (rule bench_okI [OF ok, of b' i]) (use ReadOwner st th fi co xs in \<open>auto simp: simps split: if_splits\<close>)
  next
    case ReadHandoffs
    show ?thesis
      by (rule bench_okI [OF ok, of b' i]) (use ReadHandoffs st th fi co in \<open>auto simp: simps\<close>)
  next
    case (WriteHandoffs v)
    show ?thesis
      by (rule bench_okI [OF ok, of b' i]) (use WriteHandoffs st th fi co in \<open>auto simp: simps\<close>)
  next
    case WriteOwner
    then have t: "turns b \<noteq> []" "last (turns b) = i" using th by (auto simp: thread_ok_def)
    then obtain xs where xs: "turns b = xs @ [i]" by (metis append_butlast_last_id)
    show ?thesis
      by (rule bench_okI [OF ok, of b' i]) (use WriteOwner st th fi co xs in \<open>auto simp: simps\<close>)
  next
    case Leaving
    then have h: "holding i (lk b)" using th by (simp add: thread_ok_def)
    show ?thesis
      by (rule bench_okI [OF ok, of b' i])
        (use Leaving st th fi co leave_fine [OF fi h] others_leave in \<open>auto simp: simps\<close>)
  next
    case Releasing
    show ?thesis
    proof (cases "outside i (lk b)")
      case True
      show ?thesis
        by (rule bench_okI [OF ok, of b' i]) (use Releasing st th fi co qu True in \<open>auto simp: simps\<close>)
    next
      case False
      then obtain l where l: "run i (lk b) = Some l" "b' = b\<lparr>lk := l\<rparr>" using st Releasing by auto
      show ?thesis
        by (rule bench_okI [OF ok, of b' i])
          (use Releasing l th fi co qu run_fine [OF fi l(1)] others_run [OF l(1)] in \<open>auto simp: simps\<close>)
    qed
  next
    case Ended
    then show ?thesis using st by simp
  qed
qed

lemma bench_ok_reach:
  assumes "(bstep t n)\<^sup>*\<^sup>* (bench_start start) b"
  shows "bench_ok t n b"
  using assms
proof (induction rule: rtranclp_induct)
  case base
  then show ?case by (rule bench_ok_start)
next
  case (step b b')
  from step(2) show ?case
  proof cases
    case (bench_work i)
    then show ?thesis using worker_ok_step [OF step(3)] by blast
  next
    case bench_halt
    have "owner_ok p (b\<lparr>halted := True\<rparr>) = owner_ok p b" for p by (rule owner_ok_cong) auto
    then show ?thesis using step(3) bench_halt by (auto simp: bench_ok_def thread_ok_def)
  qed
qed

lemma worker_others: "bench_worker enter leave run outside holding n i p b = Some b' \<Longrightarrow> j \<noteq> i \<Longrightarrow> wat b' j = wat b j"
  by (cases p) (auto simp: wgoto_def split: if_splits)

lemma no_other_worker: "(bstep t n)\<^sup>*\<^sup>* (bench_start start) b \<Longrightarrow> t \<le> i \<Longrightarrow> wat b i = Top"
proof (induction rule: rtranclp_induct)
  case base
  then show ?case by (simp add: bench_start_def)
next
  case (step b b')
  from step(2) show ?case
  proof cases
    case (bench_work k)
    then show ?thesis using worker_others [of n k "wat b k" b b' i] step by simp
  next
    case bench_halt
    then show ?thesis using step by simp
  qed
qed

text \<open>When all workers have ended.\<close>

lemma bench_result:
  assumes "(bstep t n)\<^sup>*\<^sup>* (bench_start start) b" and "\<forall>i < t. wat b i = Ended"
  shows "\<not> bench_error t b" "handoffs b = changes (-1) (turns b)" "\<forall>i < t. rounds b i \<le> n \<and> (halted b \<or> rounds b i = n)"
proof -
  note ok = bench_ok_reach [OF assms(1)]
  then have r: "count_list (turns b) i = rounds b i" if "i < t" for i
    using that assms(2) unfolding bench_ok_def thread_ok_def by (metis add.right_neutral counted.simps(11))
  show "\<forall>i < t. rounds b i \<le> n \<and> (halted b \<or> rounds b i = n)"
    using ok assms(2) unfolding bench_ok_def thread_ok_def by blast
  have "length (turns b) = sum (count_list (turns b)) {..<t}" using ok by (simp add: bench_ok_def sum_count_set)
  also have "\<dots> = sum (rounds b) {..<t}" using r by (intro sum.cong) auto
  finally show "\<not> bench_error t b" using ok by (simp add: bench_error_def bench_done_def bench_ok_def)
  have "\<not> critical (wat b i)" for i
    using no_other_worker [OF assms(1), of i] assms(2) by (cases "i < t") auto
  then show "handoffs b = changes (-1) (turns b)" using ok by (simp add: bench_ok_def)
qed

lemma one_critical: "(bstep t n)\<^sup>*\<^sup>* (bench_start start) b \<Longrightarrow> critical (wat b i) \<Longrightarrow> critical (wat b j) \<Longrightarrow> i = j"
proof -
  assume r: "(bstep t n)\<^sup>*\<^sup>* (bench_start start) b" and c: "critical (wat b i)" "critical (wat b j)"
  note ok = bench_ok_reach [OF r]
  then have "holding i (lk b)" using c unfolding bench_ok_def thread_ok_def by blast
  then show "i = j" using alone [OF ok] c by blast
qed

end

section \<open>The four locks keep the promise\<close>

definition lock_outside :: "nat \<Rightarrow> bench_locks \<Rightarrow> bool" where
  "lock_outside i s \<longleftrightarrow> at s i = Outside"

definition lock_holding :: "nat \<Rightarrow> bench_locks \<Rightarrow> bool" where
  "lock_holding i s \<longleftrightarrow> at s i = Holding"

text \<open>\<open>h\<close> is the thread that has the lock: the only one with a place in \<open>H\<close>.\<close>

definition owned_by :: "lock_pc set \<Rightarrow> lock_pc set \<Rightarrow> bench_locks \<Rightarrow> nat option \<Rightarrow> bool" where
  "owned_by W H s h \<longleftrightarrow> (\<forall>i. at s i \<in> W \<union> H \<and> (at s i \<in> H \<longleftrightarrow> h = Some i))"

definition spin_fine :: "bench_locks \<Rightarrow> nat option \<Rightarrow> bool" where
  "spin_fine s h \<longleftrightarrow> owned_by {Outside, SpinSwap, SpinLook} {Holding, SpinStore} s h \<and> (word s = 0 \<longleftrightarrow> h = None)"

definition mutex_fine :: "bench_locks \<Rightarrow> bool" where
  "mutex_fine s \<longleftrightarrow> owned_by {Outside, MutexLock} {Holding, MutexUnlock} s (mutex s)"

fun lock_fine :: "bench_mode \<Rightarrow> bench_locks \<Rightarrow> bool" where
  "lock_fine SPIN s = (\<exists>h. spin_fine s h)"
| "lock_fine MCS s = (\<exists>q. queued_as s q)"
| "lock_fine MUTEX s = mutex_fine s"
| "lock_fine ADAPTIVE s = mutex_fine s"

lemma owned_here: "owned_by W H s h \<Longrightarrow> at s i \<in> W \<union> H \<and> (at s i \<in> H \<longleftrightarrow> h = Some i)"
  unfolding owned_by_def by (rule spec)

lemma owned_goto:
  assumes f: "owned_by W H s h" and s': "at s' = (at s)(i := p)" "p \<in> W \<union> H"
    and h: "if p \<in> H then (h = None \<or> h = Some i) \<and> h' = Some i else h' = (if h = Some i then None else h)"
  shows "owned_by W H s' h'"
  unfolding owned_by_def
proof
  fix j
  show "at s' j \<in> W \<union> H \<and> (at s' j \<in> H \<longleftrightarrow> h' = Some j)"
    using owned_here [OF f, of j] s' h by (cases "j = i") (auto split: if_splits)
qed

lemma spin_run:
  assumes f: "spin_fine s h" and r: "run_lock i s = Some s'"
  shows "\<exists>h. spin_fine s' h"
proof -
  have f: "owned_by {Outside, SpinSwap, SpinLook} {Holding, SpinStore} s h" "word s = 0 \<longleftrightarrow> h = None"
    using f by (simp_all add: spin_fine_def)
  note i = owned_here [OF f(1), of i] and go = owned_goto [OF f(1), of s' i]
  show ?thesis
  proof (cases "at s i")
    case SpinSwap
    then show ?thesis using i go [of "if word s \<noteq> 0 then SpinLook else Holding"] r f(2)
      by (cases "word s = 0") (auto simp: run_lock_def spin_fine_def)
  next
    case SpinLook
    then show ?thesis using i go [of "if word s \<noteq> 0 then SpinLook else SpinSwap"] r f(2)
      by (cases "word s = 0") (auto simp: run_lock_def spin_fine_def)
  next
    case SpinStore
    then show ?thesis using i go [of Outside] r f(2) by (auto simp: run_lock_def spin_fine_def)
  qed (use r i in \<open>auto simp: run_lock_def\<close>)
qed

lemma mutex_run:
  assumes f: "mutex_fine s" and r: "run_lock i s = Some s'"
  shows "mutex_fine s'"
proof -
  have f: "owned_by {Outside, MutexLock} {Holding, MutexUnlock} s (mutex s)" using f by (simp add: mutex_fine_def)
  note i = owned_here [OF f, of i] and go = owned_goto [OF f, of s' i]
  show ?thesis
  proof (cases "at s i")
    case MutexLock
    then show ?thesis using i go [of Holding] r by (auto simp: run_lock_def mutex_fine_def split: if_splits)
  next
    case MutexUnlock
    then show ?thesis using i go [of Outside] r by (auto simp: run_lock_def mutex_fine_def)
  qed (use r i in \<open>auto simp: run_lock_def\<close>)
qed

lemma run_others: "run_lock i s = Some s' \<Longrightarrow> j \<noteq> i \<Longrightarrow> at s' j = at s j"
  by (cases "at s i") (auto simp: run_lock_def split: if_splits)

lemma lock_fine_run: "lock_fine m s \<Longrightarrow> run_lock i s = Some s' \<Longrightarrow> lock_fine m s'"
  using spin_run queued_run mutex_run by (cases m) (simp_all, blast+)

lemma owned_call:
  assumes f: "owned_by W H s h" and p: "p \<in> W \<union> H" "p \<in> H \<longleftrightarrow> at s i \<in> H"
  shows "owned_by W H (goto i p s) h"
  by (rule owned_goto [OF f _ p(1)]) (use owned_here [OF f, of i] p in auto)

lemma spin_call:
  assumes f: "spin_fine s h" and p: "at s i = Outside \<and> p = SpinSwap \<or> at s i = Holding \<and> p = SpinStore"
  shows "spin_fine (goto i p s) h"
  using f owned_call [of "{Outside, SpinSwap, SpinLook}" "{Holding, SpinStore}" s h p i] p by (auto simp: spin_fine_def)

lemma mutex_call:
  assumes f: "mutex_fine s" and p: "at s i = Outside \<and> p = MutexLock \<or> at s i = Holding \<and> p = MutexUnlock"
  shows "mutex_fine (goto i p s)"
  using f owned_call [of "{Outside, MutexLock}" "{Holding, MutexUnlock}" s "mutex s" p i] p by (auto simp: mutex_fine_def)

lemma lock_fine_enter: "lock_fine m s \<Longrightarrow> lock_outside i s \<Longrightarrow> lock_fine m (enter_lock m i s)"
  using spin_call [of s _ i SpinSwap] mutex_call [of s i MutexLock] queued_step [OF _ call_lock]
  by (cases m) (auto simp: lock_outside_def enter_lock_def, blast+)

lemma lock_fine_leave: "lock_fine m s \<Longrightarrow> lock_holding i s \<Longrightarrow> lock_fine m (leave_lock m i s)"
  using spin_call [of s _ i SpinStore] mutex_call [of s i MutexUnlock] queued_step [OF _ call_unlock]
  by (cases m) (auto simp: lock_holding_def leave_lock_def, blast+)

lemma lock_exclusive: "lock_fine m s \<Longrightarrow> lock_holding i s \<Longrightarrow> lock_holding j s \<Longrightarrow> i = j"
  using queue_holder_head [of s _ i] queue_holder_head [of s _ j] owned_here [of _ _ s _ i] owned_here [of _ _ s _ j]
  by (cases m) (fastforce simp: spin_fine_def mutex_fine_def lock_holding_def)+

interpretation bl: exclusive_lock "enter_lock m" "leave_lock m" run_lock lock_outside lock_holding "lock_fine m" locks_start for m
proof
  show "lock_fine m locks_start"
    using queued_start by (cases m) (auto simp: spin_fine_def mutex_fine_def owned_by_def locks_start_def)
  show "lock_outside i locks_start" for i by (simp add: lock_outside_def locks_start_def)
qed (use lock_fine_enter lock_fine_leave lock_fine_run lock_exclusive in
    \<open>simp_all add: lock_outside_def lock_holding_def enter_lock_def leave_lock_def run_others\<close>)

section \<open>The program\<close>

text \<open>One step of the program in mode \<open>m\<close> with \<open>t\<close> workers and \<open>n\<close> operations each, and the states it reaches.\<close>

definition bench_move :: "bench_mode \<Rightarrow> nat \<Rightarrow> nat \<Rightarrow> bench_locks bench \<Rightarrow> bench_locks bench option" where
  "bench_move m n i b = bench_worker (enter_lock m) (leave_lock m) run_lock lock_outside lock_holding n i (wat b i) b"

definition bench_reach :: "bench_mode \<Rightarrow> nat \<Rightarrow> nat \<Rightarrow> bench_locks bench \<Rightarrow> bool" where
  "bench_reach m t n = (bench_step (enter_lock m) (leave_lock m) run_lock lock_outside lock_holding t n)\<^sup>*\<^sup>* (bench_start locks_start)"

text \<open>C7: In every mode (spinlock, MCS lock, both mutexes), with any number of threads and operations and in every interleaving,
  at most one worker is in its critical section. When all have ended, no increment is lost, so the error is never
  printed, the handoffs are exactly the changes of the owner in the order of the critical sections, and every worker
  has made all its operations unless the time was up.\<close>

theorem bench_exact:
  assumes "bench_reach m t n b"
  shows "(\<forall>i j. critical (wat b i) \<longrightarrow> critical (wat b j) \<longrightarrow> i = j) \<and>
    ((\<forall>i < t. wat b i = Ended) \<longrightarrow>
       \<not> bench_error t b \<and> handoffs b = changes (-1) (turns b) \<and>
       (\<forall>i < t. count_list (turns b) i = rounds b i \<and> rounds b i \<le> n \<and> (halted b \<or> rounds b i = n)))"
proof -
  note r = assms [unfolded bench_reach_def]
  have "count_list (turns b) i = rounds b i" if "wat b i = Ended" for i
    using bl.bench_ok_reach [OF r] that unfolding bl.bench_ok_def bl.thread_ok_def by (metis add.right_neutral counted.simps(11))
  then show ?thesis using bl.one_critical [OF r] bl.bench_result [OF r] by blast
qed

text \<open>Two threads with one operation each under the MCS lock: the second one waits for the first.\<close>

fun play :: "bench_mode \<Rightarrow> nat \<Rightarrow> nat list \<Rightarrow> bench_locks bench \<Rightarrow> bench_locks bench" where
  "play m n [] b = b"
| "play m n (i # r) b = play m n r (case bench_move m n i b of None \<Rightarrow> b | Some b' \<Rightarrow> b')"

lemma play_reach: "bench_reach m t n b \<Longrightarrow> set r \<subseteq> {..<t} \<Longrightarrow> bench_reach m t n (play m n r b)"
proof (induction r arbitrary: b)
  case (Cons i r)
  have "bench_reach m t n (case bench_move m n i b of None \<Rightarrow> b | Some b' \<Rightarrow> b')"
    using Cons.prems unfolding bench_reach_def bench_move_def
    by (auto split: option.splits intro: rtranclp.rtrancl_into_rtrancl bench_work)
  then show ?case using Cons.IH Cons.prems(2) by simp
qed simp

definition two_workers :: "bench_locks bench" where
  "two_workers = play MCS 1 (replicate 5 0 @ replicate 6 1 @ replicate 15 0 @ replicate 20 1 @ [0, 0]) (bench_start locks_start)"

lemma two_workers_state:
  "wat two_workers 0 = Ended \<and> wat two_workers 1 = Ended \<and> turns two_workers = [0, 1] \<and> handoffs two_workers = 2"
  by (simp add: two_workers_def numeral_eq_Suc bench_start_def locks_start_def bench_move_def wgoto_def enter_lock_def leave_lock_def run_lock_def
      lock_holding_def lock_outside_def)

theorem bench_exact_witness: "\<not> bench_error 2 two_workers \<and> rounds two_workers 0 = 1 \<and> rounds two_workers 1 = 1"
proof -
  have "bench_reach MCS 2 1 two_workers" unfolding two_workers_def
    by (rule play_reach) (auto simp: bench_reach_def)
  note e = bench_exact [OF this]
  have "wat two_workers i = Ended" if "i < 2" for i using that two_workers_state less_2_cases [of i] by auto
  with e have "\<not> bench_error 2 two_workers" "\<And>i. i < 2 \<Longrightarrow> count_list (turns two_workers) i = rounds two_workers i" by blast+
  from this(1) this(2) [of 0] this(2) [of 1] two_workers_state show ?thesis by simp
qed

end
