(* ===== verification/Counter.thy ===== *)
theory Counter
  imports Main
begin

text \<open>
  The counter of \<^verbatim>\<open>Week6/Lab6/src/counter.c\<close> in its four modes: a plain variable, an atomic one, one behind a mutex, and one
  slot for each thread. A step is one access to memory that threads share; an increment of a plain variable is a
  load and a store. The counts stay below \<open>2 ^ 63\<close>.
\<close>

datatype counter_mode = PLAIN | ATOMIC | MUTEXED | LOCAL

text \<open>\<open>Have v\<close>: the counter (or slot) was loaded, \<open>v\<close> is in a register; the others hold the mutex.\<close>

datatype adder_pc = Adding | Have int | Locked | LockedHave int | Stored | Over

record counters =
  plain :: int
  slots :: "nat \<Rightarrow> int"
  counter_lock :: "nat option"
  adder :: "nat \<Rightarrow> adder_pc"
  did :: "nat \<Rightarrow> nat"

definition counters_start :: counters where
  "counters_start = \<lparr>plain = 0, slots = (\<lambda>_. 0), counter_lock = None, adder = (\<lambda>_. Adding), did = (\<lambda>_. 0)\<rparr>"

definition adder_goto :: "nat \<Rightarrow> adder_pc \<Rightarrow> counters \<Rightarrow> counters" where
  "adder_goto i p s = s\<lparr>adder := (adder s)(i := p)\<rparr>"

definition did_one :: "nat \<Rightarrow> counters \<Rightarrow> counters" where
  "did_one i s = adder_goto i Adding (s\<lparr>did := (did s)(i := did s i + 1)\<rparr>)"

text \<open>The loops \<^verbatim>\<open>add_plain\<close>, \<^verbatim>\<open>add_atomic\<close>, \<^verbatim>\<open>add_mutex\<close> and \<^verbatim>\<open>add_local\<close> of thread \<open>i\<close> with \<open>n\<close> increments.\<close>

fun add_step :: "counter_mode \<Rightarrow> nat \<Rightarrow> nat \<Rightarrow> adder_pc \<Rightarrow> counters \<Rightarrow> counters option" where
  "add_step m n i Adding s =
     (if \<not> did s i < n then Some (adder_goto i Over s)
      else case m of
        PLAIN \<Rightarrow> Some (adder_goto i (Have (plain s)) s)
      | ATOMIC \<Rightarrow> Some (did_one i (s\<lparr>plain := plain s + 1\<rparr>))
      | MUTEXED \<Rightarrow> if counter_lock s = None then Some (adder_goto i Locked (s\<lparr>counter_lock := Some i\<rparr>)) else None
      | LOCAL \<Rightarrow> Some (adder_goto i (Have (slots s i)) s))"
| "add_step m n i (Have v) s =
     Some (did_one i (if m = LOCAL then s\<lparr>slots := (slots s)(i := v + 1)\<rparr> else s\<lparr>plain := v + 1\<rparr>))"
| "add_step m n i Locked s = Some (adder_goto i (LockedHave (plain s)) s)"
| "add_step m n i (LockedHave v) s = Some (adder_goto i Stored (s\<lparr>plain := v + 1\<rparr>))"
| "add_step m n i Stored s = Some (did_one i (s\<lparr>counter_lock := None\<rparr>))"
| "add_step m n i Over s = None"

inductive counter_step :: "counter_mode \<Rightarrow> nat \<Rightarrow> nat \<Rightarrow> counters \<Rightarrow> counters \<Rightarrow> bool" for m t n where
  add: "i < t \<Longrightarrow> add_step m n i (adder s i) s = Some s' \<Longrightarrow> counter_step m t n s s'"

definition counter_reach :: "counter_mode \<Rightarrow> nat \<Rightarrow> nat \<Rightarrow> counters \<Rightarrow> bool" where
  "counter_reach m t n = (counter_step m t n)\<^sup>*\<^sup>* counters_start"

text \<open>What \<^verbatim>\<open>main\<close> prints, when all threads have returned.\<close>

definition counter_result :: "counter_mode \<Rightarrow> nat \<Rightarrow> counters \<Rightarrow> int" where
  "counter_result m t s = (if m = LOCAL then \<Sum>i<t. slots s i else plain s)"

definition all_over :: "nat \<Rightarrow> counters \<Rightarrow> bool" where
  "all_over t s \<longleftrightarrow> (\<forall>i < t. adder s i = Over)"

lemma adder_simps [simp]:
  "plain (adder_goto i p s) = plain s" "slots (adder_goto i p s) = slots s" "counter_lock (adder_goto i p s) = counter_lock s"
  "adder (adder_goto i p s) = (adder s)(i := p)" "did (adder_goto i p s) = did s"
  "plain (did_one i s) = plain s" "slots (did_one i s) = slots s" "counter_lock (did_one i s) = counter_lock s"
  "adder (did_one i s) = (adder s)(i := Adding)" "did (did_one i s) = (did s)(i := did s i + 1)"
  by (simp_all add: adder_goto_def did_one_def)

lemma sum_did_one: "i < t \<Longrightarrow> (\<Sum>k<t. int (((did s)(i := did s i + 1)) k)) = (\<Sum>k<t. int (did s k)) + 1"
proof -
  assume i: "i < t"
  have "(\<Sum>k<t. int (((did s)(i := did s i + 1)) k)) = (\<Sum>k<t. int (did s k) + (if k = i then 1 else 0))"
    by (rule sum.cong) auto
  also have "\<dots> = (\<Sum>k<t. int (did s k)) + (\<Sum>k<t. if k = i then 1 else 0)" by (rule sum.distrib)
  also have "(\<Sum>k<t. if k = i then 1 else 0 :: int) = 1" using i by simp
  finally show ?thesis .
qed

lemma add_step_cases:
  assumes "add_step m n i (adder s i) s = Some s'"
  obtains (Over) "adder s i = Adding" "\<not> did s i < n" "s' = adder_goto i Over s"
  | (Load) "adder s i = Adding" "did s i < n" "m = PLAIN" "s' = adder_goto i (Have (plain s)) s"
  | (Atomic) "adder s i = Adding" "did s i < n" "m = ATOMIC" "s' = did_one i (s\<lparr>plain := plain s + 1\<rparr>)"
  | (Lock) "adder s i = Adding" "did s i < n" "m = MUTEXED" "counter_lock s = None"
      "s' = adder_goto i Locked (s\<lparr>counter_lock := Some i\<rparr>)"
  | (LoadSlot) "adder s i = Adding" "did s i < n" "m = LOCAL" "s' = adder_goto i (Have (slots s i)) s"
  | (Store) v where "adder s i = Have v" "m \<noteq> LOCAL" "s' = did_one i (s\<lparr>plain := v + 1\<rparr>)"
  | (StoreSlot) v where "adder s i = Have v" "m = LOCAL" "s' = did_one i (s\<lparr>slots := (slots s)(i := v + 1)\<rparr>)"
  | (LockedLoad) "adder s i = Locked" "s' = adder_goto i (LockedHave (plain s)) s"
  | (LockedStore) v where "adder s i = LockedHave v" "s' = adder_goto i Stored (s\<lparr>plain := v + 1\<rparr>)"
  | (Unlock) "adder s i = Stored" "s' = did_one i (s\<lparr>counter_lock := None\<rparr>)"
  using assms by (cases "adder s i"; cases m) (auto split: if_splits)

section \<open>The modes without a race\<close>

text \<open>What is known of a thread, and how the counter follows from what the threads have done.\<close>

fun holding :: "adder_pc \<Rightarrow> bool" where
  "holding Locked = True"
| "holding (LockedHave v) = True"
| "holding Stored = True"
| "holding _ = False"

definition adder_ok :: "counter_mode \<Rightarrow> nat \<Rightarrow> counters \<Rightarrow> nat \<Rightarrow> bool" where
  "adder_ok m n s i \<longleftrightarrow> did s i \<le> n \<and> (adder s i = Over \<longrightarrow> did s i = n) \<and> (adder s i \<notin> {Adding, Over} \<longrightarrow> did s i < n) \<and>
     (m = LOCAL \<longrightarrow> slots s i = int (did s i)) \<and>
     (case adder s i of
        Have v \<Rightarrow> m = LOCAL \<and> v = int (did s i)
      | LockedHave v \<Rightarrow> m = MUTEXED \<and> v = plain s
      | Locked \<Rightarrow> m = MUTEXED
      | Stored \<Rightarrow> m = MUTEXED
      | _ \<Rightarrow> True) \<and>
     (counter_lock s = Some i \<longleftrightarrow> holding (adder s i))"

definition stored_extra :: "counters \<Rightarrow> int" where
  "stored_extra s = (case counter_lock s of None \<Rightarrow> 0 | Some i \<Rightarrow> if adder s i = Stored then 1 else 0)"

definition counters_ok :: "counter_mode \<Rightarrow> nat \<Rightarrow> nat \<Rightarrow> counters \<Rightarrow> bool" where
  "counters_ok m t n s \<longleftrightarrow> (\<forall>i. adder_ok m n s i) \<and> (\<forall>i \<ge> t. adder s i = Adding) \<and>
     (m \<noteq> LOCAL \<longrightarrow> plain s = (\<Sum>i<t. int (did s i)) + stored_extra s)"

lemma counters_ok_start: "counters_ok m t n counters_start"
  by (simp add: counters_ok_def adder_ok_def counters_start_def stored_extra_def)

lemma counters_ok_step:
  assumes m: "m \<noteq> PLAIN" and ok: "counters_ok m t n s" and st: "counter_step m t n s s'"
  shows "counters_ok m t n s'"
  using st
proof (cases rule: counter_step.cases)
  case (add i)
  note i = add(1)
  have a: "adder_ok m n s j" for j using ok by (simp add: counters_ok_def)
  note ai = a [of i, unfolded adder_ok_def]
  have p: "m \<noteq> LOCAL \<Longrightarrow> plain s = (\<Sum>i<t. int (did s i)) + stored_extra s"
    and out: "j \<ge> t \<Longrightarrow> adder s j = Adding" for j using ok by (simp_all add: counters_ok_def)
  have holder: "counter_lock s = Some j \<longleftrightarrow> holding (adder s j)" for j using a [of j] by (simp add: adder_ok_def)
  have "adder_ok m n s' j" for j
  proof (cases "j = i")
    case True
    from add(2) show ?thesis
      by (cases rule: add_step_cases) (use True m ai in \<open>auto simp: adder_ok_def\<close>)
  next
    case False
    note aj = a [of j, unfolded adder_ok_def]
    from add(2) show ?thesis
      by (cases rule: add_step_cases)
         (use False m ai aj holder [of i] holder [of j] in \<open>auto simp: adder_ok_def split: adder_pc.splits\<close>)
  qed
  moreover have "m \<noteq> LOCAL \<Longrightarrow> plain s' = (\<Sum>i<t. int (did s' i)) + stored_extra s'"
    using add(2)
    by (cases rule: add_step_cases)
       (use m ai p holder [of i] sum_did_one [OF i, of s] in \<open>auto simp: stored_extra_def split: option.splits if_splits\<close>)
  moreover have "\<forall>j \<ge> t. adder s' j = Adding"
    using add(2) by (cases rule: add_step_cases) (use i out in auto)
  ultimately show ?thesis by (simp add: counters_ok_def)
qed

lemma counters_ok_reach:
  assumes "m \<noteq> PLAIN" "counter_reach m t n s"
  shows "counters_ok m t n s"
  using assms(2) unfolding counter_reach_def
  by (induction rule: rtranclp_induct) (auto intro: counters_ok_start counters_ok_step [OF assms(1)])

text \<open>The atomic counter, the one behind the mutex and the sum of the slots lose no increment.\<close>

theorem counter_exact:
  assumes m: "m \<noteq> PLAIN" and r: "counter_reach m t n s" and o: "all_over t s"
  shows "counter_result m t s = int (n * t)"
proof -
  have a: "adder_ok m n s j" for j using counters_ok_reach [OF m r] by (simp add: counters_ok_def)
  have d: "did s i = n" if "i < t" for i using a [of i] o that by (simp add: adder_ok_def all_over_def)
  have s: "(\<Sum>i<t. int (did s i)) = int (n * t)" using d by simp
  show ?thesis
  proof (cases "m = LOCAL")
    case True
    then have "slots s i = int (did s i)" for i using a [of i] by (simp add: adder_ok_def)
    then show ?thesis using True s by (simp add: counter_result_def)
  next
    case False
    have "adder s i \<noteq> Stored" for i
      using o counters_ok_reach [OF m r] by (cases "i < t") (auto simp: all_over_def counters_ok_def)
    then have "stored_extra s = 0" by (simp add: stored_extra_def split: option.splits)
    then show ?thesis
      using False s counters_ok_reach [OF m r] by (simp add: counters_ok_def counter_result_def)
  qed
qed

section \<open>The race of the plain counter\<close>

definition plain_adder_ok :: "nat \<Rightarrow> nat \<Rightarrow> counters \<Rightarrow> nat \<Rightarrow> bool" where
  "plain_adder_ok t n s i \<longleftrightarrow> did s i \<le> n \<and> (i < t \<and> 1 \<le> did s i \<longrightarrow> 1 \<le> plain s) \<and>
     (case adder s i of
        Adding \<Rightarrow> True
      | Over \<Rightarrow> did s i = n
      | Have v \<Rightarrow> did s i < n \<and> 0 \<le> v \<and> v \<le> (\<Sum>k<t. int (did s k)) \<and> (1 \<le> did s i \<longrightarrow> 1 \<le> v)
      | _ \<Rightarrow> False)"

text \<open>The last thread to store is one that has at most one increment or has seen a store before: the counter is at least 2 when
  it is past its first.\<close>

definition plain_ok :: "nat \<Rightarrow> nat \<Rightarrow> counters \<Rightarrow> bool" where
  "plain_ok t n s \<longleftrightarrow> (\<forall>i < t. plain_adder_ok t n s i) \<and> 0 \<le> plain s \<and> plain s \<le> (\<Sum>k<t. int (did s k)) \<and>
     (\<exists>i < t. int (min 2 (did s i)) \<le> plain s)"

lemma plain_ok_start: "0 < t \<Longrightarrow> plain_ok t n counters_start"
  by (auto simp: plain_ok_def plain_adder_ok_def counters_start_def)

lemma plain_ok_step:
  assumes ok: "plain_ok t n s" and st: "counter_step PLAIN t n s s'"
  shows "plain_ok t n s'"
  using st
proof (cases rule: counter_step.cases)
  case (add i)
  note i = add(1)
  have a: "j < t \<Longrightarrow> plain_adder_ok t n s j" for j using ok by (simp add: plain_ok_def)
  note ai = a [OF i, unfolded plain_adder_ok_def]
  have b: "0 \<le> plain s" "plain s \<le> (\<Sum>k<t. int (did s k))" using ok by (simp_all add: plain_ok_def)
  obtain l where l: "l < t" "int (min 2 (did s l)) \<le> plain s" using ok by (auto simp: plain_ok_def)
  note d1 = sum_did_one [OF i, of s]
  have "plain_adder_ok t n s' j" if j: "j < t" for j
    using add(2)
    by (cases rule: add_step_cases)
       (use i j a [OF j] ai b d1 in \<open>auto simp: plain_adder_ok_def split: adder_pc.splits if_splits\<close>)
  moreover have "0 \<le> plain s' \<and> plain s' \<le> (\<Sum>k<t. int (did s' k))"
    using add(2) by (cases rule: add_step_cases) (use i ai b d1 in auto)
  moreover have "\<exists>j < t. int (min 2 (did s' j)) \<le> plain s'"
    using add(2)
  proof (cases rule: add_step_cases)
    case (Store v)
    then have "int (min 2 (did s' i)) \<le> plain s'" using ai by (auto simp: min_def)
    then show ?thesis using i by blast
  qed (use l ai in auto)
  ultimately show ?thesis by (simp add: plain_ok_def)
qed

lemma plain_ok_reach:
  assumes "0 < t" "counter_reach PLAIN t n s"
  shows "plain_ok t n s"
  using assms(2) unfolding counter_reach_def
  by (induction rule: rtranclp_induct) (auto intro: plain_ok_start [OF assms(1)] plain_ok_step)

lemma lone_step:
  assumes "i < t" "adder s i = Adding" "did s i < n"
  shows "(counter_step PLAIN t n)\<^sup>*\<^sup>* s (did_one i (s\<lparr>plain := plain s + 1\<rparr>))"
proof -
  let ?u = "adder_goto i (Have (plain s)) s"
  have "counter_step PLAIN t n s ?u" using assms by (intro counter_step.add [of i]) auto
  moreover have "counter_step PLAIN t n ?u (did_one i (?u\<lparr>plain := plain s + 1\<rparr>))"
    using assms by (intro counter_step.add [of i]) auto
  moreover have "did_one i (?u\<lparr>plain := plain s + 1\<rparr>) = did_one i (s\<lparr>plain := plain s + 1\<rparr>)"
    by (simp add: did_one_def adder_goto_def)
  ultimately show ?thesis by (simp add: converse_rtranclp_into_rtranclp)
qed

text \<open>A thread alone: \<open>k\<close> increments in a row.\<close>

lemma lone_run:
  "i < t \<Longrightarrow> adder s i = Adding \<Longrightarrow> did s i + k \<le> n \<Longrightarrow>
   (counter_step PLAIN t n)\<^sup>*\<^sup>* s (s\<lparr>plain := plain s + int k, did := (did s)(i := did s i + k)\<rparr>)"
proof (induction k)
  case 0
  then show ?case by simp
next
  case (Suc k)
  let ?u = "s\<lparr>plain := plain s + int k, did := (did s)(i := did s i + k)\<rparr>"
  have "(counter_step PLAIN t n)\<^sup>*\<^sup>* s ?u" by (rule Suc.IH) (use Suc.prems in auto)
  moreover have "(counter_step PLAIN t n)\<^sup>*\<^sup>* ?u (did_one i (?u\<lparr>plain := plain ?u + 1\<rparr>))"
    by (rule lone_step) (use Suc.prems in auto)
  moreover have "did_one i (?u\<lparr>plain := plain ?u + 1\<rparr>) =
      s\<lparr>plain := plain s + int (Suc k), did := (did s)(i := did s i + Suc k)\<rparr>"
    using Suc.prems(2) by (simp add: did_one_def adder_goto_def fun_upd_idem algebra_simps)
  ultimately show ?case by (metis rtranclp_trans)
qed

text \<open>Thread 0 loads 0, thread 1 does all but one of its increments, thread 0 stores 1, thread 1 loads that 1,
  thread 0 does the rest and returns, thread 1 stores 2.\<close>

definition race :: "int \<Rightarrow> adder_pc \<Rightarrow> adder_pc \<Rightarrow> nat \<Rightarrow> nat \<Rightarrow> counters" where
  "race v p0 p1 d0 d1 = \<lparr>plain = v, slots = (\<lambda>_. 0), counter_lock = None,
     adder = (\<lambda>i. if i = 0 then p0 else if i = 1 then p1 else Adding),
     did = (\<lambda>i. if i = 0 then d0 else if i = 1 then d1 else 0)\<rparr>"

lemma race_start: "counters_start = race 0 Adding Adding 0 0"
  by (simp add: race_def counters_start_def fun_eq_iff)

lemma race_solo:
  "d0 + k \<le> n \<Longrightarrow> (counter_step PLAIN 2 n)\<^sup>*\<^sup>* (race v Adding p d0 d1) (race (v + int k) Adding p (d0 + k) d1)"
  "d1 + k \<le> n \<Longrightarrow> (counter_step PLAIN 2 n)\<^sup>*\<^sup>* (race v p Adding d0 d1) (race (v + int k) p Adding d0 (d1 + k))"
proof -
  have e: "race (v + int k) Adding p (d0 + k) d1 =
      (race v Adding p d0 d1)\<lparr>plain := plain (race v Adding p d0 d1) + int k,
        did := (did (race v Adding p d0 d1))(0 := did (race v Adding p d0 d1) 0 + k)\<rparr>"
    "race (v + int k) p Adding d0 (d1 + k) =
      (race v p Adding d0 d1)\<lparr>plain := plain (race v p Adding d0 d1) + int k,
        did := (did (race v p Adding d0 d1))(1 := did (race v p Adding d0 d1) 1 + k)\<rparr>"
    by (simp_all add: race_def fun_eq_iff)
  show "d0 + k \<le> n \<Longrightarrow> (counter_step PLAIN 2 n)\<^sup>*\<^sup>* (race v Adding p d0 d1) (race (v + int k) Adding p (d0 + k) d1)"
    unfolding e(1) by (rule lone_run) (simp_all add: race_def)
  show "d1 + k \<le> n \<Longrightarrow> (counter_step PLAIN 2 n)\<^sup>*\<^sup>* (race v p Adding d0 d1) (race (v + int k) p Adding d0 (d1 + k))"
    unfolding e(2) by (rule lone_run) (simp_all add: race_def)
qed

lemma race_load:
  "d0 < n \<Longrightarrow> counter_step PLAIN 2 n (race v Adding p d0 d1) (race v (Have v) p d0 d1)"
  "d1 < n \<Longrightarrow> counter_step PLAIN 2 n (race v p Adding d0 d1) (race v p (Have v) d0 d1)"
  by (rule counter_step.add [of 0]; simp add: race_def adder_goto_def fun_eq_iff)
     (rule counter_step.add [of 1]; simp add: race_def adder_goto_def fun_eq_iff)

lemma race_store:
  "counter_step PLAIN 2 n (race v (Have w) p d0 d1) (race (w + 1) Adding p (d0 + 1) d1)"
  "counter_step PLAIN 2 n (race v p (Have w) d0 d1) (race (w + 1) p Adding d0 (d1 + 1))"
  by (rule counter_step.add [of 0]; simp add: race_def did_one_def adder_goto_def fun_eq_iff)
     (rule counter_step.add [of 1]; simp add: race_def did_one_def adder_goto_def fun_eq_iff)

lemma race_over:
  "counter_step PLAIN 2 n (race v Adding p n d1) (race v Over p n d1)"
  "counter_step PLAIN 2 n (race v p Adding d0 n) (race v p Over d0 n)"
  by (rule counter_step.add [of 0]; simp add: race_def adder_goto_def fun_eq_iff)
     (rule counter_step.add [of 1]; simp add: race_def adder_goto_def fun_eq_iff)

lemma race_to_two: "counter_reach PLAIN 2 (Suc (Suc k)) (race 2 Over Over (Suc (Suc k)) (Suc (Suc k)))"
proof -
  let ?n = "Suc (Suc k)" and ?R = "(counter_step PLAIN 2 (Suc (Suc k)))\<^sup>*\<^sup>*"
  have "?R (race 0 Adding Adding 0 0) (race 0 (Have 0) Adding 0 0)" by (simp add: race_load r_into_rtranclp)
  moreover have "?R (race 0 (Have 0) Adding 0 0) (race (int (Suc k)) (Have 0) Adding 0 (Suc k))"
    using race_solo(2) [of 0 "Suc k" ?n 0 "Have 0" 0] by simp
  moreover have "?R (race (int (Suc k)) (Have 0) Adding 0 (Suc k)) (race 1 Adding Adding 1 (Suc k))"
    using race_store(1) [of ?n "int (Suc k)" 0 Adding 0 "Suc k"] by (simp add: r_into_rtranclp)
  moreover have "?R (race 1 Adding Adding 1 (Suc k)) (race 1 Adding (Have 1) 1 (Suc k))"
    by (simp add: race_load r_into_rtranclp)
  moreover have "?R (race 1 Adding (Have 1) 1 (Suc k)) (race (1 + int (Suc k)) Adding (Have 1) ?n (Suc k))"
    using race_solo(1) [of 1 "Suc k" ?n 1 "Have 1" "Suc k"] by simp
  moreover have "?R (race (1 + int (Suc k)) Adding (Have 1) ?n (Suc k)) (race (1 + int (Suc k)) Over (Have 1) ?n (Suc k))"
    by (rule r_into_rtranclp) (rule race_over)
  moreover have "?R (race (1 + int (Suc k)) Over (Have 1) ?n (Suc k)) (race 2 Over Adding ?n ?n)"
    using race_store(2) [of ?n "1 + int (Suc k)" Over 1 ?n "Suc k"] by (simp add: r_into_rtranclp)
  moreover have "?R (race 2 Over Adding ?n ?n) (race 2 Over Over ?n ?n)"
    by (rule r_into_rtranclp) (rule race_over)
  ultimately show ?thesis unfolding counter_reach_def race_start by (meson rtranclp_trans)
qed

text \<open>C9: The plain counter: whatever the interleaving of loads and stores, with at least one thread the result is at most the number of all
  increments and at least 2 (1 with a single increment each). The lower bound is reached: two threads with any number of increments
  of at least 2 each have a run that ends with 2.\<close>

theorem counter_plain:
  assumes t: "0 < t" and r: "counter_reach PLAIN t n s" and o: "all_over t s"
  shows "int (min 2 n) \<le> counter_result PLAIN t s \<and> counter_result PLAIN t s \<le> int (n * t) \<and>
    (\<exists>s'. counter_reach PLAIN 2 (n + 2) s' \<and> all_over 2 s' \<and> counter_result PLAIN 2 s' = 2)"
proof -
  note ok = plain_ok_reach [OF t r]
  have d: "did s i = n" if "i < t" for i
    using ok o that by (fastforce simp: plain_ok_def plain_adder_ok_def all_over_def)
  have "int (min 2 n) \<le> plain s" using ok d by (auto simp: plain_ok_def)
  moreover have "plain s \<le> int (n * t)" using ok d by (simp add: plain_ok_def algebra_simps)
  moreover have "all_over 2 (race 2 Over Over k k) \<and> counter_result PLAIN 2 (race 2 Over Over k k) = 2" for k
    by (auto simp: all_over_def race_def counter_result_def)
  ultimately show ?thesis using race_to_two [of n] by (auto simp: counter_result_def)
qed

lemma counter_plain_witness:
  "int (min 2 3) \<le> counter_result PLAIN 2 (race 2 Over Over 3 3) \<and> counter_result PLAIN 2 (race 2 Over Over 3 3) \<le> int (3 * 2)"
  using counter_plain [of 2 3 "race 2 Over Over 3 3"] race_to_two [of 1]
  by (simp add: all_over_def race_def numeral_3_eq_3)

text \<open>With two threads and one increment each: the atomic counter ends at 2.\<close>

lemma atomic_run: "counter_reach ATOMIC 2 1 (race 2 Over Over 1 1)"
proof -
  let ?R = "counter_step ATOMIC 2 1"
  have "?R (race 0 Adding Adding 0 0) (race 1 Adding Adding 1 0)"
    by (rule counter_step.add [of 0]; simp add: race_def did_one_def adder_goto_def fun_eq_iff)
  moreover have "?R (race 1 Adding Adding 1 0) (race 2 Adding Adding 1 1)"
    by (rule counter_step.add [of 1]; simp add: race_def did_one_def adder_goto_def fun_eq_iff)
  moreover have "?R (race 2 Adding Adding 1 1) (race 2 Over Adding 1 1)"
    by (rule counter_step.add [of 0]; simp add: race_def adder_goto_def fun_eq_iff)
  moreover have "?R (race 2 Over Adding 1 1) (race 2 Over Over 1 1)"
    by (rule counter_step.add [of 1]; simp add: race_def adder_goto_def fun_eq_iff)
  ultimately show ?thesis
    unfolding counter_reach_def race_start by (meson converse_rtranclp_into_rtranclp rtranclp.rtrancl_refl)
qed

lemma counter_exact_witness: "counter_result ATOMIC 2 (race 2 Over Over 1 1) = 2"
  using counter_exact [OF _ atomic_run] by (simp add: all_over_def race_def)

end
