(* ===== verification/Cvbug.thy ===== *)
theory Cvbug
  imports Main "HOL-Library.Multiset"
begin

text \<open>
  The producer and the two consumers of \<^verbatim>\<open>Week6/Lab6/src/cvbug.c\<close> around a queue of four items with one mutex
  and two condition variables. A step is what a thread does between two points at which others can run: a lock,
  a wait, an unlock, or a piece of a critical section. Every wait may also end spuriously.
  The \<^verbatim>\<open>write\<close> to the log is taken to succeed; the program only prints a message when it does not and goes on.
\<close>

section \<open>The program\<close>

definition CAP :: nat where "CAP = 4"

datatype cv_mode = IFWAIT | IOLOCK | NOUNLOCK | FIXED

text \<open>\<open>PRelock\<close>, \<open>CRelock\<close>: woken inside \<^verbatim>\<open>pthread_cond_wait\<close>, the mutex is not yet taken again.\<close>

datatype producer_pc = PLock nat | PCheck nat | PWait nat | PRelock nat | PPut nat | PUnlock nat
  | PFinal | PMark | PLast | PEnd

datatype consumer_pc = CLock | CCheck | CWait | CRelock | CTest | CTake | CTook nat | CUnlock nat | CRelease
  | CLog nat | CQuit | CEnd

text \<open>The thread that holds the mutex is 0 for the producer and \<open>c + 1\<close> for consumer \<open>c\<close>.\<close>

record cv =
  owner :: "nat option"
  buf :: "nat list"
  qhead :: nat
  qtail :: nat
  qcount :: int
  finished :: bool
  pp :: producer_pc
  cp :: "nat \<Rightarrow> consumer_pc"
  seen :: "nat \<Rightarrow> nat"
  empty_takes :: nat
  logged :: "nat list"

definition cv_start :: cv where
  "cv_start = \<lparr>owner = None, buf = replicate CAP 0, qhead = 0, qtail = 0, qcount = 0, finished = False,
     pp = PLock 0, cp = (\<lambda>_. CLock), seen = (\<lambda>_. 0), empty_takes = 0, logged = []\<rparr>"

definition put_item :: "nat \<Rightarrow> cv \<Rightarrow> cv" where
  "put_item item s = s\<lparr>buf := (buf s)[qtail s := item], qtail := (qtail s + 1) mod CAP, qcount := qcount s + 1\<rparr>"

definition take_item :: "cv \<Rightarrow> nat \<times> cv" where
  "take_item s = (buf s ! qhead s, s\<lparr>qhead := (qhead s + 1) mod CAP, qcount := qcount s - 1\<rparr>)"

definition is_bad :: "nat \<Rightarrow> bool" where
  "is_bad item \<longleftrightarrow> item mod 7 = 6"

definition take_lock :: "nat \<Rightarrow> cv \<Rightarrow> cv option" where
  "take_lock t s = (if owner s = None then Some (s\<lparr>owner := Some t\<rparr>) else None)"

text \<open>A signal wakes the consumers in \<open>w\<close>: at least one if any waits. A broadcast wakes all.\<close>

definition waiting_consumers :: "cv \<Rightarrow> nat set" where
  "waiting_consumers s = {c \<in> {0, 1}. cp s c = CWait}"

definition woken_pc :: "bool \<Rightarrow> consumer_pc \<Rightarrow> consumer_pc" where
  "woken_pc b p = (if b \<and> p = CWait then CRelock else p)"

definition woken_all :: "nat set \<Rightarrow> (nat \<Rightarrow> consumer_pc) \<Rightarrow> nat \<Rightarrow> consumer_pc" where
  "woken_all w f c = woken_pc (c \<in> w) (f c)"

definition wake :: "nat set \<Rightarrow> cv \<Rightarrow> cv" where
  "wake w s = s\<lparr>cp := woken_all w (cp s)\<rparr>"

definition wakes :: "nat set \<Rightarrow> cv \<Rightarrow> bool" where
  "wakes w s \<longleftrightarrow> (waiting_consumers s \<noteq> {} \<longrightarrow> w \<inter> waiting_consumers s \<noteq> {})"

definition wake_producer :: "cv \<Rightarrow> cv" where
  "wake_producer s = (case pp s of PWait i \<Rightarrow> s\<lparr>pp := PRelock i\<rparr> | _ \<Rightarrow> s)"

fun producer_step :: "cv_mode \<Rightarrow> nat \<Rightarrow> nat set \<Rightarrow> producer_pc \<Rightarrow> cv \<Rightarrow> cv option" where
  "producer_step m n w (PLock i) s = map_option (\<lambda>s. s\<lparr>pp := PCheck i\<rparr>) (take_lock 0 s)"
| "producer_step m n w (PCheck i) s =
     Some (if qcount s \<ge> int CAP then s\<lparr>owner := None, pp := PWait i\<rparr> else s\<lparr>pp := PPut i\<rparr>)"
| "producer_step m n w (PWait i) s = None"
| "producer_step m n w (PRelock i) s = map_option (\<lambda>s. s\<lparr>pp := PCheck i\<rparr>) (take_lock 0 s)"
| "producer_step m n w (PPut i) s = Some (wake (if m = IFWAIT then {0, 1} else w) (put_item i (s\<lparr>pp := PUnlock i\<rparr>)))"
| "producer_step m n w (PUnlock i) s = Some (s\<lparr>owner := None, pp := if i + 1 < n then PLock (i + 1) else PFinal\<rparr>)"
| "producer_step m n w PFinal s = map_option (\<lambda>s. s\<lparr>pp := PMark\<rparr>) (take_lock 0 s)"
| "producer_step m n w PMark s = Some (wake {0, 1} (s\<lparr>finished := True, pp := PLast\<rparr>))"
| "producer_step m n w PLast s = Some (s\<lparr>owner := None, pp := PEnd\<rparr>)"
| "producer_step m n w PEnd s = None"

definition cgoto :: "nat \<Rightarrow> consumer_pc \<Rightarrow> cv \<Rightarrow> cv" where
  "cgoto c p s = s\<lparr>cp := (cp s)(c := p)\<rparr>"

fun consumer_step :: "cv_mode \<Rightarrow> nat \<Rightarrow> consumer_pc \<Rightarrow> cv \<Rightarrow> cv option" where
  "consumer_step m c CLock s = map_option (cgoto c CCheck) (take_lock (c + 1) s)"
| "consumer_step m c CCheck s =
     Some (if qcount s \<le> 0 \<and> \<not> finished s then cgoto c CWait (s\<lparr>owner := None\<rparr>) else cgoto c CTest s)"
| "consumer_step m c CWait s = None"
| "consumer_step m c CRelock s = map_option (cgoto c (if m = IFWAIT then CTest else CCheck)) (take_lock (c + 1) s)"
| "consumer_step m c CTest s = Some (cgoto c (if qcount s \<le> 0 \<and> finished s then CQuit else CTake) s)"
| "consumer_step m c CTake s =
     (let (item, s1) = take_item s;
          s2 = (if qcount s1 < 0 then s1\<lparr>empty_takes := empty_takes s1 + 1\<rparr> else s1);
          s3 = s2\<lparr>seen := (seen s2)(item := seen s2 item + 1)\<rparr>
      in Some (cgoto c (CTook item) (wake_producer s3)))"
| "consumer_step m c (CTook item) s =
     Some (if m = IOLOCK then cgoto c CRelease (s\<lparr>logged := logged s @ [item]\<rparr>)
           else if m = NOUNLOCK \<and> is_bad item then cgoto c CEnd s
           else cgoto c (CUnlock item) s)"
| "consumer_step m c (CUnlock item) s = Some (cgoto c (CLog item) (s\<lparr>owner := None\<rparr>))"
| "consumer_step m c CRelease s = Some (cgoto c CLock (s\<lparr>owner := None\<rparr>))"
| "consumer_step m c (CLog item) s = Some (cgoto c CLock (s\<lparr>logged := logged s @ [item]\<rparr>))"
| "consumer_step m c CQuit s = Some (cgoto c CEnd (s\<lparr>owner := None\<rparr>))"
| "consumer_step m c CEnd s = None"

inductive cv_step :: "cv_mode \<Rightarrow> nat \<Rightarrow> cv \<Rightarrow> cv \<Rightarrow> bool" for m n where
  produce: "wakes w s \<Longrightarrow> producer_step m n w (pp s) s = Some s' \<Longrightarrow> cv_step m n s s'"
| consume: "c < 2 \<Longrightarrow> consumer_step m c (cp s c) s = Some s' \<Longrightarrow> cv_step m n s s'"

text \<open>A wait may end although nobody has signalled.\<close>

inductive cv_spurious :: "cv \<Rightarrow> cv \<Rightarrow> bool" where
  spurious_producer: "cv_spurious s (wake_producer s)"
| spurious_consumer: "cv_spurious s (wake w s)"

definition cv_any :: "cv_mode \<Rightarrow> nat \<Rightarrow> cv \<Rightarrow> cv \<Rightarrow> bool" where
  "cv_any m n s s' \<longleftrightarrow> cv_step m n s s' \<or> cv_spurious s s'"

text \<open>The report of \<^verbatim>\<open>main\<close>: items taken, duplicates, items lost.\<close>

definition cv_taken :: "nat \<Rightarrow> cv \<Rightarrow> nat" where
  "cv_taken n s = sum_list (map (seen s) [0..<n])"

definition cv_duplicate :: "nat \<Rightarrow> cv \<Rightarrow> nat" where
  "cv_duplicate n s = sum_list (map (\<lambda>i. if seen s i > 1 then seen s i - 1 else 0) [0..<n])"

definition cv_lost :: "nat \<Rightarrow> cv \<Rightarrow> nat" where
  "cv_lost n s = length (filter (\<lambda>i. seen s i = 0) [0..<n])"

definition cv_ended :: "cv \<Rightarrow> bool" where
  "cv_ended s \<longleftrightarrow> pp s = PEnd \<and> cp s 0 = CEnd \<and> cp s 1 = CEnd"

section \<open>The queue while it is used correctly\<close>

text \<open>\<open>P\<close> items were put in and \<open>T\<close> taken out: the items in between are in the ring, those before were seen once.\<close>

definition queue_ok :: "nat \<Rightarrow> nat \<Rightarrow> cv \<Rightarrow> bool" where
  "queue_ok P T s \<longleftrightarrow> T \<le> P \<and> P \<le> T + CAP \<and> qcount s = int P - int T \<and> length (buf s) = CAP \<and>
     qtail s = P mod CAP \<and> qhead s = T mod CAP \<and> (\<forall>j. T \<le> j \<longrightarrow> j < P \<longrightarrow> buf s ! (j mod CAP) = j) \<and>
     seen s = (\<lambda>k. if k < T then 1 else 0) \<and> empty_takes s = 0"

lemma ring_distinct: "T \<le> j \<Longrightarrow> j < P \<Longrightarrow> P < T + CAP \<Longrightarrow> j mod CAP \<noteq> P mod CAP"
proof
  assume a: "T \<le> j" "j < P" "P < T + CAP" and e: "j mod CAP = P mod CAP"
  have "P - j < CAP" "0 < P - j" using a by auto
  moreover have "CAP dvd P - j" using e a by (simp add: mod_eq_dvd_iff_nat [symmetric] eq_commute)
  ultimately show False by (simp add: nat_dvd_not_less)
qed

lemma cvq_put:
  assumes q: "queue_ok P T s" and "qcount s < int CAP"
  shows "queue_ok (P + 1) T (put_item P s)"
proof -
  have P: "P < T + CAP" using assms by (simp add: queue_ok_def)
  have "(buf s)[P mod CAP := P] ! (j mod CAP) = j" if "T \<le> j" "j < P + 1" for j
  proof (cases "j = P")
    case True
    then show ?thesis using q by (simp add: queue_ok_def CAP_def)
  next
    case False
    then have "j mod CAP \<noteq> P mod CAP" using ring_distinct [of T j P] that P by simp
    then show ?thesis using q that False by (simp add: queue_ok_def)
  qed
  then show ?thesis using q P by (simp add: queue_ok_def put_item_def mod_Suc_eq)
qed

lemma cvq_take:
  assumes q: "queue_ok P T s" and c: "0 < qcount s" and t: "take_item s = (item, s1)"
  shows "item = T \<and> 0 \<le> qcount s1 \<and> queue_ok P (T + 1) (s1\<lparr>seen := (seen s1)(item := seen s1 item + 1)\<rparr>)"
proof -
  have "T < P" using q c by (simp add: queue_ok_def)
  moreover from this have "item = T" using q t by (auto simp: queue_ok_def take_item_def)
  ultimately show ?thesis using q t by (auto simp: queue_ok_def take_item_def mod_Suc_eq fun_eq_iff)
qed

lemma queue_ok_cong:
  "buf s' = buf s \<Longrightarrow> qhead s' = qhead s \<Longrightarrow> qtail s' = qtail s \<Longrightarrow> qcount s' = qcount s \<Longrightarrow> seen s' = seen s \<Longrightarrow>
   empty_takes s' = empty_takes s \<Longrightarrow> queue_ok P T s' = queue_ok P T s"
  by (simp add: queue_ok_def)

text \<open>Items put in by a producer at \<open>p\<close>, and the places at which a thread holds the mutex.\<close>

fun puts :: "nat \<Rightarrow> producer_pc \<Rightarrow> nat" where
  "puts n (PLock i) = i"
| "puts n (PCheck i) = i"
| "puts n (PWait i) = i"
| "puts n (PRelock i) = i"
| "puts n (PPut i) = i"
| "puts n (PUnlock i) = i + 1"
| "puts n _ = n"

fun pholds :: "producer_pc \<Rightarrow> bool" where
  "pholds (PCheck i) = True"
| "pholds (PPut i) = True"
| "pholds (PUnlock i) = True"
| "pholds PMark = True"
| "pholds PLast = True"
| "pholds _ = False"

fun cholds :: "consumer_pc \<Rightarrow> bool" where
  "cholds CCheck = True"
| "cholds CTest = True"
| "cholds CTake = True"
| "cholds (CTook i) = True"
| "cholds (CUnlock i) = True"
| "cholds CRelease = True"
| "cholds CQuit = True"
| "cholds _ = False"

fun flight :: "consumer_pc \<Rightarrow> nat multiset" where
  "flight (CTook i) = {#i#}"
| "flight (CUnlock i) = {#i#}"
| "flight (CLog i) = {#i#}"
| "flight _ = {#}"

fun producer_ok :: "nat \<Rightarrow> producer_pc \<Rightarrow> int \<Rightarrow> bool" where
  "producer_ok n (PLock i) q = (i < n)"
| "producer_ok n (PCheck i) q = (i < n)"
| "producer_ok n (PWait i) q = (i < n \<and> q = int CAP)"
| "producer_ok n (PRelock i) q = (i < n)"
| "producer_ok n (PPut i) q = (i < n \<and> q < int CAP)"
| "producer_ok n (PUnlock i) q = (i < n)"
| "producer_ok n _ q = True"

fun consumer_ok :: "consumer_pc \<Rightarrow> int \<Rightarrow> bool \<Rightarrow> bool" where
  "consumer_ok CTest q f = (0 < q \<or> f)"
| "consumer_ok CTake q f = (0 < q)"
| "consumer_ok CWait q f = (\<not> f)"
| "consumer_ok CQuit q f = (f \<and> q = 0)"
| "consumer_ok CEnd q f = (f \<and> q = 0)"
| "consumer_ok _ q f = True"

definition lock_ok :: "cv \<Rightarrow> bool" where
  "lock_ok s \<longleftrightarrow> (owner s = Some 0 \<longleftrightarrow> pholds (pp s)) \<and> (owner s = Some 1 \<longleftrightarrow> cholds (cp s 0)) \<and>
     (owner s = Some 2 \<longleftrightarrow> cholds (cp s 1)) \<and> owner s \<in> {None, Some 0, Some 1, Some 2}"

definition ending_ok :: "cv \<Rightarrow> bool" where
  "ending_ok s \<longleftrightarrow> (finished s \<longleftrightarrow> pp s = PLast \<or> pp s = PEnd)"

definition waits_ok :: "cv \<Rightarrow> bool" where
  "waits_ok s \<longleftrightarrow> (cp s 0 = CWait \<and> cp s 1 = CWait \<longrightarrow> qcount s = 0)"

definition logs_ok :: "nat \<Rightarrow> cv \<Rightarrow> bool" where
  "logs_ok T s \<longleftrightarrow> mset (logged s) + flight (cp s 0) + flight (cp s 1) = mset [0..<T]"

definition cv_inv :: "nat \<Rightarrow> nat \<Rightarrow> cv \<Rightarrow> bool" where
  "cv_inv n T s \<longleftrightarrow> queue_ok (puts n (pp s)) T s \<and> lock_ok s \<and> producer_ok n (pp s) (qcount s) \<and> ending_ok s \<and>
     (\<forall>c \<in> {0, 1}. consumer_ok (cp s c) (qcount s) (finished s)) \<and> waits_ok s \<and> logs_ok T s"

lemma cv_invI:
  "queue_ok (puts n (pp s)) T s \<Longrightarrow> lock_ok s \<Longrightarrow> producer_ok n (pp s) (qcount s) \<Longrightarrow> ending_ok s \<Longrightarrow>
   (\<And>c. c < 2 \<Longrightarrow> consumer_ok (cp s c) (qcount s) (finished s)) \<Longrightarrow> waits_ok s \<Longrightarrow> logs_ok T s \<Longrightarrow> cv_inv n T s"
  by (simp add: cv_inv_def)

lemma cv_invD:
  assumes "cv_inv n T s"
  shows "queue_ok (puts n (pp s)) T s" "lock_ok s" "producer_ok n (pp s) (qcount s)" "ending_ok s"
    "\<And>c. c < 2 \<Longrightarrow> consumer_ok (cp s c) (qcount s) (finished s)" "waits_ok s" "logs_ok T s"
  using assms less_2_cases by (auto simp: cv_inv_def)

lemma cv_inv_start: "0 < n \<Longrightarrow> cv_inv n 0 cv_start"
  by (simp add: cv_inv_def cv_start_def queue_ok_def lock_ok_def ending_ok_def waits_ok_def logs_ok_def CAP_def)

text \<open>A consumer that is woken.\<close>

lemma wake_simps [simp]:
  "owner (wake w s) = owner s" "buf (wake w s) = buf s" "qhead (wake w s) = qhead s" "qtail (wake w s) = qtail s"
  "qcount (wake w s) = qcount s" "finished (wake w s) = finished s" "pp (wake w s) = pp s" "seen (wake w s) = seen s"
  "empty_takes (wake w s) = empty_takes s" "logged (wake w s) = logged s"
  "cp (wake w s) c = (if c \<in> w \<and> cp s c = CWait then CRelock else cp s c)"
  by (simp_all add: wake_def woken_all_def woken_pc_def)

lemma woken:
  "cholds (if b \<and> p = CWait then CRelock else p) = cholds p"
  "flight (if b \<and> p = CWait then CRelock else p) = flight p"
  "consumer_ok p q f \<Longrightarrow> consumer_ok (if b \<and> p = CWait then CRelock else p) q f"
  "(if b \<and> p = CWait then CRelock else p) = CWait \<Longrightarrow> p = CWait"
  by (auto split: if_splits)

lemma wake_cv_inv:
  assumes "cv_inv n T s"
  shows "cv_inv n T (wake w s)"
proof -
  note d = cv_invD [OF assms]
  have "queue_ok P T (wake w s) = queue_ok P T s" for P by (rule queue_ok_cong) simp_all
  then show ?thesis
  proof (intro cv_invI, unfold wake_simps)
    show "lock_ok (wake w s)" using d(2) unfolding lock_ok_def wake_simps woken(1) .
    show "waits_ok (wake w s)" using d(6) unfolding waits_ok_def wake_simps by (metis woken(4))
    show "logs_ok T (wake w s)" using d(7) unfolding logs_ok_def wake_simps woken(2) .
    show "ending_ok (wake w s)" using d(4) unfolding ending_ok_def wake_simps .
  qed (use d woken(3) in blast)+
qed

lemma wake_producer_simps [simp]:
  "owner (wake_producer s) = owner s" "buf (wake_producer s) = buf s" "qhead (wake_producer s) = qhead s" "qtail (wake_producer s) = qtail s"
  "qcount (wake_producer s) = qcount s" "finished (wake_producer s) = finished s" "cp (wake_producer s) = cp s"
  "seen (wake_producer s) = seen s" "empty_takes (wake_producer s) = empty_takes s" "logged (wake_producer s) = logged s"
  "puts n (pp (wake_producer s)) = puts n (pp s)" "pholds (pp (wake_producer s)) = pholds (pp s)"
  "pp (wake_producer s) = PLast \<longleftrightarrow> pp s = PLast" "pp (wake_producer s) = PEnd \<longleftrightarrow> pp s = PEnd"
  by (simp_all add: wake_producer_def split: producer_pc.split)

lemma wake_producer_ok: "producer_ok n (pp s) q \<Longrightarrow> producer_ok n (pp (wake_producer s)) q"
  by (cases "pp s") (simp_all add: wake_producer_def)

lemma wake_producer_cv_inv:
  assumes "cv_inv n T s"
  shows "cv_inv n T (wake_producer s)"
proof -
  have "queue_ok P T (wake_producer s) = queue_ok P T s" for P by (rule queue_ok_cong) simp_all
  moreover have "lock_ok (wake_producer s) = lock_ok s" by (simp add: lock_ok_def)
  moreover have "ending_ok (wake_producer s) = ending_ok s" by (simp add: ending_ok_def)
  moreover have "waits_ok (wake_producer s) = waits_ok s" "logs_ok T (wake_producer s) = logs_ok T s" by (simp_all add: waits_ok_def logs_ok_def)
  ultimately show ?thesis using assms wake_producer_ok [of n s "qcount s"] by (simp add: cv_inv_def)
qed

lemmas cv_parts = lock_ok_def ending_ok_def waits_ok_def logs_ok_def

text \<open>A thread that is not in its critical section stays as it is when another one changes the queue.\<close>

lemma consumer_ok_idle: "\<not> cholds p \<Longrightarrow> consumer_ok p q False \<Longrightarrow> consumer_ok p q' False"
  by (cases p) auto

lemma cv_produce:
  assumes inv: "cv_inv n T s" and w: "wakes w s" and st: "producer_step m n w (pp s) s = Some s'"
  shows "cv_inv n T s'"
proof -
  note d = cv_invD [OF inv]
  show ?thesis
  proof (cases "pp s")
    case (PLock i)
    then have s': "owner s = None" "s' = s\<lparr>owner := Some 0, pp := PCheck i\<rparr>" using st by (auto simp: take_lock_def split: if_splits)
    show ?thesis unfolding s'(2)
      by (rule cv_invI) (use d PLock s'(1) in \<open>auto simp: cv_parts queue_ok_def\<close>)
  next
    case (PCheck i)
    have h: "owner s = Some 0" using d(2) PCheck by (simp add: lock_ok_def)
    show ?thesis
    proof (cases "int CAP \<le> qcount s")
      case True
      then have s': "s' = s\<lparr>owner := None, pp := PWait i\<rparr>" using st PCheck by simp
      have "qcount s = int CAP" using d(1) True by (simp add: queue_ok_def)
      then show ?thesis unfolding s'
        by - (rule cv_invI, use d PCheck h in \<open>auto simp: cv_parts queue_ok_def\<close>)
    next
      case False
      then have s': "s' = s\<lparr>pp := PPut i\<rparr>" using st PCheck by simp
      show ?thesis unfolding s'
        by (rule cv_invI) (use d PCheck h False in \<open>auto simp: cv_parts queue_ok_def\<close>)
    qed
  next
    case (PWait i)
    then show ?thesis using st by simp
  next
    case (PRelock i)
    then have s': "owner s = None" "s' = s\<lparr>owner := Some 0, pp := PCheck i\<rparr>" using st by (auto simp: take_lock_def split: if_splits)
    show ?thesis unfolding s'(2)
      by (rule cv_invI) (use d PRelock s'(1) in \<open>auto simp: cv_parts queue_ok_def\<close>)
  next
    case (PPut i)
    let ?w = "if m = IFWAIT then {0, 1} else w"
    let ?t = "put_item i (s\<lparr>pp := PUnlock i\<rparr>)"
    have s': "s' = wake ?w ?t" using st PPut by simp
    have h: "owner s = Some 0" "\<not> cholds (cp s 0)" "\<not> cholds (cp s 1)" using d(2) PPut by (auto simp: lock_ok_def)
    have f: "\<not> finished s" using d(4) PPut by (simp add: ending_ok_def)
    have t: "cp ?t = cp s" "owner ?t = owner s" "finished ?t = finished s" "logged ?t = logged s" "pp ?t = PUnlock i"
      by (simp_all add: put_item_def)
    have "queue_ok i T (s\<lparr>pp := PUnlock i\<rparr>)" "qcount (s\<lparr>pp := PUnlock i\<rparr>) < int CAP" using d(1,3) PPut by (auto simp: queue_ok_def)
    then have q: "queue_ok (i + 1) T ?t" by (rule cvq_put)
    show ?thesis
    proof (rule cv_invI)
      have "queue_ok (i + 1) T s' = queue_ok (i + 1) T ?t" unfolding s' by (rule queue_ok_cong) simp_all
      then show "queue_ok (puts n (pp s')) T s'" using q by (simp add: s' t)
      show "lock_ok s'" using h by (simp add: s' t lock_ok_def)
      show "producer_ok n (pp s') (qcount s')" using d(3) PPut by (simp add: s' t)
      show "ending_ok s'" using f by (simp add: ending_ok_def s' t)
      show "waits_ok s'"
      proof -
        have "\<not> (cp s' 0 = CWait \<and> cp s' 1 = CWait)"
          using w by (auto simp: s' t wakes_def waiting_consumers_def split: if_splits)
        then show ?thesis unfolding waits_ok_def by blast
      qed
      show "logs_ok T s'" using d(7) unfolding logs_ok_def s' wake_simps woken(2) t .
      show "consumer_ok (cp s' c) (qcount s') (finished s')" if "c < 2" for c
      proof -
        have "\<not> cholds (cp s c)" using h that less_2_cases by auto
        then have "consumer_ok (cp s c) (qcount s') False" using d(5) [OF that] f consumer_ok_idle by simp
        then show ?thesis using f unfolding s' wake_simps t by (intro woken(3)) simp
      qed
    qed
  next
    case (PUnlock i)
    have h: "owner s = Some 0" using d(2) PUnlock by (simp add: lock_ok_def)
    have s': "s' = s\<lparr>owner := None, pp := if i + 1 < n then PLock (i + 1) else PFinal\<rparr>" using st PUnlock by simp
    have "i + 1 < n \<or> i + 1 = n" using d(3) PUnlock by auto
    then show ?thesis unfolding s'
      by - (rule cv_invI, use d PUnlock h in \<open>auto simp: cv_parts queue_ok_def\<close>)
  next
    case PFinal
    then have s': "owner s = None" "s' = s\<lparr>owner := Some 0, pp := PMark\<rparr>" using st by (auto simp: take_lock_def split: if_splits)
    show ?thesis unfolding s'(2)
      by (rule cv_invI) (use d PFinal s'(1) in \<open>auto simp: cv_parts queue_ok_def\<close>)
  next
    case PMark
    let ?t = "s\<lparr>finished := True, pp := PLast\<rparr>"
    have s': "s' = wake {0, 1} ?t" using st PMark by simp
    have h: "owner s = Some 0" "\<not> cholds (cp s 0)" "\<not> cholds (cp s 1)" using d(2) PMark by (auto simp: lock_ok_def)
    have f: "\<not> finished s" using d(4) PMark by (simp add: ending_ok_def)
    show ?thesis
    proof (rule cv_invI)
      have "queue_ok n T s' = queue_ok n T ?t" unfolding s' by (rule queue_ok_cong) simp_all
      then show "queue_ok (puts n (pp s')) T s'" using d(1) PMark by (simp add: s' queue_ok_def)
      show "lock_ok s'" using h by (simp add: s' lock_ok_def)
      show "producer_ok n (pp s') (qcount s')" by (simp add: s')
      show "ending_ok s'" by (simp add: ending_ok_def s')
      show "waits_ok s'" by (simp add: waits_ok_def s')
      show "logs_ok T s'" using d(7) unfolding logs_ok_def s' wake_simps woken(2) by simp
      show "consumer_ok (cp s' c) (qcount s') (finished s')" if "c < 2" for c
      proof -
        have "\<not> cholds (cp s c)" "c \<in> {0, 1}" using h that less_2_cases by auto
        then show ?thesis using d(5) [OF that] f by (cases "cp s c") (auto simp: s')
      qed
    qed
  next
    case PLast
    have h: "owner s = Some 0" using d(2) PLast by (simp add: lock_ok_def)
    have s': "s' = s\<lparr>owner := None, pp := PEnd\<rparr>" using st PLast by simp
    show ?thesis unfolding s'
      by (rule cv_invI) (use d PLast h in \<open>auto simp: cv_parts queue_ok_def\<close>)
  next
    case PEnd
    then show ?thesis using st by simp
  qed
qed

lemma cgoto_simps [simp]:
  "owner (cgoto c p s) = owner s" "buf (cgoto c p s) = buf s" "qhead (cgoto c p s) = qhead s" "qtail (cgoto c p s) = qtail s"
  "qcount (cgoto c p s) = qcount s" "finished (cgoto c p s) = finished s" "pp (cgoto c p s) = pp s" "seen (cgoto c p s) = seen s"
  "empty_takes (cgoto c p s) = empty_takes s" "logged (cgoto c p s) = logged s" "cp (cgoto c p s) = (cp s)(c := p)"
  by (simp_all add: cgoto_def)

lemma consumer_ok_other: "consumer_ok p q f \<Longrightarrow> \<not> cholds p \<Longrightarrow> 0 < q \<Longrightarrow> consumer_ok p q' f"
  by (cases p) auto

lemma producer_ok_other: "producer_ok n (pp s) q \<Longrightarrow> \<not> pholds (pp s) \<Longrightarrow> producer_ok n (pp (wake_producer s)) q'"
  by (cases "pp s") (auto simp: wake_producer_def)

text \<open>A step of a consumer that changes only its place, the mutex and the log.\<close>

lemma consumer_moves:
  assumes inv: "cv_inv n T s" and c: "c < 2"
    and s': "cp s' = (cp s)(c := p)" "owner s' = ow" "buf s' = buf s" "qhead s' = qhead s" "qtail s' = qtail s" "qcount s' = qcount s"
      "finished s' = finished s" "pp s' = pp s" "seen s' = seen s" "empty_takes s' = empty_takes s"
    and ow: "owner s = ow \<or> owner s = None \<and> ow = Some (c + 1) \<or> owner s = Some (c + 1) \<and> ow = None"
    and p: "cholds p \<longleftrightarrow> ow = Some (c + 1)" "consumer_ok p (qcount s) (finished s)" "p = CWait \<longrightarrow> qcount s = 0"
    and l: "mset (logged s') + flight p = mset (logged s) + flight (cp s c)"
  shows "cv_inv n T s'"
proof (rule cv_invI)
  note d = cv_invD [OF inv]
  have "queue_ok P T s' = queue_ok P T s" for P by (rule queue_ok_cong) (simp_all add: s')
  then show "queue_ok (puts n (pp s')) T s'" using d(1) s' by simp
  show "lock_ok s'" using d(2) less_2_cases [OF c] ow p(1) s'(1,2,8) by (auto simp: lock_ok_def)
  show "producer_ok n (pp s') (qcount s')" using d(3) s' by simp
  show "ending_ok s'" using d(4) s' by (simp add: ending_ok_def)
  show "consumer_ok (cp s' k) (qcount s') (finished s')" if "k < 2" for k
    using d(5) [OF that] p(2) s' by (cases "k = c") auto
  show "waits_ok s'" using d(6) less_2_cases [OF c] p(3) s'(1,6) by (auto simp: waits_ok_def)
  have "mset (logged s') + flight (cp s' 0) + flight (cp s' 1) = mset (logged s) + flight (cp s 0) + flight (cp s 1)"
    using less_2_cases [OF c]
  proof
    assume "c = 0"
    then show ?thesis using l s'(1) by simp
  next
    assume "c = Suc 0"
    then show ?thesis using l s'(1) by (simp add: add.assoc add.left_commute)
  qed
  then show "logs_ok T s'" using d(7) by (simp add: logs_ok_def)
qed

lemma cv_consume:
  assumes inv: "cv_inv n T s" and m: "m \<noteq> IFWAIT" "m \<noteq> NOUNLOCK" and c: "c < 2" and st: "consumer_step m c (cp s c) s = Some s'"
  shows "\<exists>T'. cv_inv n T' s'"
proof -
  note d = cv_invD [OF inv]
  note me = d(5) [OF c]
  have h: "owner s = Some (c + 1) \<longleftrightarrow> cholds (cp s c)" using d(2) less_2_cases [OF c] by (auto simp: lock_ok_def)
  have q0: "0 \<le> qcount s" using d(1) by (simp add: queue_ok_def)
  note mv = consumer_moves [OF inv c]
  show ?thesis
  proof (cases "cp s c")
    case CLock
    then show ?thesis using st h
      by (intro exI [of _ T] mv [of s' CCheck "Some (c + 1)"]) (auto simp: take_lock_def split: if_splits)
  next
    case CCheck
    then show ?thesis using st h q0
      by (intro exI [of _ T] mv [of s' "if qcount s \<le> 0 \<and> \<not> finished s then CWait else CTest" "if qcount s \<le> 0 \<and> \<not> finished s then None else owner s"])
        (auto split: if_splits)
  next
    case CRelock
    then show ?thesis using st h m
      by (intro exI [of _ T] mv [of s' CCheck "Some (c + 1)"]) (auto simp: take_lock_def split: if_splits)
  next
    case CTest
    then show ?thesis using st h q0 me
      by (intro exI [of _ T] mv [of s' "if qcount s \<le> 0 \<and> finished s then CQuit else CTake" "owner s"]) (auto split: if_splits)
  next
    case (CTook i)
    then show ?thesis using st h m
      by (intro exI [of _ T] mv [of s' "if m = IOLOCK then CRelease else CUnlock i" "owner s"]) (auto split: if_splits)
  next
    case (CUnlock i)
    then show ?thesis using st h
      by (intro exI [of _ T] mv [of s' "CLog i" None]) auto
  next
    case CRelease
    then show ?thesis using st h
      by (intro exI [of _ T] mv [of s' CLock None]) auto
  next
    case (CLog i)
    then show ?thesis using st h
      by (intro exI [of _ T] mv [of s' CLock "owner s"]) auto
  next
    case CQuit
    then show ?thesis using st h me
      by (intro exI [of _ T] mv [of s' CEnd None]) auto
  next
    case CTake
    have pos: "0 < qcount s" using me CTake by simp
    obtain item s1 where t: "take_item s = (item, s1)" by fastforce
    let ?s3 = "s1\<lparr>seen := (seen s1)(item := seen s1 item + 1)\<rparr>"
    have it: "item = T" "0 \<le> qcount s1" and q: "queue_ok (puts n (pp s)) (T + 1) ?s3" using cvq_take [OF d(1) pos t] by auto
    have s': "s' = cgoto c (CTook T) (wake_producer ?s3)" using st CTake t it by simp
    have s1: "cp ?s3 = cp s" "owner ?s3 = owner s" "finished ?s3 = finished s" "pp ?s3 = pp s" "logged ?s3 = logged s"
      using t by (auto simp: take_item_def)
    have o: "owner s = Some (c + 1)" using h CTake by simp
    then have np: "\<not> pholds (pp s)" using d(2) by (auto simp: lock_ok_def)
    have others: "\<not> cholds (cp s k)" if "k < 2" "k \<noteq> c" for k
      using d(2) o less_2_cases [OF c] less_2_cases [OF that(1)] that(2) by (auto simp: lock_ok_def)
    have "cv_inv n (T + 1) s'"
    proof (rule cv_invI)
      have "queue_ok P (T + 1) s' = queue_ok P (T + 1) ?s3" for P unfolding s' by (rule queue_ok_cong) simp_all
      then show "queue_ok (puts n (pp s')) (T + 1) s'" using q s1(4) by (simp add: s' it)
      show "lock_ok s'" using d(2) CTake less_2_cases [OF c] s1 by (auto simp: lock_ok_def s')
      show "producer_ok n (pp s') (qcount s')" using producer_ok_other [of n ?s3] d(3) np s1 unfolding s' cgoto_simps by metis
      show "ending_ok s'" using d(4) s1 by (simp add: ending_ok_def s')
      show "consumer_ok (cp s' k) (qcount s') (finished s')" if "k < 2" for k
        using consumer_ok_other [OF d(5) [OF that] others [OF that] pos] s1 by (cases "k = c") (auto simp: s')
      show "waits_ok s'" using less_2_cases [OF c] by (auto simp: waits_ok_def s')
      show "logs_ok (T + 1) s'" using d(7) less_2_cases [OF c] CTake s1 by (auto simp: logs_ok_def s')
    qed
    then show ?thesis ..
  qed (use st in auto)
qed

definition cv_reach :: "cv_mode \<Rightarrow> nat \<Rightarrow> cv \<Rightarrow> bool" where
  "cv_reach m n = (cv_any m n)\<^sup>*\<^sup>* cv_start"

lemma cv_reach_inv:
  assumes "cv_reach m n s" "0 < n" "m \<noteq> IFWAIT" "m \<noteq> NOUNLOCK"
  shows "\<exists>T. cv_inv n T s"
  using assms(1) unfolding cv_reach_def
proof (induction rule: rtranclp_induct)
  case base
  then show ?case using cv_inv_start [OF assms(2)] by blast
next
  case (step y z)
  then obtain T where T: "cv_inv n T y" by blast
  from step(2) show ?case unfolding cv_any_def
  proof
    assume "cv_step m n y z"
    then show ?thesis
      by cases (use cv_produce [OF T] cv_consume [OF T assms(3,4)] in blast)+
  next
    assume "cv_spurious y z"
    then show ?thesis by cases (use wake_cv_inv [OF T] wake_producer_cv_inv [OF T] in blast)+
  qed
qed

lemma sum_all_one: "sum_list (map (\<lambda>k. if k < n then 1 else 0) [0..<n]) = (n :: nat)"
proof -
  have "map (\<lambda>k. if k < n then 1 else 0) [0..<n] = map (\<lambda>k. 1 :: nat) [0..<n]" by simp
  then show ?thesis by (simp only:) (simp add: sum_list_triv)
qed

text \<open>C26: The queue with \<^verbatim>\<open>while\<close> around each wait and an unlock on every path. For every number of items, in every
  interleaving and with any spurious wake-ups no item is ever taken from an empty queue, the queue never holds more
  than four items and none twice, and when all threads have returned each item was taken exactly once and is in
  the log once.\<close>

theorem cv_exactly_once:
  assumes "cv_reach m n s" "0 < n" "m = FIXED \<or> m = IOLOCK"
  shows "empty_takes s = 0 \<and> 0 \<le> qcount s \<and> qcount s \<le> int CAP \<and> (\<forall>i. seen s i \<le> 1) \<and>
    (cv_ended s \<longrightarrow> cv_taken n s = n \<and> cv_duplicate n s = 0 \<and> cv_lost n s = 0 \<and> mset (logged s) = mset [0..<n])"
proof -
  obtain T where T: "cv_inv n T s" using cv_reach_inv [OF assms(1,2)] assms(3) by auto
  note d = cv_invD [OF T]
  have "cv_taken n s = n \<and> cv_duplicate n s = 0 \<and> cv_lost n s = 0 \<and> mset (logged s) = mset [0..<n]" if e: "cv_ended s"
  proof -
    have "qcount s = 0" "pp s = PEnd" using d(5) [of 0] e by (simp_all add: cv_ended_def)
    then have "T = n" "seen s = (\<lambda>k. if k < n then 1 else 0)" using d(1) by (auto simp: queue_ok_def)
    then show ?thesis using d(7) e sum_all_one [of n]
      by (simp add: cv_taken_def cv_duplicate_def cv_lost_def logs_ok_def cv_ended_def cong: map_cong filter_cong)
  qed
  then show ?thesis using d(1) by (auto simp: queue_ok_def)
qed

lemma producer_can: "pp s \<noteq> PEnd \<Longrightarrow> \<forall>i. pp s \<noteq> PWait i \<Longrightarrow> owner s = None \<or> pholds (pp s) \<Longrightarrow> producer_step m n w (pp s) s \<noteq> None"
  by (cases "pp s") (auto simp: take_lock_def)

lemma consumer_can: "cp s c \<noteq> CEnd \<Longrightarrow> cp s c \<noteq> CWait \<Longrightarrow> owner s = None \<or> cholds (cp s c) \<Longrightarrow> consumer_step m c (cp s c) s \<noteq> None"
  by (cases "cp s c") (auto simp: take_lock_def split: prod.splits)

text \<open>C27: No wake-up is lost. As long as a thread has not returned, one can make a step that is not a spurious wake-up:
  one signal for each item is enough although two consumers wait on the same condition.\<close>

theorem cv_no_deadlock:
  assumes "cv_reach m n s" "0 < n" "m = FIXED \<or> m = IOLOCK" "\<not> cv_ended s"
  shows "\<exists>s'. cv_step m n s s'"
proof -
  obtain T where T: "cv_inv n T s" using cv_reach_inv [OF assms(1,2)] assms(3) by auto
  note d = cv_invD [OF T]
  have w: "wakes {0, 1} s" by (auto simp: wakes_def waiting_consumers_def)
  have P: "pp s \<noteq> PEnd \<Longrightarrow> \<forall>i. pp s \<noteq> PWait i \<Longrightarrow> owner s = None \<or> pholds (pp s) \<Longrightarrow> ?thesis"
    using produce [OF w, of m n] producer_can [of s m n "{0, 1}"] by blast
  have C: "c < 2 \<Longrightarrow> cp s c \<noteq> CEnd \<Longrightarrow> cp s c \<noteq> CWait \<Longrightarrow> owner s = None \<or> cholds (cp s c) \<Longrightarrow> ?thesis" for c
    using consume [of c m s] consumer_can [of s c m] by blast
  show ?thesis
  proof (cases "owner s = None")
    case False
    then consider "pholds (pp s)" | "cholds (cp s 0)" | "cholds (cp s 1)" using d(2) by (auto simp: lock_ok_def)
    then show ?thesis
    proof cases
      case 1
      then show ?thesis by (intro P) auto
    next
      case 2
      then show ?thesis by (intro C [of 0]) auto
    next
      case 3
      then show ?thesis by (intro C [of 1]) auto
    qed
  next
    case True
    show ?thesis
    proof (rule ccontr)
      assume n: "\<nexists>s'. cv_step m n s s'"
      then have p: "pp s = PEnd \<or> (\<exists>i. pp s = PWait i)" using P True by blast
      have c: "cp s c = CEnd \<or> cp s c = CWait" if "c < 2" for c using C [OF that] n True by blast
      show False
      proof (cases "finished s")
        case True
        then have "cp s c = CEnd" if "c < 2" for c using c [OF that] d(5) [OF that] by auto
        moreover have "pp s = PEnd" using True p d(4) by (auto simp: ending_ok_def)
        ultimately show False using assms(4) by (simp add: cv_ended_def)
      next
        case False
        then have "cp s 0 = CWait" "cp s 1 = CWait" using c [of 0] c [of 1] d(5) [of 0] d(5) [of 1] by auto
        then have "qcount s = 0" using d(6) by (simp add: waits_ok_def)
        moreover have "\<exists>i. pp s = PWait i" using p d(4) False by (auto simp: ending_ok_def)
        ultimately show False using d(3) by (auto simp: CAP_def)
      qed
    qed
  qed
qed

section \<open>Runs\<close>

text \<open>A run by a list of threads, 0 for the producer; one that cannot move is skipped, a signal wakes all waiters.\<close>

definition cv_move :: "cv_mode \<Rightarrow> nat \<Rightarrow> nat \<Rightarrow> cv \<Rightarrow> cv" where
  "cv_move m n t s = (case (if t = 0 then producer_step m n {0, 1} (pp s) s else consumer_step m (t - 1) (cp s (t - 1)) s) of
     None \<Rightarrow> s | Some s' \<Rightarrow> s')"

lemma cv_move_reach: "cv_reach m n s \<Longrightarrow> t \<le> 2 \<Longrightarrow> cv_reach m n (cv_move m n t s)"
proof -
  assume r: "cv_reach m n s" and t: "t \<le> 2"
  have w: "wakes {0, 1} s" by (auto simp: wakes_def waiting_consumers_def)
  have "cv_move m n t s = s \<or> cv_step m n s (cv_move m n t s)"
    using produce [OF w, of m n] consume [of "t - 1" m s] t by (auto simp: cv_move_def split: option.splits)
  then show ?thesis using r unfolding cv_reach_def cv_any_def
    by (metis (mono_tags, lifting) rtranclp.rtrancl_into_rtrancl)
qed

definition cv_run :: "cv_mode \<Rightarrow> nat \<Rightarrow> nat list \<Rightarrow> cv" where
  "cv_run m n ts = fold (cv_move m n) ts cv_start"

lemma cv_run_reach: "set ts \<subseteq> {0, 1, 2} \<Longrightarrow> cv_reach m n (cv_run m n ts)"
proof (induction ts rule: rev_induct)
  case Nil
  then show ?case by (simp add: cv_run_def cv_reach_def)
next
  case (snoc t ts)
  then show ?case using cv_move_reach [of m n "cv_run m n ts" t] by (auto simp: cv_run_def)
qed

lemma woken_upd: "woken_all w (f(c := p)) = (woken_all w f)(c := woken_pc (c \<in> w) p)"
  by (auto simp: woken_all_def fun_eq_iff)

lemma woken_none: "woken_all w (\<lambda>_. CLock) = (\<lambda>_. CLock)"
  by (simp add: woken_all_def woken_pc_def fun_eq_iff)

lemma four_update: "[a, b, c, d][0 := x] = [x, b, c, d]" "[a, b, c, d][1 := x] = [a, x, c, d]" "[a, b, c, d][Suc 0 := x] = [a, x, c, d]"
  "[a, b, c, d][2 := x] = [a, b, x, d]" "[a, b, c, d][3 := x] = [a, b, c, x]"
  by (simp_all add: numeral_2_eq_2 numeral_3_eq_3)

lemmas cv_run_simps = woken_upd woken_none woken_pc_def cv_run_def cv_move_def cv_start_def take_lock_def cgoto_def put_item_def take_item_def wake_def wake_producer_def
  CAP_def Let_def is_bad_def four_update

definition one_item :: "nat list" where
  "one_item = [1, 1, 0, 0, 0, 0, 1, 1, 1, 1, 1, 1, 1, 1, 1, 2, 2, 0, 0, 0, 1, 1, 1, 1, 2, 2, 2, 2]"

lemma one_item_ended: "cv_ended (cv_run FIXED 1 one_item)"
  by (simp add: one_item_def cv_ended_def cv_duplicate_def cv_lost_def cv_run_simps)

theorem cv_exactly_once_witness:
  "cv_taken 1 (cv_run FIXED 1 one_item) = 1 \<and> cv_lost 1 (cv_run FIXED 1 one_item) = 0 \<and> logged (cv_run FIXED 1 one_item) = [0]"
proof -
  have "cv_reach FIXED 1 (cv_run FIXED 1 one_item)" by (rule cv_run_reach) (simp add: one_item_def)
  from cv_exactly_once [OF this] one_item_ended show ?thesis by simp
qed

text \<open>Both consumers wait and the producer has not yet begun.\<close>

theorem cv_no_deadlock_witness: "\<exists>s'. cv_step FIXED 1 (cv_run FIXED 1 [1, 1, 2, 2]) s'"
proof (rule cv_no_deadlock)
  show "cv_reach FIXED 1 (cv_run FIXED 1 [1, 1, 2, 2])" by (rule cv_run_reach) simp
  show "\<not> cv_ended (cv_run FIXED 1 [1, 1, 2, 2])" by (simp add: cv_ended_def cv_run_simps)
qed simp_all

definition two_ifwait :: "nat list" where
  "two_ifwait = [1, 1, 2, 2, 0, 0, 0, 0, 1, 1, 1, 1, 1, 1, 2, 2, 2, 2, 2, 2, 0, 0, 0, 0, 0, 0, 0, 1, 1, 1, 1, 2, 2, 2, 2]"

lemma upto_two: "[0..<2] = [0, 1]"
  by (simp add: upt_rec)

lemma two_ifwait_run:
  "let s = cv_run IFWAIT 2 two_ifwait in cv_ended s \<and> empty_takes s = 1 \<and> cv_duplicate 2 s = 1 \<and> cv_lost 2 s = 1"
  by (simp add: upto_two two_ifwait_def cv_ended_def cv_duplicate_def cv_lost_def cv_run_simps)

definition seven_nounlock :: "nat list" where
  "seven_nounlock = (let r = [0, 0, 0, 0, 1, 1, 1, 1, 1, 1, 1] in r @ r @ r @ r @ r @ r @ r)"

lemma seven_nounlock_run:
  "let s = cv_run NOUNLOCK 7 seven_nounlock in owner s = Some 1 \<and> cp s 0 = CEnd \<and> pp s = PFinal \<and> cp s 1 = CLock"
  by (simp add: seven_nounlock_def cv_ended_def cv_duplicate_def cv_lost_def cv_run_simps)

text \<open>The mutex of a consumer that has returned without unlocking: nobody gets any further.\<close>

definition hung :: "cv \<Rightarrow> bool" where
  "hung s \<longleftrightarrow> owner s = Some 1 \<and> cp s 0 = CEnd \<and> pp s = PFinal \<and> cp s 1 = CLock"

lemma hung_stuck: "hung s \<Longrightarrow> \<not> cv_step m n s s'"
proof
  assume h: "hung s" and "cv_step m n s s'"
  from this(2) show False
  proof cases
    case (produce w)
    then show False using h by (simp add: hung_def take_lock_def)
  next
    case (consume c)
    then show False using h less_2_cases [OF consume(1)] by (auto simp: hung_def take_lock_def)
  qed
qed

lemma hung_stays: "hung s \<Longrightarrow> cv_any m n s s' \<Longrightarrow> hung s'"
proof -
  assume h: "hung s" and st: "cv_any m n s s'"
  have "hung (wake w s)" "hung (wake_producer s)" for w using h by (auto simp: hung_def wake_producer_def)
  then show "hung s'" using st hung_stuck [OF h] by (auto simp: cv_any_def elim: cv_spurious.cases)
qed

lemma hung_for_ever: "(cv_any m n)\<^sup>*\<^sup>* s s' \<Longrightarrow> hung s \<Longrightarrow> hung s'"
  by (induction rule: rtranclp_induct) (auto intro: hung_stays)

text \<open>The first consumer keeps the mutex for ever, and although not all threads have returned none can move.\<close>

definition cv_hangs :: "cv_mode \<Rightarrow> nat \<Rightarrow> cv \<Rightarrow> bool" where
  "cv_hangs m n s \<longleftrightarrow> (\<forall>s'. (cv_any m n)\<^sup>*\<^sup>* s s' \<longrightarrow> owner s' = Some 1 \<and> \<not> cv_ended s' \<and> (\<nexists>s''. cv_step m n s' s''))"

text \<open>C28: The mistakes the program demonstrates do happen. With \<^verbatim>\<open>if\<close> around the wait there is a run of two items that
  takes one of them twice and the other never; without the unlock for a rejected item there is a run of seven items
  after which, whatever happens, the producer and a consumer wait for the mutex for ever.\<close>

theorem cv_mistakes:
  "(\<exists>s. cv_reach IFWAIT 2 s \<and> cv_ended s \<and> empty_takes s = 1 \<and> cv_duplicate 2 s = 1 \<and> cv_lost 2 s = 1) \<and>
   (\<exists>s. cv_reach NOUNLOCK 7 s \<and> cv_hangs NOUNLOCK 7 s)"
proof
  have "cv_reach IFWAIT 2 (cv_run IFWAIT 2 two_ifwait)" by (rule cv_run_reach) (simp add: two_ifwait_def)
  then show "\<exists>s. cv_reach IFWAIT 2 s \<and> cv_ended s \<and> empty_takes s = 1 \<and> cv_duplicate 2 s = 1 \<and> cv_lost 2 s = 1"
    using two_ifwait_run by (auto simp: Let_def)
next
  let ?s = "cv_run NOUNLOCK 7 seven_nounlock"
  have r: "cv_reach NOUNLOCK 7 ?s" by (rule cv_run_reach) (simp add: seven_nounlock_def)
  have h: "hung ?s" using seven_nounlock_run by (simp add: hung_def Let_def)
  have "owner s' = Some 1 \<and> \<not> cv_ended s' \<and> (\<nexists>s''. cv_step NOUNLOCK 7 s' s'')" if "(cv_any NOUNLOCK 7)\<^sup>*\<^sup>* ?s s'" for s'
  proof -
    have "hung s'" using hung_for_ever [OF that h] .
    then show ?thesis using hung_stuck [of s'] by (simp add: hung_def cv_ended_def)
  qed
  then show "\<exists>s. cv_reach NOUNLOCK 7 s \<and> cv_hangs NOUNLOCK 7 s"
    using r unfolding cv_hangs_def by blast
qed

end
