(* ===== verification/Cfgread.thy ===== *)
theory Cfgread
  imports Main
begin

text \<open>
  The readers and the writer of \<^verbatim>\<open>Week6/Lab6/src/cfgread.c\<close> in its three modes: a configuration of eight fields behind a
  reader-writer lock, behind a pointer with a grace period (RCU by quiescent states), and behind a pointer without
  one. A step is one access to memory that another thread can see, sequentially consistent; a configuration is
  read, written and destroyed one field at a time. Addresses are numbers, \<^verbatim>\<open>malloc\<close> returns any address that is not
  allocated. At most 200000 updates are made, so \<^verbatim>\<open>gp_seq\<close> does not wrap around and is a number.
\<close>

section \<open>State\<close>

definition FIELDS :: nat where "FIELDS = 8"
definition BATCH :: nat where "BATCH = 100"

datatype cfg_mode = RWLOCK | RCU | NOGP

text \<open>
  A reader inside \<^verbatim>\<open>check\<close>: \<open>Look k c j v ok\<close> has made \<open>k\<close> reads of its batch, looks at configuration \<open>c\<close> and has seen
  \<open>j\<close> fields, \<^verbatim>\<open>v\<close> and \<^verbatim>\<open>ok\<close> are the variables of the code; \<open>LookIn\<close> is the same for the configuration in place.
\<close>

datatype reader_pc = Begin | First nat | Await | BatchTop | Pick nat | Look nat nat nat int bool | LookIn nat nat int bool
  | Unlock nat | LoadSeq | StoreSeq nat | Gone

text \<open>The writer: \<open>Fill old new j\<close> has written \<open>j\<close> fields, \<open>Wait old t i\<close> and \<open>WaitStop old t i\<close> poll reader \<open>i\<close> and \<^verbatim>\<open>stop\<close>, \<open>Scrub old j\<close> destroys.\<close>

datatype writer_pc = WAwait | WTop | WPrepare | WLock | WPlace nat | WUnlock | WLoad | WAlloc nat | Fill nat nat nat | Publish nat nat
  | Advance nat | Wait nat nat nat | WaitStop nat nat nat | Scrub nat nat | Release nat | Record | WGone

record cfg_sys =
  rdlocks :: "nat set"
  wrlock :: bool
  in_place :: "int list"
  gp_ptr :: nat
  gp_seq :: nat
  qs :: "nat \<Rightarrow> nat"
  objects :: "nat \<Rightarrow> int list option"
  faults :: bool
  go :: bool
  halt :: bool
  prepared :: "nat set"
  rpc :: "nat \<Rightarrow> reader_pc"
  reads :: "nat \<Rightarrow> nat"
  bad :: "nat \<Rightarrow> nat"
  wpc :: writer_pc
  wval :: int
  nupdates :: nat

definition cfg_start :: cfg_sys where
  "cfg_start = \<lparr>rdlocks = {}, wrlock = False, in_place = replicate FIELDS 3, gp_ptr = 0, gp_seq = 1, qs = (\<lambda>_. 0),
     objects = [0 \<mapsto> replicate FIELDS 3], faults = False, go = False, halt = False, prepared = {}, rpc = (\<lambda>_. Begin),
     reads = (\<lambda>_. 0), bad = (\<lambda>_. 0), wpc = WAwait, wval = 3, nupdates = 0\<rparr>"

definition MAX_UPDATES :: nat where "MAX_UPDATES = 200000"

definition rgoto :: "nat \<Rightarrow> reader_pc \<Rightarrow> cfg_sys \<Rightarrow> cfg_sys" where
  "rgoto i p s = s\<lparr>rpc := (rpc s)(i := p)\<rparr>"

text \<open>One field more of \<^verbatim>\<open>check\<close>: the first is \<^verbatim>\<open>timeout\<close>.\<close>

definition look_field :: "int \<Rightarrow> nat \<Rightarrow> int \<Rightarrow> bool \<Rightarrow> int \<times> bool" where
  "look_field x j v ok = (if j = 0 then (x, x = 3 \<or> x = 5) else (v, ok \<and> x = v))"

text \<open>The end of a read.\<close>

definition count_read :: "nat \<Rightarrow> bool \<Rightarrow> cfg_sys \<Rightarrow> cfg_sys" where
  "count_read i ok s = s\<lparr>reads := (reads s)(i := reads s i + 1), bad := (bad s)(i := bad s i + (if ok then 0 else 1))\<rparr>"

text \<open>A read of memory that is not allocated, or a write to it, is a fault; what a faulty read returns is arbitrary here.\<close>

fun reader_step :: "cfg_mode \<Rightarrow> nat \<Rightarrow> reader_pc \<Rightarrow> cfg_sys \<Rightarrow> cfg_sys option" where
  "reader_step m i Begin s = Some (rgoto i (First (gp_seq s)) s)"
| "reader_step m i (First q) s = Some (rgoto i Await (s\<lparr>qs := (qs s)(i := q), prepared := insert i (prepared s)\<rparr>))"
| "reader_step m i Await s = (if go s then Some (rgoto i BatchTop s) else None)"
| "reader_step m i BatchTop s = Some (rgoto i (if halt s then Gone else Pick 0) s)"
| "reader_step m i (Pick k) s =
     (if k \<ge> BATCH then Some (rgoto i (if m = RWLOCK then BatchTop else LoadSeq) s)
      else if m = RWLOCK then (if wrlock s then None else Some (rgoto i (LookIn k 0 0 True) (s\<lparr>rdlocks := insert i (rdlocks s)\<rparr>)))
      else Some (rgoto i (Look k (gp_ptr s) 0 0 True) s))"
| "reader_step m i (Look k c j v ok) s =
     (if j \<ge> FIELDS then Some (rgoto i (Pick (k + 1)) (count_read i ok s))
      else case objects s c of
        None \<Rightarrow> Some (rgoto i (Look k c (j + 1) v False) (s\<lparr>faults := True\<rparr>))
      | Some xs \<Rightarrow> let (v', ok') = look_field (xs ! j) j v ok in Some (rgoto i (Look k c (j + 1) v' ok') s))"
| "reader_step m i (LookIn k j v ok) s =
     (if j \<ge> FIELDS then Some (rgoto i (Unlock k) (count_read i ok s))
      else let (v', ok') = look_field (in_place s ! j) j v ok in Some (rgoto i (LookIn k (j + 1) v' ok') s))"
| "reader_step m i (Unlock k) s = Some (rgoto i (Pick (k + 1)) (s\<lparr>rdlocks := rdlocks s - {i}\<rparr>))"
| "reader_step m i LoadSeq s = Some (rgoto i (StoreSeq (gp_seq s)) s)"
| "reader_step m i (StoreSeq q) s = Some (rgoto i BatchTop (s\<lparr>qs := (qs s)(i := q)\<rparr>))"
| "reader_step m i Gone s = None"

text \<open>\<open>n\<close> readers; \<open>a\<close> is the address \<^verbatim>\<open>malloc\<close> returns. \<open>None\<close>: the writer waits for the others or for the lock.\<close>

fun writer_step :: "cfg_mode \<Rightarrow> nat \<Rightarrow> nat \<Rightarrow> writer_pc \<Rightarrow> cfg_sys \<Rightarrow> cfg_sys option" where
  "writer_step m n a WAwait s = (if go s then Some (s\<lparr>wpc := WTop\<rparr>) else None)"
| "writer_step m n a WTop s = Some (s\<lparr>wpc := if \<not> halt s \<and> nupdates s < MAX_UPDATES then WPrepare else WGone\<rparr>)"
| "writer_step m n a WPrepare s = Some (s\<lparr>wval := if wval s = 3 then 5 else 3, wpc := if m = RWLOCK then WLock else WLoad\<rparr>)"
| "writer_step m n a WLock s = (if wrlock s \<or> rdlocks s \<noteq> {} then None else Some (s\<lparr>wrlock := True, wpc := WPlace 0\<rparr>))"
| "writer_step m n a (WPlace j) s =
     Some (if j < FIELDS then s\<lparr>in_place := (in_place s)[j := wval s], wpc := WPlace (j + 1)\<rparr> else s\<lparr>wpc := WUnlock\<rparr>)"
| "writer_step m n a WUnlock s = Some (s\<lparr>wrlock := False, wpc := Record\<rparr>)"
| "writer_step m n a WLoad s = Some (s\<lparr>wpc := WAlloc (gp_ptr s)\<rparr>)"
| "writer_step m n a (WAlloc old) s =
     (if objects s a = None then Some (s\<lparr>objects := (objects s)(a \<mapsto> replicate FIELDS 0), wpc := Fill old a 0\<rparr>) else None)"
| "writer_step m n a (Fill old new j) s =
     (if j \<ge> FIELDS then Some (s\<lparr>wpc := Publish old new\<rparr>)
      else case objects s new of
        None \<Rightarrow> Some (s\<lparr>faults := True, wpc := Fill old new (j + 1)\<rparr>)
      | Some xs \<Rightarrow> Some (s\<lparr>objects := (objects s)(new \<mapsto> xs[j := wval s]), wpc := Fill old new (j + 1)\<rparr>))"
| "writer_step m n a (Publish old new) s = Some (s\<lparr>gp_ptr := new, wpc := if m = RCU then Advance old else Scrub old 0\<rparr>)"
| "writer_step m n a (Advance old) s = Some (s\<lparr>gp_seq := gp_seq s + 1, wpc := Wait old (gp_seq s + 1) 0\<rparr>)"
| "writer_step m n a (Wait old t i) s =
     Some (if i \<ge> n then s\<lparr>wpc := Scrub old 0\<rparr>
           else s\<lparr>wpc := if qs s i = t then Wait old t (i + 1) else WaitStop old t i\<rparr>)"
| "writer_step m n a (WaitStop old t i) s = Some (s\<lparr>wpc := if halt s then WGone else Wait old t i\<rparr>)"
| "writer_step m n a (Scrub old j) s =
     (if j \<ge> FIELDS then Some (s\<lparr>wpc := Release old\<rparr>)
      else case objects s old of
        None \<Rightarrow> Some (s\<lparr>faults := True, wpc := Scrub old (j + 1)\<rparr>)
      | Some xs \<Rightarrow> Some (s\<lparr>objects := (objects s)(old \<mapsto> xs[j := -1]), wpc := Scrub old (j + 1)\<rparr>))"
| "writer_step m n a (Release old) s =
     Some (case objects s old of None \<Rightarrow> s\<lparr>faults := True, wpc := Record\<rparr> | Some xs \<Rightarrow> s\<lparr>objects := (objects s)(old := None), wpc := Record\<rparr>)"
| "writer_step m n a Record s = Some (s\<lparr>nupdates := nupdates s + 1, wpc := WTop\<rparr>)"
| "writer_step m n a WGone s = None"

text \<open>\<^verbatim>\<open>main\<close> lets all start when the readers are ready, and stops them later.\<close>

inductive cfg_step :: "cfg_mode \<Rightarrow> nat \<Rightarrow> cfg_sys \<Rightarrow> cfg_sys \<Rightarrow> bool" for m n where
  cfg_reader: "i < n \<Longrightarrow> reader_step m i (rpc s i) s = Some s' \<Longrightarrow> cfg_step m n s s'"
| cfg_writer: "writer_step m n a (wpc s) s = Some s' \<Longrightarrow> cfg_step m n s s'"
| cfg_go: "{..<n} \<subseteq> prepared s \<Longrightarrow> cfg_step m n s (s\<lparr>go := True\<rparr>)"
| cfg_halt: "go s \<Longrightarrow> cfg_step m n s (s\<lparr>halt := True\<rparr>)"

definition cfg_reach :: "cfg_mode \<Rightarrow> nat \<Rightarrow> cfg_sys \<Rightarrow> bool" where
  "cfg_reach m n = (cfg_step m n)\<^sup>*\<^sup>* cfg_start"

section \<open>The grace period\<close>

definition whole :: "int list option \<Rightarrow> bool" where
  "whole x \<longleftrightarrow> x = Some (replicate FIELDS 3) \<or> x = Some (replicate FIELDS 5)"

text \<open>A configuration a reader looks at is the current one, or an old one whose grace period has not passed this reader.\<close>

definition protected :: "cfg_sys \<Rightarrow> nat \<Rightarrow> nat \<Rightarrow> bool" where
  "protected s i c \<longleftrightarrow> c = gp_ptr s \<or> (case wpc s of
     Advance old \<Rightarrow> c = old
   | Wait old t k \<Rightarrow> c = old \<and> qs s i \<noteq> t
   | WaitStop old t k \<Rightarrow> c = old \<and> qs s i \<noteq> t
   | WGone \<Rightarrow> True
   | _ \<Rightarrow> False)"

fun rd_ok :: "reader_pc \<Rightarrow> cfg_sys \<Rightarrow> nat \<Rightarrow> bool" where
  "rd_ok (Look k c j v ok) s i \<longleftrightarrow> whole (objects s c) \<and> protected s i c \<and> ok \<and> (0 < j \<longrightarrow> v = the (objects s c) ! 0)"
| "rd_ok (LookIn k j v ok) s i \<longleftrightarrow> False"
| "rd_ok (Unlock k) s i \<longleftrightarrow> False"
| "rd_ok (First q) s i \<longleftrightarrow> qs s i \<le> q \<and> q \<le> gp_seq s"
| "rd_ok (StoreSeq q) s i \<longleftrightarrow> qs s i \<le> q \<and> q \<le> gp_seq s"
| "rd_ok Begin s i \<longleftrightarrow> qs s i = 0"
| "rd_ok _ s i \<longleftrightarrow> True"

definition sized :: "int list option \<Rightarrow> bool" where
  "sized x \<longleftrightarrow> (\<exists>xs. x = Some xs \<and> length xs = FIELDS)"

fun wr_ok :: "writer_pc \<Rightarrow> cfg_sys \<Rightarrow> bool" where
  "wr_ok (WAlloc old) s \<longleftrightarrow> old = gp_ptr s"
| "wr_ok (Fill old new j) s \<longleftrightarrow> old = gp_ptr s \<and> new \<noteq> gp_ptr s \<and> sized (objects s new) \<and> j \<le> FIELDS \<and> (\<forall>l < j. the (objects s new) ! l = wval s)"
| "wr_ok (Publish old new) s \<longleftrightarrow> old = gp_ptr s \<and> new \<noteq> gp_ptr s \<and> objects s new = Some (replicate FIELDS (wval s))"
| "wr_ok (Advance old) s \<longleftrightarrow> old \<noteq> gp_ptr s \<and> whole (objects s old)"
| "wr_ok (Wait old t k) s \<longleftrightarrow> old \<noteq> gp_ptr s \<and> whole (objects s old) \<and> t = gp_seq s \<and> (\<forall>l < k. qs s l = t)"
| "wr_ok (WaitStop old t k) s \<longleftrightarrow> old \<noteq> gp_ptr s \<and> whole (objects s old) \<and> t = gp_seq s \<and> (\<forall>l < k. qs s l = t)"
| "wr_ok (Scrub old j) s \<longleftrightarrow> old \<noteq> gp_ptr s \<and> sized (objects s old)"
| "wr_ok (Release old) s \<longleftrightarrow> old \<noteq> gp_ptr s \<and> sized (objects s old)"
| "wr_ok WLock s \<longleftrightarrow> False"
| "wr_ok (WPlace j) s \<longleftrightarrow> False"
| "wr_ok WUnlock s \<longleftrightarrow> False"
| "wr_ok _ s \<longleftrightarrow> True"

text \<open>What is allocated besides the current configuration.\<close>

fun own :: "writer_pc \<Rightarrow> nat set \<Rightarrow> bool" where
  "own (Fill old new j) e \<longleftrightarrow> e = {new}"
| "own (Publish old new) e \<longleftrightarrow> e = {new}"
| "own (Advance old) e \<longleftrightarrow> e = {old}"
| "own (Wait old t k) e \<longleftrightarrow> e = {old}"
| "own (WaitStop old t k) e \<longleftrightarrow> e = {old}"
| "own (Scrub old j) e \<longleftrightarrow> e = {old}"
| "own (Release old) e \<longleftrightarrow> e = {old}"
| "own WGone e \<longleftrightarrow> e = {} \<or> (\<exists>old. e = {old})"
| "own _ e \<longleftrightarrow> e = {}"

definition allocated :: "(nat \<Rightarrow> int list option) \<Rightarrow> nat \<Rightarrow> nat set \<Rightarrow> bool" where
  "allocated f p e \<longleftrightarrow> dom f = insert p e"

lemma allocated_upd: "allocated f p e \<Longrightarrow> a \<in> e \<Longrightarrow> allocated (f(a \<mapsto> x)) p e"
  by (auto simp: allocated_def)

lemma allocated_free: "allocated f p {a} \<Longrightarrow> a \<noteq> p \<Longrightarrow> allocated (f(a := None)) p {}"
  by (auto simp: allocated_def)

definition rcu_ok :: "nat \<Rightarrow> cfg_sys \<Rightarrow> bool" where
  "rcu_ok n s \<longleftrightarrow> (\<forall>i. rd_ok (rpc s i) s i \<and> qs s i \<le> gp_seq s \<and> bad s i = 0 \<and> (n \<le> i \<longrightarrow> rpc s i = Begin)) \<and> wr_ok (wpc s) s \<and>
     whole (objects s (gp_ptr s)) \<and> (wval s = 3 \<or> wval s = 5) \<and> \<not> faults s \<and>
     (\<exists>e. own (wpc s) e \<and> allocated (objects s) (gp_ptr s) e)"

lemma rcu_ok_start: "rcu_ok n cfg_start"
  by (simp add: rcu_ok_def cfg_start_def whole_def allocated_def)

lemma whole_field: "whole (Some xs) \<Longrightarrow> j < FIELDS \<Longrightarrow> xs ! j = xs ! 0 \<and> (xs ! 0 = 3 \<or> xs ! 0 = 5)"
  by (auto simp: whole_def FIELDS_def)

lemma look_whole:
  assumes "whole (Some xs)" "j < FIELDS" "0 < j \<longrightarrow> v = xs ! 0" "look_field (xs ! j) j v True = (v', ok')"
  shows "ok' \<and> v' = xs ! 0"
  using assms whole_field [OF assms(1,2)] by (auto simp: look_field_def split: if_splits)

lemma rgoto_simps [simp]:
  "rpc (rgoto i p s) = (rpc s)(i := p)" "rdlocks (rgoto i p s) = rdlocks s" "wrlock (rgoto i p s) = wrlock s"
  "in_place (rgoto i p s) = in_place s" "gp_ptr (rgoto i p s) = gp_ptr s" "gp_seq (rgoto i p s) = gp_seq s"
  "qs (rgoto i p s) = qs s" "objects (rgoto i p s) = objects s" "faults (rgoto i p s) = faults s" "bad (rgoto i p s) = bad s"
  "wpc (rgoto i p s) = wpc s" "wval (rgoto i p s) = wval s"
  by (simp_all add: rgoto_def)

lemma count_read_simps [simp]:
  "rpc (count_read i ok s) = rpc s" "rdlocks (count_read i ok s) = rdlocks s" "wrlock (count_read i ok s) = wrlock s"
  "in_place (count_read i ok s) = in_place s" "gp_ptr (count_read i ok s) = gp_ptr s" "gp_seq (count_read i ok s) = gp_seq s"
  "qs (count_read i ok s) = qs s" "objects (count_read i ok s) = objects s" "faults (count_read i ok s) = faults s"
  "bad (count_read i ok s) = (bad s)(i := bad s i + (if ok then 0 else 1))"
  "wpc (count_read i ok s) = wpc s" "wval (count_read i ok s) = wval s"
  by (simp_all add: count_read_def)

lemma protected_cong: "gp_ptr s' = gp_ptr s \<Longrightarrow> wpc s' = wpc s \<Longrightarrow> qs s' i = qs s i \<Longrightarrow> protected s' i c = protected s i c"
  by (simp add: protected_def cong: writer_pc.case_cong)

lemma rd_ok_cong:
  "objects s' = objects s \<Longrightarrow> gp_ptr s' = gp_ptr s \<Longrightarrow> wpc s' = wpc s \<Longrightarrow> qs s' i = qs s i \<Longrightarrow> gp_seq s' = gp_seq s \<Longrightarrow>
   rd_ok p s' i = rd_ok p s i"
  using protected_cong [of s' s i] by (cases p) simp_all

lemma wr_ok_cong:
  assumes "objects s' = objects s" "gp_ptr s' = gp_ptr s" "gp_seq s' = gp_seq s" "wval s' = wval s"
    and q: "\<And>l. qs s l \<le> qs s' l \<and> qs s' l \<le> gp_seq s" and p: "wr_ok p s"
  shows "wr_ok p s'"
proof -
  have "qs s' l = gp_seq s" if "qs s l = gp_seq s" for l using q [of l] that by simp
  then show ?thesis using assms by (cases p) auto
qed

text \<open>A reader that changes only its place, its quiescent state and its counts.\<close>

lemma rcu_ok_reader:
  assumes ok: "rcu_ok n s" and i: "i < n"
    and s': "objects s' = objects s" "gp_ptr s' = gp_ptr s" "wpc s' = wpc s" "gp_seq s' = gp_seq s" "wval s' = wval s" "faults s' = faults s"
      "rpc s' = (rpc s)(i := p)" "\<And>l. l \<noteq> i \<Longrightarrow> qs s' l = qs s l" "bad s' = bad s"
    and q: "qs s i \<le> qs s' i" "qs s' i \<le> gp_seq s" and p: "rd_ok p s' i"
  shows "rcu_ok n s'"
proof -
  have r: "rd_ok (rpc s l) s l" "qs s l \<le> gp_seq s" "bad s l = 0" "n \<le> l \<longrightarrow> rpc s l = Begin" for l using ok by (simp_all add: rcu_ok_def)
  have "rd_ok (rpc s' l) s' l \<and> qs s' l \<le> gp_seq s' \<and> bad s' l = 0 \<and> (n \<le> l \<longrightarrow> rpc s' l = Begin)" for l
  proof (cases "l = i")
    case True
    then show ?thesis using p q(2) s' r(3) [of i] i by simp
  next
    case False
    have "rd_ok (rpc s l) s' l" using r(1) [of l] rd_ok_cong [OF s'(1-3) s'(8) [OF False] s'(4)] by simp
    then show ?thesis using r [of l] s' False by simp
  qed
  moreover have "qs s l \<le> qs s' l \<and> qs s' l \<le> gp_seq s" for l using q r(2) [of l] s'(8) [of l] by (cases "l = i") auto
  then have "wr_ok (wpc s') s'" using wr_ok_cong [OF s'(1,2,4,5)] ok s'(3) by (simp add: rcu_ok_def)
  ultimately show ?thesis using ok s' by (simp add: rcu_ok_def)
qed

lemma rcu_ok_read:
  assumes ok: "rcu_ok n s" and i: "i < n" and m: "m = RCU" and st: "reader_step m i (rpc s i) s = Some s'"
  shows "rcu_ok n s'"
proof -
  have r: "rd_ok (rpc s i) s i" "qs s i \<le> gp_seq s" "whole (objects s (gp_ptr s))" using ok by (simp_all add: rcu_ok_def)
  note go = rcu_ok_reader [OF ok i, of s']
  show ?thesis
  proof (cases "rpc s i")
    case Begin
    show ?thesis by (rule go [of "First (gp_seq s)"]) (use Begin r st in auto)
  next
    case (First q)
    show ?thesis by (rule go [of Await]) (use First r st in auto)
  next
    case Await
    show ?thesis by (rule go [of BatchTop]) (use Await r st in \<open>auto split: if_splits\<close>)
  next
    case BatchTop
    show ?thesis by (rule go [of "if halt s then Gone else Pick 0"]) (use BatchTop r st in auto)
  next
    case (Pick k)
    show ?thesis by (rule go [of "if k \<ge> BATCH then LoadSeq else Look k (gp_ptr s) 0 0 True"])
        (use Pick r st m in \<open>auto simp: protected_def split: if_splits\<close>)
  next
    case (Look k c j v ok1)
    then have l: "whole (objects s c)" "protected s i c" "ok1" "0 < j \<longrightarrow> v = the (objects s c) ! 0" using r(1) by auto
    then obtain xs where xs: "objects s c = Some xs" by (auto simp: whole_def)
    show ?thesis
    proof (cases "FIELDS \<le> j")
      case True
      then show ?thesis by - (rule go [of "Pick (k + 1)"], use Look l r st in auto)
    next
      case False
      obtain v' ok' where f: "look_field (xs ! j) j v True = (v', ok')" by fastforce
      have "ok' \<and> v' = xs ! 0" by (rule look_whole [of xs j v]) (use l xs False f in auto)
      then have s': "s' = rgoto i (Look k c (j + 1) (xs ! 0) True) s" using st Look False xs f l by simp
      show ?thesis
        by (rule go [of "Look k c (j + 1) (xs ! 0) True"]) (use s' l r xs protected_cong [of s' s i c] in auto)
    qed
  next
    case LoadSeq
    show ?thesis by (rule go [of "StoreSeq (gp_seq s)"]) (use LoadSeq r st in auto)
  next
    case (StoreSeq q)
    show ?thesis by (rule go [of BatchTop]) (use StoreSeq r st in auto)
  qed (use r st in auto)
qed

lemma rd_ok_mono:
  assumes "gp_seq s \<le> gp_seq s'" "qs s' i = qs s i"
    and "\<And>c. whole (objects s c) \<Longrightarrow> protected s i c \<Longrightarrow> protected s' i c \<and> objects s' c = objects s c"
    and "rd_ok p s i"
  shows "rd_ok p s' i"
  using assms by (cases p) auto

text \<open>A step of the writer must keep what the readers look at.\<close>

lemma rcu_ok_writer:
  assumes ok: "rcu_ok n s"
    and s': "rpc s' = rpc s" "qs s' = qs s" "bad s' = bad s" "gp_seq s \<le> gp_seq s'" "faults s' = faults s"
    and keep: "\<And>i c. rpc s i \<noteq> Begin \<Longrightarrow> whole (objects s c) \<Longrightarrow> protected s i c \<Longrightarrow> protected s' i c \<and> objects s' c = objects s c"
    and new: "wr_ok (wpc s') s'" "whole (objects s' (gp_ptr s'))" "wval s' = 3 \<or> wval s' = 5" "own (wpc s') e" "allocated (objects s') (gp_ptr s') e"
  shows "rcu_ok n s'"
proof -
  have "rd_ok (rpc s' i) s' i \<and> qs s' i \<le> gp_seq s' \<and> bad s' i = 0 \<and> (n \<le> i \<longrightarrow> rpc s' i = Begin)" for i
  proof -
    have r: "rd_ok (rpc s i) s i" "qs s i \<le> gp_seq s" "bad s i = 0" "n \<le> i \<longrightarrow> rpc s i = Begin" using ok by (simp_all add: rcu_ok_def)
    have "rd_ok (rpc s i) s' i"
    proof (cases "rpc s i = Begin")
      case False
      show ?thesis by (rule rd_ok_mono [OF s'(4) _ keep r(1)]) (use s' False in simp_all)
    qed (use r s' in simp)
    then show ?thesis using r s' by simp
  qed
  then show ?thesis using ok s' new unfolding rcu_ok_def by blast
qed

lemma rcu_ok_write:
  assumes ok: "rcu_ok n s" and m: "m = RCU" and st: "writer_step m n a (wpc s) s = Some s'"
  shows "rcu_ok n s'"
proof -
  have w: "wr_ok (wpc s) s" "whole (objects s (gp_ptr s))" "wval s = 3 \<or> wval s = 5" "\<And>i. qs s i \<le> gp_seq s"
    using ok by (simp_all add: rcu_ok_def)
  obtain e where e: "own (wpc s) e" "allocated (objects s) (gp_ptr s) e" using ok by (auto simp: rcu_ok_def)
  note go = rcu_ok_writer [OF ok, of s']
  show ?thesis
  proof (cases "wpc s")
    case WAwait
    show ?thesis by (rule go [of e]) (use WAwait w e st in \<open>auto simp: protected_def split: if_splits\<close>)
  next
    case WTop
    show ?thesis by (rule go [of e]) (use WTop w e st in \<open>auto simp: protected_def split: if_splits\<close>)
  next
    case WPrepare
    show ?thesis by (rule go [of e]) (use WPrepare w e st m in \<open>auto simp: protected_def\<close>)
  next
    case WLoad
    show ?thesis by (rule go [of e]) (use WLoad w e st in \<open>auto simp: protected_def\<close>)
  next
    case (WAlloc old)
    have a: "objects s a = None" "s' = s\<lparr>objects := (objects s)(a \<mapsto> replicate FIELDS 0), wpc := Fill old a 0\<rparr>"
      using st WAlloc by (auto split: if_splits)
    have "a \<noteq> gp_ptr s" using a(1) w(2) by (auto simp: whole_def)
    then show ?thesis unfolding a(2)
      by (intro rcu_ok_writer [OF ok, of _ "{a}"]) (use WAlloc w e a(1) in \<open>auto simp: protected_def sized_def allocated_def\<close>)
  next
    case (Fill old new j)
    then obtain xs where xs: "objects s new = Some xs" "length xs = FIELDS" "\<forall>l < j. xs ! l = wval s" "j \<le> FIELDS" "new \<noteq> gp_ptr s" "old = gp_ptr s"
      using w(1) by (auto simp: sized_def)
    show ?thesis
    proof (cases "FIELDS \<le> j")
      case True
      then have "xs = replicate FIELDS (wval s)" using xs by (auto intro: nth_equalityI)
      then show ?thesis by - (rule go [of e], use Fill w e st xs True in \<open>auto simp: protected_def\<close>)
    next
      case False
      have s': "s' = s\<lparr>objects := (objects s)(new \<mapsto> xs[j := wval s]), wpc := Fill old new (j + 1)\<rparr>" using st Fill xs False by simp
      have "\<forall>l < j + 1. xs[j := wval s] ! l = wval s" using xs False by (auto simp: nth_list_update less_Suc_eq)
      then show ?thesis unfolding s'
        by - (rule rcu_ok_writer [OF ok, of _ e], use Fill w e xs False in \<open>auto simp: protected_def sized_def allocated_upd\<close>)
    qed
  next
    case (Publish old new)
    have s': "s' = s\<lparr>gp_ptr := new, wpc := Advance old\<rparr>" using st Publish m by simp
    show ?thesis unfolding s'
      by (rule rcu_ok_writer [OF ok, of _ "{old}"]) (use Publish w e in \<open>auto simp: protected_def whole_def allocated_def\<close>)
  next
    case (Advance old)
    have "qs s i \<noteq> gp_seq s + 1" for i using w(4) [of i] by simp
    then show ?thesis by - (rule go [of e], use Advance w e st in \<open>auto simp: protected_def\<close>)
  next
    case (Wait old t k)
    show ?thesis
    proof (cases "n \<le> k")
      case True
      have gp: "c = gp_ptr s" if "rpc s i \<noteq> Begin" "protected s i c" for i c
      proof -
        have "i < n" using ok that(1) by (meson leI rcu_ok_def)
        then show ?thesis using that(2) Wait w(1) True by (auto simp: protected_def)
      qed
      have s': "s' = s\<lparr>wpc := Scrub old 0\<rparr>" using st Wait True by simp
      show ?thesis unfolding s'
      proof (rule rcu_ok_writer [OF ok, of _ e])
        show "protected (s\<lparr>wpc := Scrub old 0\<rparr>) i c \<and> objects (s\<lparr>wpc := Scrub old 0\<rparr>) c = objects s c" if "rpc s i \<noteq> Begin" "protected s i c" for i c
          using gp [OF that] by (simp add: protected_def)
      qed (use Wait w e in \<open>auto simp: sized_def whole_def\<close>)
    next
      case False
      then have s': "s' = s\<lparr>wpc := if qs s k = t then Wait old t (k + 1) else WaitStop old t k\<rparr>" using st Wait by simp
      show ?thesis unfolding s'
        by (rule rcu_ok_writer [OF ok, of _ e]) (use Wait w e in \<open>auto simp: protected_def less_Suc_eq\<close>)
    qed
  next
    case (WaitStop old t k)
    show ?thesis by (rule go [of e]) (use WaitStop w e st in \<open>auto simp: protected_def split: if_splits\<close>)
  next
    case (Scrub old j)
    then obtain xs where xs: "objects s old = Some xs" "length xs = FIELDS" "old \<noteq> gp_ptr s"
      using w(1) by (auto simp: sized_def)
    show ?thesis by (rule go [of e]) (use Scrub w e st xs in \<open>auto simp: protected_def sized_def allocated_upd split: if_splits\<close>)
  next
    case (Release old)
    then obtain xs where xs: "objects s old = Some xs" "length xs = FIELDS" "old \<noteq> gp_ptr s"
      using w(1) by (auto simp: sized_def)
    show ?thesis by (rule go [of "{}"]) (use Release w e st xs allocated_free in \<open>auto simp: protected_def\<close>)
  next
    case Record
    show ?thesis by (rule go [of e]) (use Record w e st in \<open>auto simp: protected_def\<close>)
  qed (use w st in auto)
qed

lemma rcu_ok_flags:
  assumes ok: "rcu_ok n s" and s': "rpc s' = rpc s" "qs s' = qs s" "bad s' = bad s" "gp_seq s' = gp_seq s" "faults s' = faults s"
    "objects s' = objects s" "gp_ptr s' = gp_ptr s" "wpc s' = wpc s" "wval s' = wval s"
  shows "rcu_ok n s'"
proof -
  have "rd_ok p s' i = rd_ok p s i" for p i by (rule rd_ok_cong) (simp_all add: s')
  moreover have "wr_ok (wpc s) s'" by (rule wr_ok_cong [of s' s]) (use ok s' in \<open>simp_all add: rcu_ok_def\<close>)
  ultimately show ?thesis using ok by (simp add: rcu_ok_def s')
qed

lemma rcu_ok_reach:
  assumes "cfg_reach RCU n s"
  shows "rcu_ok n s"
  using assms unfolding cfg_reach_def
proof (induction rule: rtranclp_induct)
  case base
  then show ?case by (rule rcu_ok_start)
next
  case (step y z)
  from step(2) show ?case
  proof cases
    case (cfg_reader i)
    then show ?thesis using rcu_ok_read [OF step(3)] by blast
  next
    case (cfg_writer a)
    then show ?thesis using rcu_ok_write [OF step(3)] by blast
  qed (auto intro: rcu_ok_flags [OF step(3)])
qed

section \<open>The reader-writer lock\<close>

fun rlock_ok :: "reader_pc \<Rightarrow> cfg_sys \<Rightarrow> nat \<Rightarrow> bool" where
  "rlock_ok (LookIn k j v ok) s i \<longleftrightarrow> i \<in> rdlocks s \<and> ok \<and> (0 < j \<longrightarrow> v = in_place s ! 0)"
| "rlock_ok (Unlock k) s i \<longleftrightarrow> i \<in> rdlocks s"
| "rlock_ok (Look k c j v ok) s i \<longleftrightarrow> False"
| "rlock_ok _ s i \<longleftrightarrow> True"

fun wlock_ok :: "writer_pc \<Rightarrow> cfg_sys \<Rightarrow> bool" where
  "wlock_ok (WPlace j) s \<longleftrightarrow> wrlock s \<and> length (in_place s) = FIELDS \<and> (\<forall>l < j. l < FIELDS \<longrightarrow> in_place s ! l = wval s)"
| "wlock_ok WUnlock s \<longleftrightarrow> wrlock s \<and> in_place s = replicate FIELDS (wval s)"
| "wlock_ok p s \<longleftrightarrow> p \<in> {WAwait, WTop, WPrepare, WLock, Record, WGone} \<and> \<not> wrlock s \<and> whole (Some (in_place s))"

definition rw_ok :: "cfg_sys \<Rightarrow> bool" where
  "rw_ok s \<longleftrightarrow> (\<forall>i. rlock_ok (rpc s i) s i \<and> bad s i = 0) \<and> wlock_ok (wpc s) s \<and> (wrlock s \<longrightarrow> rdlocks s = {}) \<and>
     (wval s = 3 \<or> wval s = 5) \<and> \<not> faults s"

lemma rw_ok_start: "rw_ok cfg_start"
  by (simp add: rw_ok_def cfg_start_def whole_def)

lemma rlock_ok_cong: "i \<in> rdlocks s' \<longleftrightarrow> i \<in> rdlocks s \<Longrightarrow> (i \<in> rdlocks s \<longrightarrow> in_place s' = in_place s) \<Longrightarrow> rlock_ok p s' i = rlock_ok p s i"
  by (cases p) auto

lemma wlock_ok_cong: "wrlock s' = wrlock s \<Longrightarrow> in_place s' = in_place s \<Longrightarrow> wval s' = wval s \<Longrightarrow> wlock_ok p s' = wlock_ok p s"
  by (cases p) auto

lemma wlock_free: "wlock_ok p s \<Longrightarrow> \<not> wrlock s \<Longrightarrow> whole (Some (in_place s))"
  by (cases p) auto

lemma rw_ok_reader:
  assumes ok: "rw_ok s"
    and s': "rpc s' = (rpc s)(i := p)" "wrlock s' = wrlock s" "in_place s' = in_place s" "wval s' = wval s" "wpc s' = wpc s" "faults s' = faults s" "bad s' = bad s"
    and l: "\<And>j. j \<noteq> i \<Longrightarrow> j \<in> rdlocks s' \<longleftrightarrow> j \<in> rdlocks s" "wrlock s \<Longrightarrow> i \<notin> rdlocks s'" and p: "rlock_ok p s' i"
  shows "rw_ok s'"
proof -
  have r: "rlock_ok (rpc s j) s j" "bad s j = 0" "wrlock s \<longrightarrow> rdlocks s = {}" for j using ok by (simp_all add: rw_ok_def)
  have "rlock_ok (rpc s' j) s' j \<and> bad s' j = 0" for j
    using r(1,2) [of j] rlock_ok_cong [of j s' s "rpc s j"] l(1) [of j] p s' by (cases "j = i") auto
  moreover have "wlock_ok (wpc s') s'" using ok wlock_ok_cong [of s' s] s' by (simp add: rw_ok_def)
  moreover have "j \<notin> rdlocks s'" if "wrlock s" for j using that l r(3) by (cases "j = i") auto
  ultimately show ?thesis using ok s' by (auto simp: rw_ok_def)
qed

lemma rw_ok_read:
  assumes ok: "rw_ok s" and m: "m = RWLOCK" and st: "reader_step m i (rpc s i) s = Some s'"
  shows "rw_ok s'"
proof -
  have r: "rlock_ok (rpc s i) s i" "wrlock s \<longrightarrow> rdlocks s = {}" "wlock_ok (wpc s) s" using ok by (simp_all add: rw_ok_def)
  note go = rw_ok_reader [OF ok, of s' i]
  show ?thesis
  proof (cases "rpc s i")
    case Begin
    show ?thesis by (rule go [of "First (gp_seq s)"]) (use Begin r st in auto)
  next
    case (First q)
    show ?thesis by (rule go [of Await]) (use First r st in auto)
  next
    case Await
    show ?thesis by (rule go [of BatchTop]) (use Await r st in \<open>auto split: if_splits\<close>)
  next
    case BatchTop
    show ?thesis by (rule go [of "if halt s then Gone else Pick 0"]) (use BatchTop r st in auto)
  next
    case (Pick k)
    show ?thesis by (rule go [of "if k \<ge> BATCH then BatchTop else LookIn k 0 0 True"])
        (use Pick r st m in \<open>auto split: if_splits\<close>)
  next
    case (LookIn k j v ok1)
    then have l: "i \<in> rdlocks s" "ok1" "0 < j \<longrightarrow> v = in_place s ! 0" using r(1) by auto
    then have w: "whole (Some (in_place s))" using wlock_free [OF r(3)] r(2) by auto
    show ?thesis
    proof (cases "FIELDS \<le> j")
      case True
      then show ?thesis by - (rule go [of "Unlock k"], use LookIn l r st in auto)
    next
      case False
      obtain v' ok' where f: "look_field (in_place s ! j) j v True = (v', ok')" by fastforce
      have "ok' \<and> v' = in_place s ! 0" by (rule look_whole [of "in_place s" j v]) (use l w False f in auto)
      then have s': "s' = rgoto i (LookIn k (j + 1) (in_place s ! 0) True) s" using st LookIn False f l by simp
      show ?thesis by (rule go [of "LookIn k (j + 1) (in_place s ! 0) True"]) (use s' l r in auto)
    qed
  next
    case (Unlock k)
    show ?thesis by (rule go [of "Pick (k + 1)"]) (use Unlock r st in auto)
  next
    case LoadSeq
    show ?thesis by (rule go [of "StoreSeq (gp_seq s)"]) (use LoadSeq r st in auto)
  next
    case (StoreSeq q)
    show ?thesis by (rule go [of BatchTop]) (use StoreSeq r st in auto)
  qed (use r st in auto)
qed

lemma rw_ok_write:
  assumes ok: "rw_ok s" and m: "m = RWLOCK" and st: "writer_step m n a (wpc s) s = Some s'"
  shows "rw_ok s'"
proof -
  have r: "\<And>i. rlock_ok (rpc s i) s i" "\<And>i. bad s i = 0" "wrlock s \<longrightarrow> rdlocks s = {}" "wlock_ok (wpc s) s" "wval s = 3 \<or> wval s = 5" "\<not> faults s"
    using ok by (simp_all add: rw_ok_def)
  have rd: "rlock_ok (rpc s i) s' i" if "rdlocks s' = rdlocks s" "rdlocks s = {} \<or> in_place s' = in_place s" for i
    using r(1) [of i] rlock_ok_cong [of i s' s "rpc s i"] that by auto
  show ?thesis
  proof (cases "wpc s")
    case (WPlace j)
    then have p: "wrlock s" "rdlocks s = {}" "length (in_place s) = FIELDS" "\<forall>l < j. l < FIELDS \<longrightarrow> in_place s ! l = wval s" using r by auto
    show ?thesis
    proof (cases "j < FIELDS")
      case True
      then have s': "s' = s\<lparr>in_place := (in_place s)[j := wval s], wpc := WPlace (j + 1)\<rparr>" using st WPlace by simp
      show ?thesis using rd r p True by (auto simp: rw_ok_def s' nth_list_update less_Suc_eq)
    next
      case False
      then have "in_place s = replicate FIELDS (wval s)" using p by (auto intro: nth_equalityI)
      then show ?thesis using rd r p False st WPlace by (auto simp: rw_ok_def)
    qed
  next
    case WUnlock
    then show ?thesis using rd r st by (auto simp: rw_ok_def whole_def)
  next
    case WLock
    then show ?thesis using rd r st by (auto simp: rw_ok_def whole_def split: if_splits)
  qed (use rd r st m in \<open>auto simp: rw_ok_def split: if_splits\<close>)
qed

lemma rw_ok_reach:
  assumes "cfg_reach RWLOCK n s"
  shows "rw_ok s"
  using assms unfolding cfg_reach_def
proof (induction rule: rtranclp_induct)
  case base
  then show ?case by (rule rw_ok_start)
next
  case (step y z)
  from step(2) show ?case
  proof cases
    case (cfg_reader i)
    then show ?thesis using rw_ok_read [OF step(3)] by blast
  next
    case (cfg_writer a)
    then show ?thesis using rw_ok_write [OF step(3)] by blast
  qed (use step(3) rlock_ok_cong [of _ z y] wlock_ok_cong [of z y] in \<open>auto simp: rw_ok_def\<close>)
qed

section \<open>The three modes\<close>

lemma own_card: "own p e \<Longrightarrow> finite e \<and> card e \<le> 1"
  by (cases p) auto

lemma rcu_scrub: "rcu_ok n s \<Longrightarrow> rpc s i = Look k c j v ok \<Longrightarrow> wpc s = Scrub old l \<or> wpc s = Release old \<Longrightarrow> c \<noteq> old"
proof -
  assume r: "rcu_ok n s" and l: "rpc s i = Look k c j v ok" and w: "wpc s = Scrub old l \<or> wpc s = Release old"
  have "rd_ok (rpc s i) s i" "wr_ok (wpc s) s" using r by (simp_all add: rcu_ok_def)
  then show "c \<noteq> old" using l w by (auto simp: protected_def)
qed

text \<open>C8: Behind the lock and with the grace period every read sees a configuration as a whole, in every interleaving with the
  updates: no read is counted as bad and no access, of a reader or of the writer, is to memory that is not allocated.
  With the grace period an old configuration is destroyed only when no reader looks at it, although the readers
  never write anything but their quiescent states, and at most two configurations exist at a time.\<close>

theorem cfg_reads_whole:
  assumes "cfg_reach m n s" "m = RWLOCK \<or> m = RCU"
  shows "\<not> faults s \<and> (\<forall>i. bad s i = 0) \<and>
    (m = RCU \<longrightarrow> card (dom (objects s)) \<le> 2 \<and>
      (\<forall>i k c j v ok old l. rpc s i = Look k c j v ok \<longrightarrow> wpc s = Scrub old l \<or> wpc s = Release old \<longrightarrow> c \<noteq> old))"
  using assms(2)
proof
  assume "m = RWLOCK"
  then show ?thesis using rw_ok_reach [of n s] assms(1) by (simp add: rw_ok_def)
next
  assume m: "m = RCU"
  then have r: "rcu_ok n s" using rcu_ok_reach assms(1) by simp
  obtain e where e: "own (wpc s) e" "dom (objects s) = insert (gp_ptr s) e" using r by (auto simp: rcu_ok_def allocated_def)
  then have "card (dom (objects s)) \<le> 2" using own_card [of "wpc s" e] card_insert_le_m1 [of 2 e "gp_ptr s"] by simp
  moreover have "\<not> faults s \<and> (\<forall>i. bad s i = 0)" using r by (simp add: rcu_ok_def)
  ultimately show ?thesis using rcu_scrub [OF r] by blast
qed

text \<open>Runs with one reader: 0 is a step of the writer, with 1 as the address \<^verbatim>\<open>malloc\<close> returns, 1 one of the reader, 2 the start.\<close>

definition cfg_move :: "cfg_mode \<Rightarrow> nat \<Rightarrow> cfg_sys \<Rightarrow> cfg_sys" where
  "cfg_move m t s = (case (if t = 0 then writer_step m 1 1 (wpc s) s else if t = 1 then reader_step m 0 (rpc s 0) s
     else if 0 \<in> prepared s then Some (s\<lparr>go := True\<rparr>) else None) of None \<Rightarrow> s | Some s' \<Rightarrow> s')"

definition cfg_run :: "cfg_mode \<Rightarrow> nat list \<Rightarrow> cfg_sys" where
  "cfg_run m ts = fold (cfg_move m) ts cfg_start"

lemma cfg_run_reach: "cfg_reach m 1 (cfg_run m ts)"
proof (induction ts rule: rev_induct)
  case Nil
  then show ?case by (simp add: cfg_run_def cfg_reach_def)
next
  case (snoc t ts)
  let ?s = "cfg_run m ts"
  have "cfg_move m t ?s = ?s \<or> cfg_step m 1 ?s (cfg_move m t ?s)"
    using cfg_reader [of 0 1 m ?s] cfg_writer [of m 1 1 ?s] cfg_go [of 1 ?s m]
    by (auto simp: cfg_move_def lessThan_Suc split: option.splits)
  then show ?case using snoc by (auto simp: cfg_run_def cfg_reach_def intro: rtranclp.rtrancl_into_rtrancl)
qed

lemma eight_update:
  "[a, b, c, d, e, f, g, h][0 := x] = [x, b, c, d, e, f, g, h]" "[a, b, c, d, e, f, g, h][Suc 0 := x] = [a, x, c, d, e, f, g, h]"
  "[a, b, c, d, e, f, g, h][1 := x] = [a, x, c, d, e, f, g, h]"
  "[a, b, c, d, e, f, g, h][2 := x] = [a, b, x, d, e, f, g, h]" "[a, b, c, d, e, f, g, h][3 := x] = [a, b, c, x, e, f, g, h]"
  "[a, b, c, d, e, f, g, h][4 := x] = [a, b, c, d, x, f, g, h]" "[a, b, c, d, e, f, g, h][5 := x] = [a, b, c, d, e, x, g, h]"
  "[a, b, c, d, e, f, g, h][6 := x] = [a, b, c, d, e, f, x, h]" "[a, b, c, d, e, f, g, h][7 := x] = [a, b, c, d, e, f, g, x]"
  by (simp_all add: numeral_eq_Suc)

lemmas cfg_run_simps = cfg_run_def cfg_move_def cfg_start_def rgoto_def look_field_def count_read_def FIELDS_def BATCH_def MAX_UPDATES_def Let_def eight_update

text \<open>The reader has begun to look at the first configuration, the writer has published the second one and waits.\<close>

definition waiting_writer :: "nat list" where
  "waiting_writer = [1, 1, 2, 1, 1, 1, 1, 1] @ [0, 0, 0, 0, 0] @ [0, 0, 0, 0, 0, 0, 0, 0, 0] @ [0, 0, 0, 0, 1]"

lemma waiting_writer_state:
  "let s = cfg_run RCU waiting_writer in gp_ptr s = 1 \<and> rpc s 0 = Look 0 0 3 3 True \<and> wpc s = Wait 0 2 0"
  by (simp add: waiting_writer_def cfg_run_simps)

theorem cfg_reads_whole_witness:
  "rpc (cfg_run RCU waiting_writer) 0 = Look 0 0 3 3 True \<and> gp_ptr (cfg_run RCU waiting_writer) = 1 \<and> \<not> faults (cfg_run RCU waiting_writer)"
  using cfg_reads_whole [OF cfg_run_reach [of RCU waiting_writer]] waiting_writer_state by (simp add: Let_def)

text \<open>Without the grace period a reader does look at a configuration that has been freed, and counts a bad read: the writer
  frees it between two fields the reader looks at.\<close>

definition no_grace :: "nat list" where
  "no_grace = [1, 1, 2, 1, 1, 1, 1] @ [0, 0, 0, 0, 0] @ [0, 0, 0, 0, 0, 0, 0, 0, 0] @ [0] @ [0, 0, 0, 0, 0, 0, 0, 0, 0, 0] @ [1, 1, 1, 1, 1, 1, 1, 1]"

lemma no_grace_run: "let s = cfg_run NOGP no_grace in faults s \<and> bad s 0 = 1"
  by (simp add: no_grace_def cfg_run_simps)

theorem nogp_reads_freed: "\<exists>s. cfg_reach NOGP 1 s \<and> faults s \<and> bad s 0 = 1"
  using cfg_run_reach [of NOGP no_grace] no_grace_run by (auto simp: Let_def)

end
