(* ===== verification/Mtwork.thy ===== *)
theory Mtwork
  imports LoadgenLine Prelude
begin

text \<open>
  The scheduling workload, \<^verbatim>\<open>Week5/Lab5/src/mtwork.c\<close> and its first version \<^verbatim>\<open>Week4/Lab4/src/mtwork.c\<close>: the specification
  of a thread, its name, and the measurements of a periodic thread. Readings of the clock are arguments; durations
  in nanoseconds are words of 64 bits as in the code; for the measurements they and the points in time are numbers taken modulo \<open>2 ^ 64\<close>.
\<close>

section \<open>The specification of a thread\<close>

text \<open>\<^verbatim>\<open>nice\<close> is in the version of week 5 only, \<^verbatim>\<open>cg\<close> in that of week 4.\<close>

record mt_spec =
  periodic :: nat
  period_ns :: u64
  work_ns :: u64
  cpu :: int
  policy :: string
  prio :: int
  nice :: int
  has_nice :: bool
  dl_runtime_ns :: u64
  dl_period_ns :: u64
  cg :: string

definition spec_start :: mt_spec where
  "spec_start = \<lparr>periodic = 0, period_ns = 0, work_ns = 0, cpu = -1, policy = ''other'', prio = 0, nice = 0, has_nice = False,
     dl_runtime_ns = 0, dl_period_ns = 0, cg = []\<rparr>"

text \<open>\<^verbatim>\<open>strtok_r\<close> with a comma: the parts that are not empty.\<close>

fun split_comma :: "string \<Rightarrow> string \<Rightarrow> string list" where
  "split_comma acc [] = [acc]"
| "split_comma acc (c # cs) = (if c = CHR '','' then acc # split_comma [] cs else split_comma (acc @ [c]) cs)"

definition tokens :: "string \<Rightarrow> string list" where
  "tokens s = filter (\<lambda>t. t \<noteq> []) (split_comma [] s)"

text \<open>\<^verbatim>\<open>atoi\<close>: a number that is not there is 0.\<close>

definition atoi :: "string \<Rightarrow> int" where
  "atoi s = (case scan_int s of None \<Rightarrow> 0 | Some (v, rest) \<Rightarrow> v)"

text \<open>\<^verbatim>\<open>sscanf(s, "%ld:%ld", &a, &b)\<close> with the separator as an argument: the numbers that were read.\<close>

definition scan_two :: "char \<Rightarrow> string \<Rightarrow> int list" where
  "scan_two c s = (case scan_ld s of
     None \<Rightarrow> []
   | Some (a, rest) \<Rightarrow>
       if rest = [] \<or> hd rest \<noteq> c then [a]
       else case scan_ld (tl rest) of None \<Rightarrow> [a] | Some (b, rest') \<Rightarrow> [a, b])"

definition starts :: "string \<Rightarrow> string \<Rightarrow> bool" where
  "starts p s \<longleftrightarrow> take (length p) s = p"

text \<open>The first part; \<open>strict\<close>: the version of week 5, which refuses times that are not positive and has no \<^verbatim>\<open>sysio\<close>.\<close>

definition parse_work :: "bool \<Rightarrow> string \<Rightarrow> mt_spec option" where
  "parse_work strict tok =
     (if tok = ''busy'' then Some spec_start
      else if \<not> strict \<and> tok = ''sysio'' then Some (spec_start\<lparr>periodic := 2\<rparr>)
      else if starts ''periodic'' tok then
        let nums = (if starts '':'' (drop 8 tok) then scan_two (CHR '':'') (drop 9 tok) else [10000]);
            p = (if nums = [] then 10000 else hd nums);
            w = (if length nums < 2 then 2000 else nums ! 1)
        in if nums = [] then None
           else if strict \<and> (p \<le> 0 \<or> w \<le> 0) then None
           else Some (spec_start\<lparr>periodic := 1, period_ns := of_int p * 1000, work_ns := of_int w * 1000\<rparr>)
      else None)"

definition after_colon :: "string \<Rightarrow> string" where
  "after_colon s = tl (dropWhile (\<lambda>c. c \<noteq> CHR '':'') s)"

text \<open>What follows \<^verbatim>\<open>sched=\<close>.\<close>

definition parse_policy :: "bool \<Rightarrow> string \<Rightarrow> mt_spec \<Rightarrow> mt_spec option" where
  "parse_policy strict p sp =
     (if p = ''other'' \<or> strict \<and> (p = ''batch'' \<or> p = ''idle'') then Some (sp\<lparr>policy := p\<rparr>)
      else if starts ''fifo:'' p \<or> starts ''rr:'' p then
        let v = atoi (after_colon p)
        in if v < 1 \<or> v > 99 then None else Some (sp\<lparr>policy := if hd p = CHR ''f'' then ''fifo'' else ''rr'', prio := v\<rparr>)
      else if starts ''dl:'' p then
        (case scan_two (CHR ''/'') (drop 3 p) of
           [r, d] \<Rightarrow> if r \<le> 0 \<or> d < r then None
             else Some (sp\<lparr>policy := ''dl'', dl_runtime_ns := of_int r * 1000, dl_period_ns := of_int d * 1000\<rparr>)
         | _ \<Rightarrow> None)
      else None)"

definition parse_key :: "bool \<Rightarrow> string \<Rightarrow> mt_spec \<Rightarrow> mt_spec option" where
  "parse_key strict tok sp =
     (if starts ''cpu='' tok then Some (sp\<lparr>cpu := atoi (drop 4 tok)\<rparr>)
      else if strict \<and> starts ''nice='' tok then Some (sp\<lparr>nice := atoi (drop 5 tok), has_nice := True\<rparr>)
      else if starts ''sched='' tok then parse_policy strict (drop 6 tok) sp
      else if \<not> strict \<and> starts ''cg='' tok then Some (sp\<lparr>cg := take 31 (drop 3 tok)\<rparr>)
      else None)"

fun parse_keys :: "bool \<Rightarrow> string list \<Rightarrow> mt_spec \<Rightarrow> mt_spec option" where
  "parse_keys strict [] sp = Some sp"
| "parse_keys strict (t # ts) sp = (case parse_key strict t sp of None \<Rightarrow> None | Some sp' \<Rightarrow> parse_keys strict ts sp')"

definition parse_tokens :: "bool \<Rightarrow> string \<Rightarrow> mt_spec option" where
  "parse_tokens strict s = (case tokens s of
     [] \<Rightarrow> None
   | t # ts \<Rightarrow> (case parse_work strict t of
       None \<Rightarrow> None
     | Some sp \<Rightarrow> (case parse_keys strict ts sp of
         None \<Rightarrow> None
       | Some sp' \<Rightarrow> if policy sp' = ''dl'' \<and> 0 \<le> cpu sp' then None else Some sp')))"

text \<open>\<^verbatim>\<open>parse_spec\<close> of week 5, and of week 4 where \<open>parent\<close> is \<^verbatim>\<open>cg_parent\<close>.\<close>

definition parse_spec5 :: "string \<Rightarrow> mt_spec option" where
  "parse_spec5 s = parse_tokens True s"

definition parse_spec4 :: "string \<Rightarrow> string \<Rightarrow> mt_spec option" where
  "parse_spec4 parent s = (case parse_tokens False s of
     None \<Rightarrow> None
   | Some sp \<Rightarrow> if cg sp \<noteq> [] \<and> parent = [] then None else Some sp)"

text \<open>The settings of an accepted thread: policy and buffers, priorities, and pinning.\<close>

definition spec_fine :: "bool \<Rightarrow> mt_spec \<Rightarrow> bool" where
  "spec_fine strict sp \<longleftrightarrow> policy sp \<in> {''other'', ''fifo'', ''rr'', ''dl''} \<union> (if strict then {''batch'', ''idle''} else {}) \<and>
     length (policy sp) \<le> 7 \<and> length (cg sp) \<le> 31 \<and> (policy sp \<in> {''fifo'', ''rr''} \<longrightarrow> 1 \<le> prio sp \<and> prio sp \<le> 99)"

lemma parse_work_fine: "parse_work strict t = Some sp \<Longrightarrow> spec_fine strict sp"
  unfolding parse_work_def Let_def by (simp split: if_splits) (auto simp: spec_fine_def spec_start_def)

lemma parse_policy_cases:
  assumes "parse_policy strict p sp = Some sp'"
  shows "(p = ''other'' \<or> strict \<and> (p = ''batch'' \<or> p = ''idle'')) \<and> sp' = sp\<lparr>policy := p\<rparr> \<or>
    (\<exists>v q. 1 \<le> v \<and> v \<le> 99 \<and> (q = ''fifo'' \<or> q = ''rr'') \<and> sp' = sp\<lparr>policy := q, prio := v\<rparr>) \<or>
    (\<exists>r d. 0 < r \<and> r \<le> d \<and> sp' = sp\<lparr>policy := ''dl'', dl_runtime_ns := of_int r * 1000, dl_period_ns := of_int d * 1000\<rparr>)"
proof (cases "p = ''other'' \<or> strict \<and> (p = ''batch'' \<or> p = ''idle'')")
  case True
  then show ?thesis using assms by (simp only: parse_policy_def if_True option.inject) simp
next
  case a: False
  show ?thesis
  proof (cases "starts ''fifo:'' p \<or> starts ''rr:'' p")
    case True
    let ?v = "atoi (after_colon p)" and ?q = "if hd p = CHR ''f'' then ''fifo'' else ''rr''"
    have "parse_policy strict p sp = (if ?v < 1 \<or> ?v > 99 then None else Some (sp\<lparr>policy := ?q, prio := ?v\<rparr>))"
      unfolding parse_policy_def Let_def if_not_P [OF a] if_P [OF True] ..
    then have "1 \<le> ?v \<and> ?v \<le> 99 \<and> sp' = sp\<lparr>policy := ?q, prio := ?v\<rparr>" using assms by (simp split: if_splits)
    moreover have "?q = ''fifo'' \<or> ?q = ''rr''" by simp
    ultimately show ?thesis by blast
  next
    case False
    then have "\<exists>r d. scan_two (CHR ''/'') (drop 3 p) = [r, d] \<and> \<not> (r \<le> 0 \<or> d < r) \<and>
        sp' = sp\<lparr>policy := ''dl'', dl_runtime_ns := of_int r * 1000, dl_period_ns := of_int d * 1000\<rparr>"
      using assms a unfolding parse_policy_def by (simp split: if_splits list.splits)
    then show ?thesis by (metis linorder_not_le not_less)
  qed
qed

lemma parse_policy_fine:
  assumes "parse_policy strict p sp = Some sp'" "spec_fine strict sp"
  shows "spec_fine strict sp'"
  using parse_policy_cases [OF assms(1)]
proof (elim disjE exE conjE)
  assume "p = ''other''" "sp' = sp\<lparr>policy := p\<rparr>"
  then show ?thesis using assms(2) by (simp add: spec_fine_def)
qed (use assms(2) in \<open>simp_all add: spec_fine_def\<close>)

lemma parse_key_fine:
  assumes "parse_key strict t sp = Some sp'" and f: "spec_fine strict sp"
  shows "spec_fine strict sp'"
proof -
  have "spec_fine strict (sp\<lparr>cpu := c\<rparr>)" "spec_fine strict (sp\<lparr>nice := k, has_nice := h\<rparr>)" "spec_fine strict (sp\<lparr>cg := take 31 g\<rparr>)" for c k h g
    using f by (simp_all add: spec_fine_def)
  then show ?thesis using assms(1) parse_policy_fine [OF _ f] unfolding parse_key_def by (simp split: if_splits) blast+
qed

lemma parse_keys_fine: "parse_keys strict ts sp = Some sp' \<Longrightarrow> spec_fine strict sp \<Longrightarrow> spec_fine strict sp'"
  by (induction ts arbitrary: sp) (auto split: option.splits dest: parse_key_fine)

text \<open>The times of the first part are not changed by the others.\<close>

lemma parse_key_times: "parse_key strict t sp = Some sp' \<Longrightarrow> periodic sp' = periodic sp \<and> period_ns sp' = period_ns sp \<and> work_ns sp' = work_ns sp"
proof -
  assume a: "parse_key strict t sp = Some sp'"
  have "periodic q = periodic sp \<and> period_ns q = period_ns sp \<and> work_ns q = work_ns sp" if "parse_policy strict p sp = Some q" for p q
    using parse_policy_cases [OF that] by (elim disjE exE conjE) simp_all
  then show ?thesis using a unfolding parse_key_def by (simp split: if_splits) auto
qed

lemma parse_keys_times: "parse_keys strict ts sp = Some sp' \<Longrightarrow> periodic sp' = periodic sp \<and> period_ns sp' = period_ns sp \<and> work_ns sp' = work_ns sp"
  by (induction ts arbitrary: sp) (auto split: option.splits dest: parse_key_times)

text \<open>The period and the size of the job in microseconds as a first part gives them: one or two decimal numbers, or the defaults.\<close>

definition given_times :: "string \<Rightarrow> int \<Rightarrow> int \<Rightarrow> bool" where
  "given_times t p w \<longleftrightarrow>
     (\<exists>r. t = ''periodic'' @ r \<and> \<not> starts '':'' r \<and> p = 10000 \<and> w = 2000) \<or>
     (\<exists>r. t = ''periodic:'' @ r \<and>
        (\<exists>r'. scan_ld r = Some (p, r') \<and>
          (if starts '':'' r' \<and> scan_ld (tl r') \<noteq> None then \<exists>r''. scan_ld (tl r') = Some (w, r'') else w = 2000)))"

lemma given_times_unique: "given_times t p w \<Longrightarrow> given_times t p' w' \<Longrightarrow> p = p' \<and> w = w'"
  unfolding given_times_def starts_def by (auto split: if_splits)

lemma starts_append: "starts p s \<longleftrightarrow> (\<exists>r. s = p @ r)"
  unfolding starts_def by (metis append_eq_conv_conj append_take_drop_id)

lemma starts_char: "starts [c] s \<longleftrightarrow> s \<noteq> [] \<and> hd s = c"
  unfolding starts_def by (cases s) auto

lemma scan_two_given:
  assumes "scan_two (CHR '':'') r = nums" "nums \<noteq> []"
  shows "given_times (''periodic:'' @ r) (hd nums) (if length nums < 2 then 2000 else nums ! 1)"
proof -
  obtain y r' where e: "scan_ld r = Some (y, r')" using assms by (auto simp: scan_two_def split: option.splits)
  have n: "nums = (if starts '':'' r' \<and> scan_ld (tl r') \<noteq> None then [y, fst (the (scan_ld (tl r')))] else [y])"
    using assms(1) e by (auto simp: scan_two_def starts_char split: option.splits)
  have "if starts '':'' r' \<and> scan_ld (tl r') \<noteq> None then \<exists>r''. scan_ld (tl r') = Some (if length nums < 2 then 2000 else nums ! 1, r'')
      else (if length nums < 2 then 2000 else nums ! 1) = (2000 :: int)"
    unfolding n by (cases "scan_ld (tl r')") auto
  moreover have "hd nums = y" by (simp add: n)
  ultimately show ?thesis unfolding given_times_def using e by blast
qed

text \<open>The first part is read as it is given; the version of week 5 accepts it exactly if both times are positive.\<close>

lemma parse_work_times:
  assumes "parse_work strict t = Some sp"
  shows "t = ''busy'' \<and> periodic sp = 0 \<or> \<not> strict \<and> t = ''sysio'' \<and> periodic sp = 2 \<or>
    periodic sp = 1 \<and> (\<exists>p w. given_times t p w \<and> (strict \<longrightarrow> 0 < p \<and> 0 < w) \<and> period_ns sp = of_int p * 1000 \<and> work_ns sp = of_int w * 1000)"
proof (cases "t = ''busy'' \<or> \<not> strict \<and> t = ''sysio'' \<or> \<not> starts ''periodic'' t")
  case True
  then have "parse_work strict t = (if t = ''busy'' then Some spec_start
      else if \<not> strict \<and> t = ''sysio'' then Some (spec_start\<lparr>periodic := 2\<rparr>) else None)" unfolding parse_work_def by auto
  then show ?thesis using assms by (auto simp: spec_start_def split: if_splits)
next
  case False
  then have c: "t \<noteq> ''busy''" "\<not> (\<not> strict \<and> t = ''sysio'')" "starts ''periodic'' t" by blast+
  then obtain r where t: "t = ''periodic'' @ r" unfolding starts_append by blast
  define nums where "nums = (if starts '':'' (drop 8 t) then scan_two (CHR '':'') (drop 9 t) else [10000])"
  define p where "p = (if nums = [] then 10000 else hd nums)"
  define w where "w = (if length nums < 2 then 2000 else nums ! 1)"
  have "parse_work strict t = (if nums = [] then None else if strict \<and> (p \<le> 0 \<or> w \<le> 0) then None
      else Some (spec_start\<lparr>periodic := 1, period_ns := of_int p * 1000, work_ns := of_int w * 1000\<rparr>))"
    unfolding parse_work_def if_not_P [OF c(1)] if_not_P [OF c(2)] if_P [OF c(3)] Let_def nums_def [symmetric] p_def [symmetric] w_def [symmetric] ..
  then have ne: "nums \<noteq> []" and pos: "strict \<longrightarrow> 0 < p \<and> 0 < w"
    and sp: "sp = spec_start\<lparr>periodic := 1, period_ns := of_int p * 1000, work_ns := of_int w * 1000\<rparr>"
    using assms by (auto split: if_splits)
  have "given_times t p w"
  proof (cases "starts '':'' r")
    case True
    then obtain q where r: "r = '':'' @ q" unfolding starts_append by blast
    have q: "t = ''periodic:'' @ q" using t r by simp
    have "scan_two (CHR '':'') q = nums" using True t r by (simp add: nums_def)
    from scan_two_given [OF this ne] show ?thesis using ne by (simp add: q p_def w_def)
  next
    case False
    then show ?thesis using t by (simp add: given_times_def p_def w_def nums_def)
  qed
  then show ?thesis using pos sp by auto
qed

text \<open>A number of microseconds becomes zero nanoseconds exactly if it is a multiple of \<open>2 ^ 61\<close>.\<close>

lemma micro_zero: "(of_int p * 1000 :: u64) = 0 \<longleftrightarrow> 2 ^ 61 dvd p"
proof -
  have "(of_int p * 1000 :: u64) = of_int (p * 1000)" by simp
  then have "(of_int p * 1000 :: u64) = 0 \<longleftrightarrow> (2 :: int) ^ 64 dvd p * 1000"
    by (simp only: word_of_int_eq_0_iff) simp
  also have "\<dots> \<longleftrightarrow> (8 :: int) * 2 ^ 61 dvd 8 * (p * 125)" by (simp add: mult.assoc mult.commute)
  also have "\<dots> \<longleftrightarrow> 2 ^ 61 dvd p * 125" by (rule dvd_mult_cancel_left [THEN trans]) simp
  also have "\<dots> \<longleftrightarrow> 2 ^ 61 dvd p" by (rule coprime_dvd_mult_left_iff, simp only: coprime_power_left_iff coprime_left_2_iff_odd) simp
  finally show ?thesis .
qed

lemma parse_tokens_times:
  assumes "parse_tokens strict s = Some sp"
  shows "spec_fine strict sp \<and> (policy sp = ''dl'' \<longrightarrow> cpu sp < 0) \<and>
    (hd (tokens s) = ''busy'' \<and> periodic sp = 0 \<or> \<not> strict \<and> hd (tokens s) = ''sysio'' \<and> periodic sp = 2 \<or>
     periodic sp = 1 \<and> (\<exists>p w. given_times (hd (tokens s)) p w \<and> (strict \<longrightarrow> 0 < p \<and> 0 < w) \<and> period_ns sp = of_int p * 1000 \<and> work_ns sp = of_int w * 1000))"
proof -
  obtain t ts sp0 where a: "tokens s = t # ts" "parse_work strict t = Some sp0" "parse_keys strict ts sp0 = Some sp" "\<not> (policy sp = ''dl'' \<and> 0 \<le> cpu sp)"
    using assms by (auto simp: parse_tokens_def split: list.splits option.splits if_splits)
  have "spec_fine strict sp" using parse_keys_fine [OF a(3)] parse_work_fine [OF a(2)] by blast
  then show ?thesis using parse_work_times [OF a(2)] parse_keys_times [OF a(3)] a(1,4) by auto
qed

text \<open>C34: An accepted specification (week 5). The policy is one of the six and fits its buffer, a real-time thread has a priority
  from 1 to 99, a deadline thread is not pinned. The first part is \<^verbatim>\<open>busy\<close>, or gives a period and a job as
  numbers of microseconds that are positive; they are what the thread uses, in nanoseconds modulo \<open>2 ^ 64\<close>, and neither is zero
  unless the number that was given is a multiple of \<open>2 ^ 61\<close>.\<close>

theorem parse_spec5_sound:
  assumes "parse_spec5 s = Some sp"
  shows "spec_fine True sp \<and> (policy sp = ''dl'' \<longrightarrow> cpu sp < 0) \<and>
    (hd (tokens s) = ''busy'' \<and> periodic sp = 0 \<or>
     periodic sp = 1 \<and> (\<exists>p w. given_times (hd (tokens s)) p w \<and> 0 < p \<and> 0 < w \<and> period_ns sp = of_int p * 1000 \<and> work_ns sp = of_int w * 1000 \<and>
       (period_ns sp = 0 \<longleftrightarrow> 2 ^ 61 dvd p) \<and> (work_ns sp = 0 \<longleftrightarrow> 2 ^ 61 dvd w)))"
  using parse_tokens_times [OF assms [unfolded parse_spec5_def]] micro_zero by metis

section \<open>A periodic thread\<close>

text \<open>The size of the two arrays; \<open>None\<close>: the division by zero, which ends the program.\<close>

definition run_cap :: "u64 \<Rightarrow> mt_spec \<Rightarrow> u64 option" where
  "run_cap run sp = (if period_ns sp = 0 then None else Some (run div period_ns sp + 2))"

text \<open>C35: A periodic thread of an accepted specification ends the program with a division by zero exactly if the given period is a multiple
  of \<open>2 ^ 61\<close> microseconds: zero, which version 4 accepts, or one of the three positive multiples below \<open>2 ^ 63\<close>, which
  version 5 accepts as well because it checks the number before it is multiplied.\<close>

theorem period_zero:
  assumes "parse_spec4 parent s = Some sp \<or> parse_spec5 s = Some sp" "given_times (hd (tokens s)) p w"
  shows "(run_cap run sp = None \<longleftrightarrow> 2 ^ 61 dvd p) \<and>
    (parse_spec5 s = Some sp \<and> run_cap run sp = None \<longrightarrow> p \<in> {2 ^ 61, 2 ^ 62, 3 * 2 ^ 61})"
proof -
  obtain strict where a: "parse_tokens strict s = Some sp" "parse_spec5 s = Some sp \<longrightarrow> parse_tokens True s = Some sp"
    using assms(1) by (auto simp: parse_spec4_def parse_spec5_def split: option.splits if_splits)
  have no: "\<not> given_times ''busy'' p w" "\<not> given_times ''sysio'' p w" by (auto simp: given_times_def)
  have ns: "period_ns sp = of_int p * 1000"
    using parse_tokens_times [OF a(1)] assms(2) no by (metis given_times_unique)
  have zero: "run_cap run sp = None \<longleftrightarrow> 2 ^ 61 dvd p" using micro_zero [of p] by (simp only: run_cap_def ns) simp
  moreover have "p \<in> {2 ^ 61, 2 ^ 62, 3 * 2 ^ 61}" if v5: "parse_spec5 s = Some sp" and d: "2 ^ 61 dvd p"
  proof -
    have "0 < p" using parse_tokens_times [of True s sp] a(2) v5 assms(2) no by (metis given_times_unique)
    moreover have "p \<le> LONG_MAX" using assms(2) unfolding given_times_def by (auto simp: LONG_MAX_def dest: scan_ld_range)
    moreover obtain k where k: "p = 2 ^ 61 * k" using d by (elim dvdE)
    ultimately have "0 < k" "k < 4" by (simp_all add: LONG_MAX_def)
    then have "k = 1 \<or> k = 2 \<or> k = 3" by linarith
    then show ?thesis using k by auto
  qed
  ultimately show ?thesis by blast
qed

lemma zero_accepted: "parse_spec4 [] ''periodic:0'' = Some (spec_start\<lparr>periodic := 1, work_ns := 2000000\<rparr>)" "given_times (hd (tokens ''periodic:0'')) 0 2000"
  by (simp_all add: parse_spec4_def parse_tokens_def tokens_def parse_work_def starts_def scan_two_def scan_ld_def scan_d_def
      LONG_MAX_def is_space_def is_digit_def num_def digit_val_def Let_def spec_start_def given_times_def)

lemma wrapped_accepted:
  "parse_spec5 ''periodic:2305843009213693952'' = Some (spec_start\<lparr>periodic := 1, period_ns := 0, work_ns := 2000000\<rparr>)"
  by (simp add: parse_spec5_def parse_tokens_def tokens_def parse_work_def starts_def scan_two_def scan_ld_def scan_d_def
      LONG_MAX_def is_space_def is_digit_def num_def digit_val_def Let_def spec_start_def)

lemma wrapped_given:
  "given_times (hd (tokens ''periodic:2305843009213693952'')) (2 ^ 61) 2000"
  apply (simp add: tokens_def starts_def scan_ld_def scan_d_def
      LONG_MAX_def is_space_def is_digit_def num_def digit_val_def Let_def given_times_def)
  done

theorem period_zero_witness:
  "(\<exists>sp. parse_spec4 [] ''periodic:0'' = Some sp \<and> run_cap 5000000000 sp = None) \<and>
   (\<exists>sp. parse_spec5 ''periodic:2305843009213693952'' = Some sp \<and> run_cap 5000000000 sp = None)"
  using period_zero [OF disjI1 [OF zero_accepted(1)] zero_accepted(2)] period_zero [OF disjI2 [OF wrapped_accepted] wrapped_given]
    zero_accepted(1) wrapped_accepted by fastforce

text \<open>
  \<^verbatim>\<open>run_periodic\<close>. For each round the readings of the clock: in the condition of the loop, at the start and at the end
  of the job. \<open>late\<close> and \<open>resp\<close> are the used parts of the arrays; the difference is one of unsigned words.
\<close>

record periodic_run =
  late :: "nat list"
  resp :: "nat list"
  misses :: nat

definition sub64 :: "nat \<Rightarrow> nat \<Rightarrow> nat" where
  "sub64 a b = (a + 2 ^ 64 - b) mod 2 ^ 64"

definition release_time :: "bool \<Rightarrow> nat \<Rightarrow> nat \<Rightarrow> nat \<Rightarrow> nat \<Rightarrow> nat" where
  "release_time dl t0 period i start = (if dl then start else (t0 + i * period) mod 2 ^ 64)"

definition periodic_job :: "bool \<Rightarrow> nat \<Rightarrow> nat \<Rightarrow> nat \<Rightarrow> nat \<Rightarrow> nat \<Rightarrow> periodic_run \<Rightarrow> periodic_run" where
  "periodic_job dl t0 period i start fin r =
     (let release = release_time dl t0 period i start
      in r\<lparr>late := late r @ [if start > release then start - release else 0], resp := resp r @ [sub64 fin release],
           misses := misses r + (if fin > (release + period) mod 2 ^ 64 then 1 else 0)\<rparr>)"

fun periodic_loop :: "bool \<Rightarrow> nat \<Rightarrow> nat \<Rightarrow> nat \<Rightarrow> nat \<Rightarrow> nat \<Rightarrow> (nat \<times> nat \<times> nat) list \<Rightarrow> periodic_run \<Rightarrow> periodic_run" where
  "periodic_loop dl t0 stop_at period cap i [] r = r"
| "periodic_loop dl t0 stop_at period cap i ((check, start, fin) # cs) r =
     (if check < stop_at \<and> length (late r) < cap
      then periodic_loop dl t0 stop_at period cap (i + 1) cs (periodic_job dl t0 period i start fin r) else r)"

text \<open>The points in time are \<^verbatim>\<open>uint64_t\<close> and wrap. \<open>mem\<close>: both calls of \<^verbatim>\<open>calloc\<close> gave memory, which is not checked;
  without it the first job writes to address zero (\<open>None\<close>).\<close>

definition run_periodic :: "bool \<Rightarrow> bool \<Rightarrow> nat \<Rightarrow> nat \<Rightarrow> nat \<Rightarrow> (nat \<times> nat \<times> nat) list \<Rightarrow> periodic_run option" where
  "run_periodic mem dl t0 run period cs =
     (let r = periodic_loop dl t0 ((t0 + run) mod 2 ^ 64) period ((run div period + 2) mod 2 ^ 64) 0 cs \<lparr>late = [], resp = [], misses = 0\<rparr>
      in if \<not> mem \<and> late r \<noteq> [] then None else Some r)"

definition p99 :: "nat list \<Rightarrow> nat option" where
  "p99 xs = (let n = length xs in if n = 0 then Some 0 else if n * 99 div 100 < n then Some (sort xs ! (n * 99 div 100)) else None)"

text \<open>
  A clock that does not go back, below \<open>2 ^ 64\<close>; a thread that is not a deadline thread sleeps until the next point of its grid,
  which is what \<^verbatim>\<open>clock_nanosleep\<close> with an absolute time promises.
\<close>

fun clocks_ok :: "bool \<Rightarrow> nat \<Rightarrow> nat \<Rightarrow> nat \<Rightarrow> (nat \<times> nat \<times> nat) list \<Rightarrow> bool" where
  "clocks_ok dl t0 period i [] = True"
| "clocks_ok dl t0 period i ((check, start, fin) # cs) \<longleftrightarrow>
     check \<le> start \<and> start \<le> fin \<and> fin < 2 ^ 64 \<and> (dl \<or> t0 + i * period \<le> check) \<and> clocks_ok dl t0 period (i + 1) cs"

lemma sub64_exact: "b \<le> a \<Longrightarrow> a < 2 ^ 64 \<Longrightarrow> sub64 a b = a - b"
proof -
  assume "b \<le> a" "a < 2 ^ 64"
  then have "a + 2 ^ 64 - b = (a - b) + 2 ^ 64" by simp
  then show ?thesis using \<open>a < 2 ^ 64\<close> unfolding sub64_def by (simp only: mod_add_self2) simp
qed

definition used_rounds :: "nat \<Rightarrow> nat \<Rightarrow> (nat \<times> nat \<times> nat) list \<Rightarrow> (nat \<times> nat \<times> nat) list" where
  "used_rounds stop_at cap cs = take cap (takeWhile (\<lambda>(check, start, fin). check < stop_at) cs)"

lemma periodic_loop_eq:
  assumes "length (late r) = i"
  shows "periodic_loop dl t0 stop_at period cap i cs r =
    (let u = enumerate i (used_rounds stop_at (cap - i) cs)
     in r\<lparr>late := late r @ map (\<lambda>(j, c, s, f). if s > release_time dl t0 period j s then s - release_time dl t0 period j s else 0) u,
          resp := resp r @ map (\<lambda>(j, c, s, f). sub64 f (release_time dl t0 period j s)) u,
          misses := misses r + length (filter (\<lambda>(j, c, s, f). f > (release_time dl t0 period j s + period) mod 2 ^ 64) u)\<rparr>)"
  using assms
proof (induction cs arbitrary: i r)
  case Nil
  then show ?case by (simp add: used_rounds_def)
next
  case (Cons x cs)
  obtain c s f where x: "x = (c, s, f)" by (cases x)
  show ?case
  proof (cases "c < stop_at \<and> i < cap")
    case True
    let ?r = "periodic_job dl t0 period i s f r"
    have l: "length (late ?r) = i + 1" using Cons.prems by (simp add: periodic_job_def Let_def)
    obtain d where d: "cap - i = Suc d" "cap - (i + 1) = d" using True by (cases "cap - i") auto
    have u: "used_rounds stop_at (cap - i) (x # cs) = x # used_rounds stop_at (cap - (i + 1)) cs"
      using True x d by (simp add: used_rounds_def)
    have "periodic_loop dl t0 stop_at period cap i (x # cs) r = periodic_loop dl t0 stop_at period cap (i + 1) cs ?r"
      using True Cons.prems x by simp
    also note Cons.IH [OF l]
    finally show ?thesis unfolding u by (simp add: x Let_def periodic_job_def)
  next
    case False
    then have "used_rounds stop_at (cap - i) (x # cs) = []" using x by (auto simp: used_rounds_def)
    then show ?thesis using False Cons.prems x by auto
  qed
qed

text \<open>The release of a job without wrap-around, which is what the code computes while the clock is below \<open>2 ^ 64\<close>.\<close>

definition due :: "bool \<Rightarrow> nat \<Rightarrow> nat \<Rightarrow> nat \<Rightarrow> nat \<Rightarrow> nat" where
  "due dl t0 period j start = (if dl then start else t0 + j * period)"

lemma clocks_ok_round:
  "clocks_ok dl t0 period i cs \<Longrightarrow> (j, c, s, f) \<in> set (enumerate i cs) \<Longrightarrow>
   release_time dl t0 period j s = due dl t0 period j s \<and> due dl t0 period j s \<le> s \<and> s \<le> f \<and> f < 2 ^ 64"
  by (induction cs arbitrary: i) (auto simp: release_time_def due_def)

lemma late_end:
  fixes r f period :: nat
  assumes "r \<le> f" "f < 2 ^ 64" "period < 2 ^ 64"
  shows "(r + period) mod 2 ^ 64 < f \<longleftrightarrow> r + period < f \<or> 2 ^ 64 \<le> r + period"
proof (cases "2 ^ 64 \<le> r + period")
  case True
  then have "(r + period) mod 2 ^ 64 = r + period - 2 ^ 64" using assms mod_less [of "r + period - 2 ^ 64" "2 ^ 64"] by (simp add: le_mod_geq)
  then show ?thesis using True assms by linarith
qed simp

lemma clocks_ok_check: "clocks_ok False t0 period i cs \<Longrightarrow> l < length cs \<Longrightarrow> cs ! l = (c, s, f) \<Longrightarrow> t0 + (i + l) * period \<le> c"
proof (induction cs arbitrary: i l)
  case (Cons x cs)
  show ?case
  proof (cases l)
    case 0
    then show ?thesis using Cons.prems by simp
  next
    case (Suc m)
    have "clocks_ok False t0 period (i + 1) cs" using Cons.prems(1) by (cases x) simp
    from Cons.IH [OF this, of m] Cons.prems Suc show ?thesis by simp
  qed
qed simp

lemma enumerate_take: "enumerate i (take m cs) = take m (enumerate i cs)"
proof (induction cs arbitrary: i m)
  case (Cons x cs)
  then show ?case by (cases m) simp_all
qed simp

lemma used_rounds_take: "\<exists>m. used_rounds stop_at cap cs = take m cs"
  unfolding used_rounds_def by (metis take_take takeWhile_eq_take)

lemma used_in_cs: "set (enumerate i (used_rounds stop_at cap cs)) \<subseteq> set (enumerate i cs)"
  using used_rounds_take [of stop_at cap cs] by (metis set_take_subset enumerate_take)

text \<open>A thread on its grid never fills the arrays before the time is up.\<close>

lemma grid_fits:
  assumes ok: "clocks_ok False t0 period 0 cs" and p: "0 < period" and le: "stop_at \<le> t0 + run"
  shows "length (takeWhile (\<lambda>(check, start, fin). check < stop_at) cs) \<le> run div period + 1"
proof (rule ccontr)
  let ?u = "takeWhile (\<lambda>(check, start, fin). check < stop_at) cs"
  let ?l = "run div period + 1"
  assume "\<not> length ?u \<le> ?l"
  then have l: "?l < length ?u" by simp
  obtain c s f where x: "cs ! ?l = (c, s, f)" by (cases "cs ! ?l")
  have "?u ! ?l = cs ! ?l" using l by (rule takeWhile_nth)
  moreover have "(\<lambda>(check, start, fin). check < stop_at) (?u ! ?l)" by (rule conjunct2 [OF set_takeWhileD [OF nth_mem [OF l]]])
  ultimately have "c < t0 + run" using x le by simp
  moreover have "t0 + ?l * period \<le> c" using clocks_ok_check [OF ok _ x] l length_takeWhile_le [of "\<lambda>(check, start, fin). check < stop_at" cs] by simp
  moreover have "run < ?l * period" unfolding add_mult_distrib mult_1 using div_mult_mod_eq [of run period] mod_less_divisor [OF p, of run] by linarith
  ultimately show False by simp
qed

lemma cap_exact:
  fixes run period :: nat
  assumes "1 < period" "run < 2 ^ 64"
  shows "(run div period + 2) mod 2 ^ 64 = run div period + 2"
proof -
  have "run div period \<le> run div 2" using assms(1) by (intro div_le_mono2) auto
  then have "run div period + 2 < 2 ^ 64" using assms(2) by (simp add: less_mult_imp_div_less)
  then show ?thesis by simp
qed

text \<open>What is left after the loop, with the numbers that were meant.\<close>

lemma periodic_result:
  assumes ok: "clocks_ok dl t0 period 0 cs" and p: "period < 2 ^ 64"
  shows "periodic_loop dl t0 stop_at period cap 0 cs \<lparr>late = [], resp = [], misses = 0\<rparr> =
    (let u = enumerate 0 (used_rounds stop_at cap cs); rel = due dl t0 period
     in \<lparr>late = map (\<lambda>(j, c, s, f). s - rel j s) u, resp = map (\<lambda>(j, c, s, f). f - rel j s) u,
         misses = length (filter (\<lambda>(j, c, s, f). rel j s + period < f \<or> 2 ^ 64 \<le> rel j s + period) u)\<rparr>)"
proof -
  let ?u = "enumerate 0 (used_rounds stop_at cap cs)" and ?rel = "due dl t0 period" and ?rt = "release_time dl t0 period"
  have r: "?rt j s = ?rel j s \<and> ?rel j s \<le> s \<and> s \<le> f \<and> f < 2 ^ 64" if "(j, c, s, f) \<in> set ?u" for j c s f
    using clocks_ok_round [OF ok] used_in_cs that by blast
  have l: "map (\<lambda>(j, c, s, f). if s > ?rt j s then s - ?rt j s else 0) ?u = map (\<lambda>(j, c, s, f). s - ?rel j s) ?u"
    by (rule map_cong [OF refl]) (use r in fastforce)
  have q: "map (\<lambda>(j, c, s, f). sub64 f (?rt j s)) ?u = map (\<lambda>(j, c, s, f). f - ?rel j s) ?u"
    by (rule map_cong [OF refl]) (use r sub64_exact in \<open>force intro: le_trans\<close>)
  have m: "filter (\<lambda>(j, c, s, f). f > (?rt j s + period) mod 2 ^ 64) ?u = filter (\<lambda>(j, c, s, f). ?rel j s + period < f \<or> 2 ^ 64 \<le> ?rel j s + period) ?u"
  proof (rule filter_cong [OF refl])
    fix x assume x: "x \<in> set ?u"
    obtain j c s f where e: "x = (j, c, s, f)" by (cases x)
    have rr: "?rt j s = ?rel j s" "?rel j s \<le> f" "f < 2 ^ 64" using r [of j c s f] x e by auto
    show "(case x of (j, c, s, f) \<Rightarrow> (?rt j s + period) mod 2 ^ 64 < f) = (case x of (j, c, s, f) \<Rightarrow> ?rel j s + period < f \<or> 2 ^ 64 \<le> ?rel j s + period)"
      unfolding e prod.case rr(1) by (rule late_end [OF rr(2,3) p])
  qed
  show ?thesis by (subst periodic_loop_eq) (simp_all only: Let_def l q m list.size diff_zero append_Nil add_0 periodic_run.simps)
qed

lemma p99_inside: "p99 xs \<noteq> None"
  using less_mult_imp_div_less [of "length xs * 99" "length xs" 100] by (simp add: p99_def Let_def)

text \<open>C36: The measurements of a periodic thread. Every round that begins before the end is measured, at most as many as the arrays have
  entries; a thread on its grid never reaches that limit. Lateness and response time are the differences to the
  release of the job. The misses are the jobs that ended after the next release, and also each job whose next release is beyond
  \<open>2 ^ 64\<close> nanoseconds, where the sum of the code wraps around. The 99th percentiles are read inside the arrays. Without memory for the
  arrays the program fails at the first job.\<close>

theorem run_periodic_exact:
  assumes "clocks_ok dl t0 period 0 cs" "1 < period" "period < 2 ^ 64" "run < 2 ^ 64"
  shows "let cap = run div period + 2; used = used_rounds ((t0 + run) mod 2 ^ 64) cap cs; rel = due dl t0 period
    in (\<exists>r. run_periodic True dl t0 run period cs = Some r \<and>
         length (late r) = length used \<and> length (resp r) = length used \<and> length used \<le> cap \<and>
         (\<not> dl \<longrightarrow> used = takeWhile (\<lambda>(check, start, fin). check < (t0 + run) mod 2 ^ 64) cs \<and> length used < cap) \<and>
         late r = map (\<lambda>(j, c, s, f). s - rel j s) (enumerate 0 used) \<and> resp r = map (\<lambda>(j, c, s, f). f - rel j s) (enumerate 0 used) \<and>
         misses r = length (filter (\<lambda>(j, c, s, f). rel j s + period < f \<or> 2 ^ 64 \<le> rel j s + period) (enumerate 0 used)) \<and>
         p99 (late r) \<noteq> None \<and> p99 (resp r) \<noteq> None) \<and>
       (run_periodic False dl t0 run period cs = None \<longleftrightarrow> used \<noteq> [])"
proof -
  let ?cap = "run div period + 2" and ?stop = "(t0 + run) mod 2 ^ 64"
  let ?u = "used_rounds ?stop ?cap cs"
  note e = periodic_result [OF assms(1,3), of ?stop ?cap, unfolded Let_def]
  have enum: "enumerate 0 ?u = [] \<longleftrightarrow> ?u = []" by (metis length_0_conv length_enumerate)
  have "?stop \<le> t0 + run" by simp
  then have f: "\<not> dl \<Longrightarrow> length (takeWhile (\<lambda>(check, start, fin). check < ?stop) cs) \<le> run div period + 1"
    using grid_fits [of t0 period cs ?stop run] assms by (cases dl) auto
  then have "\<not> dl \<Longrightarrow> ?u = takeWhile (\<lambda>(check, start, fin). check < ?stop) cs \<and> length ?u < ?cap" by (simp add: used_rounds_def)
  moreover have "length ?u \<le> ?cap" by (simp add: used_rounds_def)
  ultimately show ?thesis
    unfolding Let_def run_periodic_def cap_exact [OF assms(2,4)] e using p99_inside enum by (cases "?u = []"; cases dl) simp_all
qed

text \<open>Two jobs of a period of 10 with a late start of the second, which misses its deadline.\<close>

definition two_jobs :: "(nat \<times> nat \<times> nat) list" where
  "two_jobs = [(100, 100, 104), (110, 113, 121), (125, 125, 126)]"

theorem run_periodic_exact_witness:
  "\<exists>r. run_periodic True False 100 20 10 two_jobs = Some r \<and> resp r = [4, 11] \<and> misses r = 1 \<and> late r = [0, 3]"
proof -
  have "clocks_ok False 100 10 0 two_jobs" by (simp add: two_jobs_def)
  from run_periodic_exact [OF this, of 20] show ?thesis
    by (simp add: Let_def two_jobs_def used_rounds_def due_def) blast
qed

theorem parse_spec5_sound_witness:
  "\<exists>sp. parse_spec5 ''periodic:5000:1000,sched=rr:7'' = Some sp \<and> prio sp = 7 \<and> spec_fine True sp"
proof -
  have "parse_spec5 ''periodic:5000:1000,sched=rr:7'' = Some (spec_start\<lparr>periodic := 1, period_ns := 5000000, work_ns := 1000000, policy := ''rr'', prio := 7\<rparr>)"
    by (simp add: parse_spec5_def parse_tokens_def tokens_def parse_work_def parse_key_def parse_policy_def atoi_def after_colon_def starts_def scan_two_def
        scan_int_def as_int_def scan_ld_def scan_d_def LONG_MAX_def is_space_def is_digit_def num_def digit_val_def Let_def spec_start_def)
  with parse_spec5_sound [OF this] show ?thesis by simp
qed

section \<open>Names and times\<close>

text \<open>\<^verbatim>\<open>snprintf(name, 16, "%.13s-%d", name_prefix, idx)\<close>.\<close>

definition thread_name :: "string \<Rightarrow> nat \<Rightarrow> string" where
  "thread_name prefix idx = take 15 (take 13 prefix @ ''-'' @ dec idx)"

text \<open>C37: The names of the threads. With a prefix of at most 12 characters the up to 32 threads have different names; with one of 13,
  which the usage text allows, the threads 1 and 10 to 19 have the same.\<close>

theorem thread_names:
  assumes "i < 32" "j < 32" "k < 10"
  shows "(length prefix \<le> 12 \<longrightarrow> (thread_name prefix i = thread_name prefix j \<longleftrightarrow> i = j)) \<and>
    (length prefix = 13 \<longrightarrow> thread_name prefix (10 + k) = thread_name prefix 1)"
proof (intro conjI impI)
  assume l: "length prefix \<le> 12"
  have "length (dec n) \<le> 2" if "n < 32" for n using length_dec [of n 2] that by simp
  then have "thread_name prefix n = prefix @ ''-'' @ dec n" if "n < 32" for n
    using that l by (fastforce simp: thread_name_def)
  then show "thread_name prefix i = thread_name prefix j \<longleftrightarrow> i = j" using assms dec_inject by auto
next
  assume l: "length prefix = 13"
  have "dec (10 + k) = [digit 1, digit k]" using assms(3) by (subst dec.simps, subst dec.simps) simp
  moreover have "dec 1 = [digit 1]" by (subst dec.simps) simp
  ultimately show "thread_name prefix (10 + k) = thread_name prefix 1" using l by (simp add: thread_name_def)
qed

theorem thread_names_witness:
  "thread_name ''mtwork'' 1 \<noteq> thread_name ''mtwork'' 10 \<and> thread_name ''abcdefghijklm'' 10 = thread_name ''abcdefghijklm'' 1"
  using thread_names [of 1 10 0 "''mtwork''"] thread_names [of 1 10 0 "''abcdefghijklm''"] by simp

record timespec =
  tv_sec :: nat
  tv_nsec :: nat

definition add_ns :: "timespec \<Rightarrow> nat \<Rightarrow> timespec" where
  "add_ns t ns =
     (let s = tv_sec t + ns div 1000000000; n = tv_nsec t + ns mod 1000000000
      in if n \<ge> 1000000000 then \<lparr>tv_sec = s + 1, tv_nsec = n - 1000000000\<rparr> else \<lparr>tv_sec = s, tv_nsec = n\<rparr>)"

lemma add_ns_exact:
  assumes "tv_nsec t < 1000000000"
  shows "tv_nsec (add_ns t ns) < 1000000000 \<and>
    tv_sec (add_ns t ns) * 1000000000 + tv_nsec (add_ns t ns) = tv_sec t * 1000000000 + tv_nsec t + ns"
proof -
  have "ns mod 1000000000 < 1000000000" by simp
  moreover have "ns div 1000000000 * 1000000000 + ns mod 1000000000 = ns" by (rule div_mult_mod_eq)
  ultimately show ?thesis using assms by (auto simp: add_ns_def Let_def algebra_simps)
qed

section \<open>Applying the policy\<close>

text \<open>
  The requests \<^verbatim>\<open>apply_policy\<close> makes and whether it succeeds; \<open>set_ok\<close> and \<open>nice_ok\<close> are the answers of the kernel. An ordinary
  thread of week 5 may change its nice value after its policy, not if that has failed.
\<close>

datatype sched_call = SetScheduler string int | SetDeadline u64 u64 u64 | SetNice int

definition apply_policy5 :: "mt_spec \<Rightarrow> bool \<Rightarrow> bool \<Rightarrow> sched_call list \<times> bool" where
  "apply_policy5 sp set_ok nice_ok =
     (if policy sp = ''fifo'' \<or> policy sp = ''rr'' then ([SetScheduler (policy sp) (prio sp)], set_ok)
      else let first = (if policy sp = ''batch'' \<or> policy sp = ''idle'' then [SetScheduler (policy sp) 0] else [])
        in if first \<noteq> [] \<and> \<not> set_ok then (first, False)
           else if policy sp = ''dl'' then (first @ [SetDeadline (dl_runtime_ns sp) (dl_period_ns sp) (dl_period_ns sp)], set_ok)
           else if has_nice sp then (first @ [SetNice (nice sp)], nice_ok)
           else (first, True))"

definition apply_policy4 :: "mt_spec \<Rightarrow> bool \<Rightarrow> sched_call list \<times> bool" where
  "apply_policy4 sp set_ok =
     (if policy sp = ''fifo'' then ([SetScheduler ''fifo'' (prio sp)], set_ok)
      else if policy sp = ''rr'' then ([SetScheduler ''rr'' (prio sp)], set_ok)
      else if policy sp = ''dl'' then ([SetDeadline (dl_runtime_ns sp) (dl_period_ns sp) (dl_period_ns sp)], set_ok)
      else ([], True))"

fun call_valid :: "sched_call \<Rightarrow> bool" where
  "call_valid (SetScheduler p v) \<longleftrightarrow> (if p = ''fifo'' \<or> p = ''rr'' then 1 \<le> v \<and> v \<le> 99 else (p = ''batch'' \<or> p = ''idle'') \<and> v = 0)"
| "call_valid (SetDeadline r d p) \<longleftrightarrow> d = p"
| "call_valid (SetNice n) \<longleftrightarrow> True"

lemma policy_calls_valid:
  assumes "spec_fine strict sp"
  shows "\<forall>c \<in> set (fst (apply_policy5 sp set_ok nice_ok)). call_valid c" "\<forall>c \<in> set (fst (apply_policy4 sp set_ok)). call_valid c"
  using assms by (auto simp: apply_policy5_def apply_policy4_def spec_fine_def Let_def)

end
