(* ===== verification/Spec2Isabelle.thy ===== *)
theory Spec2Isabelle
  imports
    Prelude Locks Sink Catalog Config Bus Rcu Devsvc LockTable LockGraph Lockcheck Text Io LoadgenLine LoadgenRun LoadgenInv LoadgenSetup LoadgenAnswers
    LoadgenReport LoadgenFunc LogStats IpcServer Fuel Svc Bq Bqtest Album Usched Frames Cpumgr Mtrace Mcs LockBench Counter Cvbug Cfgread Mtwork
begin

text \<open>
  A verification of the C programs of the course repository \<^emph>\<open>Linux Systems and Performance\<close>. The
  repository is a collection of programs by week, labs and assignments; those with logic of their
  own are modelled, each in its theories, and every property is stated in the theory of its program.
  This theory only collects them.

  \<^bold>\<open>The device service\<close> (\<^verbatim>\<open>Week6/Assignment6/concurrency/src\<close>). Five modules are used by the random
  driver \<^verbatim>\<open>devsvc.c\<close>. \<^verbatim>\<open>Locks\<close> gives programs over mutexes (take, release, one access to the shared
  state) and the system in which any number of threads run requests from a set, one step at a time.
  Its two locales are the interfaces the modules are verified against: \<^verbatim>\<open>lock_order\<close> (requests that
  take their locks upwards never deadlock) and \<^verbatim>\<open>monitor\<close> (an invariant per mutex, which holds while
  it is free, and a condition on every result). \<^verbatim>\<open>Sink\<close> (\<^verbatim>\<open>sink.c\<close>), \<^verbatim>\<open>Catalog\<close> (\<^verbatim>\<open>catalog.c\<close>) and
  \<^verbatim>\<open>Bus\<close> (\<^verbatim>\<open>bus.c\<close>) interpret them on their requests; \<^verbatim>\<open>Config\<close> (\<^verbatim>\<open>config.c\<close>) models the heap with the
  reuse of freed addresses. \<^verbatim>\<open>Rcu\<close> (\<^verbatim>\<open>rcu.c\<close>) has a step relation with one step per atomic access,
  sequentially consistent. \<^verbatim>\<open>Devsvc\<close> has the requests of the driver, its final checks and its watchdog.
  The lemmas show conservation of the sessions, the rule of the catalog, consistency of each frame,
  the grace period, that the bus is a set of subscribers, and, for the orders of locking the assignment
  planted, the deadlocks as reachable states.

  \<^bold>\<open>lockcheck\<close> (\<^verbatim>\<open>Week6/Assignment6/concurrency/tools/lockcheck.c\<close>), the checker that is preloaded into the
  programs above. \<^verbatim>\<open>LockTable\<close>: the open-addressed table with tombstones, refined to a map. \<^verbatim>\<open>LockGraph\<close>:
  the search for a path in the lock order graph in arrays of fixed size; its fuel is the number of
  states and one, each state enters the queue once. \<^verbatim>\<open>Lockcheck\<close>: held locks, wrappers, warnings and the
  theorem that a run without a W1 warning leaves a graph without a cycle. Addresses of code are words,
  what is printed is left out.

  \<^bold>\<open>The load generator\<close> (\<^verbatim>\<open>Week3/Assignment3/loadgen/loadgen.c\<close>). \<^verbatim>\<open>Text\<close>: digits, \<^verbatim>\<open>strtoull\<close>. \<^verbatim>\<open>Io\<close>: a program is
  a function of a state that contains a script, the answers the system will give; the script is
  arbitrary, so a theorem holds for every behaviour of the system. A run stops when its script is over
  (\<open>Cut\<close>: a prefix of a longer run), at \<^verbatim>\<open>exit\<close>, or in a \<open>Fault\<close>, an access outside an array or a \<^verbatim>\<open>close\<close>
  of a descriptor that is not open. The triples of \<^verbatim>\<open>Io\<close> promise that there is no fault. Loops have the
  length of the script as fuel; each round takes an answer, and \<^verbatim>\<open>Fuel\<close> proves for every such loop of this
  program and of the statistics server that more fuel changes nothing. \<^verbatim>\<open>LoadgenLine\<close>: command line, requests, check of a response line.
  \<^verbatim>\<open>LoadgenRun\<close>: connections and the event loop. \<^verbatim>\<open>LoadgenInv\<close>, \<^verbatim>\<open>LoadgenSetup\<close>: the invariant of the
  clients, their samples and descriptors through every operation, and the whole of \<^verbatim>\<open>benchmark\<close>.
  \<^verbatim>\<open>LoadgenAnswers\<close>: the answers to \<^verbatim>\<open>recv\<close>, assigned to the requests; what a client received for a successful request is
  one line that the check accepts for that request. These triples are for partial correctness.
  \<^verbatim>\<open>LoadgenReport\<close>: percentiles, verdict, JSON. \<^verbatim>\<open>LoadgenFunc\<close>: the functional tests, which close what
  they open on every path. Clock values are reals.

  \<^bold>\<open>The statistics server\<close> (\<^verbatim>\<open>Week3/Lab3/src\<close>). \<^verbatim>\<open>LogStats\<close> (\<^verbatim>\<open>log_stats.c\<close>): the reader of the log and the two
  aggregations, on words of the width of the C structures. \<^verbatim>\<open>IpcServer\<close> (\<^verbatim>\<open>ipc_server.c\<close>): slots with
  fixed buffers and the epoll loop, on the programs and triples of \<^verbatim>\<open>Io\<close>; the invariant \<^verbatim>\<open>serving\<close> bounds
  the buffers and accounts for every descriptor.

  \<^bold>\<open>The request service\<close> (\<^verbatim>\<open>Week5/Assignment5/scheduling/src/svc.c\<close>). \<^verbatim>\<open>Svc\<close>: receiver and worker as a step
  relation with one step per critical section; invariants by induction on the runs give the absence
  of priority inversion, that each request is answered once, and the order of service.

  \<^bold>\<open>The bounded queue and its test\<close> (\<^verbatim>\<open>bq.c\<close>, \<^verbatim>\<open>bqtest.c\<close>). \<^verbatim>\<open>Bq\<close>: the ring, an interpretation of the
  locale \<^verbatim>\<open>bounded_fifo\<close>. \<^verbatim>\<open>Bqtest\<close>: what the stress test checks and when it passes.

  \<^bold>\<open>Scheduling programs.\<close> \<^verbatim>\<open>Usched\<close> (\<^verbatim>\<open>Week4/Assignment4/cpu_scheduling/usched.c\<close>, \<^verbatim>\<open>work.h\<close>): job files, blocks and the
  final check. \<^verbatim>\<open>Frames\<close>: the UI loop of \<^verbatim>\<open>albumsvc.c\<close> and the frame loop of \<^verbatim>\<open>frameloop.c\<close>, with every reading of
  a clock as an argument. \<^verbatim>\<open>Cpumgr\<close> (\<^verbatim>\<open>Week4/Assignment4/cpu_scheduling/cpumgr.c\<close>): the command line and its events, the fields of
  \<^verbatim>\<open>/proc/PID/stat\<close> and the termination of the child, where what \<^verbatim>\<open>waitpid\<close> answers each time is an argument. \<^verbatim>\<open>Mtwork\<close> (\<^verbatim>\<open>mtwork.c\<close> of
  Lab 4 and of Lab 5): the thread specifications, the loop of a periodic thread with its arrays, the names of the threads. It
  proves for exactly which accepted periods the program divides by zero; points in time wrap around at \<open>2 ^ 64\<close> nanoseconds.

  \<^bold>\<open>Threads and locks\<close> (\<^verbatim>\<open>Week6/Lab6/src\<close>), each as a step relation with one step per access to memory that threads share (\<^verbatim>\<open>Cvbug\<close>: per
  lock operation or piece of a critical section), all threads
  seeing these accesses in one order. \<^verbatim>\<open>Mcs\<close> and \<^verbatim>\<open>LockBench\<close> (\<^verbatim>\<open>lockbench.c\<close>): the nodes of the MCS lock represent a queue of
  threads; the other locks; the locale \<^verbatim>\<open>exclusive_lock\<close>, interpreted on every mode of the benchmark, gives that no increment and no
  handover is miscounted. \<^verbatim>\<open>Counter\<close> (\<^verbatim>\<open>counter.c\<close>): the modes without a race are exact, the plain counter is bounded and its bounds are
  reached. \<^verbatim>\<open>Cvbug\<close> (\<^verbatim>\<open>cvbug.c\<close>): a condition variable with spurious wake-ups; every item is taken once, no wake-up is lost, and each of the
  deliberate mistakes has a run that shows it. \<^verbatim>\<open>Cfgread\<close> (\<^verbatim>\<open>cfgread.c\<close>): readers of a configuration behind a lock, or with a pointer and a grace
  period, on a heap that reuses addresses; without the grace period a read of freed memory is reachable. \<^verbatim>\<open>malloc\<close> is taken to succeed there.

  \<^bold>\<open>The album\<close> (\<^verbatim>\<open>Week6/Assignment6/concurrency/src/album.c\<close>). \<^verbatim>\<open>Album\<close>: the items, the heap of their titles and
  the threads of lock mode with one step per critical section of \<^verbatim>\<open>album_lock\<close>. Every live string has one owner;
  from this follow that no title is used after it was freed, that none is lost, and what a save writes.

  \<^bold>\<open>The memory tracer\<close> (\<^verbatim>\<open>Week7/Assignment7/virtual_memory/level2/support.c\<close>). \<^verbatim>\<open>Mtrace\<close>: the bootstrap arena with the
  bytes of its headers, the resolution of the allocator by one thread, and the four interposed functions as a
  step relation. The C library is what its documentation says (\<open>libc\<close>); the invariants keep its blocks, the
  program's and the arena's apart and relate the events to the live blocks. The reservation counter of the
  arena wraps around after \<open>2 ^ 44\<close> reservations at the earliest, the theorems assume fewer than \<open>2 ^ 43\<close>.

  \<^bold>\<open>Bounds.\<close> Integers are words where the code relies on wrap-around (sequence numbers, hashes, sums of
  the log, ids of items), and natural numbers or integers where limits the code checks keep them far
  from the width. A list or function stands for an array; an access outside of it is a value of its
  own (\<open>None\<close> or a fault) that the theorems exclude.

  \<^bold>\<open>Not modelled.\<close> Exercises whose functions are stubs in the repository (the blocking operations of
  \<^verbatim>\<open>bq.c\<close>, the worker of \<^verbatim>\<open>usched.c\<close>, \<^verbatim>\<open>work_block\<close>, the shell, the groups, the sampling and the start of the command in
  \<^verbatim>\<open>cpumgr.c\<close>, the memory tracer's statistics and reporter thread, the snapshots of the album,
  the other modes of \<^verbatim>\<open>albumsvc.c\<close>): where a theorem needs one, it is a parameter with its documented
  contract. What is printed for people, measured times, CPU affinity and the command lines of the Lab 6 programs. Demonstrations
  whose point is timing, caches, page faults or deliberate memory errors (\<^verbatim>\<open>fs_demo.c\<close>, \<^verbatim>\<open>ws_demo.c\<close>, \<^verbatim>\<open>pi_demo.c\<close>, \<^verbatim>\<open>svcload.c\<close>, the demonstrations of
  Lab 3, the labs of weeks 1, 2, 7 and 8): what they compute is not more than counters. Scripts, traces and
  libraries without source.
\<close>

end
